(* ===== verification/Prelude.thy ===== *)
theory Prelude
  imports Main "HOL-Library.Word" "HOL-Library.List_Lexorder" "HOL-Library.Sublist"
begin

section \<open>Shared vocabulary of the ledger model\<close>

text \<open>
  The prelude holds what every component shares: names for Go's machine types, the error
  monad on sums that renders Go's \<open>(value, error)\<close> returns, big-endian byte
  encodings (\<open>encoding/binary\<close>) with their round-trip and order lemmas, and the
  named collections the component theories feed.

  Conventions. A \<open>uint64\<close> is a \<open>64 word\<close>, a \<open>uint32\<close> a
  \<open>32 word\<close>, an \<open>int64\<close> a \<open>64 word\<close> read with \<open>sint\<close>, a
  byte slice a list of \<open>8 word\<close>.  A \<open>[32]byte\<close> is a \<open>256 word\<close>: its slice
  \<open>h[:]\<close> is the list of its 32 big-endian bytes, so every value of the type has exactly
  32 bytes and no well-formedness side condition is needed.
\<close>

type_synonym byte = "8 word"
type_synonym bytes = "8 word list"
type_synonym u16 = "16 word"
type_synonym u32 = "32 word"
type_synonym u64 = "64 word"
type_synonym hash = "256 word"

named_theorems wal_keys "injectivity and disjointness of storage keys"
named_theorems res_simps "evaluation of the error monad"

subsection \<open>Results: Go's (value, error) pairs\<close>

definition bindE :: "'e + 'a \<Rightarrow> ('a \<Rightarrow> 'e + 'b) \<Rightarrow> 'e + 'b" where
  "bindE x f = (case x of Inl e \<Rightarrow> Inl e | Inr a \<Rightarrow> f a)"

definition mapE :: "('e \<Rightarrow> 'f) \<Rightarrow> 'e + 'a \<Rightarrow> 'f + 'a" where
  "mapE g x = (case x of Inl e \<Rightarrow> Inl (g e) | Inr a \<Rightarrow> Inr a)"

fun okE :: "'e + 'a \<Rightarrow> bool" where
  "okE (Inl e) = False"
| "okE (Inr a) = True"

lemma bindE_Inl [simp, res_simps]: "bindE (Inl e) f = Inl e"
  by (simp add: bindE_def)

lemma bindE_Inr [simp, res_simps]: "bindE (Inr a) f = f a"
  by (simp add: bindE_def)

lemma mapE_Inl [simp, res_simps]: "mapE g (Inl e) = Inl (g e)"
  by (simp add: mapE_def)

lemma mapE_Inr [simp, res_simps]: "mapE g (Inr a) = Inr a"
  by (simp add: mapE_def)

lemma bindE_eq_Inr: "bindE x f = Inr b \<longleftrightarrow> (\<exists>a. x = Inr a \<and> f a = Inr b)"
  by (cases x) auto

lemma bindE_eq_Inl: "bindE x f = Inl e \<longleftrightarrow> x = Inl e \<or> (\<exists>a. x = Inr a \<and> f a = Inl e)"
  by (cases x) auto

lemma mapE_eq_Inr [simp]: "mapE g x = Inr a \<longleftrightarrow> x = Inr a"
  by (cases x) auto

lemma mapE_eq_Inl: "mapE g x = Inl f \<longleftrightarrow> (\<exists>e. x = Inl e \<and> f = g e)"
  by (cases x) auto

lemma okE_iff: "okE x \<longleftrightarrow> (\<exists>a. x = Inr a)"
  by (cases x) auto

subsection \<open>Slices and contexts\<close>

text \<open>Go's \<open>buf[a:b]\<close>, used only after the bounds were checked.\<close>

definition bslice :: "'a list \<Rightarrow> nat \<Rightarrow> nat \<Rightarrow> 'a list" where
  "bslice xs a b = take (b - a) (drop a xs)"

lemma length_bslice [simp]: "b \<le> length xs \<Longrightarrow> length (bslice xs a b) = b - a"
  by (simp add: bslice_def)

text \<open>
  \<open>ctx.Err()\<close>: \<open>None\<close> while the context is live, otherwise the reason it ended.
  An operation receives the value its first \<open>ctx.Err()\<close> check reads; iterations that
  check again between elements take the later readings as a function of the callback's state.
\<close>

datatype ctx_error = Canceled | DeadlineExceeded

type_synonym ctx = "ctx_error option"

subsection \<open>Big-endian integers\<close>

text \<open>
  \<open>be_bytes n x\<close> are the \<open>n\<close> big-endian bytes of \<open>x\<close>
  (\<open>binary.BigEndian.PutUintN\<close>), \<open>be_val\<close> the number a byte string denotes
  (\<open>binary.BigEndian.UintN\<close>).
\<close>

primrec be_bytes :: "nat \<Rightarrow> nat \<Rightarrow> bytes" where
  "be_bytes 0 x = []"
| "be_bytes (Suc n) x = word_of_nat (x div 256 ^ n) # be_bytes n x"

primrec be_val :: "bytes \<Rightarrow> nat" where
  "be_val [] = 0"
| "be_val (b # bs) = unat b * 256 ^ length bs + be_val bs"

lemma length_be_bytes [simp]: "length (be_bytes n x) = n"
  by (induction n) auto

lemma be_val_bound: "be_val bs < 256 ^ length bs"
proof (induction bs)
  case Nil
  show ?case by simp
next
  case (Cons b bs)
  have "unat b < 256" using unsigned_less [of b, where ?'a = nat] by simp
  then have "Suc (unat b) * 256 ^ length bs \<le> 256 * 256 ^ length bs"
    by (intro mult_le_mono1) simp
  with Cons have "unat b * 256 ^ length bs + be_val bs < 256 * 256 ^ length bs"
    unfolding mult_Suc by linarith
  then show ?case by simp
qed

lemma unat_byte_of_nat: "unat (word_of_nat x :: byte) = x mod 256"
  by (simp add: unat_of_nat)

lemma be_val_be_bytes [simp]: "be_val (be_bytes n x) = x mod 256 ^ n"
proof (induction n)
  case 0
  show ?case by simp
next
  case (Suc n)
  have "(x div 256 ^ n mod 256) * 256 ^ n + x mod 256 ^ n = x mod 256 ^ Suc n"
    by (metis add.commute mod_mult2_eq mult.commute power_Suc2)
  with Suc show ?case by (simp add: unat_byte_of_nat)
qed

lemma be_bytes_mod [simp]: "be_bytes n (x mod 256 ^ n) = be_bytes n x"
proof -
  have "be_bytes m (x mod 256 ^ n) = be_bytes m x" if "m \<le> n" for m
    using that
  proof (induction m)
    case 0
    show ?case by simp
  next
    case (Suc m)
    then have "n = Suc m + (n - Suc m)" by simp
    then have pw: "(256::nat) ^ n = 256 ^ m * (256 * 256 ^ (n - Suc m))"
      by (metis power_Suc power_add mult.assoc mult.commute)
    have "x mod 256 ^ n div 256 ^ m = x div 256 ^ m mod (256 * 256 ^ (n - Suc m))"
      by (simp add: pw mod_mult2_eq)
    then have "(x mod 256 ^ n div 256 ^ m) mod 256 = (x div 256 ^ m) mod 256"
      by (simp add: mod_mod_cancel)
    then have "(word_of_nat (x mod 256 ^ n div 256 ^ m) :: byte) = word_of_nat (x div 256 ^ m)"
      by (simp add: word_unat_eq_iff unat_byte_of_nat)
    with Suc show ?case by simp
  qed
  then show ?thesis by simp
qed

lemma be_bytes_be_val [simp]: "be_bytes (length bs) (be_val bs) = bs"
proof (induction bs)
  case Nil
  show ?case by simp
next
  case (Cons b bs)
  have "(unat b * 256 ^ length bs + be_val bs) div 256 ^ length bs = unat b"
    using be_val_bound [of bs] by (simp add: div_add1_eq)
  moreover have "be_bytes (length bs) (unat b * 256 ^ length bs + be_val bs) = bs"
    using Cons be_bytes_mod [of "length bs" "unat b * 256 ^ length bs + be_val bs"]
      be_val_bound [of bs] by simp
  ultimately show ?case by simp
qed

lemma be_bytes_eq_iff: "x < 256 ^ n \<Longrightarrow> y < 256 ^ n \<Longrightarrow> be_bytes n x = be_bytes n y \<longleftrightarrow> x = y"
  by (metis be_val_be_bytes mod_less)

text \<open>
  Fixed-width big-endian encodings sort like the numbers they encode: the reason the WAL
  can iterate its sequence index in numeric order.
\<close>

lemma be_val_less_iff:
  "length xs = length ys \<Longrightarrow> xs < ys \<longleftrightarrow> be_val xs < be_val ys"
proof (induction xs ys rule: list_induct2)
  case Nil
  show ?case by simp
next
  case (Cons x xs y ys)
  let ?b = "256 ^ length ys :: nat"
  have bx: "be_val xs < ?b" and bys: "be_val ys < ?b"
    using be_val_bound [of xs] be_val_bound [of ys] Cons.hyps by simp_all
  consider "x < y" | "x = y" | "y < x" by (meson linorder_cases)
  then show ?case
  proof cases
    case 1
    then have "Suc (unat x) \<le> unat y" by (simp add: word_less_nat_alt)
    then have "unat x * ?b + ?b \<le> unat y * ?b"
      using mult_le_mono1 [of "Suc (unat x)" "unat y" ?b] by simp
    with 1 bx Cons.hyps show ?thesis by simp
  next
    case 2
    with Cons show ?thesis by simp
  next
    case 3
    then have "Suc (unat y) \<le> unat x" by (simp add: word_less_nat_alt)
    then have "unat y * ?b + ?b \<le> unat x * ?b"
      using mult_le_mono1 [of "Suc (unat y)" "unat x" ?b] by simp
    with 3 bys Cons.hyps show ?thesis by auto
  qed
qed

lemma be_bytes_less_iff:
  "x < 256 ^ n \<Longrightarrow> y < 256 ^ n \<Longrightarrow> be_bytes n x < be_bytes n y \<longleftrightarrow> x < y"
  by (simp add: be_val_less_iff)

lemma be_bytes_le_iff:
  "x < 256 ^ n \<Longrightarrow> y < 256 ^ n \<Longrightarrow> be_bytes n x \<le> be_bytes n y \<longleftrightarrow> x \<le> y"
  using be_bytes_less_iff [of y n x] by (metis linorder_not_less)

definition be16 :: "u16 \<Rightarrow> bytes" where "be16 x = be_bytes 2 (unat x)"
definition be32 :: "u32 \<Rightarrow> bytes" where "be32 x = be_bytes 4 (unat x)"
definition be64 :: "u64 \<Rightarrow> bytes" where "be64 x = be_bytes 8 (unat x)"
definition hash_bytes :: "hash \<Rightarrow> bytes" where "hash_bytes h = be_bytes 32 (unat h)"

definition un16 :: "bytes \<Rightarrow> u16" where "un16 bs = word_of_nat (be_val bs)"
definition un32 :: "bytes \<Rightarrow> u32" where "un32 bs = word_of_nat (be_val bs)"
definition un64 :: "bytes \<Rightarrow> u64" where "un64 bs = word_of_nat (be_val bs)"
definition un_hash :: "bytes \<Rightarrow> hash" where "un_hash bs = word_of_nat (be_val bs)"

lemma length_be [simp]:
  "length (be16 a) = 2" "length (be32 b) = 4" "length (be64 c) = 8" "length (hash_bytes h) = 32"
  by (simp_all add: be16_def be32_def be64_def hash_bytes_def)

lemma unat_lt_be [simp]:
  "unat (a::u16) < 256 ^ 2" "unat (b::u32) < 256 ^ 4" "unat (c::u64) < 256 ^ 8"
  "unat (h::hash) < 256 ^ 32"
  using unsigned_less [of a, where ?'a = nat] unsigned_less [of b, where ?'a = nat]
    unsigned_less [of c, where ?'a = nat] unsigned_less [of h, where ?'a = nat] by simp_all

lemma un_be [simp]:
  "un16 (be16 a) = a" "un32 (be32 b) = b" "un64 (be64 c) = c" "un_hash (hash_bytes h) = h"
  by (simp_all only: un16_def be16_def un32_def be32_def un64_def be64_def un_hash_def
      hash_bytes_def be_val_be_bytes mod_less unat_lt_be of_nat_unat unsigned_ucast_eq ucast_id)

lemma be_inject [simp, wal_keys]:
  "be64 c = be64 c' \<longleftrightarrow> c = c'" "hash_bytes h = hash_bytes h' \<longleftrightarrow> h = h'"
  by (metis un_be(3), metis un_be(4))

lemma be_un [simp]:
  "length bs = 8 \<Longrightarrow> be64 (un64 bs) = bs" "length bs = 32 \<Longrightarrow> hash_bytes (un_hash bs) = bs"
proof -
  show "be64 (un64 bs) = bs" if l: "length bs = 8"
  proof -
    have "unat (un64 bs) = be_val bs"
      using be_val_bound [of bs] l by (simp add: un64_def unat_of_nat)
    then show ?thesis using be_bytes_be_val [of bs] l by (simp add: be64_def)
  qed
  show "hash_bytes (un_hash bs) = bs" if l: "length bs = 32"
  proof -
    have "unat (un_hash bs) = be_val bs"
      using be_val_bound [of bs] l by (simp add: un_hash_def unat_of_nat)
    then show ?thesis using be_bytes_be_val [of bs] l by (simp add: hash_bytes_def)
  qed
qed

lemma be64_less_iff [simp]: "be64 a < be64 b \<longleftrightarrow> a < b"
  unfolding be64_def word_less_nat_alt by (rule be_bytes_less_iff) (fact unat_lt_be(3))+

lemma be64_le_iff [simp]: "be64 a \<le> be64 b \<longleftrightarrow> a \<le> b"
  unfolding be64_def word_le_nat_alt by (rule be_bytes_le_iff) (fact unat_lt_be(3))+

subsection \<open>Lists with distinct keys\<close>

lemma distinct_map_eq: "distinct (map f xs) \<Longrightarrow> x \<in> set xs \<Longrightarrow> y \<in> set xs \<Longrightarrow> f x = f y \<Longrightarrow> x = y"
  by (simp add: distinct_map inj_on_def)

subsection \<open>Increments without wrap-around\<close>

lemma unat_inc: "a \<noteq> - 1 \<Longrightarrow> unat (a + 1 :: 'a::len word) = Suc (unat a)"
  using unatSuc [of a] by (metis add.commute add_eq_0_iff2 minus_unique)

lemma word_inc_le: "a < b \<Longrightarrow> a + 1 \<le> (b :: 'a::len word)"
  by (metis add.commute inc_le)

lemma word_inc_le_iff: "a \<noteq> - 1 \<Longrightarrow> a + 1 \<le> b \<longleftrightarrow> a < (b :: 'a::len word)"
  by (simp add: word_le_nat_alt word_less_nat_alt unat_inc Suc_le_eq)

subsection \<open>Sequence numbers\<close>

lemma unat_u64_of_nat: "k < 2 ^ 64 \<Longrightarrow> unat (word_of_nat k :: u64) = k"
  by (simp add: unat_of_nat)

lemma inj_unat: "inj (unat :: u64 \<Rightarrow> nat)"
  by (simp add: inj_def word_unat_eq_iff)

lemma unat_u64_add: "unat a + k < 2 ^ 64 \<Longrightarrow> unat (a + word_of_nat k :: u64) = unat a + k"
  by (simp add: unat_word_ariths unat_of_nat mod_simps)

lemma sint_u64_small:
  assumes "unat (w :: u64) < 2 ^ 63"
  shows "sint w = int (unat w)"
proof -
  have eq: "uint w = int (unat w)" by simp
  obtain k where k: "k = unat w" by simp
  have "int k < 2 ^ 63" using assms unfolding k by (metis of_nat_less_iff of_nat_numeral of_nat_power)
  then have "signed_take_bit 63 (int k) = int k" by (intro signed_take_bit_int_eq_self) linarith+
  then show ?thesis unfolding sint_uint eq k by simp
qed

end
