(* ===== verification/Badger.thy ===== *)
theory Badger
  imports Prelude
begin

section \<open>The embedded key-value store\<close>

text \<open>
  The WAL and the gossip projections live in BadgerDB, a third-party package.  The model takes
  it as a parameter: a record of the operations the ledger calls, over an unspecified database
  type.  Every operation may fail with an error of the store's own.  The laws the ledger relies
  on are Badger's documented behaviour and form the locale \<open>badger_store\<close>: a read in a
  transaction sees the transaction's own writes, a failed \<open>Update\<close> leaves the database as
  it was, an iterator visits the live keys with the given prefix in ascending byte order from the
  seek position.  \<open>content\<close> is the key-value map a database value stands for.

  A transaction is a function on the database value; \<open>db_update\<close> runs it and commits,
  \<open>db_view\<close> runs a read-only one.
\<close>

datatype berr = BErr string

record 'db badger =
  bg_get :: "'db \<Rightarrow> bytes \<Rightarrow> berr + bytes option"
  bg_set :: "'db \<Rightarrow> bytes \<Rightarrow> bytes \<Rightarrow> berr + 'db"
  bg_delete :: "'db \<Rightarrow> bytes \<Rightarrow> berr + 'db"
  bg_commit :: "'db \<Rightarrow> 'db \<Rightarrow> berr + 'db"
  bg_sync :: "'db \<Rightarrow> berr + 'db"
  bg_scan :: "'db \<Rightarrow> bytes \<Rightarrow> bytes \<Rightarrow> (bytes \<times> bytes) list"
  bg_rseek :: "'db \<Rightarrow> bytes \<Rightarrow> bytes option"

text \<open>
  \<open>bg_scan B d p k\<close> lists what an iterator with \<open>opts.Prefix = p\<close> visits after
  \<open>Seek(k)\<close>; \<open>bg_rseek B d k\<close> is the key a reverse iterator stands on after
  \<open>Seek(k)\<close>, if it is valid.
\<close>

type_synonym kv = "bytes \<rightharpoonup> bytes"

definition scan_set :: "kv \<Rightarrow> bytes \<Rightarrow> bytes \<Rightarrow> (bytes \<times> bytes) set" where
  "scan_set m p k = {(x, v). m x = Some v \<and> prefix p x \<and> k \<le> x}"

locale badger_store =
  fixes B :: "'db badger" and content :: "'db \<Rightarrow> kv"
  assumes get_law: "bg_get B d k = Inr r \<Longrightarrow> r = content d k"
    and set_law: "bg_set B d k v = Inr d' \<Longrightarrow> content d' = (content d)(k \<mapsto> v)"
    and delete_law: "bg_delete B d k = Inr d' \<Longrightarrow> content d' = (content d)(k := None)"
    and commit_law: "bg_commit B d d' = Inr d'' \<Longrightarrow> content d'' = content d'"
    and sync_law: "bg_sync B d = Inr d' \<Longrightarrow> content d' = content d"
    and scan_set_law: "set (bg_scan B d p k) = scan_set (content d) p k"
    and scan_sorted_law: "sorted_wrt (<) (map fst (bg_scan B d p k))"
    and rseek_law: "bg_rseek B d k = Some x \<longleftrightarrow>
      x \<in> dom (content d) \<and> x \<le> k \<and> (\<forall>y \<in> dom (content d). y \<le> k \<longrightarrow> y \<le> x)"

definition db_update ::
  "'db badger \<Rightarrow> (berr \<Rightarrow> 'e) \<Rightarrow> ('db \<Rightarrow> 'e + 'db) \<Rightarrow> 'db \<Rightarrow> ('e + unit) \<times> 'db" where
  "db_update B wrap body d =
     (case body d of
        Inl e \<Rightarrow> (Inl e, d)
      | Inr d' \<Rightarrow>
          (case bg_commit B d d' of
             Inl e \<Rightarrow> (Inl (wrap e), d)
           | Inr d'' \<Rightarrow> (Inr (), d'')))"

text \<open>A store that never fails: the setting of the progress statements.\<close>

definition faultless :: "'db badger \<Rightarrow> bool" where
  "faultless B \<longleftrightarrow>
     (\<forall>d k. okE (bg_get B d k)) \<and> (\<forall>d k v. okE (bg_set B d k v)) \<and>
     (\<forall>d k. okE (bg_delete B d k)) \<and> (\<forall>d d'. okE (bg_commit B d d')) \<and> (\<forall>d. okE (bg_sync B d))"

lemma faultlessD:
  assumes "faultless B"
  shows "\<exists>r. bg_get B d k = Inr r" "\<exists>d'. bg_set B d k v = Inr d'" "\<exists>d'. bg_delete B d k = Inr d'"
    "\<exists>d''. bg_commit B d d' = Inr d''" "\<exists>d'. bg_sync B d = Inr d'"
  using assms by (simp_all add: faultless_def okE_iff)

subsection \<open>Consequences of the laws\<close>

lemma sorted_keys_unique:
  assumes "sorted_wrt (<) (map fst xs)" "sorted_wrt (<) (map fst ys)" "set xs = set ys"
  shows "xs = (ys :: ('a::linorder \<times> 'b) list)"
  using assms
proof (induction xs arbitrary: ys)
  case Nil
  then show ?case by simp
next
  case (Cons x xs)
  then obtain y ys' where ys: "ys = y # ys'" by (cases ys) auto
  have hx: "\<forall>z \<in> set xs. fst x < fst z" and hy: "\<forall>z \<in> set ys'. fst y < fst z"
    using Cons.prems ys by auto
  have "x = y"
  proof (rule ccontr)
    assume "x \<noteq> y"
    then have "x \<in> set ys'" "y \<in> set xs" using Cons.prems(3) ys by auto
    with hx hy show False by (meson order_less_asym)
  qed
  moreover have "set xs = set ys'"
    using Cons.prems(3) ys hx hy \<open>x = y\<close> by (metis insert_ident list.simps(15) order_less_irrefl)
  ultimately show ?case using Cons ys by simp
qed

lemma db_update_Inl: "db_update B w body d = (Inl e, d') \<Longrightarrow> d' = d"
  by (auto simp: db_update_def split: sum.splits)

lemma db_update_Inr:
  "db_update B w body d = (Inr u, d') \<Longrightarrow> \<exists>d1. body d = Inr d1 \<and> bg_commit B d d1 = Inr d'"
  by (auto simp: db_update_def split: sum.splits)

lemma db_update_fails_iff:
  "faultless B \<Longrightarrow> fst (db_update B w body d) = Inl e \<longleftrightarrow> body d = Inl e"
  by (auto simp: db_update_def faultless_def okE_iff split: sum.splits) (metis Inl_Inr_False)

context badger_store
begin

lemma update_content:
  "db_update B w body d = (Inr u, d') \<Longrightarrow> \<exists>d1. body d = Inr d1 \<and> content d' = content d1"
  using db_update_Inr commit_law by metis

lemma update_fail_content:
  "db_update B w body d = (Inl e, d') \<Longrightarrow> content d' = content d"
  by (auto dest: db_update_Inl)

lemma scan_cong:
  "scan_set (content d) p k = scan_set (content d') p' k' \<Longrightarrow> bg_scan B d p k = bg_scan B d' p' k'"
  by (rule sorted_keys_unique) (simp_all add: scan_sorted_law scan_set_law)

lemma scan_mem: "(x, v) \<in> set (bg_scan B d p k) \<longleftrightarrow> content d x = Some v \<and> prefix p x \<and> k \<le> x"
  by (simp add: scan_set_law scan_set_def)

end

subsection \<open>The in-memory store\<close>

text \<open>
  \<open>Open("")\<close> opens Badger in memory.  The reference store below keeps the key-value pairs
  in an association list, newest first, and satisfies the laws; concrete evaluations use it.
\<close>

type_synonym memdb = "(bytes \<times> bytes) list"

definition mem_keys :: "memdb \<Rightarrow> bytes list" where
  "mem_keys d = sort (remdups (map fst d))"

definition mem_badger :: "memdb badger" where
  "mem_badger =
     \<lparr> bg_get = (\<lambda>d k. Inr (map_of d k)),
       bg_set = (\<lambda>d k v. Inr ((k, v) # d)),
       bg_delete = (\<lambda>d k. Inr (filter (\<lambda>x. fst x \<noteq> k) d)),
       bg_commit = (\<lambda>d d'. Inr d'),
       bg_sync = (\<lambda>d. Inr d),
       bg_scan = (\<lambda>d p k. map (\<lambda>x. (x, the (map_of d x)))
                    (filter (\<lambda>x. prefix p x \<and> k \<le> x) (mem_keys d))),
       bg_rseek = (\<lambda>d k. case filter (\<lambda>x. x \<le> k) (mem_keys d) of
                     [] \<Rightarrow> None | xs \<Rightarrow> Some (last xs)) \<rparr>"

lemma mem_keys_sorted: "sorted_wrt (<) (mem_keys d)"
  by (simp add: mem_keys_def strict_sorted_iff)

lemma set_mem_keys [simp]: "set (mem_keys d) = dom (map_of d)"
  by (simp add: mem_keys_def dom_map_of_conv_image_fst)

lemma map_of_filter_neq: "map_of (filter (\<lambda>x. fst x \<noteq> k) d) = (map_of d)(k := None)"
  by (induction d) (auto simp: fun_eq_iff)

lemma mem_last:
  assumes "sorted_wrt (<) xs" "xs \<noteq> []"
  shows "last xs = (x :: 'a::linorder) \<longleftrightarrow> x \<in> set xs \<and> (\<forall>y \<in> set xs. y \<le> x)"
proof -
  have "\<forall>y \<in> set xs. y \<le> last xs"
    using assms by (induction xs rule: rev_induct) (auto simp: sorted_wrt_append)
  then show ?thesis using assms(2) by (metis last_in_set order_antisym)
qed

interpretation mem: badger_store mem_badger map_of
proof
  fix d :: memdb and p k x :: bytes
  show "set (bg_scan mem_badger d p k) = scan_set (map_of d) p k"
    by (auto simp: mem_badger_def scan_set_def image_iff)
  show "sorted_wrt (<) (map fst (bg_scan mem_badger d p k))"
    using mem_keys_sorted [of d] by (simp add: mem_badger_def comp_def sorted_wrt_filter)
  let ?xs = "filter (\<lambda>x. x \<le> k) (mem_keys d)"
  have *: "bg_rseek mem_badger d k = (if ?xs = [] then None else Some (last ?xs))"
    by (simp add: mem_badger_def split: list.splits)
  have s: "sorted_wrt (<) ?xs" using mem_keys_sorted [of d] by (simp add: sorted_wrt_filter)
  show "bg_rseek mem_badger d k = Some x \<longleftrightarrow>
      x \<in> dom (map_of d) \<and> x \<le> k \<and> (\<forall>y \<in> dom (map_of d). y \<le> k \<longrightarrow> y \<le> x)"
  proof (cases "?xs = []")
    case True
    then have "\<forall>y \<in> dom (map_of d). \<not> y \<le> k" by (metis filter_empty_conv set_mem_keys)
    with True * show ?thesis by auto
  next
    case False
    with * mem_last [OF s False, of x] show ?thesis by auto
  qed
qed (auto simp: mem_badger_def map_of_filter_neq fun_eq_iff)

lemma mem_faultless: "faultless mem_badger"
  by (simp add: faultless_def mem_badger_def)

end
