(* ===== verification/WalMeta.thy ===== *)
theory WalMeta
  imports Badger
begin

section \<open>WAL records: keyspace and meta codec\<close>

text \<open>
  Models \<open>wal/errors.go\<close>, \<open>wal/keyspace.go\<close> and \<open>wal/meta.go\<close>: the
  sentinel errors, the storage keys of the six key families, the \<open>Meta\<close> record and its
  three wire formats.  The SDK's receipt type and its codec are parameters (a type variable and
  a \<open>receipt_codec\<close> record); \<open>codec_ok\<close> states the round trip the SDK documents.
  The lemmas show that keys of different families or arguments never coincide, that sequence
  keys sort numerically, and that \<open>decodeMeta\<close> inverts \<open>encodeMeta\<close>.
\<close>

subsection \<open>Errors\<close>

datatype wal_error =
    ErrQueueFull | ErrNotFound | ErrPhantom | ErrDiverged | ErrClosed | ErrEmptyWire
  | ErrMetaCorrupt
  | WCtx ctx_error
  | WBadger berr
  | WBadState byte byte
  | WBadLength nat
  | WCallback string
  | WPanic string

subsection \<open>Keyspace\<close>

definition prefixEntry :: byte where [simp]: "prefixEntry = 1"
definition prefixMeta :: byte where [simp]: "prefixMeta = 2"
definition prefixSeqIndex :: byte where [simp]: "prefixSeqIndex = 3"
definition prefixInflight :: byte where [simp]: "prefixInflight = 4"
definition prefixHWM :: byte where [simp]: "prefixHWM = 5"
definition prefixTesseraDedup :: byte where [simp]: "prefixTesseraDedup = 6"

definition entryKey :: "hash \<Rightarrow> bytes" where
  "entryKey h = prefixEntry # hash_bytes h"

definition metaKey :: "hash \<Rightarrow> bytes" where
  "metaKey h = prefixMeta # hash_bytes h"

definition seqIndexKey :: "u64 \<Rightarrow> bytes" where
  "seqIndexKey s = prefixSeqIndex # be64 s"

definition seqFromIndexKey :: "bytes \<Rightarrow> u64" where
  "seqFromIndexKey k = un64 (take 8 (drop 1 k))"

definition inflightKey :: "hash \<Rightarrow> bytes" where
  "inflightKey h = prefixInflight # hash_bytes h"

definition hashFromInflightKey :: "bytes \<Rightarrow> hash" where
  "hashFromInflightKey k = un_hash (take 32 (drop 1 k @ replicate 32 0))"

definition hwmKey :: bytes where
  "hwmKey = [prefixHWM]"

definition tesseraDedupKey :: "bytes \<Rightarrow> bytes" where
  "tesseraDedupKey identity = prefixTesseraDedup # identity"

lemmas key_defs = entryKey_def metaKey_def seqIndexKey_def inflightKey_def hwmKey_def
  tesseraDedupKey_def

subsection \<open>Entry states and the meta record\<close>

type_synonym EntryState = byte

definition StateUnknown :: EntryState where [simp]: "StateUnknown = 0"
definition StatePending :: EntryState where [simp]: "StatePending = 1"
definition StateSequenced :: EntryState where [simp]: "StateSequenced = 2"
definition StateShipped :: EntryState where [simp]: "StateShipped = 3"
definition StateManual :: EntryState where [simp]: "StateManual = 4"

text \<open>
  \<open>seqFromIndexKey\<close> reads the eight bytes after the tag; \<open>hashFromInflightKey\<close>
  copies into a zeroed \<open>[32]byte\<close>, so a shorter key is padded with zero bytes.

  \<open>LastErrTs\<close> is a \<open>time.Time\<close>: \<open>None\<close> its zero value, \<open>Some ns\<close>
  the instant with Unix nanoseconds \<open>ns\<close> (an \<open>int64\<close> bit pattern).
\<close>

record 'r Meta =
  State :: EntryState
  Sequence :: u64
  Attempts :: u32
  LastErrTs :: "u64 option"
  LogTimeMicros :: u64
  Web3Receipts :: "'r list"
  TraceContext :: bytes

record 'r receipt_codec =
  rc_ser :: "'r \<Rightarrow> string + bytes"
  rc_deser :: "bytes \<Rightarrow> string + 'r \<times> nat"

definition metaV1Size :: nat where [simp]: "metaV1Size = 1 + 8 + 4 + 8 + 8"
definition metaTrailerVersionV2 :: byte where [simp]: "metaTrailerVersionV2 = 2"
definition metaTrailerVersionV3 :: byte where [simp]: "metaTrailerVersionV3 = 3"

fun appendReceipts :: "'r receipt_codec \<Rightarrow> bytes \<Rightarrow> 'r list \<Rightarrow> wal_error + bytes" where
  "appendReceipts c out [] = Inr out"
| "appendReceipts c out (r # rs) =
     (case rc_ser c r of
        Inl e \<Rightarrow> Inl (WPanic e)
      | Inr body \<Rightarrow> appendReceipts c (out @ be32 (word_of_nat (length body)) @ body) rs)"

definition appendReceiptBlock :: "'r receipt_codec \<Rightarrow> bytes \<Rightarrow> 'r list \<Rightarrow> wal_error + bytes" where
  "appendReceiptBlock c out receipts =
     appendReceipts c (out @ be16 (word_of_nat (length receipts))) receipts"

definition encodeV1 :: "'r Meta \<Rightarrow> bytes" where
  "encodeV1 m =
     State m # be64 (Sequence m) @ be32 (Attempts m)
       @ be64 (case LastErrTs m of None \<Rightarrow> 0 | Some ns \<Rightarrow> ns) @ be64 (LogTimeMicros m)"

definition encodeMeta :: "'r receipt_codec \<Rightarrow> 'r Meta \<Rightarrow> wal_error + bytes" where
  "encodeMeta c m =
     (let v1 = encodeV1 m; tp = TraceContext m in
      if length (Web3Receipts m) = 0 \<and> tp = [] then Inr v1
      else if length (Web3Receipts m) > 0xFFFF then Inl (WPanic ''receipts count'')
      else if tp = [] then
        appendReceiptBlock c (v1 @ [metaTrailerVersionV2]) (Web3Receipts m)
      else if length tp > 0xFFFF then Inl (WPanic ''traceparent length'')
      else
        appendReceiptBlock c
          (v1 @ [metaTrailerVersionV3] @ be16 (word_of_nat (length tp)) @ tp) (Web3Receipts m))"

fun decodeReceipts ::
  "'r receipt_codec \<Rightarrow> bytes \<Rightarrow> nat \<Rightarrow> nat \<Rightarrow> wal_error + 'r list \<times> nat" where
  "decodeReceipts c buf off 0 = Inr ([], off)"
| "decodeReceipts c buf off (Suc n) =
     (if off + 4 > length buf then Inl ErrMetaCorrupt
      else let recLen = unat (un32 (bslice buf off (off + 4))); off' = off + 4 in
        if off' + recLen > length buf then Inl ErrMetaCorrupt
        else (case rc_deser c (bslice buf off' (off' + recLen)) of
                Inl e \<Rightarrow> Inl ErrMetaCorrupt
              | Inr (r, _) \<Rightarrow>
                  bindE (decodeReceipts c buf (off' + recLen) n) (\<lambda>(rs, end). Inr (r # rs, end))))"

definition decodeReceiptBlock ::
  "'r receipt_codec \<Rightarrow> bytes \<Rightarrow> nat \<Rightarrow> wal_error + 'r list \<times> nat" where
  "decodeReceiptBlock c buf off =
     (if off + 2 > length buf then Inl ErrMetaCorrupt
      else decodeReceipts c buf (off + 2) (unat (un16 (bslice buf off (off + 2)))))"

definition decodeMeta :: "'r receipt_codec \<Rightarrow> bytes \<Rightarrow> wal_error + 'r Meta" where
  "decodeMeta c buf =
     (if length buf < metaV1Size then Inl ErrMetaCorrupt
      else
        let ns = un64 (bslice buf 13 21);
            m = \<lparr> State = hd buf,
                  Sequence = un64 (bslice buf 1 9),
                  Attempts = un32 (bslice buf 9 13),
                  LastErrTs = (if ns \<noteq> 0 then Some ns else None),
                  LogTimeMicros = un64 (bslice buf 21 29),
                  Web3Receipts = [], TraceContext = [] \<rparr>;
            off = metaV1Size + 1 in
        if length buf = metaV1Size then Inr m
        else if length buf < metaV1Size + 1 then Inl ErrMetaCorrupt
        else
          let v = hd (drop metaV1Size buf) in
          bindE
            (if v = metaTrailerVersionV2 then
               bindE (decodeReceiptBlock c buf off)
                 (\<lambda>(receipts, end). Inr (m\<lparr>Web3Receipts := receipts\<rparr>, end))
             else if v = metaTrailerVersionV3 then
               (if off + 2 > length buf then Inl ErrMetaCorrupt
                else let tpLen = unat (un16 (bslice buf off (off + 2))); off' = off + 2 in
                  if off' + tpLen > length buf then Inl ErrMetaCorrupt
                  else bindE (decodeReceiptBlock c buf (off' + tpLen))
                    (\<lambda>(receipts, end).
                       Inr (m\<lparr>TraceContext := bslice buf off' (off' + tpLen),
                              Web3Receipts := receipts\<rparr>, end)))
             else Inl ErrMetaCorrupt)
            (\<lambda>(m', end). if end \<noteq> length buf then Inl ErrMetaCorrupt else Inr m'))"

subsection \<open>Lemmas: keys\<close>

lemma key_inject [simp, wal_keys]:
  "entryKey h = entryKey h' \<longleftrightarrow> h = h'" "metaKey h = metaKey h' \<longleftrightarrow> h = h'"
  "seqIndexKey s = seqIndexKey s' \<longleftrightarrow> s = s'" "inflightKey h = inflightKey h' \<longleftrightarrow> h = h'"
  "tesseraDedupKey i = tesseraDedupKey i' \<longleftrightarrow> i = i'"
  by (simp_all add: key_defs)

lemma key_disjoint [simp, wal_keys]:
  "entryKey h \<noteq> metaKey h'" "entryKey h \<noteq> seqIndexKey s" "entryKey h \<noteq> inflightKey h'"
  "entryKey h \<noteq> hwmKey" "entryKey h \<noteq> tesseraDedupKey i"
  "metaKey h \<noteq> entryKey h'" "metaKey h \<noteq> seqIndexKey s" "metaKey h \<noteq> inflightKey h'"
  "metaKey h \<noteq> hwmKey" "metaKey h \<noteq> tesseraDedupKey i"
  "seqIndexKey s \<noteq> entryKey h" "seqIndexKey s \<noteq> metaKey h" "seqIndexKey s \<noteq> inflightKey h"
  "seqIndexKey s \<noteq> hwmKey" "seqIndexKey s \<noteq> tesseraDedupKey i"
  "inflightKey h \<noteq> entryKey h'" "inflightKey h \<noteq> metaKey h'" "inflightKey h \<noteq> seqIndexKey s"
  "inflightKey h \<noteq> hwmKey" "inflightKey h \<noteq> tesseraDedupKey i"
  "hwmKey \<noteq> entryKey h" "hwmKey \<noteq> metaKey h" "hwmKey \<noteq> seqIndexKey s" "hwmKey \<noteq> inflightKey h"
  "hwmKey \<noteq> tesseraDedupKey i"
  "tesseraDedupKey i \<noteq> entryKey h" "tesseraDedupKey i \<noteq> metaKey h"
  "tesseraDedupKey i \<noteq> seqIndexKey s" "tesseraDedupKey i \<noteq> inflightKey h"
  "tesseraDedupKey i \<noteq> hwmKey"
  by (simp_all add: key_defs)

lemma seqFromIndexKey_inv [simp]: "seqFromIndexKey (seqIndexKey s) = s"
  by (simp add: seqFromIndexKey_def seqIndexKey_def)

lemma hashFromInflightKey_inv [simp]: "hashFromInflightKey (inflightKey h) = h"
  by (simp add: hashFromInflightKey_def inflightKey_def)

lemma seqIndexKey_le_iff [simp]: "seqIndexKey a \<le> seqIndexKey b \<longleftrightarrow> a \<le> b"
  by (simp add: seqIndexKey_def)

lemma seqIndexKey_less_iff [simp]: "seqIndexKey a < seqIndexKey b \<longleftrightarrow> a < b"
  by (simp add: seqIndexKey_def)

lemma prefix_seqIndexKey [simp]: "prefix [3] (seqIndexKey s)"
  by (simp add: seqIndexKey_def)

lemma seek_all_seqIndex [simp]: "[3] \<le> seqIndexKey s"
  by (simp add: seqIndexKey_def)

lemma prefix_inflightKey [simp]: "prefix [4] (inflightKey h)" "[4] \<le> inflightKey h"
  by (simp_all add: inflightKey_def)

subsection \<open>Lemmas: the meta codec\<close>

text \<open>What the SDK's receipt codec promises: a serialized receipt parses back to itself.\<close>

definition codec_ok :: "'r receipt_codec \<Rightarrow> bool" where
  "codec_ok c \<longleftrightarrow> (\<forall>r b. rc_ser c r = Inr b \<longrightarrow> (\<exists>n. rc_deser c b = Inr (r, n)))"

definition receipts_fit :: "'r receipt_codec \<Rightarrow> 'r list \<Rightarrow> bool" where
  "receipts_fit c rs \<longleftrightarrow> length rs \<le> 0xFFFF \<and>
     (\<forall>r \<in> set rs. \<exists>b. rc_ser c r = Inr b \<and> length b < 2 ^ 32)"

text \<open>
  The records the WAL can hold: receipts that serialize within the length fields, and no error
  timestamp at the exact epoch (its encoding is the encoding of the zero time).
\<close>

definition meta_wf :: "'r receipt_codec \<Rightarrow> 'r Meta \<Rightarrow> bool" where
  "meta_wf c m \<longleftrightarrow> receipts_fit c (Web3Receipts m) \<and> length (TraceContext m) \<le> 0xFFFF
     \<and> LastErrTs m \<noteq> Some 0"

lemma receipts_fit_Nil [simp]: "receipts_fit c []"
  by (simp add: receipts_fit_def)

lemma unat_un16_length: "n \<le> 0xFFFF \<Longrightarrow> unat (un16 (be16 (word_of_nat n))) = n"
  by (simp add: unat_of_nat)

lemma unat_un32_length: "n < 2 ^ 32 \<Longrightarrow> unat (un32 (be32 (word_of_nat n))) = n"
  by (simp add: unat_of_nat)

lemma bslice_mid:
  "length xs = a \<Longrightarrow> length ys = b - a \<Longrightarrow> bslice (xs @ ys @ zs) a b = ys"
  by (simp add: bslice_def)

lemma appendReceipts_shape:
  "appendReceipts c out rs = Inr buf \<Longrightarrow> \<exists>t. buf = out @ t"
  by (induction c out rs rule: appendReceipts.induct) (fastforce split: sum.splits)+

lemma appendReceipts_ok:
  "receipts_fit c rs \<Longrightarrow> \<exists>buf. appendReceipts c out rs = Inr buf"
proof (induction rs arbitrary: out)
  case Nil
  show ?case by simp
next
  case (Cons r rs)
  then obtain b where "rc_ser c r = Inr b" by (auto simp: receipts_fit_def)
  moreover have "receipts_fit c rs" using Cons.prems by (auto simp: receipts_fit_def)
  ultimately show ?case using Cons.IH by simp
qed

lemma decodeReceipts_append:
  assumes "codec_ok c" "receipts_fit c rs" "appendReceipts c out rs = Inr buf"
  shows "decodeReceipts c buf (length out) (length rs) = Inr (rs, length buf)"
  using assms(2,3)
proof (induction rs arbitrary: out)
  case Nil
  then show ?case by simp
next
  case (Cons r rs)
  then obtain b where ser: "rc_ser c r = Inr b" and lb: "length b < 2 ^ 32"
    by (auto simp: receipts_fit_def)
  let ?l = "be32 (word_of_nat (length b))" and ?out' = "out @ be32 (word_of_nat (length b)) @ b"
  have app: "appendReceipts c ?out' rs = Inr buf" using Cons.prems ser by simp
  obtain t where buf: "buf = out @ ?l @ b @ t" using appendReceipts_shape [OF app] by auto
  have fit: "receipts_fit c rs" using Cons.prems(1) by (auto simp: receipts_fit_def)
  have IH: "decodeReceipts c buf (length out + 4 + length b) (length rs) = Inr (rs, length buf)"
    using Cons.IH [OF fit app] by (simp add: add.assoc)
  obtain n where de: "rc_deser c b = Inr (r, n)" using assms(1) ser by (auto simp: codec_ok_def)
  have s1: "bslice buf (length out) (length out + 4) = ?l"
    unfolding buf by (rule bslice_mid) simp_all
  have s2: "bslice buf (length out + 4) (length out + 4 + length b) = b"
    using bslice_mid [of "out @ ?l" "length out + 4" b "length out + 4 + length b" t]
    by (simp add: buf)
  have n1: "unat (un32 (bslice buf (length out) (length out + 4))) = length b"
    unfolding s1 by (rule unat_un32_length [OF lb])
  have g1: "\<not> length buf < length out + 4" and g2: "\<not> length buf < length out + 4 + length b"
    by (simp_all add: buf)
  show ?case
    unfolding length_Cons decodeReceipts.simps Let_def n1 s2 de using g1 g2 by (simp add: IH)
qed

lemma decodeReceiptBlock_append:
  assumes "codec_ok c" "receipts_fit c rs" "appendReceiptBlock c out rs = Inr buf"
  shows "decodeReceiptBlock c buf (length out) = Inr (rs, length buf)"
proof -
  let ?l = "be16 (word_of_nat (length rs))"
  have app: "appendReceipts c (out @ ?l) rs = Inr buf"
    using assms(3) by (simp add: appendReceiptBlock_def)
  obtain t where buf: "buf = out @ ?l @ t" using appendReceipts_shape [OF app] by auto
  have "bslice buf (length out) (length out + 2) = ?l"
    unfolding buf by (rule bslice_mid) simp_all
  moreover have "length rs \<le> 0xFFFF" using assms(2) by (simp add: receipts_fit_def)
  ultimately show ?thesis
    using decodeReceipts_append [OF assms(1,2) app] unat_un16_length [of "length rs"]
    by (simp add: decodeReceiptBlock_def buf)
qed

lemma length_encodeV1 [simp]: "length (encodeV1 m) = metaV1Size"
  by (simp add: encodeV1_def)

lemma decode_v1_fields:
  "hd (encodeV1 m @ t) = State m"
  "bslice (encodeV1 m @ t) 1 9 = be64 (Sequence m)"
  "bslice (encodeV1 m @ t) 9 13 = be32 (Attempts m)"
  "bslice (encodeV1 m @ t) 13 21 = be64 (case LastErrTs m of None \<Rightarrow> 0 | Some ns \<Rightarrow> ns)"
  "bslice (encodeV1 m @ t) 21 29 = be64 (LogTimeMicros m)"
  by (simp_all add: encodeV1_def bslice_def)

lemma meta_eta:
  "\<lparr>State = State m, Sequence = Sequence m, Attempts = Attempts m, LastErrTs = LastErrTs m,
    LogTimeMicros = LogTimeMicros m, Web3Receipts = Web3Receipts m,
    TraceContext = TraceContext m\<rparr> = m"
  by simp

lemma encode_V1: "Web3Receipts m = [] \<Longrightarrow> TraceContext m = [] \<Longrightarrow> encodeMeta c m = Inr (encodeV1 m)"
  by (simp add: encodeMeta_def Let_def)

lemma encodeMeta_ok: "meta_wf c m \<Longrightarrow> \<exists>buf. encodeMeta c m = Inr buf"
  using appendReceipts_ok [of c "Web3Receipts m"]
  by (auto simp: encodeMeta_def meta_wf_def receipts_fit_def appendReceiptBlock_def Let_def)

lemma last_err_roundtrip:
  "LastErrTs m \<noteq> Some 0 \<Longrightarrow>
   (let ns = (case LastErrTs m of None \<Rightarrow> 0 | Some ns \<Rightarrow> ns) in
      if ns \<noteq> 0 then Some ns else None) = LastErrTs m"
  by (auto simp: Let_def split: option.splits)

lemma decodeMeta_V1:
  assumes "meta_wf c m" "Web3Receipts m = []" "TraceContext m = []"
  shows "decodeMeta c (encodeV1 m) = Inr m"
  using decode_v1_fields [of m "[]"] assms last_err_roundtrip [of m] meta_eta [of m]
  by (simp add: decodeMeta_def meta_wf_def Let_def)

lemma decodeMeta_V2:
  assumes "codec_ok c" "meta_wf c m" "TraceContext m = []"
    and enc: "appendReceiptBlock c (encodeV1 m @ [metaTrailerVersionV2]) (Web3Receipts m) = Inr buf"
  shows "decodeMeta c buf = Inr m"
proof -
  obtain t where buf: "buf = encodeV1 m @ [2] @ t"
    using enc appendReceipts_shape by (fastforce simp: appendReceiptBlock_def)
  have dec: "decodeReceiptBlock c buf 30 = Inr (Web3Receipts m, length buf)"
    using decodeReceiptBlock_append [OF assms(1) _ enc] assms(2) by (simp add: meta_wf_def)
  have dec': "decodeReceiptBlock c (encodeV1 m @ 2 # t) 30 = Inr (Web3Receipts m, length buf)"
    using dec buf by simp
  show ?thesis
    using decode_v1_fields [of m "[2] @ t"] assms(2,3) dec' last_err_roundtrip [of m] meta_eta [of m]
    by (simp add: decodeMeta_def meta_wf_def Let_def buf)
qed

lemma decodeMeta_V3:
  assumes "codec_ok c" "meta_wf c m"
    and enc: "appendReceiptBlock c (encodeV1 m @ [metaTrailerVersionV3]
      @ be16 (word_of_nat (length (TraceContext m))) @ TraceContext m) (Web3Receipts m) = Inr buf"
  shows "decodeMeta c buf = Inr m"
proof -
  let ?tp = "TraceContext m" and ?l = "be16 (word_of_nat (length (TraceContext m)))"
  obtain t where buf: "buf = encodeV1 m @ [3] @ ?l @ ?tp @ t"
    using enc appendReceipts_shape by (fastforce simp: appendReceiptBlock_def)
  have lt: "length ?tp \<le> 0xFFFF" using assms(2) by (simp add: meta_wf_def)
  have dec: "decodeReceiptBlock c buf (32 + length ?tp) = Inr (Web3Receipts m, length buf)"
    using decodeReceiptBlock_append [OF assms(1) _ enc] assms(2)
    by (simp add: meta_wf_def add.commute)
  have s1: "bslice buf 30 32 = ?l"
    using bslice_mid [of "encodeV1 m @ [3]" 30 ?l 32 "?tp @ t"] by (simp add: buf)
  have n1: "unat (un16 (bslice buf 30 32)) = length ?tp"
    unfolding s1 by (rule unat_un16_length [OF lt])
  have s2: "bslice buf 32 (32 + length ?tp) = ?tp"
    using bslice_mid [of "encodeV1 m @ [3] @ ?l" 32 ?tp "32 + length ?tp" t] by (simp add: buf)
  have len: "length buf = 32 + length ?tp + length t" by (simp add: buf)
  have v: "hd (drop 29 buf) = 3" by (simp add: buf)
  have f: "hd buf = State m" "bslice buf (Suc 0) 9 = be64 (Sequence m)" "bslice buf 9 13 = be32 (Attempts m)"
    "bslice buf 13 21 = be64 (case LastErrTs m of None \<Rightarrow> 0 | Some ns \<Rightarrow> ns)"
    "bslice buf 21 29 = be64 (LogTimeMicros m)"
    using decode_v1_fields [of m "[3] @ ?l @ ?tp @ t"] by (simp_all add: buf)
  show ?thesis
    using last_err_roundtrip [of m] assms(2) len
    by (simp add: decodeMeta_def Let_def f v n1 s2 dec meta_wf_def)
qed

lemma decode_encode_meta:
  assumes "codec_ok c" "meta_wf c m" "encodeMeta c m = Inr buf"
  shows "decodeMeta c buf = Inr m"
  using assms decodeMeta_V1 [OF assms(2)] decodeMeta_V2 [OF assms(1,2)] decodeMeta_V3 [OF assms(1,2)]
  by (cases "TraceContext m = []"; cases "Web3Receipts m = []")
     (auto simp: encodeMeta_def Let_def split: if_splits)

lemma encodeV1_update_wf [simp]:
  "meta_wf c m \<Longrightarrow> meta_wf c (m\<lparr>State := s\<rparr>)" "meta_wf c m \<Longrightarrow> meta_wf c (m\<lparr>Sequence := q\<rparr>)"
  "meta_wf c m \<Longrightarrow> meta_wf c (m\<lparr>LastErrTs := None\<rparr>)"
  "meta_wf c m \<Longrightarrow> meta_wf c (m\<lparr>Attempts := a\<rparr>)"
  "meta_wf c m \<Longrightarrow> ns \<noteq> 0 \<Longrightarrow> meta_wf c (m\<lparr>LastErrTs := Some ns\<rparr>)"
  by (simp_all add: meta_wf_def)

end
