(* ===== verification/Wal.thy ===== *)
theory Wal
  imports WalMeta
begin

section \<open>The WAL committer: operations\<close>

text \<open>
  Models \<open>wal/committer.go\<close> (configuration, \<open>flushBatch\<close>), \<open>wal/reader.go\<close>
  (reads, state transitions, the high-water mark, the iterations), \<open>wal/gc.go\<close> (retention
  GC) and \<open>wal/dedup.go\<close>.  An operation takes the store \<open>B\<close>, the receipt codec
  \<open>c\<close>, the context reading \<open>x\<close> and the database \<open>d\<close>; one that writes returns
  its result together with the new database.  \<open>time.Now()\<close> is an argument.  The group-commit
  loop around \<open>flushBatch\<close> is the theory \<open>WalLoop\<close>.
\<close>

subsection \<open>Configuration\<close>

record CommitterConfig =
  QueueSize :: int
  BatchMaxEntries :: int
  BatchMaxBytes :: int
  BatchMaxLatency :: int
  DisableSync :: bool
  RetentionBuffer :: u64

definition NewCommitter_cfg :: "CommitterConfig \<Rightarrow> CommitterConfig" where
  "NewCommitter_cfg cfg =
     cfg\<lparr>QueueSize := (if QueueSize cfg \<le> 0 then 4096 else QueueSize cfg),
         BatchMaxEntries := (if BatchMaxEntries cfg \<le> 0 then 256 else BatchMaxEntries cfg),
         BatchMaxBytes := (if BatchMaxBytes cfg \<le> 0 then 5 * 2 ^ 20 else BatchMaxBytes cfg),
         BatchMaxLatency := (if BatchMaxLatency cfg \<le> 0 then 10 * 1000000 else BatchMaxLatency cfg)\<rparr>"

subsection \<open>Transaction primitives\<close>

definition txn_get :: "'db badger \<Rightarrow> 'db \<Rightarrow> bytes \<Rightarrow> wal_error + bytes option" where
  "txn_get B d k = mapE WBadger (bg_get B d k)"

definition txn_set :: "'db badger \<Rightarrow> 'db \<Rightarrow> bytes \<Rightarrow> bytes \<Rightarrow> wal_error + 'db" where
  "txn_set B d k v = mapE WBadger (bg_set B d k v)"

definition txn_delete :: "'db badger \<Rightarrow> 'db \<Rightarrow> bytes \<Rightarrow> wal_error + 'db" where
  "txn_delete B d k = mapE WBadger (bg_delete B d k)"

definition ctx_check :: "ctx \<Rightarrow> wal_error + unit" where
  "ctx_check x = (case x of None \<Rightarrow> Inr () | Some e \<Rightarrow> Inl (WCtx e))"

text \<open>A write operation: the entry check on the context, then one \<open>db.Update\<close>.\<close>

definition ctx_update ::
  "'db badger \<Rightarrow> ctx \<Rightarrow> ('db \<Rightarrow> wal_error + 'db) \<Rightarrow> 'db \<Rightarrow> (wal_error + unit) \<times> 'db" where
  "ctx_update B x body d =
     (case x of Some e \<Rightarrow> (Inl (WCtx e), d) | None \<Rightarrow> db_update B WBadger body d)"

subsection \<open>Reads\<close>

definition walRead :: "'db badger \<Rightarrow> ctx \<Rightarrow> 'db \<Rightarrow> hash \<Rightarrow> wal_error + bytes" where
  "walRead B x d h =
     bindE (ctx_check x) (\<lambda>_.
     bindE (txn_get B d (entryKey h)) (\<lambda>r.
       case r of None \<Rightarrow> Inl ErrNotFound | Some val \<Rightarrow> Inr val))"

definition readMeta :: "'db badger \<Rightarrow> 'r receipt_codec \<Rightarrow> 'db \<Rightarrow> hash \<Rightarrow> wal_error + 'r Meta" where
  "readMeta B c d h =
     bindE (txn_get B d (metaKey h)) (\<lambda>r.
       case r of None \<Rightarrow> Inl ErrNotFound | Some val \<Rightarrow> decodeMeta c val)"

definition MetaState ::
  "'db badger \<Rightarrow> 'r receipt_codec \<Rightarrow> ctx \<Rightarrow> 'db \<Rightarrow> hash \<Rightarrow> wal_error + 'r Meta" where
  "MetaState B c x d h = bindE (ctx_check x) (\<lambda>_. readMeta B c d h)"

definition seq_value :: "bytes \<Rightarrow> wal_error + hash" where
  "seq_value val = (if length val \<noteq> 32 then Inl (WBadLength (length val)) else Inr (un_hash val))"

definition HashAt :: "'db badger \<Rightarrow> ctx \<Rightarrow> 'db \<Rightarrow> u64 \<Rightarrow> wal_error + hash" where
  "HashAt B x d s =
     bindE (ctx_check x) (\<lambda>_.
     bindE (txn_get B d (seqIndexKey s)) (\<lambda>r.
       case r of None \<Rightarrow> Inl ErrNotFound | Some val \<Rightarrow> seq_value val))"

definition HWM :: "'db badger \<Rightarrow> ctx \<Rightarrow> 'db \<Rightarrow> wal_error + u64" where
  "HWM B x d =
     bindE (ctx_check x) (\<lambda>_.
     bindE (txn_get B d hwmKey) (\<lambda>r.
       case r of
         None \<Rightarrow> Inr 0
       | Some val \<Rightarrow> if length val \<noteq> 8 then Inl (WBadLength (length val)) else Inr (un64 val)))"

definition Backlog :: "'db badger \<Rightarrow> 'db \<Rightarrow> u64" where
  "Backlog B d =
     (let hwm = (case bg_get B d hwmKey of
                   Inr (Some val) \<Rightarrow> if length val = 8 then un64 val else 0
                 | _ \<Rightarrow> 0);
          highest = (case bg_rseek B d (prefixSeqIndex # replicate 8 255) of
                       None \<Rightarrow> 0
                     | Some k \<Rightarrow> if length k = 9 \<and> hd k = prefixSeqIndex then seqFromIndexKey k else 0)
      in if highest \<le> hwm then 0 else highest - hwm)"

subsection \<open>State transitions\<close>

definition put_meta ::
  "'db badger \<Rightarrow> 'r receipt_codec \<Rightarrow> 'db \<Rightarrow> hash \<Rightarrow> 'r Meta \<Rightarrow> wal_error + 'db" where
  "put_meta B c d h m = bindE (encodeMeta c m) (\<lambda>b. txn_set B d (metaKey h) b)"

definition walSequence ::
  "'db badger \<Rightarrow> 'r receipt_codec \<Rightarrow> ctx \<Rightarrow> hash \<Rightarrow> u64 \<Rightarrow> 'db \<Rightarrow> (wal_error + unit) \<times> 'db" where
  "walSequence B c x h s =
     ctx_update B x (\<lambda>d.
       bindE (readMeta B c d h) (\<lambda>m.
         if State m = StateSequenced \<and> Sequence m = s then Inr d
         else if State m \<noteq> StatePending then Inl (WBadState (State m) StatePending)
         else
           bindE (put_meta B c d h (m\<lparr>State := StateSequenced, Sequence := s\<rparr>)) (\<lambda>d1.
           bindE (txn_set B d1 (seqIndexKey s) (hash_bytes h)) (\<lambda>d2.
             txn_delete B d2 (inflightKey h)))))"

definition MarkShipped ::
  "'db badger \<Rightarrow> 'r receipt_codec \<Rightarrow> ctx \<Rightarrow> hash \<Rightarrow> 'db \<Rightarrow> (wal_error + unit) \<times> 'db" where
  "MarkShipped B c x h =
     ctx_update B x (\<lambda>d.
       bindE (readMeta B c d h) (\<lambda>m.
         if State m = StateShipped then Inr d
         else if State m \<noteq> StateSequenced \<and> State m \<noteq> StateManual
         then Inl (WBadState (State m) StateSequenced)
         else put_meta B c d h (m\<lparr>State := StateShipped, LastErrTs := None\<rparr>)))"

definition MarkRetry ::
  "'db badger \<Rightarrow> 'r receipt_codec \<Rightarrow> ctx \<Rightarrow> u64 \<Rightarrow> hash \<Rightarrow> 'db \<Rightarrow> (wal_error + unit) \<times> 'db" where
  "MarkRetry B c x now h =
     ctx_update B x (\<lambda>d.
       bindE (readMeta B c d h) (\<lambda>m.
         put_meta B c d h (m\<lparr>Attempts := Attempts m + 1, LastErrTs := Some now\<rparr>)))"

definition MarkManual ::
  "'db badger \<Rightarrow> 'r receipt_codec \<Rightarrow> ctx \<Rightarrow> hash \<Rightarrow> 'db \<Rightarrow> (wal_error + unit) \<times> 'db" where
  "MarkManual B c x h =
     ctx_update B x (\<lambda>d.
       bindE (readMeta B c d h) (\<lambda>m. put_meta B c d h (m\<lparr>State := StateManual\<rparr>)))"

definition AdvanceHWM :: "'db badger \<Rightarrow> ctx \<Rightarrow> u64 \<Rightarrow> 'db \<Rightarrow> (wal_error + unit) \<times> 'db" where
  "AdvanceHWM B x newHWM = ctx_update B x (\<lambda>d. txn_set B d hwmKey (be64 newHWM))"

subsection \<open>Boot reconciliation of the high-water mark\<close>

fun reconcileRun ::
  "'db badger \<Rightarrow> 'r receipt_codec \<Rightarrow> 'db \<Rightarrow> u64 \<Rightarrow> (bytes \<times> bytes) list \<Rightarrow> wal_error + u64" where
  "reconcileRun B c d newHWM [] = Inr newHWM"
| "reconcileRun B c d newHWM ((k, val) # items) =
     (let s = seqFromIndexKey k in
      if s \<noteq> newHWM + 1 then Inr newHWM
      else
        bindE (seq_value val) (\<lambda>h.
        bindE (readMeta B c d h) (\<lambda>m.
          if State m \<noteq> StateShipped then Inr newHWM
          else reconcileRun B c d s items)))"

definition ReconcileHWM ::
  "'db badger \<Rightarrow> 'r receipt_codec \<Rightarrow> ctx \<Rightarrow> 'db \<Rightarrow> (wal_error + u64) \<times> 'db" where
  "ReconcileHWM B c x d =
     (case HWM B x d of
        Inl e \<Rightarrow> (Inl e, d)
      | Inr hwm \<Rightarrow>
          (case reconcileRun B c d hwm (bg_scan B d [prefixSeqIndex] (seqIndexKey (hwm + 1))) of
             Inl e \<Rightarrow> (Inl e, d)
           | Inr newHWM \<Rightarrow>
               if newHWM > hwm then
                 (case AdvanceHWM B x newHWM d of
                    (Inl e, d') \<Rightarrow> (Inl e, d')
                  | (Inr _, d') \<Rightarrow> (Inr newHWM, d'))
               else (Inr newHWM, d)))"

subsection \<open>Iterations\<close>

text \<open>
  A callback has a state \<open>'s\<close>; it returns an optional error that stops the iteration.
  \<open>cx\<close> is the context as read after each callback.
\<close>

record SequencedEntry =
  SE_Seq :: u64
  SE_Hash :: hash

fun iterateInflightLoop ::
  "('s \<Rightarrow> ctx) \<Rightarrow> ('s \<Rightarrow> hash \<Rightarrow> wal_error option \<times> 's) \<Rightarrow> 's \<Rightarrow> bytes list \<Rightarrow> (wal_error + unit) \<times> 's" where
  "iterateInflightLoop cx fn s [] = (Inr (), s)"
| "iterateInflightLoop cx fn s (k # ks) =
     (case fn s (hashFromInflightKey k) of
        (Some e, s') \<Rightarrow> (Inl e, s')
      | (None, s') \<Rightarrow>
          (case cx s' of
             Some e \<Rightarrow> (Inl (WCtx e), s')
           | None \<Rightarrow> iterateInflightLoop cx fn s' ks))"

definition IterateInflight ::
  "'db badger \<Rightarrow> ('s \<Rightarrow> ctx) \<Rightarrow> ('s \<Rightarrow> hash \<Rightarrow> wal_error option \<times> 's) \<Rightarrow> 's \<Rightarrow> 'db \<Rightarrow> (wal_error + unit) \<times> 's" where
  "IterateInflight B cx fn s d =
     (case cx s of
        Some e \<Rightarrow> (Inl (WCtx e), s)
      | None \<Rightarrow> iterateInflightLoop cx fn s (map fst (bg_scan B d [prefixInflight] [prefixInflight])))"

fun iterateSequencedLoop ::
  "'db badger \<Rightarrow> 'r receipt_codec \<Rightarrow> 'db \<Rightarrow> ('s \<Rightarrow> ctx) \<Rightarrow> ('s \<Rightarrow> SequencedEntry \<Rightarrow> wal_error option \<times> 's)
     \<Rightarrow> 's \<Rightarrow> (bytes \<times> bytes) list \<Rightarrow> (wal_error + unit) \<times> 's" where
  "iterateSequencedLoop B c d cx fn s [] = (Inr (), s)"
| "iterateSequencedLoop B c d cx fn s ((k, val) # items) =
     (case bindE (seq_value val) (\<lambda>h. bindE (readMeta B c d h) (\<lambda>m. Inr (h, State m))) of
        Inl e \<Rightarrow> (Inl e, s)
      | Inr (h, st) \<Rightarrow>
          if st \<noteq> StateSequenced then iterateSequencedLoop B c d cx fn s items
          else
            (case fn s \<lparr>SE_Seq = seqFromIndexKey k, SE_Hash = h\<rparr> of
               (Some e, s') \<Rightarrow> (Inl e, s')
             | (None, s') \<Rightarrow>
                 (case cx s' of
                    Some e \<Rightarrow> (Inl (WCtx e), s')
                  | None \<Rightarrow> iterateSequencedLoop B c d cx fn s' items)))"

definition IterateSequenced ::
  "'db badger \<Rightarrow> 'r receipt_codec \<Rightarrow> ('s \<Rightarrow> ctx) \<Rightarrow> u64 \<Rightarrow> ('s \<Rightarrow> SequencedEntry \<Rightarrow> wal_error option \<times> 's)
     \<Rightarrow> 's \<Rightarrow> 'db \<Rightarrow> (wal_error + unit) \<times> 's" where
  "IterateSequenced B c cx fromSeq fn s d =
     (case cx s of
        Some e \<Rightarrow> (Inl (WCtx e), s)
      | None \<Rightarrow>
          let startKey = (if fromSeq = 0 then [prefixSeqIndex] else seqIndexKey (fromSeq + 1)) in
          iterateSequencedLoop B c d cx fn s (bg_scan B d [prefixSeqIndex] startKey))"

subsection \<open>Group commit: one batch\<close>

record 'r submission =
  s_hash :: hash
  s_wire :: bytes
  s_logTimeMicros :: u64
  s_receipts :: "'r list"
  s_traceContext :: bytes

text \<open>The inflight time stamp is written byte by byte: \<open>byte(now >> (56 - 8*i))\<close>.\<close>

definition inflight_ts :: "u64 \<Rightarrow> bytes" where
  "inflight_ts now = map (\<lambda>i. ucast (signed_drop_bit (56 - 8 * i) now)) [0..<8]"

definition fresh_meta :: "'r submission \<Rightarrow> 'r Meta" where
  "fresh_meta s =
     \<lparr>State = StatePending, Sequence = 0, Attempts = 0, LastErrTs = None,
      LogTimeMicros = s_logTimeMicros s, Web3Receipts = s_receipts s,
      TraceContext = s_traceContext s\<rparr>"

definition flushOne ::
  "'db badger \<Rightarrow> 'r receipt_codec \<Rightarrow> u64 \<Rightarrow> 'r submission \<Rightarrow> 'db \<Rightarrow> wal_error + 'db" where
  "flushOne B c now s d =
     bindE (txn_set B d (entryKey (s_hash s)) (s_wire s)) (\<lambda>d1.
     bindE (case readMeta B c d1 (s_hash s) of
              Inr existing \<Rightarrow> Inr existing
            | Inl e \<Rightarrow> if e = ErrNotFound then Inr (fresh_meta s) else Inl e) (\<lambda>existing.
     bindE (put_meta B c d1 (s_hash s) existing) (\<lambda>d2.
       txn_set B d2 (inflightKey (s_hash s)) (inflight_ts now))))"

fun flushSubs ::
  "'db badger \<Rightarrow> 'r receipt_codec \<Rightarrow> u64 \<Rightarrow> 'r submission list \<Rightarrow> 'db \<Rightarrow> wal_error + 'db" where
  "flushSubs B c now [] d = Inr d"
| "flushSubs B c now (s # ss) d = bindE (flushOne B c now s d) (flushSubs B c now ss)"

definition walFlushBatch ::
  "'db badger \<Rightarrow> 'r receipt_codec \<Rightarrow> CommitterConfig \<Rightarrow> u64 \<Rightarrow> 'r submission list \<Rightarrow> 'db
     \<Rightarrow> (wal_error + unit) \<times> 'db" where
  "walFlushBatch B c cfg now batch d =
     (case db_update B WBadger (flushSubs B c now batch) d of
        (Inl e, d') \<Rightarrow> (Inl e, d')
      | (Inr _, d') \<Rightarrow>
          if DisableSync cfg then (Inr (), d')
          else (case bg_sync B d' of
                  Inl e \<Rightarrow> (Inl (WBadger e), d')
                | Inr d'' \<Rightarrow> (Inr (), d'')))"

subsection \<open>Retention GC\<close>

definition gcBatchMax :: nat where "gcBatchMax = 1000"

record gcVictim =
  gv_seq :: u64
  gv_hash :: hash

definition GCDue :: "u64 \<Rightarrow> u64 \<Rightarrow> u64 \<Rightarrow> bool" where
  "GCDue shippedHWM lastReclaimedHWM retentionBuffer =
     (if retentionBuffer = 0 then False else shippedHWM \<ge> lastReclaimedHWM + retentionBuffer)"

text \<open>
  \<open>collectGCBatch\<close> tests \<open>errors.Is(mErr, badger.ErrKeyNotFound)\<close>, but
  \<open>readMeta\<close> has already turned a missing key into \<open>ErrNotFound\<close>; the store's own
  not-found error never reaches the test, so every read failure is returned.
\<close>

fun gcScan ::
  "'db badger \<Rightarrow> 'r receipt_codec \<Rightarrow> 'db \<Rightarrow> u64 \<Rightarrow> gcVictim list \<Rightarrow> u64 \<Rightarrow> (bytes \<times> bytes) list
     \<Rightarrow> wal_error + gcVictim list \<times> u64" where
  "gcScan B c d cutoff batch nextSeq [] = Inr (batch, nextSeq)"
| "gcScan B c d cutoff batch nextSeq ((k, val) # items) =
     (if length batch \<ge> gcBatchMax then Inr (batch, nextSeq)
      else
        let s = seqFromIndexKey k in
        if s > cutoff then Inr (batch, nextSeq)
        else
          bindE (seq_value val) (\<lambda>h.
          bindE (readMeta B c d h) (\<lambda>m.
            if State m \<noteq> StateShipped then gcScan B c d cutoff batch (s + 1) items
            else gcScan B c d cutoff (batch @ [\<lparr>gv_seq = s, gv_hash = h\<rparr>]) (s + 1) items)))"

definition collectGCBatch ::
  "'db badger \<Rightarrow> 'r receipt_codec \<Rightarrow> 'db \<Rightarrow> u64 \<Rightarrow> u64 \<Rightarrow> wal_error + gcVictim list \<times> u64" where
  "collectGCBatch B c d fromSeq cutoff =
     gcScan B c d cutoff [] fromSeq (bg_scan B d [prefixSeqIndex] (seqIndexKey fromSeq))"

fun deleteVictims :: "'db badger \<Rightarrow> gcVictim list \<Rightarrow> 'db \<Rightarrow> wal_error + 'db" where
  "deleteVictims B [] d = Inr d"
| "deleteVictims B (v # vs) d =
     bindE (txn_delete B d (seqIndexKey (gv_seq v))) (\<lambda>d1.
     bindE (txn_delete B d1 (entryKey (gv_hash v))) (\<lambda>d2.
     bindE (txn_delete B d2 (metaKey (gv_hash v))) (deleteVictims B vs)))"

definition deleteGCBatch :: "'db badger \<Rightarrow> gcVictim list \<Rightarrow> 'db \<Rightarrow> (wal_error + unit) \<times> 'db" where
  "deleteGCBatch B batch d = db_update B WBadger (deleteVictims B batch) d"

text \<open>
  The reclaim loop.  \<open>None\<close> means that the fuel ran out; \<open>gc_fuel_enough\<close> in the
  theory \<open>WalGC\<close> gives the bound.  The result carries the number reclaimed so far, as the
  code returns it next to an error.
\<close>

fun gcLoop ::
  "nat \<Rightarrow> 'db badger \<Rightarrow> 'r receipt_codec \<Rightarrow> (nat \<Rightarrow> ctx) \<Rightarrow> u64 \<Rightarrow> nat \<Rightarrow> u64 \<Rightarrow> 'db
     \<Rightarrow> ((wal_error + unit) \<times> nat \<times> 'db) option" where
  "gcLoop 0 B c cx cutoff reclaimed fromSeq d = None"
| "gcLoop (Suc fuel) B c cx cutoff reclaimed fromSeq d =
     (case cx reclaimed of
        Some e \<Rightarrow> Some (Inl (WCtx e), reclaimed, d)
      | None \<Rightarrow>
          (case collectGCBatch B c d fromSeq cutoff of
             Inl e \<Rightarrow> Some (Inl e, reclaimed, d)
           | Inr (batch, nextSeq) \<Rightarrow>
               if batch = [] then Some (Inr (), reclaimed, d)
               else
                 (case deleteGCBatch B batch d of
                    (Inl e, d') \<Rightarrow> Some (Inl e, reclaimed, d')
                  | (Inr _, d') \<Rightarrow>
                      gcLoop fuel B c cx cutoff (reclaimed + length batch) nextSeq d')))"

text \<open>
  \<open>GCBelowRetention\<close> returns the result, the number reclaimed, the database and the new
  scan cursor \<open>gcResumeSeq\<close>.  The value-log rewrites at its end free disk space and do not
  change the stored keys.
\<close>

definition GCBelowRetention ::
  "nat \<Rightarrow> 'db badger \<Rightarrow> 'r receipt_codec \<Rightarrow> CommitterConfig \<Rightarrow> (nat \<Rightarrow> ctx) \<Rightarrow> u64 \<Rightarrow> 'db
     \<Rightarrow> ((wal_error + unit) \<times> nat \<times> 'db \<times> u64) option" where
  "GCBelowRetention fuel B c cfg cx gcResumeSeq d =
     (if RetentionBuffer cfg = 0 then Some (Inr (), 0, d, gcResumeSeq)
      else
        (case HWM B (cx 0) d of
           Inl e \<Rightarrow> Some (Inl e, 0, d, gcResumeSeq)
         | Inr hwm \<Rightarrow>
             if hwm \<le> RetentionBuffer cfg then Some (Inr (), 0, d, gcResumeSeq)
             else
               let cutoff = hwm - RetentionBuffer cfg in
               (case gcLoop fuel B c cx cutoff 0 gcResumeSeq d of
                  None \<Rightarrow> None
                | Some (Inl e, n, d') \<Rightarrow> Some (Inl e, n, d', gcResumeSeq)
                | Some (Inr _, n, d') \<Rightarrow> Some (Inr (), n, d', cutoff))))"

subsection \<open>Tessera's deduplicator\<close>

definition dedupGet :: "'db badger \<Rightarrow> ctx \<Rightarrow> 'db \<Rightarrow> bytes \<Rightarrow> wal_error + u64 option" where
  "dedupGet B x d identity =
     bindE (ctx_check x) (\<lambda>_.
       if length identity = 0 then Inl (WCallback ''empty identity'')
       else
         bindE (txn_get B d (tesseraDedupKey identity)) (\<lambda>r.
           case r of
             None \<Rightarrow> Inr None
           | Some val \<Rightarrow>
               if length val \<noteq> 8 then Inl (WBadLength (length val)) else Inr (Some (un64 val))))"

definition dedupSet :: "'db badger \<Rightarrow> ctx \<Rightarrow> bytes \<Rightarrow> u64 \<Rightarrow> 'db \<Rightarrow> (wal_error + unit) \<times> 'db" where
  "dedupSet B x identity idx d =
     (case x of
        Some e \<Rightarrow> (Inl (WCtx e), d)
      | None \<Rightarrow>
          if length identity = 0 then (Inl (WCallback ''empty identity''), d)
          else db_update B WBadger (\<lambda>d. txn_set B d (tesseraDedupKey identity) (be64 idx)) d)"

end
