(* ===== verification/WalView.thy ===== *)
theory WalView
  imports Wal
begin

section \<open>The WAL's abstract view and its refinement\<close>

text \<open>
  The WAL promises its clients five tables: the wire bytes and the meta record of every hash, the
  hash at every sequence number, the set of inflight breadcrumbs and the high-water mark.
  \<open>view_of\<close> reads them off the stored keys.  For every transition of the committer an
  operation on the view states what the transition does, and a refinement lemma shows that the
  byte-level code does exactly that when it succeeds, and nothing when it fails.
\<close>

record 'r wal_view =
  v_wire :: "hash \<rightharpoonup> bytes"
  v_meta :: "hash \<rightharpoonup> 'r Meta"
  v_seq :: "u64 \<rightharpoonup> hash"
  v_inflight :: "hash set"
  v_hwm :: u64
  v_dedup :: "bytes \<rightharpoonup> u64"

definition view_of :: "'r receipt_codec \<Rightarrow> kv \<Rightarrow> 'r wal_view" where
  "view_of c m =
     \<lparr>v_wire = (\<lambda>h. m (entryKey h)),
      v_meta = (\<lambda>h. case m (metaKey h) of
                 None \<Rightarrow> None
               | Some b \<Rightarrow> (case decodeMeta c b of Inl _ \<Rightarrow> None | Inr x \<Rightarrow> Some x)),
      v_seq = (\<lambda>s. map_option un_hash (m (seqIndexKey s))),
      v_inflight = {h. m (inflightKey h) \<noteq> None},
      v_hwm = (case m hwmKey of None \<Rightarrow> 0 | Some v \<Rightarrow> un64 v),
      v_dedup = (\<lambda>i. map_option un64 (m (tesseraDedupKey i)))\<rparr>"

definition wf_kv :: "'r receipt_codec \<Rightarrow> kv \<Rightarrow> bool" where
  "wf_kv c m \<longleftrightarrow>
     (\<forall>h b. m (metaKey h) = Some b \<longrightarrow> (\<exists>x. decodeMeta c b = Inr x \<and> meta_wf c x)) \<and>
     (\<forall>s v. m (seqIndexKey s) = Some v \<longrightarrow> length v = 32) \<and>
     (\<forall>k. m k \<noteq> None \<and> prefix [prefixSeqIndex] k \<longrightarrow> (\<exists>s. k = seqIndexKey s)) \<and>
     (\<forall>k. m k \<noteq> None \<and> prefix [prefixInflight] k \<longrightarrow> (\<exists>h. k = inflightKey h)) \<and>
     (\<forall>v. m hwmKey = Some v \<longrightarrow> length v = 8) \<and>
     (\<forall>i v. m (tesseraDedupKey i) = Some v \<longrightarrow> length v = 8)"

subsection \<open>Abstract transitions\<close>

definition av_submit :: "'r submission \<Rightarrow> 'r wal_view \<Rightarrow> 'r wal_view" where
  "av_submit s v =
     v\<lparr>v_wire := (v_wire v)(s_hash s \<mapsto> s_wire s),
       v_meta := (v_meta v)(s_hash s \<mapsto>
         (case v_meta v (s_hash s) of None \<Rightarrow> fresh_meta s | Some m \<Rightarrow> m)),
       v_inflight := insert (s_hash s) (v_inflight v)\<rparr>"

definition av_sequence :: "hash \<Rightarrow> u64 \<Rightarrow> 'r Meta \<Rightarrow> 'r wal_view \<Rightarrow> 'r wal_view" where
  "av_sequence h s m v =
     v\<lparr>v_meta := (v_meta v)(h \<mapsto> m\<lparr>State := StateSequenced, Sequence := s\<rparr>),
       v_seq := (v_seq v)(s \<mapsto> h),
       v_inflight := v_inflight v - {h}\<rparr>"

definition av_meta :: "hash \<Rightarrow> 'r Meta \<Rightarrow> 'r wal_view \<Rightarrow> 'r wal_view" where
  "av_meta h m v = v\<lparr>v_meta := (v_meta v)(h \<mapsto> m)\<rparr>"

definition av_collect :: "gcVictim \<Rightarrow> 'r wal_view \<Rightarrow> 'r wal_view" where
  "av_collect g v =
     v\<lparr>v_wire := (v_wire v)(gv_hash g := None),
       v_meta := (v_meta v)(gv_hash g := None),
       v_seq := (v_seq v)(gv_seq g := None)\<rparr>"

subsection \<open>Reading the view off a key-value map\<close>

lemma view_upd [simp]:
  "view_of c (m(entryKey h \<mapsto> w)) = (view_of c m)\<lparr>v_wire := (v_wire (view_of c m))(h \<mapsto> w)\<rparr>"
  "view_of c (m(seqIndexKey s \<mapsto> v)) = (view_of c m)\<lparr>v_seq := (v_seq (view_of c m))(s \<mapsto> un_hash v)\<rparr>"
  "view_of c (m(inflightKey h \<mapsto> v)) =
     (view_of c m)\<lparr>v_inflight := insert h (v_inflight (view_of c m))\<rparr>"
  "view_of c (m(hwmKey \<mapsto> v)) = (view_of c m)\<lparr>v_hwm := un64 v\<rparr>"
  "view_of c (m(tesseraDedupKey i \<mapsto> v)) =
     (view_of c m)\<lparr>v_dedup := (v_dedup (view_of c m))(i \<mapsto> un64 v)\<rparr>"
  "view_of c (m(entryKey h := None)) = (view_of c m)\<lparr>v_wire := (v_wire (view_of c m))(h := None)\<rparr>"
  "view_of c (m(metaKey h := None)) = (view_of c m)\<lparr>v_meta := (v_meta (view_of c m))(h := None)\<rparr>"
  "view_of c (m(seqIndexKey s := None)) = (view_of c m)\<lparr>v_seq := (v_seq (view_of c m))(s := None)\<rparr>"
  "view_of c (m(inflightKey h := None)) =
     (view_of c m)\<lparr>v_inflight := v_inflight (view_of c m) - {h}\<rparr>"
  by (auto simp: view_of_def fun_eq_iff)

lemma view_upd_meta:
  "decodeMeta c b = Inr x \<Longrightarrow>
   view_of c (m(metaKey h \<mapsto> b)) = (view_of c m)\<lparr>v_meta := (v_meta (view_of c m))(h \<mapsto> x)\<rparr>"
  by (auto simp: view_of_def fun_eq_iff)

lemma view_meta_None: "wf_kv c m \<Longrightarrow> v_meta (view_of c m) h = None \<longleftrightarrow> m (metaKey h) = None"
  by (fastforce simp: view_of_def wf_kv_def split: option.splits sum.splits)

lemma prefix_key_iff:
  "\<not> prefix [prefixSeqIndex] (entryKey h)" "\<not> prefix [prefixSeqIndex] (metaKey h)"
  "\<not> prefix [prefixSeqIndex] (inflightKey h)" "\<not> prefix [prefixSeqIndex] hwmKey"
  "\<not> prefix [prefixSeqIndex] (tesseraDedupKey i)"
  "\<not> prefix [prefixInflight] (entryKey h)" "\<not> prefix [prefixInflight] (metaKey h)"
  "\<not> prefix [prefixInflight] (seqIndexKey s)" "\<not> prefix [prefixInflight] hwmKey"
  "\<not> prefix [prefixInflight] (tesseraDedupKey i)"
  by (simp_all add: key_defs)

lemma wf_kv_upd:
  assumes "wf_kv c m"
  shows "wf_kv c (m(entryKey h \<mapsto> w))"
    and "length v = 32 \<Longrightarrow> wf_kv c (m(seqIndexKey s \<mapsto> v))"
    and "wf_kv c (m(inflightKey h \<mapsto> v))"
    and "length v = 8 \<Longrightarrow> wf_kv c (m(hwmKey \<mapsto> v))"
    and "length v = 8 \<Longrightarrow> wf_kv c (m(tesseraDedupKey i \<mapsto> v))"
    and "decodeMeta c b = Inr x \<Longrightarrow> meta_wf c x \<Longrightarrow> wf_kv c (m(metaKey h \<mapsto> b))"
    and "wf_kv c (m(k := None))"
  using assms unfolding wf_kv_def
  by (auto simp: prefix_key_iff simp del: prefixSeqIndex_def prefixInflight_def)

lemma wf_kvD:
  assumes "wf_kv c m"
  shows "m (metaKey h) = Some b \<Longrightarrow> \<exists>x. decodeMeta c b = Inr x \<and> meta_wf c x"
    and "m (seqIndexKey s) = Some v \<Longrightarrow> length v = 32"
    and "m k = Some v \<Longrightarrow> prefix [prefixSeqIndex] k \<Longrightarrow> \<exists>s. k = seqIndexKey s"
    and "m k = Some v \<Longrightarrow> prefix [prefixInflight] k \<Longrightarrow> \<exists>h. k = inflightKey h"
    and "m hwmKey = Some v \<Longrightarrow> length v = 8"
    and "m (tesseraDedupKey i) = Some v \<Longrightarrow> length v = 8"
  using assms unfolding wf_kv_def by blast+

lemma wf_kv_empty [simp]: "wf_kv c Map.empty"
  by (simp add: wf_kv_def)

subsection \<open>The committer refines the view\<close>

locale wal_store = badger_store B content for B :: "'db badger" and content +
  fixes c :: "'r receipt_codec"
  assumes codec: "codec_ok c"
begin

lemma txn_get_content: "txn_get B d k = Inr r \<Longrightarrow> r = content d k"
  by (auto simp: txn_get_def dest: get_law)

lemma txn_set_content: "txn_set B d k v = Inr d' \<Longrightarrow> content d' = (content d)(k \<mapsto> v)"
  by (auto simp: txn_set_def dest: set_law)

lemma txn_delete_content: "txn_delete B d k = Inr d' \<Longrightarrow> content d' = (content d)(k := None)"
  by (auto simp: txn_delete_def dest: delete_law)

lemmas txn_content = txn_get_content txn_set_content txn_delete_content

lemma readMeta_view:
  assumes "wf_kv c (content d)" "readMeta B c d h = Inr m"
  shows "v_meta (view_of c (content d)) h = Some m \<and> meta_wf c m"
proof -
  obtain r where r: "txn_get B d (metaKey h) = Inr r"
    and k: "(case r of None \<Rightarrow> Inl ErrNotFound | Some val \<Rightarrow> decodeMeta c val) = Inr m"
    using assms(2) by (auto simp: readMeta_def bindE_eq_Inr)
  from k obtain val where "r = Some val" and dec: "decodeMeta c val = Inr m" by (cases r) auto
  with txn_get_content [OF r] have val: "content d (metaKey h) = Some val" by simp
  with wf_kvD(1) [OF assms(1) val] dec have "meta_wf c m" by auto
  with val dec show ?thesis by (simp add: view_of_def)
qed

lemma readMeta_NotFound:
  assumes "wf_kv c (content d)" "readMeta B c d h = Inl ErrNotFound"
  shows "v_meta (view_of c (content d)) h = None"
proof -
  obtain r where r: "txn_get B d (metaKey h) = Inr r"
    and k: "(case r of None \<Rightarrow> Inl ErrNotFound | Some val \<Rightarrow> decodeMeta c val) = Inl ErrNotFound"
    using assms(2) by (auto simp: readMeta_def bindE_eq_Inl txn_get_def mapE_eq_Inl)
  from txn_get_content [OF r] have "r = content d (metaKey h)" .
  moreover have "r = None"
  proof (cases r)
    case (Some b)
    then have "\<exists>x. decodeMeta c b = Inr x"
      using wf_kvD(1) [OF assms(1), of h b] \<open>r = content d (metaKey h)\<close> by auto
    with k Some show ?thesis by auto
  qed
  ultimately show ?thesis by (simp add: view_of_def)
qed

lemma put_meta_view:
  assumes "put_meta B c d h m = Inr d'" "meta_wf c m" "wf_kv c (content d)"
  shows "wf_kv c (content d')" "view_of c (content d') = av_meta h m (view_of c (content d))"
proof -
  obtain b where b: "encodeMeta c m = Inr b" and d': "content d' = (content d)(metaKey h \<mapsto> b)"
    using assms(1) by (auto simp: put_meta_def bindE_eq_Inr dest: txn_set_content)
  have "decodeMeta c b = Inr m" by (rule decode_encode_meta [OF codec assms(2) b])
  then show "wf_kv c (content d')" "view_of c (content d') = av_meta h m (view_of c (content d))"
    using d' assms(2,3) by (simp_all add: wf_kv_upd(6) view_upd_meta av_meta_def)
qed

lemma ctx_update_Inr:
  "ctx_update B x body d = (Inr u, d') \<Longrightarrow> x = None \<and> (\<exists>d1. body d = Inr d1 \<and> content d' = content d1)"
  by (auto simp: ctx_update_def dest: update_content split: option.splits)

lemma ctx_update_Inl: "ctx_update B x body d = (Inl e, d') \<Longrightarrow> d' = d"
  by (auto simp: ctx_update_def dest: db_update_Inl split: option.splits)

lemma Sequence_refines:
  assumes "walSequence B c x h s d = (Inr u, d')" "wf_kv c (content d)"
  shows "wf_kv c (content d') \<and> (\<exists>m. v_meta (view_of c (content d)) h = Some m \<and>
    (State m = StateSequenced \<and> Sequence m = s \<and> content d' = content d \<or>
     State m = StatePending \<and>
       view_of c (content d') = av_sequence h s m (view_of c (content d))))"
proof -
  obtain d3 where c3: "content d' = content d3" and body:
    "bindE (readMeta B c d h) (\<lambda>m.
         if State m = StateSequenced \<and> Sequence m = s then Inr d
         else if State m \<noteq> StatePending then Inl (WBadState (State m) StatePending)
         else
           bindE (put_meta B c d h (m\<lparr>State := StateSequenced, Sequence := s\<rparr>)) (\<lambda>d1.
           bindE (txn_set B d1 (seqIndexKey s) (hash_bytes h)) (\<lambda>d2.
             txn_delete B d2 (inflightKey h)))) = Inr d3"
    using ctx_update_Inr assms(1) unfolding walSequence_def by blast
  then obtain m where m: "readMeta B c d h = Inr m" by (auto simp: bindE_eq_Inr)
  note rm = readMeta_view [OF assms(2) m]
  show ?thesis
  proof (cases "State m = StateSequenced \<and> Sequence m = s")
    case True
    with body m have "d3 = d" by simp
    with True rm c3 assms(2) show ?thesis by auto
  next
    case False
    then obtain d1 d2 where st: "State m = StatePending"
      and d1: "put_meta B c d h (m\<lparr>State := StateSequenced, Sequence := s\<rparr>) = Inr d1"
      and d2: "txn_set B d1 (seqIndexKey s) (hash_bytes h) = Inr d2"
      and d3: "txn_delete B d2 (inflightKey h) = Inr d3"
      using body m by (auto simp: bindE_eq_Inr split: if_splits)
    have wf: "meta_wf c (m\<lparr>State := StateSequenced, Sequence := s\<rparr>)" using rm by simp
    note p = put_meta_view [OF d1 wf assms(2)]
    have v: "view_of c (content d') = av_sequence h s m (view_of c (content d))"
      using p(2) txn_content(2) [OF d2] txn_content(3) [OF d3] c3
      by (simp add: av_meta_def av_sequence_def)
    have "wf_kv c (content d')"
      using p(1) txn_content(2) [OF d2] txn_content(3) [OF d3] c3 by (simp add: wf_kv_upd)
    with v rm st show ?thesis by auto
  qed
qed

lemma MarkShipped_refines:
  assumes "MarkShipped B c x h d = (Inr u, d')" "wf_kv c (content d)"
  shows "wf_kv c (content d') \<and> (\<exists>m. v_meta (view_of c (content d)) h = Some m \<and>
    (State m = StateShipped \<and> content d' = content d \<or>
     (State m = StateSequenced \<or> State m = StateManual) \<and>
       view_of c (content d') =
         av_meta h (m\<lparr>State := StateShipped, LastErrTs := None\<rparr>) (view_of c (content d))))"
proof -
  obtain d3 where c3: "content d' = content d3" and body:
    "bindE (readMeta B c d h) (\<lambda>m.
         if State m = StateShipped then Inr d
         else if State m \<noteq> StateSequenced \<and> State m \<noteq> StateManual
         then Inl (WBadState (State m) StateSequenced)
         else put_meta B c d h (m\<lparr>State := StateShipped, LastErrTs := None\<rparr>)) = Inr d3"
    using ctx_update_Inr assms(1) unfolding MarkShipped_def by blast
  then obtain m where m: "readMeta B c d h = Inr m" by (auto simp: bindE_eq_Inr)
  note rm = readMeta_view [OF assms(2) m]
  show ?thesis
  proof (cases "State m = StateShipped")
    case True
    with body m have "d3 = d" by simp
    with True rm c3 assms(2) show ?thesis by auto
  next
    case False
    then have st: "State m = StateSequenced \<or> State m = StateManual"
      and d1: "put_meta B c d h (m\<lparr>State := StateShipped, LastErrTs := None\<rparr>) = Inr d3"
      using body m by (auto split: if_splits)
    have wf: "meta_wf c (m\<lparr>State := StateShipped, LastErrTs := None\<rparr>)" using rm by simp
    from put_meta_view [OF d1 wf assms(2)] st rm c3 show ?thesis by auto
  qed
qed

lemma MarkRetry_refines:
  assumes "MarkRetry B c x now h d = (Inr u, d')" "wf_kv c (content d)" "now \<noteq> 0"
  shows "wf_kv c (content d') \<and> (\<exists>m. v_meta (view_of c (content d)) h = Some m \<and>
     view_of c (content d') =
       av_meta h (m\<lparr>Attempts := Attempts m + 1, LastErrTs := Some now\<rparr>) (view_of c (content d)))"
proof -
  obtain d3 where c3: "content d' = content d3" and body: "bindE (readMeta B c d h) (\<lambda>m.
      put_meta B c d h (m\<lparr>Attempts := Attempts m + 1, LastErrTs := Some now\<rparr>)) = Inr d3"
    using ctx_update_Inr assms(1) unfolding MarkRetry_def by blast
  then obtain m where m: "readMeta B c d h = Inr m"
    and d1: "put_meta B c d h (m\<lparr>Attempts := Attempts m + 1, LastErrTs := Some now\<rparr>) = Inr d3"
    by (auto simp: bindE_eq_Inr)
  note rm = readMeta_view [OF assms(2) m]
  have wf: "meta_wf c (m\<lparr>Attempts := Attempts m + 1, LastErrTs := Some now\<rparr>)" using rm assms(3) by simp
  from put_meta_view [OF d1 wf assms(2)] rm c3 show ?thesis by auto
qed

lemma MarkManual_refines:
  assumes "MarkManual B c x h d = (Inr u, d')" "wf_kv c (content d)"
  shows "wf_kv c (content d') \<and> (\<exists>m. v_meta (view_of c (content d)) h = Some m \<and>
     view_of c (content d') = av_meta h (m\<lparr>State := StateManual\<rparr>) (view_of c (content d)))"
proof -
  obtain d3 where c3: "content d' = content d3"
    and body: "bindE (readMeta B c d h) (\<lambda>m. put_meta B c d h (m\<lparr>State := StateManual\<rparr>)) = Inr d3"
    using ctx_update_Inr assms(1) unfolding MarkManual_def by blast
  then obtain m where m: "readMeta B c d h = Inr m"
    and d1: "put_meta B c d h (m\<lparr>State := StateManual\<rparr>) = Inr d3"
    by (auto simp: bindE_eq_Inr)
  note rm = readMeta_view [OF assms(2) m]
  have wf: "meta_wf c (m\<lparr>State := StateManual\<rparr>)" using rm by simp
  from put_meta_view [OF d1 wf assms(2)] rm c3 show ?thesis by auto
qed

lemma AdvanceHWM_refines:
  assumes "AdvanceHWM B x n d = (Inr u, d')" "wf_kv c (content d)"
  shows "wf_kv c (content d') \<and> view_of c (content d') = (view_of c (content d))\<lparr>v_hwm := n\<rparr>"
proof -
  obtain d1 where "txn_set B d hwmKey (be64 n) = Inr d1" "content d' = content d1"
    using ctx_update_Inr assms(1) unfolding AdvanceHWM_def by blast
  then show ?thesis using assms(2) by (auto dest!: txn_set_content simp: wf_kv_upd)
qed

lemma dedupSet_refines:
  assumes "dedupSet B x i n d = (Inr u, d')" "wf_kv c (content d)"
  shows "wf_kv c (content d') \<and> i \<noteq> [] \<and>
    view_of c (content d') = (view_of c (content d))\<lparr>v_dedup := (v_dedup (view_of c (content d)))(i \<mapsto> n)\<rparr>"
proof -
  obtain d1 where "txn_set B d (tesseraDedupKey i) (be64 n) = Inr d1" "content d' = content d1" "i \<noteq> []"
    using update_content assms(1) unfolding dedupSet_def by (fastforce split: option.splits if_splits)
  then show ?thesis using assms(2) by (auto dest!: txn_set_content simp: wf_kv_upd)
qed

end

end
