(* ===== verification/WalInv.thy ===== *)
theory WalInv
  imports WalView
begin

section \<open>The WAL as a state machine: reachable states and invariants\<close>

text \<open>
  One rule per public write operation of the committer makes the step relation \<open>wal_step\<close>;
  \<open>wal_reach\<close> are the databases it reaches from an empty one, in any order of operations,
  with any results (a failed operation is a step too).  The invariant \<open>wal_inv\<close> is what
  \<open>wal/keyspace.go\<close> documents: wire bytes and meta records coexist, and an index entry
  points at a record that carries its sequence number and has left \<open>StatePending\<close>.
\<close>

definition indexed_states :: "EntryState set" where
  "indexed_states = {StateSequenced, StateShipped, StateManual}"

definition wal_inv :: "'r wal_view \<Rightarrow> bool" where
  "wal_inv v \<longleftrightarrow>
     dom (v_wire v) = dom (v_meta v) \<and>
     (\<forall>s h. v_seq v s = Some h \<longrightarrow>
        (\<exists>m. v_meta v h = Some m \<and> Sequence m = s \<and> State m \<in> indexed_states))"

text \<open>Submissions whose record fits the length fields of the meta encoding.\<close>

definition sub_ok :: "'r receipt_codec \<Rightarrow> 'r submission \<Rightarrow> bool" where
  "sub_ok c s \<longleftrightarrow> meta_wf c (fresh_meta s)"

inductive wal_step ::
  "'db badger \<Rightarrow> 'r receipt_codec \<Rightarrow> CommitterConfig \<Rightarrow> 'db \<Rightarrow> 'db \<Rightarrow> bool"
  for B c cfg where
  submit: "\<forall>s \<in> set batch. sub_ok c s \<Longrightarrow> walFlushBatch B c cfg now batch d = (r, d') \<Longrightarrow>
     wal_step B c cfg d d'"
| seq: "walSequence B c x h s d = (r, d') \<Longrightarrow> wal_step B c cfg d d'"
| shipped: "MarkShipped B c x h d = (r, d') \<Longrightarrow> wal_step B c cfg d d'"
| retry: "now \<noteq> 0 \<Longrightarrow> MarkRetry B c x now h d = (r, d') \<Longrightarrow> wal_step B c cfg d d'"
| manual: "MarkManual B c x h d = (r, d') \<Longrightarrow> wal_step B c cfg d d'"
| advance: "AdvanceHWM B x n d = (r, d') \<Longrightarrow> wal_step B c cfg d d'"
| reconcile: "ReconcileHWM B c x d = (r, d') \<Longrightarrow> wal_step B c cfg d d'"
| gc: "GCBelowRetention fuel B c cfg cx cur d = Some (r, n, d', cur') \<Longrightarrow> wal_step B c cfg d d'"
| dedup: "dedupSet B x i n d = (r, d') \<Longrightarrow> wal_step B c cfg d d'"

inductive wal_reach ::
  "'db badger \<Rightarrow> ('db \<Rightarrow> kv) \<Rightarrow> 'r receipt_codec \<Rightarrow> CommitterConfig \<Rightarrow> 'db \<Rightarrow> bool"
  for B content c cfg where
  start: "content d = Map.empty \<Longrightarrow> wal_reach B content c cfg d"
| step: "wal_reach B content c cfg d \<Longrightarrow> wal_step B c cfg d d' \<Longrightarrow> wal_reach B content c cfg d'"

subsection \<open>The invariant on views\<close>

lemma wal_invI:
  assumes "dom (v_wire v) = dom (v_meta v)"
    and "\<And>s h. v_seq v s = Some h \<Longrightarrow>
      \<exists>m. v_meta v h = Some m \<and> Sequence m = s \<and> State m \<in> indexed_states"
  shows "wal_inv v"
  using assms by (simp add: wal_inv_def)

lemma wal_invD:
  assumes "wal_inv v"
  shows "dom (v_wire v) = dom (v_meta v)"
    and "v_seq v s = Some h \<Longrightarrow> \<exists>m. v_meta v h = Some m \<and> Sequence m = s \<and> State m \<in> indexed_states"
  using assms by (auto simp: wal_inv_def)

lemma wal_inv_submit: "wal_inv v \<Longrightarrow> wal_inv (av_submit s v)"
  by (fastforce simp: wal_inv_def av_submit_def split: option.splits)

lemma wal_inv_submits: "wal_inv v \<Longrightarrow> wal_inv (fold av_submit ss v)"
  by (induction ss arbitrary: v) (auto simp: wal_inv_submit)

lemma wal_inv_sequence:
  "wal_inv v \<Longrightarrow> v_meta v h = Some m \<Longrightarrow> State m = StatePending \<Longrightarrow> wal_inv (av_sequence h s m v)"
  by (fastforce simp: wal_inv_def av_sequence_def indexed_states_def)

lemma wal_inv_meta:
  assumes "wal_inv v" "v_meta v h = Some m" "Sequence m' = Sequence m"
    and "State m \<in> indexed_states \<Longrightarrow> State m' \<in> indexed_states"
  shows "wal_inv (av_meta h m' v)"
  using assms by (fastforce simp: wal_inv_def av_meta_def)

lemma wal_inv_other [simp]:
  "wal_inv (v\<lparr>v_hwm := n\<rparr>) = wal_inv v" "wal_inv (v\<lparr>v_dedup := q\<rparr>) = wal_inv v"
  by (simp_all add: wal_inv_def)

text \<open>What \<open>collectGCBatch\<close> returns: shipped, indexed entries of the requested range.\<close>

definition victim_ok :: "'r wal_view \<Rightarrow> u64 \<Rightarrow> gcVictim \<Rightarrow> bool" where
  "victim_ok v cutoff g \<longleftrightarrow> gv_seq g \<le> cutoff \<and> v_seq v (gv_seq g) = Some (gv_hash g) \<and>
     (\<exists>m. v_meta v (gv_hash g) = Some m \<and> State m = StateShipped)"

definition sole_ref :: "gcVictim \<Rightarrow> 'r wal_view \<Rightarrow> bool" where
  "sole_ref g v \<longleftrightarrow> (\<forall>s. v_seq v s = Some (gv_hash g) \<longrightarrow> s = gv_seq g)"

lemma sole_ref_collect: "sole_ref g v \<Longrightarrow> sole_ref g (av_collect g' v)"
  by (simp add: sole_ref_def av_collect_def)

lemma sole_ref_indexed: "wal_inv v \<Longrightarrow> v_seq v (gv_seq g) = Some (gv_hash g) \<Longrightarrow> sole_ref g v"
  unfolding sole_ref_def by (metis option.inject wal_invD(2))

lemma wal_inv_collect: "wal_inv v \<Longrightarrow> sole_ref g v \<Longrightarrow> wal_inv (av_collect g v)"
  unfolding wal_inv_def sole_ref_def av_collect_def by (auto; fastforce)

lemma wal_inv_collects:
  "wal_inv v \<Longrightarrow> (\<forall>g \<in> set gs. sole_ref g v) \<Longrightarrow> wal_inv (fold av_collect gs v)"
  by (induction gs arbitrary: v) (auto simp: wal_inv_collect sole_ref_collect)

lemma collects_frame:
  "v_hwm (fold av_collect gs v) = v_hwm v" "v_dedup (fold av_collect gs v) = v_dedup v"
  "v_inflight (fold av_collect gs v) = v_inflight v"
  by (induction gs arbitrary: v) (auto simp: av_collect_def)

lemma collects_tables:
  "v_meta (fold av_collect gs v) h = (if h \<in> gv_hash ` set gs then None else v_meta v h)"
  "v_wire (fold av_collect gs v) h = (if h \<in> gv_hash ` set gs then None else v_wire v h)"
  "v_seq (fold av_collect gs v) s = (if s \<in> gv_seq ` set gs then None else v_seq v s)"
  by (induction gs arbitrary: v) (auto simp: av_collect_def)

lemma victim_ok_collects: "victim_ok (fold av_collect gs v) cutoff g \<Longrightarrow> victim_ok v cutoff g"
  by (auto simp: victim_ok_def collects_tables split: if_splits)

lemma gc_victims_below:
  assumes "wal_inv v" "\<forall>g \<in> set gs. victim_ok v cutoff g \<and> Q" "h \<in> gv_hash ` set gs"
  shows "\<exists>m. v_meta v h = Some m \<and> State m = StateShipped \<and> v_seq v (Sequence m) = Some h \<and>
    Sequence m \<in> gv_seq ` set gs \<and> Q \<and> Sequence m \<le> cutoff"
proof -
  obtain g where g: "g \<in> set gs" "h = gv_hash g" using assms(3) by blast
  with assms(2) have vo: "victim_ok v cutoff g" Q by auto
  with wal_invD(2) [OF assms(1), of "gv_seq g" h] g show ?thesis by (auto simp: victim_ok_def)
qed

subsection \<open>The abstract machine\<close>

text \<open>
  What the operations may do to the view, with \<open>R\<close> the retention buffer.  This is the
  contract the rest of the ledger programs against.
\<close>

inductive wal_astep :: "u64 \<Rightarrow> 'r wal_view \<Rightarrow> 'r wal_view \<Rightarrow> bool" for R where
  stutter: "wal_astep R v v"
| submit: "wal_astep R v (fold av_submit batch v)"
| sequence: "v_meta v h = Some m \<Longrightarrow> State m = StatePending \<Longrightarrow> wal_astep R v (av_sequence h s m v)"
| ship: "v_meta v h = Some m \<Longrightarrow> State m = StateSequenced \<or> State m = StateManual \<Longrightarrow>
    wal_astep R v (av_meta h (m\<lparr>State := StateShipped, LastErrTs := None\<rparr>) v)"
| retry: "v_meta v h = Some m \<Longrightarrow>
    wal_astep R v (av_meta h (m\<lparr>Attempts := Attempts m + 1, LastErrTs := Some now\<rparr>) v)"
| manual: "v_meta v h = Some m \<Longrightarrow> wal_astep R v (av_meta h (m\<lparr>State := StateManual\<rparr>) v)"
| hwm: "wal_astep R v (v\<lparr>v_hwm := n\<rparr>)"
| collect: "\<forall>g \<in> set gs. victim_ok v (v_hwm v - R) g \<and> R < v_hwm v \<Longrightarrow>
    wal_astep R v (fold av_collect gs v)"
| dedup: "wal_astep R v (v\<lparr>v_dedup := (v_dedup v)(i \<mapsto> n)\<rparr>)"

lemma wal_astep_inv: "wal_astep R v v' \<Longrightarrow> wal_inv v \<Longrightarrow> wal_inv v'"
proof (induction rule: wal_astep.induct)
  case (collect gs v)
  then show ?case using sole_ref_indexed [OF collect(2)] by (intro wal_inv_collects) (auto simp: victim_ok_def)
qed (auto simp: wal_inv_submits wal_inv_sequence indexed_states_def intro!: wal_inv_meta)

text \<open>The life cycle of one record: what a step may change, and in which order.\<close>

definition legal_state :: "EntryState \<Rightarrow> EntryState \<Rightarrow> bool" where
  "legal_state a b \<longleftrightarrow> b = a \<or> (a = StatePending \<and> b = StateSequenced) \<or>
     ((a = StateSequenced \<or> a = StateManual) \<and> b = StateShipped) \<or> b = StateManual"

definition meta_next :: "'r Meta \<Rightarrow> 'r Meta \<Rightarrow> bool" where
  "meta_next m m' \<longleftrightarrow>
     LogTimeMicros m' = LogTimeMicros m \<and> Web3Receipts m' = Web3Receipts m \<and>
     TraceContext m' = TraceContext m \<and> legal_state (State m) (State m') \<and>
     (Sequence m' \<noteq> Sequence m \<longrightarrow> State m = StatePending \<and> State m' = StateSequenced)"

lemma submits_meta:
  "v_meta (fold av_submit ss v) h =
     (case v_meta v h of
        Some m \<Rightarrow> Some m
      | None \<Rightarrow> map_option fresh_meta (find (\<lambda>s. s_hash s = h) ss))"
  by (induction ss arbitrary: v) (auto simp: av_submit_def split: option.splits)

lemma submits_wire:
  "v_wire (fold av_submit ss v) h =
     (case find (\<lambda>s. s_hash s = h) (rev ss) of Some s \<Rightarrow> Some (s_wire s) | None \<Rightarrow> v_wire v h)"
proof (induction ss rule: rev_induct)
  case (snoc s ss)
  then show ?case by (auto simp: av_submit_def)
qed simp

lemma submits_other:
  "v_inflight (fold av_submit ss v) = s_hash ` set ss \<union> v_inflight v"
  "v_seq (fold av_submit ss v) = v_seq v" "v_hwm (fold av_submit ss v) = v_hwm v"
  "v_dedup (fold av_submit ss v) = v_dedup v"
  by (induction ss arbitrary: v) (auto simp: av_submit_def)

lemma meta_next_refl [simp]: "meta_next m m"
  by (simp add: meta_next_def legal_state_def)

lemma wal_astep_meta:
  assumes "wal_astep R v v'" "wal_inv v" "v_meta v h = Some m"
  shows "(\<exists>m'. v_meta v' h = Some m' \<and> meta_next m m') \<or>
    v_meta v' h = None \<and> State m = StateShipped \<and> R < v_hwm v \<and> Sequence m \<le> v_hwm v - R"
  using assms
proof (induction rule: wal_astep.induct)
  case (submit v batch)
  then show ?case by (simp add: submits_meta)
next
  case (collect gs v)
  show ?case
  proof (cases "h \<in> gv_hash ` set gs")
    case True
    then obtain g where g: "g \<in> set gs" "h = gv_hash g" by blast
    with collect(1) have vo: "victim_ok v (v_hwm v - R) g" "R < v_hwm v" by auto
    with wal_invD(2) [OF collect(2), of "gv_seq g" h] g collect(3) show ?thesis
      by (auto simp: victim_ok_def collects_tables)
  next
    case False
    with collect(3) show ?thesis by (simp add: collects_tables)
  qed
qed (auto simp: av_sequence_def av_meta_def meta_next_def legal_state_def)

subsection \<open>Refinement of the batch operations\<close>

declare gcScan.simps(2) [simp del]

context wal_store
begin

lemma flushOne_refines:
  assumes "flushOne B c now s d = Inr d'" "wf_kv c (content d)" "sub_ok c s"
  shows "wf_kv c (content d') \<and> view_of c (content d') = av_submit s (view_of c (content d))"
proof -
  obtain d1 d2 ex where d1: "txn_set B d (entryKey (s_hash s)) (s_wire s) = Inr d1"
    and ex: "(case readMeta B c d1 (s_hash s) of Inr existing \<Rightarrow> Inr existing
       | Inl e \<Rightarrow> if e = ErrNotFound then Inr (fresh_meta s) else Inl e) = Inr ex"
    and d2: "put_meta B c d1 (s_hash s) ex = Inr d2"
    and d3: "txn_set B d2 (inflightKey (s_hash s)) (inflight_ts now) = Inr d'"
    using assms(1) by (auto simp: flushOne_def bindE_eq_Inr)
  have wf1: "wf_kv c (content d1)" using txn_set_content [OF d1] assms(2) by (simp add: wf_kv_upd)
  let ?v = "view_of c (content d)"
  have v1: "view_of c (content d1) = ?v\<lparr>v_wire := (v_wire ?v)(s_hash s \<mapsto> s_wire s)\<rparr>"
    using txn_set_content [OF d1] by simp
  have ex': "meta_wf c ex \<and> ex = (case v_meta ?v (s_hash s) of None \<Rightarrow> fresh_meta s | Some m \<Rightarrow> m)"
  proof (cases "readMeta B c d1 (s_hash s)")
    case (Inl e)
    with ex have "e = ErrNotFound" and "ex = fresh_meta s" by (auto split: if_splits)
    then show ?thesis
      using readMeta_NotFound [OF wf1] Inl v1 assms(3) by (simp add: sub_ok_def)
  next
    case (Inr m)
    then show ?thesis using readMeta_view [OF wf1 Inr] ex v1 by simp
  qed
  note p = put_meta_view [OF d2 conjunct1 [OF ex'] wf1]
  have "view_of c (content d') = av_submit s ?v"
    using p(2) ex' v1 txn_set_content [OF d3] by (simp add: av_meta_def av_submit_def)
  with p(1) txn_set_content [OF d3] show ?thesis by (simp add: wf_kv_upd(3))
qed

lemma flushSubs_refines:
  "flushSubs B c now ss d = Inr d' \<Longrightarrow> wf_kv c (content d) \<Longrightarrow> \<forall>s \<in> set ss. sub_ok c s \<Longrightarrow>
   wf_kv c (content d') \<and> view_of c (content d') = fold av_submit ss (view_of c (content d))"
proof (induction ss arbitrary: d)
  case Nil
  then show ?case by simp
next
  case (Cons s ss)
  then obtain d1 where d1: "flushOne B c now s d = Inr d1" and d2: "flushSubs B c now ss d1 = Inr d'"
    by (auto simp: bindE_eq_Inr)
  from flushOne_refines [OF d1] Cons.prems have
    "wf_kv c (content d1)" "view_of c (content d1) = av_submit s (view_of c (content d))" by auto
  with Cons.IH [OF d2] Cons.prems show ?case by simp
qed

lemma flushBatch_refines:
  assumes "walFlushBatch B c cfg now batch d = (r, d')" "wf_kv c (content d)"
    and "\<forall>s \<in> set batch. sub_ok c s"
  shows "wf_kv c (content d')"
    and "r = Inr () \<Longrightarrow> view_of c (content d') = fold av_submit batch (view_of c (content d))"
    and "content d' = content d \<or>
         view_of c (content d') = fold av_submit batch (view_of c (content d))"
proof -
  consider (fail) e where "db_update B WBadger (flushSubs B c now batch) d = (Inl e, d')" "r = Inl e"
    | (ok) d1 where "db_update B WBadger (flushSubs B c now batch) d = (Inr (), d1)"
        "content d' = content d1"
    using assms(1) unfolding walFlushBatch_def
    by (auto split: prod.splits sum.splits if_splits dest: sync_law)
  then have "wf_kv c (content d') \<and>
     (r = Inr () \<longrightarrow> view_of c (content d') = fold av_submit batch (view_of c (content d))) \<and>
     (content d' = content d \<or> view_of c (content d') = fold av_submit batch (view_of c (content d)))"
  proof cases
    case fail
    then show ?thesis using db_update_Inl [OF fail(1)] assms(2) by auto
  next
    case ok
    then obtain d2 where "flushSubs B c now batch d = Inr d2" "content d1 = content d2"
      using update_content by blast
    with flushSubs_refines [OF _ assms(2,3)] ok show ?thesis by auto
  qed
  then show "wf_kv c (content d')"
    and "r = Inr () \<Longrightarrow> view_of c (content d') = fold av_submit batch (view_of c (content d))"
    and "content d' = content d \<or>
         view_of c (content d') = fold av_submit batch (view_of c (content d))" by auto
qed

lemma deleteVictims_refines:
  "deleteVictims B gs d = Inr d' \<Longrightarrow> wf_kv c (content d) \<Longrightarrow>
   wf_kv c (content d') \<and> view_of c (content d') = fold av_collect gs (view_of c (content d))"
proof (induction gs arbitrary: d)
  case Nil
  then show ?case by simp
next
  case (Cons g gs)
  then obtain d1 d2 d3 where d1: "txn_delete B d (seqIndexKey (gv_seq g)) = Inr d1"
    and d2: "txn_delete B d1 (entryKey (gv_hash g)) = Inr d2"
    and d3: "txn_delete B d2 (metaKey (gv_hash g)) = Inr d3"
    and rest: "deleteVictims B gs d3 = Inr d'"
    by (auto simp: bindE_eq_Inr)
  have c3: "content d3 = (content d)(seqIndexKey (gv_seq g) := None,
      entryKey (gv_hash g) := None, metaKey (gv_hash g) := None)"
    using txn_delete_content [OF d1] txn_delete_content [OF d2] txn_delete_content [OF d3] by simp
  have "wf_kv c (content d3)" using Cons.prems(2) c3 by (simp add: wf_kv_upd)
  moreover have "view_of c (content d3) = av_collect g (view_of c (content d))"
    by (simp add: c3 av_collect_def)
  ultimately show ?case using Cons.IH [OF rest] by simp
qed

lemma deleteGCBatch_refines:
  assumes "deleteGCBatch B gs d = (Inr u, d')" "wf_kv c (content d)"
  shows "wf_kv c (content d') \<and> view_of c (content d') = fold av_collect gs (view_of c (content d))"
proof -
  obtain d1 where "deleteVictims B gs d = Inr d1" "content d' = content d1"
    using assms(1) update_content unfolding deleteGCBatch_def by blast
  with deleteVictims_refines [OF _ assms(2)] show ?thesis by auto
qed

lemma HWM_view: "HWM B x d = Inr n \<Longrightarrow> n = v_hwm (view_of c (content d))"
  by (auto simp: HWM_def bindE_eq_Inr view_of_def dest!: txn_get_content split: option.splits if_splits)

lemma scan_item:
  assumes "(k, val) \<in> set (bg_scan B d [prefixSeqIndex] k0)" "wf_kv c (content d)"
  obtains s where "k = seqIndexKey s" "content d (seqIndexKey s) = Some val" "length val = 32"
    "v_seq (view_of c (content d)) s = Some (un_hash val)" "k0 \<le> seqIndexKey s"
proof -
  have m: "content d k = Some val" "prefix [prefixSeqIndex] k" "k0 \<le> k"
    using assms(1) by (simp_all add: scan_mem)
  then obtain s where "k = seqIndexKey s" using wf_kvD(3) [OF assms(2)] by blast
  with m that wf_kvD(2) [OF assms(2)] show thesis by (simp add: view_of_def)
qed

lemma gcScan_stop:
  "length batch \<ge> gcBatchMax \<or> s > cutoff \<Longrightarrow>
   gcScan B c d cutoff batch n ((seqIndexKey s, val) # items) = Inr (batch, n)"
  by (auto simp: gcScan.simps(2) Let_def)

lemma gcScan_next:
  "\<not> (length batch \<ge> gcBatchMax \<or> s > cutoff) \<Longrightarrow> length val = 32 \<Longrightarrow>
   gcScan B c d cutoff batch n ((seqIndexKey s, val) # items) =
     bindE (readMeta B c d (un_hash val)) (\<lambda>m.
       gcScan B c d cutoff
         (if State m = StateShipped then batch @ [\<lparr>gv_seq = s, gv_hash = un_hash val\<rparr>] else batch)
         (s + 1) items)"
  by (cases "readMeta B c d (un_hash val)") (simp_all add: gcScan.simps(2) Let_def seq_value_def)

lemma gcScan_sound:
  "gcScan B c d cutoff batch n items = Inr (batch', n') \<Longrightarrow> wf_kv c (content d) \<Longrightarrow>
   set items \<subseteq> set (bg_scan B d [prefixSeqIndex] k0) \<Longrightarrow>
   \<forall>g \<in> set batch. victim_ok (view_of c (content d)) cutoff g \<Longrightarrow>
   \<forall>g \<in> set batch'. victim_ok (view_of c (content d)) cutoff g"
proof (induction items arbitrary: batch n)
  case Nil
  then show ?case by simp
next
  case (Cons it items)
  obtain k val where it: "it = (k, val)" by (cases it)
  obtain s where s: "k = seqIndexKey s" "length val = 32"
      "v_seq (view_of c (content d)) s = Some (un_hash val)"
    using scan_item [of k val d k0] Cons.prems(2,3) it by auto
  show ?case
  proof (cases "length batch \<ge> gcBatchMax \<or> s > cutoff")
    case True
    with Cons.prems it s gcScan_stop [of batch cutoff s d n val items] show ?thesis by auto
  next
    case False
    then obtain m where m: "readMeta B c d (un_hash val) = Inr m"
      and rest: "gcScan B c d cutoff
         (if State m = StateShipped then batch @ [\<lparr>gv_seq = s, gv_hash = un_hash val\<rparr>] else batch)
         (s + 1) items = Inr (batch', n')"
      using Cons.prems(1) it s gcScan_next [OF False] by (auto simp: bindE_eq_Inr)
    have "State m = StateShipped \<Longrightarrow>
        victim_ok (view_of c (content d)) cutoff \<lparr>gv_seq = s, gv_hash = un_hash val\<rparr>"
      using readMeta_view [OF Cons.prems(2) m] s False by (auto simp: victim_ok_def)
    then have "\<forall>g \<in> set (if State m = StateShipped then batch @ [\<lparr>gv_seq = s, gv_hash = un_hash val\<rparr>]
        else batch). victim_ok (view_of c (content d)) cutoff g"
      using Cons.prems(4) by simp
    moreover have "set items \<subseteq> set (bg_scan B d [prefixSeqIndex] k0)" using Cons.prems(3) by simp
    ultimately show ?thesis using Cons.IH [OF rest Cons.prems(2)] by blast
  qed
qed

text \<open>One turn of the reclaim loop: it stops where it is, or one batch is deleted.\<close>

lemma gcLoop_turn:
  assumes "gcLoop (Suc fuel) B c cx cutoff n fs d = Some (r, n', d')"
  obtains (stop) "d' = d" "n' = n"
    | (turn) gs nx d1 where "gs \<noteq> []" "collectGCBatch B c d fs cutoff = Inr (gs, nx)"
        "deleteGCBatch B gs d = (Inr (), d1)"
        "gcLoop fuel B c cx cutoff (n + length gs) nx d1 = Some (r, n', d')"
  using assms that
  by (auto simp: deleteGCBatch_def dest: db_update_Inl split: option.splits sum.splits if_splits prod.splits)

lemma collectGCBatch_sound:
  "collectGCBatch B c d fs cutoff = Inr (gs, nx) \<Longrightarrow> wf_kv c (content d) \<Longrightarrow>
   \<forall>g \<in> set gs. victim_ok (view_of c (content d)) cutoff g"
  unfolding collectGCBatch_def using gcScan_sound [of d cutoff "[]"] by force

lemma deleteGCBatch_inv:
  assumes "deleteGCBatch B gs d = (Inr u, d')" "wf_kv c (content d)" "wal_inv (view_of c (content d))"
    and "\<forall>g \<in> set gs. victim_ok (view_of c (content d)) cutoff g"
  shows "wal_inv (view_of c (content d'))"
proof -
  have "\<forall>g \<in> set gs. sole_ref g (view_of c (content d))"
    using assms(4) sole_ref_indexed [OF assms(3)] by (auto simp: victim_ok_def)
  then show ?thesis
    using wal_inv_collects [OF assms(3)] deleteGCBatch_refines [OF assms(1,2)] by simp
qed

lemma gcLoop_sound:
  "gcLoop fuel B c cx cutoff n fs d = Some (r, n', d') \<Longrightarrow> wf_kv c (content d) \<Longrightarrow>
   wal_inv (view_of c (content d)) \<Longrightarrow>
   \<exists>gs. wf_kv c (content d') \<and> n' = n + length gs \<and>
     (\<forall>g \<in> set gs. victim_ok (view_of c (content d)) cutoff g) \<and>
     view_of c (content d') = fold av_collect gs (view_of c (content d))"
proof (induction fuel arbitrary: n fs d)
  case 0
  then show ?case by simp
next
  case (Suc fuel)
  from Suc.prems(1) show ?case
  proof (cases rule: gcLoop_turn)
    case stop
    then show ?thesis using Suc.prems(2) by (intro exI [of _ "[]"]) simp
  next
    case (turn gs nx d1)
    note ok = collectGCBatch_sound [OF turn(2) Suc.prems(2)]
    note dl = deleteGCBatch_refines [OF turn(3) Suc.prems(2)]
    from Suc.IH [OF turn(4) conjunct1 [OF dl] deleteGCBatch_inv [OF turn(3) Suc.prems(2,3) ok]]
    obtain gs' where gs': "wf_kv c (content d')" "n' = n + length gs + length gs'"
        "\<forall>g \<in> set gs'. victim_ok (view_of c (content d1)) cutoff g"
        "view_of c (content d') = fold av_collect gs' (view_of c (content d1))" by blast
    moreover have "\<forall>g \<in> set gs'. victim_ok (view_of c (content d)) cutoff g"
      using gs'(3) dl victim_ok_collects by metis
    ultimately show ?thesis using dl ok by (intro exI [of _ "gs @ gs'"]) auto
  qed
qed

lemma GC_sound:
  assumes "GCBelowRetention fuel B c cfg cx cur d = Some (r, n, d', cur')"
    and "wf_kv c (content d)" "wal_inv (view_of c (content d))"
  shows "\<exists>gs. wf_kv c (content d') \<and> n = length gs \<and>
     (\<forall>g \<in> set gs. victim_ok (view_of c (content d)) (v_hwm (view_of c (content d)) - RetentionBuffer cfg) g
        \<and> RetentionBuffer cfg < v_hwm (view_of c (content d))) \<and>
     view_of c (content d') = fold av_collect gs (view_of c (content d))"
proof (cases "d' = d \<and> n = 0")
  case True
  with assms(2) show ?thesis by (intro exI [of _ "[]"]) simp
next
  case False
  then obtain hwm where hwm: "HWM B (cx 0) d = Inr hwm" and gt: "\<not> hwm \<le> RetentionBuffer cfg"
    and lp: "\<exists>r'. gcLoop fuel B c cx (hwm - RetentionBuffer cfg) 0 cur d = Some (r', n, d')"
    using assms(1) by (auto simp: GCBelowRetention_def Let_def split: if_splits sum.splits option.splits)
  have "hwm = v_hwm (view_of c (content d))" using HWM_view [OF hwm] .
  with gcLoop_sound [OF _ assms(2,3)] lp gt show ?thesis by fastforce
qed

lemma Reconcile_sound:
  assumes "ReconcileHWM B c x d = (r, d')"
  shows "d' = d \<or> (\<exists>n. AdvanceHWM B x n d = (Inr (), d') \<and> r = Inr n)"
  using assms ctx_update_Inl
  by (auto simp: ReconcileHWM_def AdvanceHWM_def split: sum.splits if_splits prod.splits)

text \<open>Every step of the committer is a step of the abstract machine.\<close>

lemma step_refines:
  assumes "wal_step B c cfg d d'" "wf_kv c (content d)" "wal_inv (view_of c (content d))"
  shows "wf_kv c (content d') \<and>
    wal_astep (RetentionBuffer cfg) (view_of c (content d)) (view_of c (content d'))"
proof (cases "d' = d")
  case True
  with assms(2) show ?thesis by (simp add: wal_astep.stutter)
next
  case changed: False
  have upd: "\<exists>u. r = Inr u" if "ctx_update B x body d = (r, d')" for x body and r :: "wal_error + unit"
    using that changed ctx_update_Inl by (cases r) auto
  from assms(1) show ?thesis
  proof cases
    case (submit batch now r)
    show ?thesis
      using flushBatch_refines [OF submit(2) assms(2) submit(1)] wal_astep.stutter wal_astep.submit
      by metis
  next
    case (seq x h s r)
    then obtain u where "r = Inr u" using upd unfolding walSequence_def by blast
    with Sequence_refines [OF _ assms(2)] seq wal_astep.stutter wal_astep.sequence show ?thesis by metis
  next
    case (shipped x h r)
    then obtain u where "r = Inr u" using upd unfolding MarkShipped_def by blast
    with MarkShipped_refines [OF _ assms(2)] shipped wal_astep.stutter wal_astep.ship show ?thesis by metis
  next
    case (retry now x h r)
    then obtain u where "r = Inr u" using upd unfolding MarkRetry_def by blast
    with MarkRetry_refines [OF _ assms(2) retry(1)] retry(2) wal_astep.retry show ?thesis by metis
  next
    case (manual x h r)
    then obtain u where "r = Inr u" using upd unfolding MarkManual_def by blast
    with MarkManual_refines [OF _ assms(2)] manual wal_astep.manual show ?thesis by metis
  next
    case (advance x n r)
    then obtain u where "r = Inr u" using upd unfolding AdvanceHWM_def by blast
    with AdvanceHWM_refines [OF _ assms(2)] advance wal_astep.hwm show ?thesis by metis
  next
    case (reconcile x r)
    then show ?thesis
      using Reconcile_sound changed AdvanceHWM_refines [OF _ assms(2)] wal_astep.hwm by metis
  next
    case (gc fuel cx cur r n cur')
    from GC_sound [OF gc assms(2,3)] wal_astep.collect show ?thesis by metis
  next
    case (dedup x i n r)
    then obtain u where "r = Inr u"
      using changed by (cases r) (auto simp: dedupSet_def dest: db_update_Inl split: option.splits if_splits)
    with dedupSet_refines [OF _ assms(2)] dedup wal_astep.dedup show ?thesis by metis
  qed
qed

lemma reach_inv:
  "wal_reach B content c cfg d \<Longrightarrow> wf_kv c (content d) \<and> wal_inv (view_of c (content d))"
proof (induction rule: wal_reach.induct)
  case (start d)
  then show ?case by (simp add: wal_inv_def view_of_def dom_def)
next
  case (step d d')
  with step_refines wal_astep_inv show ?case by metis
qed

end

text \<open>The databases a client of the committer may assume.\<close>

definition committer_ok :: "'r receipt_codec \<Rightarrow> ('db \<Rightarrow> kv) \<Rightarrow> 'db \<Rightarrow> bool" where
  "committer_ok c content d \<longleftrightarrow> wf_kv c (content d) \<and> wal_inv (view_of c (content d))"

context wal_store
begin

lemma ok_step: "wal_step B c cfg d d' \<Longrightarrow> committer_ok c content d \<Longrightarrow> committer_ok c content d'"
  using step_refines wal_astep_inv unfolding committer_ok_def by blast

end

end
