(* ===== verification/WalGC.thy ===== *)
theory WalGC
  imports WalInv
begin

section \<open>Progress of the WAL's scans: GC, iteration, reconciliation\<close>

text \<open>
  On a store that does not fail and from a reachable database the scans over the sequence index
  run to their end.  Retention GC reclaims every shipped entry between its cursor and the cutoff
  within \<open>card (dom (v_seq v)) + 1\<close> turns, since each turn but the last deletes an index
  entry; \<open>IterateSequenced\<close> hands out exactly the sequenced entries above its argument, in
  order; \<open>ReconcileHWM\<close> advances to the end of the contiguous shipped run.
\<close>

definition shipped_at :: "'r wal_view \<Rightarrow> u64 \<Rightarrow> bool" where
  "shipped_at v s \<longleftrightarrow>
     (\<exists>h m. v_seq v s = Some h \<and> v_meta v h = Some m \<and> State m = StateShipped)"

text \<open>Running a callback over a list of elements, as an iteration does.\<close>

fun visit ::
  "('s \<Rightarrow> ctx) \<Rightarrow> ('s \<Rightarrow> 'e \<Rightarrow> wal_error option \<times> 's) \<Rightarrow> 's \<Rightarrow> 'e list \<Rightarrow> (wal_error + unit) \<times> 's" where
  "visit cx fn s [] = (Inr (), s)"
| "visit cx fn s (e # es) =
     (case fn s e of
        (Some err, s') \<Rightarrow> (Inl err, s')
      | (None, s') \<Rightarrow> (case cx s' of Some x \<Rightarrow> (Inl (WCtx x), s') | None \<Rightarrow> visit cx fn s' es))"

definition sequenced_above :: "'r wal_view \<Rightarrow> u64 \<Rightarrow> SequencedEntry set" where
  "sequenced_above v fromSeq =
     {e. v_seq v (SE_Seq e) = Some (SE_Hash e) \<and> (fromSeq = 0 \<or> fromSeq < SE_Seq e) \<and>
         (\<exists>m. v_meta v (SE_Hash e) = Some m \<and> State m = StateSequenced)}"

lemma shipped_at_collects:
  "shipped_at (fold av_collect gs v) s \<longleftrightarrow>
   (\<exists>h m. v_seq v s = Some h \<and> v_meta v h = Some m \<and> State m = StateShipped \<and>
      s \<notin> gv_seq ` set gs \<and> h \<notin> gv_hash ` set gs)"
  by (auto simp: shipped_at_def collects_tables split: if_splits)

context wal_store
begin

lemma readMeta_ok:
  assumes "faultless B" "wf_kv c (content d)" "v_meta (view_of c (content d)) h = Some m"
  shows "readMeta B c d h = Inr m"
proof -
  obtain r where r: "txn_get B d (metaKey h) = Inr r"
    using faultlessD(1) [OF assms(1), of d "metaKey h"] by (auto simp: txn_get_def)
  with txn_get_content assms(3) show ?thesis
    by (auto simp: readMeta_def view_of_def split: option.splits sum.splits)
qed

lemma HWM_ok:
  assumes "faultless B" "wf_kv c (content d)"
  shows "HWM B None d = Inr (v_hwm (view_of c (content d)))"
proof -
  obtain r where r: "txn_get B d hwmKey = Inr r"
    using faultlessD(1) [OF assms(1), of d hwmKey] by (auto simp: txn_get_def)
  with txn_get_content wf_kvD(5) [OF assms(2)] show ?thesis
    by (auto simp: HWM_def ctx_check_def view_of_def split: option.splits)
qed

lemma readMeta_miss:
  assumes "faultless B" "wf_kv c (content d)" "v_meta (view_of c (content d)) h = None"
  shows "readMeta B c d h = Inl ErrNotFound"
proof -
  obtain r where r: "txn_get B d (metaKey h) = Inr r"
    using faultlessD(1) [OF assms(1), of d "metaKey h"] by (auto simp: txn_get_def)
  with txn_get_content view_meta_None [OF assms(2)] assms(3) show ?thesis
    by (auto simp: readMeta_def)
qed

lemma txn_ok:
  assumes "faultless B"
  shows "\<exists>d'. txn_set B d k v = Inr d'" "\<exists>d'. txn_delete B d k = Inr d'"
  using faultlessD(2) [OF assms, of d k v] faultlessD(3) [OF assms, of d k]
  by (auto simp: txn_set_def txn_delete_def)

lemma ctx_update_ok:
  assumes "faultless B" "body d = Inr d1"
  shows "\<exists>d'. ctx_update B None body d = (Inr (), d') \<and> content d' = content d1"
  using faultlessD(4) [OF assms(1), of d d1] commit_law assms(2)
  by (auto simp: ctx_update_def db_update_def)

lemma Sequence_outcome:
  assumes "faultless B" "wf_kv c (content d)"
  shows "case v_meta (view_of c (content d)) h of
      None \<Rightarrow> walSequence B c None h s d = (Inl ErrNotFound, d)
    | Some m \<Rightarrow>
        if State m = StateSequenced \<and> Sequence m = s then
          \<exists>d'. walSequence B c None h s d = (Inr (), d') \<and> content d' = content d
        else if State m = StatePending then
          \<exists>d'. walSequence B c None h s d = (Inr (), d') \<and> wf_kv c (content d') \<and>
             view_of c (content d') = av_sequence h s m (view_of c (content d))
        else walSequence B c None h s d = (Inl (WBadState (State m) StatePending), d)"
proof (cases "v_meta (view_of c (content d)) h")
  case None
  with readMeta_miss [OF assms None] show ?thesis
    by (simp add: walSequence_def ctx_update_def db_update_def)
next
  case (Some m)
  note rm = readMeta_ok [OF assms Some]
  have wf: "meta_wf c m" using readMeta_view [OF assms(2) rm] by simp
  consider (again) "State m = StateSequenced \<and> Sequence m = s" | (pending) "State m = StatePending"
    | (bad) "\<not> (State m = StateSequenced \<and> Sequence m = s)" "State m \<noteq> StatePending" by blast
  then show ?thesis
  proof cases
    case again
    with rm Some ctx_update_ok [OF assms(1), of _ d d] show ?thesis by (simp add: walSequence_def)
  next
    case bad
    with rm Some show ?thesis by (auto simp: walSequence_def ctx_update_def db_update_def)
  next
    case pending
    obtain b where "encodeMeta c (m\<lparr>State := StateSequenced, Sequence := s\<rparr>) = Inr b"
      using encodeMeta_ok [of c "m\<lparr>State := StateSequenced, Sequence := s\<rparr>"] wf by auto
    moreover obtain d1 where "txn_set B d (metaKey h) b = Inr d1" using txn_ok(1) [OF assms(1)] by blast
    moreover obtain d2 where "txn_set B d1 (seqIndexKey s) (hash_bytes h) = Inr d2"
      using txn_ok(1) [OF assms(1)] by blast
    moreover obtain d3 where "txn_delete B d2 (inflightKey h) = Inr d3" using txn_ok(2) [OF assms(1)] by blast
    ultimately obtain d' where run: "walSequence B c None h s d = (Inr (), d')"
      using rm pending faultlessD(4) [OF assms(1), of d d3]
      by (auto simp: walSequence_def ctx_update_def db_update_def put_meta_def)
    with Sequence_refines [OF run assms(2)] Some pending show ?thesis by auto
  qed
qed

lemma scan_item_meta:
  assumes "(k, val) \<in> set (bg_scan B d [prefixSeqIndex] k0)" "wf_kv c (content d)"
    and "wal_inv (view_of c (content d))"
  obtains s m where "k = seqIndexKey s" "length val = 32"
    "v_seq (view_of c (content d)) s = Some (un_hash val)"
    "v_meta (view_of c (content d)) (un_hash val) = Some m" "Sequence m = s"
  using scan_item [OF assms(1,2)] wal_invD(2) [OF assms(3)] by metis

lemma gcScan_total:
  assumes "faultless B" "wf_kv c (content d)" "wal_inv (view_of c (content d))"
  shows "set items \<subseteq> set (bg_scan B d [prefixSeqIndex] k0) \<Longrightarrow>
    \<exists>r. gcScan B c d cutoff batch n items = Inr r"
proof (induction items arbitrary: batch n)
  case Nil
  show ?case by simp
next
  case (Cons it items)
  obtain k val where it: "it = (k, val)" by (cases it)
  have mem: "(k, val) \<in> set (bg_scan B d [prefixSeqIndex] k0)" using Cons.prems it by simp
  obtain s m where s: "k = seqIndexKey s" "length val = 32"
      "v_meta (view_of c (content d)) (un_hash val) = Some m"
    by (rule scan_item_meta [OF mem assms(2,3)])
  show ?case
  proof (cases "length batch \<ge> gcBatchMax \<or> s > cutoff")
    case True
    then show ?thesis unfolding it s by (simp only: gcScan_stop) simp
  next
    case False
    have "set items \<subseteq> set (bg_scan B d [prefixSeqIndex] k0)" using Cons.prems by simp
    from Cons.IH [OF this] show ?thesis
      unfolding it s(1) gcScan_next [OF False s(2)] readMeta_ok [OF assms(1,2) s(3)] by simp
  qed
qed

lemma gcScan_complete:
  "gcScan B c d cutoff batch n items = Inr (batch', n') \<Longrightarrow>
   faultless B \<Longrightarrow> wf_kv c (content d) \<Longrightarrow> wal_inv (view_of c (content d)) \<Longrightarrow>
   set items \<subseteq> set (bg_scan B d [prefixSeqIndex] k0) \<Longrightarrow> sorted_wrt (<) (map fst items) \<Longrightarrow>
   \<forall>k \<in> fst ` set items. seqIndexKey n \<le> k \<Longrightarrow>
   set batch \<subseteq> set batch' \<and>
   (\<forall>s h. (seqIndexKey s, hash_bytes h) \<in> set items \<and> s \<le> cutoff
      \<and> (\<exists>m. v_meta (view_of c (content d)) h = Some m \<and> State m = StateShipped) \<longrightarrow>
      \<lparr>gv_seq = s, gv_hash = h\<rparr> \<in> set batch' \<or> gcBatchMax \<le> length batch' \<and> n' \<le> s)"
proof (induction items arbitrary: batch n)
  case Nil
  then show ?case by simp
next
  case (Cons it items)
  obtain k val where it: "it = (k, val)" by (cases it)
  have mem: "(k, val) \<in> set (bg_scan B d [prefixSeqIndex] k0)" using Cons.prems it by simp
  obtain s m where s: "k = seqIndexKey s" "length val = 32"
      "v_meta (view_of c (content d)) (un_hash val) = Some m"
    by (rule scan_item_meta [OF mem Cons.prems(3,4)])
  have later: "\<forall>k \<in> fst ` set items. seqIndexKey s < k"
    using Cons.prems(6) it s(1) by auto
  show ?case
  proof (cases "length batch \<ge> gcBatchMax \<or> s > cutoff")
    case True
    then have "batch' = batch" "n' = n" using Cons.prems(1) unfolding it s by (simp_all add: gcScan_stop)
    then show ?thesis using True later it s(1) Cons.prems(7) by force
  next
    case False
    let ?b = "if State m = StateShipped then batch @ [\<lparr>gv_seq = s, gv_hash = un_hash val\<rparr>] else batch"
    have rest: "gcScan B c d cutoff ?b (s + 1) items = Inr (batch', n')"
      using Cons.prems(1) unfolding it s(1) gcScan_next [OF False s(2)]
        readMeta_ok [OF Cons.prems(2,3) s(3)] by simp
    have "\<forall>k \<in> fst ` set items. seqIndexKey (s + 1) \<le> k"
    proof
      fix k' assume k': "k' \<in> fst ` set items"
      then obtain val' where "(k', val') \<in> set (bg_scan B d [prefixSeqIndex] k0)"
        using Cons.prems(5) by auto
      then obtain s' where "k' = seqIndexKey s'" by (rule scan_item [OF _ Cons.prems(3)])
      with later k' word_inc_le [of s s'] show "seqIndexKey (s + 1) \<le> k'" by fastforce
    qed
    with Cons.IH [OF rest Cons.prems(2,3,4)] Cons.prems(5,6)
    have IH: "set ?b \<subseteq> set batch' \<and>
       (\<forall>s h. (seqIndexKey s, hash_bytes h) \<in> set items \<and> s \<le> cutoff
          \<and> (\<exists>m. v_meta (view_of c (content d)) h = Some m \<and> State m = StateShipped) \<longrightarrow>
          \<lparr>gv_seq = s, gv_hash = h\<rparr> \<in> set batch' \<or> gcBatchMax \<le> length batch' \<and> n' \<le> s)" by simp
    then have "set batch \<subseteq> set batch'" by (auto split: if_splits)
    moreover have "\<lparr>gv_seq = s', gv_hash = h\<rparr> \<in> set batch'"
      if "(seqIndexKey s', hash_bytes h) = it" "v_meta (view_of c (content d)) h = Some m'"
        "State m' = StateShipped" for s' h m'
      using that IH it s by (auto split: if_splits)
    ultimately show ?thesis using IH unfolding list.set by blast
  qed
qed

lemma seq_in_scan:
  assumes "wf_kv c (content d)" "v_seq (view_of c (content d)) s = Some h"
  shows "(seqIndexKey s, hash_bytes h) \<in> set (bg_scan B d [prefixSeqIndex] k0) \<longleftrightarrow> k0 \<le> seqIndexKey s"
proof -
  obtain val where "content d (seqIndexKey s) = Some val" "h = un_hash val"
    using assms(2) by (auto simp: view_of_def)
  with wf_kvD(2) [OF assms(1)] show ?thesis by (simp add: scan_mem)
qed

lemma collectGCBatch_complete:
  assumes "faultless B" "wf_kv c (content d)" "wal_inv (view_of c (content d))"
  obtains gs nx where "collectGCBatch B c d fs cutoff = Inr (gs, nx)"
    and "\<And>s. fs \<le> s \<Longrightarrow> s \<le> cutoff \<Longrightarrow> shipped_at (view_of c (content d)) s \<Longrightarrow>
      s \<in> gv_seq ` set gs \<or> gs \<noteq> [] \<and> nx \<le> s"
proof -
  let ?items = "bg_scan B d [prefixSeqIndex] (seqIndexKey fs)"
  obtain gs nx where col: "gcScan B c d cutoff [] fs ?items = Inr (gs, nx)"
    using gcScan_total [OF assms, of ?items] by fastforce
  have "\<forall>k \<in> fst ` set ?items. seqIndexKey fs \<le> k" by (auto simp: scan_mem)
  from gcScan_complete [OF col assms subset_refl scan_sorted_law this]
  have all: "\<lparr>gv_seq = s, gv_hash = h\<rparr> \<in> set gs \<or> gcBatchMax \<le> length gs \<and> nx \<le> s"
    if "(seqIndexKey s, hash_bytes h) \<in> set ?items" "s \<le> cutoff"
      "v_meta (view_of c (content d)) h = Some m" "State m = StateShipped" for s h m
    using that by blast
  have "s \<in> gv_seq ` set gs \<or> gs \<noteq> [] \<and> nx \<le> s"
    if lo: "fs \<le> s" and hi: "s \<le> cutoff" and sh: "shipped_at (view_of c (content d)) s" for s
  proof -
    obtain h m where sq: "v_seq (view_of c (content d)) s = Some h"
      and m: "v_meta (view_of c (content d)) h = Some m" "State m = StateShipped"
      using sh by (auto simp: shipped_at_def)
    have "(seqIndexKey s, hash_bytes h) \<in> set ?items" using seq_in_scan [OF assms(2) sq] lo by simp
    from all [OF this hi m] show ?thesis by (force simp: gcBatchMax_def)
  qed
  with col that show thesis by (simp add: collectGCBatch_def)
qed

lemma deleteVictims_ok: "faultless B \<Longrightarrow> \<exists>d'. deleteVictims B gs d = Inr d'"
proof (induction gs arbitrary: d)
  case (Cons g gs)
  have ok: "\<exists>d'. txn_delete B d k = Inr d'" for d k
    using faultlessD(3) [OF Cons.prems, of d k] by (auto simp: txn_delete_def)
  obtain d1 where "txn_delete B d (seqIndexKey (gv_seq g)) = Inr d1" using ok by blast
  moreover obtain d2 where "txn_delete B d1 (entryKey (gv_hash g)) = Inr d2" using ok by blast
  moreover obtain d3 where "txn_delete B d2 (metaKey (gv_hash g)) = Inr d3" using ok by blast
  ultimately show ?case using Cons.IH [OF Cons.prems, of d3] by simp
qed simp

lemma deleteGCBatch_ok:
  assumes "faultless B"
  obtains d' where "deleteGCBatch B gs d = (Inr (), d')"
proof -
  obtain d1 where d1: "deleteVictims B gs d = Inr d1" using deleteVictims_ok [OF assms] by blast
  obtain d2 where "bg_commit B d d1 = Inr d2" using faultlessD(4) [OF assms] by blast
  with d1 that show thesis by (simp add: deleteGCBatch_def db_update_def)
qed

lemma gcLoop_complete:
  assumes "faultless B" "cx = (\<lambda>_. None)"
  shows "wf_kv c (content d) \<Longrightarrow> wal_inv (view_of c (content d)) \<Longrightarrow>
    card (dom (v_seq (view_of c (content d)))) < fuel \<Longrightarrow>
    \<exists>n' d'. gcLoop fuel B c cx cutoff n fs d = Some (Inr (), n', d') \<and>
      (\<forall>s. fs \<le> s \<and> s \<le> cutoff \<longrightarrow> \<not> shipped_at (view_of c (content d')) s)"
proof (induction fuel arbitrary: n fs d)
  case 0
  then show ?case by simp
next
  case (Suc fuel)
  let ?v = "view_of c (content d)"
  obtain gs nx where col: "collectGCBatch B c d fs cutoff = Inr (gs, nx)"
    and all: "\<And>s. fs \<le> s \<Longrightarrow> s \<le> cutoff \<Longrightarrow> shipped_at ?v s \<Longrightarrow>
      s \<in> gv_seq ` set gs \<or> gs \<noteq> [] \<and> nx \<le> s"
    by (rule collectGCBatch_complete [OF assms(1) Suc.prems(1,2)]) blast
  show ?case
  proof (cases "gs = []")
    case True
    with col all assms(2) show ?thesis by auto
  next
    case False
    obtain d1 where del: "deleteGCBatch B gs d = (Inr (), d1)" by (rule deleteGCBatch_ok [OF assms(1)])
    note ok = collectGCBatch_sound [OF col Suc.prems(1)]
    note dl = deleteGCBatch_refines [OF del Suc.prems(1)]
    note inv = deleteGCBatch_inv [OF del Suc.prems(1,2) ok]
    obtain g where "g \<in> set gs" using False by fastforce
    then have "gv_seq g \<in> dom (v_seq ?v)" "gv_seq g \<notin> dom (v_seq (view_of c (content d1)))"
      using ok dl by (auto simp: victim_ok_def collects_tables)
    moreover have "dom (v_seq (view_of c (content d1))) \<subseteq> dom (v_seq ?v)"
      using dl by (auto simp: collects_tables split: if_splits)
    ultimately have "dom (v_seq (view_of c (content d1))) \<subset> dom (v_seq ?v)" by blast
    then have "card (dom (v_seq (view_of c (content d1)))) < card (dom (v_seq ?v))"
      by (intro psubset_card_mono) simp_all
    with Suc.prems(3) Suc.IH [OF conjunct1 [OF dl] inv, of "n + length gs" nx]
    obtain n' d' where run: "gcLoop fuel B c cx cutoff (n + length gs) nx d1 = Some (Inr (), n', d')"
      and clean: "\<And>s. nx \<le> s \<Longrightarrow> s \<le> cutoff \<Longrightarrow> \<not> shipped_at (view_of c (content d')) s" by auto
    from gcLoop_sound [OF run conjunct1 [OF dl] inv] obtain gs' where
      v': "view_of c (content d') = fold av_collect (gs @ gs') ?v" using dl by auto
    have "\<not> shipped_at (view_of c (content d')) s" if "fs \<le> s" "s \<le> cutoff" for s
    proof
      assume sh: "shipped_at (view_of c (content d')) s"
      then have "shipped_at ?v s" "s \<notin> gv_seq ` set gs"
        unfolding v' shipped_at_collects by (auto simp: shipped_at_def)
      with all [OF that] clean that(2) sh show False by blast
    qed
    with run col del False assms(2) show ?thesis by simp
  qed
qed

lemma GC_complete:
  assumes "faultless B" "wf_kv c (content d)" "wal_inv (view_of c (content d))"
    and "0 < RetentionBuffer cfg" "RetentionBuffer cfg < v_hwm (view_of c (content d))"
    and "card (dom (v_seq (view_of c (content d)))) < fuel"
  shows "\<exists>n d'. GCBelowRetention fuel B c cfg (\<lambda>_. None) cur d =
      Some (Inr (), n, d', v_hwm (view_of c (content d)) - RetentionBuffer cfg) \<and>
    (\<forall>s. cur \<le> s \<and> s \<le> v_hwm (view_of c (content d)) - RetentionBuffer cfg \<longrightarrow>
       \<not> shipped_at (view_of c (content d')) s)"
proof -
  let ?hwm = "v_hwm (view_of c (content d))"
  have hwm: "HWM B None d = Inr ?hwm" by (rule HWM_ok [OF assms(1,2)])
  from gcLoop_complete [OF assms(1) refl assms(2,3,6), of "?hwm - RetentionBuffer cfg" 0 cur]
  obtain n d' where "gcLoop fuel B c (\<lambda>_. None) (?hwm - RetentionBuffer cfg) 0 cur d = Some (Inr (), n, d')"
    "\<forall>s. cur \<le> s \<and> s \<le> ?hwm - RetentionBuffer cfg \<longrightarrow> \<not> shipped_at (view_of c (content d')) s"
    by blast
  with hwm assms(4,5) show ?thesis by (auto simp: GCBelowRetention_def Let_def)
qed

subsection \<open>Who makes an entry manual\<close>

lemma step_to_manual:
  assumes "wal_step B c cfg d d'" "wf_kv c (content d)" "wal_inv (view_of c (content d))"
    and "v_meta (view_of c (content d)) h = Some m" "v_meta (view_of c (content d')) h = Some m'"
    and "State m' = StateManual" "State m \<noteq> StateManual"
  shows "\<exists>x. MarkManual B c x h d = (Inr (), d')"
proof -
  have changed: "content d' \<noteq> content d" using assms(4-7) by auto
  then have d': "d' \<noteq> d" by auto
  have upd: "r = Inr ()" if "ctx_update B x body d = (r, d')" for x body and r :: "wal_error + unit"
    using that d' ctx_update_Inl by (cases r) auto
  from assms(1) show ?thesis
  proof cases
    case (submit batch now r)
    then show ?thesis using flushBatch_refines(3) [OF submit(2) assms(2) submit(1)] changed assms(4-7) by (auto simp: submits_meta)
  next
    case (seq x k s r)
    then have "r = Inr ()" using upd unfolding walSequence_def by blast
    with Sequence_refines [of x k s d "()" d'] seq assms(2,4-7) changed show ?thesis
      by (auto simp: av_sequence_def split: if_splits)
  next
    case (shipped x k r)
    then have "r = Inr ()" using upd unfolding MarkShipped_def by blast
    with MarkShipped_refines [of x k d "()" d'] shipped assms(2,4-7) changed show ?thesis
      by (auto simp: av_meta_def split: if_splits)
  next
    case (retry now x k r)
    then have "r = Inr ()" using upd unfolding MarkRetry_def by blast
    with MarkRetry_refines [of x now k d "()" d'] retry assms(2,4-7) show ?thesis
      by (auto simp: av_meta_def split: if_splits)
  next
    case (manual x k r)
    then have r: "r = Inr ()" using upd unfolding MarkManual_def by blast
    with MarkManual_refines [of x k d "()" d'] manual assms(2,4-7) have "k = h"
      by (auto simp: av_meta_def split: if_splits)
    with manual r show ?thesis by blast
  next
    case (advance x n r)
    then have "r = Inr ()" using upd unfolding AdvanceHWM_def by blast
    with AdvanceHWM_refines [of x n d "()" d'] advance assms(2,4-7) show ?thesis by auto
  next
    case (reconcile x r)
    then show ?thesis using Reconcile_sound d' AdvanceHWM_refines [OF _ assms(2)] assms(4-7) by fastforce
  next
    case (gc fuel cx cur r n cur')
    from GC_sound [OF gc assms(2,3)] assms(4-7) show ?thesis by (auto simp: collects_tables split: if_splits)
  next
    case (dedup x i n r)
    then have "r = Inr ()"
      using d' by (cases r) (auto simp: dedupSet_def dest: db_update_Inl split: option.splits if_splits)
    with dedupSet_refines [of x i n d "()" d'] dedup assms(2,4-7) show ?thesis by auto
  qed
qed

subsection \<open>Iteration\<close>

definition seq_entries :: "'db \<Rightarrow> (bytes \<times> bytes) list \<Rightarrow> SequencedEntry list" where
  "seq_entries d items =
     map (\<lambda>(k, val). \<lparr>SE_Seq = seqFromIndexKey k, SE_Hash = un_hash val\<rparr>)
       (filter (\<lambda>(k, val). \<exists>m. v_meta (view_of c (content d)) (un_hash val) = Some m
          \<and> State m = StateSequenced) items)"

lemma iterateSequencedLoop_visit:
  assumes "faultless B" "wf_kv c (content d)" "wal_inv (view_of c (content d))"
  shows "set items \<subseteq> set (bg_scan B d [prefixSeqIndex] k0) \<Longrightarrow>
    iterateSequencedLoop B c d cx fn s items = visit cx fn s (seq_entries d items)"
proof (induction items arbitrary: s)
  case Nil
  show ?case by (simp add: seq_entries_def)
next
  case (Cons it items)
  obtain k val where it: "it = (k, val)" by (cases it)
  have mem: "(k, val) \<in> set (bg_scan B d [prefixSeqIndex] k0)" using Cons.prems it by simp
  obtain q m where q: "k = seqIndexKey q" "length val = 32"
      "v_meta (view_of c (content d)) (un_hash val) = Some m"
    by (rule scan_item_meta [OF mem assms(2,3)])
  have IH: "iterateSequencedLoop B c d cx fn s items = visit cx fn s (seq_entries d items)" for s
    using Cons by simp
  show ?case
    using q readMeta_ok [OF assms(1,2) q(3)] IH
    by (simp add: it seq_value_def seq_entries_def split: option.splits prod.splits)
qed

lemma seq_entries_scan:
  assumes "wf_kv c (content d)"
  shows "set (seq_entries d (bg_scan B d [prefixSeqIndex] k0)) =
     {e. v_seq (view_of c (content d)) (SE_Seq e) = Some (SE_Hash e) \<and> k0 \<le> seqIndexKey (SE_Seq e) \<and>
         (\<exists>m. v_meta (view_of c (content d)) (SE_Hash e) = Some m \<and> State m = StateSequenced)}"
    (is "?L = ?R")
proof
  show "?L \<subseteq> ?R"
  proof
    fix e assume "e \<in> ?L"
    then obtain k val m where mem: "(k, val) \<in> set (bg_scan B d [prefixSeqIndex] k0)"
      and e: "e = \<lparr>SE_Seq = seqFromIndexKey k, SE_Hash = un_hash val\<rparr>"
      and m: "v_meta (view_of c (content d)) (un_hash val) = Some m" "State m = StateSequenced"
      by (auto simp: seq_entries_def)
    show "e \<in> ?R" by (rule scan_item [OF mem assms]) (use e m in auto)
  qed
  show "?R \<subseteq> ?L"
  proof
    fix e assume e: "e \<in> ?R"
    then have "(seqIndexKey (SE_Seq e), hash_bytes (SE_Hash e)) \<in> set (bg_scan B d [prefixSeqIndex] k0)"
      using seq_in_scan [OF assms] by auto
    then show "e \<in> ?L" unfolding seq_entries_def using e by (force simp: image_iff)
  qed
qed

lemma seq_entries_sorted:
  assumes "wf_kv c (content d)" "sorted_wrt (<) (map fst items)"
  shows "set items \<subseteq> set (bg_scan B d [prefixSeqIndex] k0) \<Longrightarrow>
    sorted_wrt (<) (map SE_Seq (seq_entries d items))"
  using assms(2)
proof (induction items)
  case Nil
  show ?case by (simp add: seq_entries_def)
next
  case (Cons it items)
  have key: "\<exists>s. fst x = seqIndexKey s" if x: "x \<in> set (it # items)" for x
  proof -
    have "(fst x, snd x) \<in> set (bg_scan B d [prefixSeqIndex] k0)" using x Cons.prems(1) by auto
    then show ?thesis by (rule scan_item [OF _ assms(1)]) blast
  qed
  have "seqFromIndexKey (fst it) < seqFromIndexKey (fst x)" if "x \<in> set items" for x
    using key [of it] key [of x] Cons.prems(2) that by fastforce
  then show ?case using Cons by (auto simp: seq_entries_def)
qed

lemma IterateSequenced_visit:
  assumes "faultless B" "wf_kv c (content d)" "wal_inv (view_of c (content d))" "fromSeq \<noteq> - 1"
  shows "\<exists>es. sorted_wrt (<) (map SE_Seq es) \<and> set es = sequenced_above (view_of c (content d)) fromSeq \<and>
    (\<forall>cx (fn :: 's \<Rightarrow> SequencedEntry \<Rightarrow> wal_error option \<times> 's) s. cx s = None \<longrightarrow>
      IterateSequenced B c cx fromSeq fn s d = visit cx fn s es)"
proof -
  let ?k = "if fromSeq = 0 then [prefixSeqIndex] else seqIndexKey (fromSeq + 1)"
  let ?es = "seq_entries d (bg_scan B d [prefixSeqIndex] ?k)"
  have "?k \<le> seqIndexKey s \<longleftrightarrow> fromSeq = 0 \<or> fromSeq < s" for s
    by (simp add: word_inc_le_iff [OF assms(4)])
  then have "set ?es = sequenced_above (view_of c (content d)) fromSeq"
    unfolding seq_entries_scan [OF assms(2)] sequenced_above_def by auto
  moreover have "sorted_wrt (<) (map SE_Seq ?es)"
    by (rule seq_entries_sorted [OF assms(2) scan_sorted_law subset_refl])
  moreover have "IterateSequenced B c cx fromSeq fn s d = visit cx fn s ?es" if "cx s = None"
    for cx and fn :: "'s \<Rightarrow> SequencedEntry \<Rightarrow> wal_error option \<times> 's" and s
    using that by (simp add: IterateSequenced_def Let_def
        iterateSequencedLoop_visit [OF assms(1-3) subset_refl, simplified])
  ultimately show ?thesis by blast
qed

subsection \<open>Reconciliation\<close>

lemma reconcileRun_spec:
  assumes "faultless B" "wf_kv c (content d)" "wal_inv (view_of c (content d))"
  shows "set items \<subseteq> set (bg_scan B d [prefixSeqIndex] k0) \<Longrightarrow> sorted_wrt (<) (map fst items) \<Longrightarrow>
    \<forall>k \<in> fst ` set items. seqIndexKey n < k \<Longrightarrow>
    \<forall>s h. n < s \<and> v_seq (view_of c (content d)) s = Some h \<longrightarrow> seqIndexKey s \<in> fst ` set items \<Longrightarrow>
    \<exists>n'. reconcileRun B c d n items = Inr n' \<and> n \<le> n' \<and>
      (\<forall>s. n < s \<and> s \<le> n' \<longrightarrow> shipped_at (view_of c (content d)) s) \<and>
      (n' = - 1 \<or> \<not> shipped_at (view_of c (content d)) (n' + 1))"
proof (induction items arbitrary: n)
  case Nil
  then have "\<not> shipped_at (view_of c (content d)) (n + 1)" if "n \<noteq> - 1"
    using that word_inc_le_iff [of n "n + 1"] by (auto simp: shipped_at_def)
  then show ?case by auto
next
  case (Cons it items)
  let ?v = "view_of c (content d)"
  obtain k val where it: "it = (k, val)" by (cases it)
  have mem: "(k, val) \<in> set (bg_scan B d [prefixSeqIndex] k0)" using Cons.prems it by simp
  obtain s m where s: "k = seqIndexKey s" "length val = 32" "v_seq ?v s = Some (un_hash val)"
      "v_meta ?v (un_hash val) = Some m"
    by (rule scan_item_meta [OF mem assms(2,3)])
  have ns: "n < s" using Cons.prems(3) it s(1) by simp
  then have n1: "n \<noteq> - 1" "n + 1 \<le> s" using word_inc_le [of n s] by (auto simp: word_order.extremum_strict)
  have later: "\<forall>k \<in> fst ` set items. seqIndexKey s < k" using Cons.prems(2) it s(1) by auto
  have st: "reconcileRun B c d n (it # items) =
      (if s \<noteq> n + 1 \<or> State m \<noteq> StateShipped then Inr n else reconcileRun B c d s items)"
    using readMeta_ok [OF assms(1,2) s(4)] s(1,2) by (simp add: it seq_value_def Let_def)
  have here: "v_seq ?v s' \<noteq> None \<Longrightarrow> n < s' \<Longrightarrow> s \<le> s'" for s'
    using Cons.prems(4) later it s(1) by (fastforce simp: less_imp_le)
  show ?case
  proof (cases "s \<noteq> n + 1 \<or> State m \<noteq> StateShipped")
    case True
    have "\<not> shipped_at ?v (n + 1)"
    proof
      assume sh: "shipped_at ?v (n + 1)"
      then have "s \<le> n + 1" using here [of "n + 1"] word_inc_le_iff [OF n1(1), of "n + 1"]
        by (auto simp: shipped_at_def)
      with n1 True s(3,4) sh show False by (auto simp: shipped_at_def)
    qed
    with st True show ?thesis by auto
  next
    case False
    have "\<forall>s' h. s < s' \<and> v_seq ?v s' = Some h \<longrightarrow> seqIndexKey s' \<in> fst ` set items"
    proof (intro allI impI)
      fix s' h assume a: "s < s' \<and> v_seq ?v s' = Some h"
      then have "seqIndexKey s' \<in> fst ` set (it # items)" using Cons.prems(4) ns by (meson less_trans)
      with a it s(1) show "seqIndexKey s' \<in> fst ` set items" by auto
    qed
    with Cons.IH [of s] Cons.prems(1,2) later obtain n' where
      r: "reconcileRun B c d s items = Inr n'" "s \<le> n'"
      "\<forall>q. s < q \<and> q \<le> n' \<longrightarrow> shipped_at ?v q" "n' = - 1 \<or> \<not> shipped_at ?v (n' + 1)" by auto
    have "shipped_at ?v q" if "n < q" "q \<le> n'" for q
    proof (cases "q = s")
      case True
      with False s(3,4) show ?thesis by (auto simp: shipped_at_def)
    next
      case ne: False
      have "s \<le> q" using word_inc_le [OF that(1)] False by simp
      with ne r(3) that(2) show ?thesis by simp
    qed
    with st False r ns show ?thesis by auto
  qed
qed

lemma Reconcile_complete:
  assumes "faultless B" "wf_kv c (content d)" "wal_inv (view_of c (content d))"
    and "v_hwm (view_of c (content d)) \<noteq> - 1"
  shows "\<exists>n d'. ReconcileHWM B c None d = (Inr n, d') \<and>
    view_of c (content d') = (view_of c (content d))\<lparr>v_hwm := n\<rparr> \<and>
    v_hwm (view_of c (content d)) \<le> n \<and>
    (\<forall>s. v_hwm (view_of c (content d)) < s \<and> s \<le> n \<longrightarrow> shipped_at (view_of c (content d)) s) \<and>
    (n = - 1 \<or> \<not> shipped_at (view_of c (content d)) (n + 1))"
proof -
  let ?v = "view_of c (content d)"
  let ?h = "v_hwm ?v" and ?items = "bg_scan B d [prefixSeqIndex] (seqIndexKey (v_hwm ?v + 1))"
  have hwm: "HWM B None d = Inr ?h" by (rule HWM_ok [OF assms(1,2)])
  have up: "?h + 1 \<le> s \<longleftrightarrow> ?h < s" for s by (rule word_inc_le_iff [OF assms(4)])
  have "seqIndexKey ?h < seqIndexKey (?h + 1)" using up [of "?h + 1"] by simp
  then have lo: "\<forall>k \<in> fst ` set ?items. seqIndexKey ?h < k"
    by (auto simp: scan_mem simp del: seqIndexKey_less_iff intro: less_le_trans)
  have hi: "\<forall>s h. ?h < s \<and> v_seq ?v s = Some h \<longrightarrow> seqIndexKey s \<in> fst ` set ?items"
    using seq_in_scan [OF assms(2)] up by (force simp: image_iff)
  from reconcileRun_spec [OF assms(1-3) subset_refl scan_sorted_law lo hi] obtain n where
    n: "reconcileRun B c d ?h ?items = Inr n" "?h \<le> n"
    "\<forall>s. ?h < s \<and> s \<le> n \<longrightarrow> shipped_at ?v s" "n = - 1 \<or> \<not> shipped_at ?v (n + 1)" by blast
  obtain d' where d': "AdvanceHWM B None n d = (Inr (), d')"
  proof -
    obtain d1 where d1: "bg_set B d hwmKey (be64 n) = Inr d1" using faultlessD(2) [OF assms(1)] by blast
    obtain d2 where "bg_commit B d d1 = Inr d2" using faultlessD(4) [OF assms(1)] by blast
    with d1 that show thesis by (simp add: AdvanceHWM_def ctx_update_def db_update_def txn_set_def)
  qed
  show ?thesis
  proof (cases "?h < n")
    case True
    then have "ReconcileHWM B c None d = (Inr n, d')" using hwm n(1) d' by (simp add: ReconcileHWM_def)
    with n AdvanceHWM_refines [OF d' assms(2)] show ?thesis by blast
  next
    case False
    then have "ReconcileHWM B c None d = (Inr n, d)" "n = ?h"
      using hwm n(1,2) by (simp_all add: ReconcileHWM_def)
    with n show ?thesis by auto
  qed
qed

end

end
