(* ===== verification/WalSpec.thy ===== *)
theory WalSpec
  imports WalGC
begin

section \<open>What the WAL guarantees\<close>

text \<open>
  The properties of the WAL, each stated over the operations' definitions with the store's laws
  (\<open>wal_store\<close>) as its hypothesis, and the instance of those laws on the in-memory store.
  \<open>raw_codec\<close> is a receipt codec whose receipts are their own bytes; \<open>demo1\<close> to
  \<open>demo4\<close> is a run of the operations: two submissions, of which one is sequenced at 1,
  shipped, and the mark advanced to 2.
\<close>

definition raw_codec :: "bytes receipt_codec" where
  "raw_codec = \<lparr>rc_ser = (\<lambda>r. Inr r), rc_deser = (\<lambda>b. Inr (b, length b))\<rparr>"

lemma raw_codec_ok: "codec_ok raw_codec"
  by (simp add: codec_ok_def raw_codec_def)

interpretation memw: wal_store mem_badger map_of raw_codec
  by unfold_locales (rule raw_codec_ok)

lemma mem_wal_store: "wal_store mem_badger map_of raw_codec"
  by unfold_locales

definition demo_cfg0 :: CommitterConfig where
  "demo_cfg0 = \<lparr>QueueSize = 0, BatchMaxEntries = 0, BatchMaxBytes = 0,
     BatchMaxLatency = 0, DisableSync = False, RetentionBuffer = 1\<rparr>"

definition demo_cfg :: CommitterConfig where
  "demo_cfg = NewCommitter_cfg demo_cfg0"

definition demo_sub :: "hash \<Rightarrow> bytes submission" where
  "demo_sub h = \<lparr>s_hash = h, s_wire = [0xA0, 0xB1], s_logTimeMicros = 77, s_receipts = [],
     s_traceContext = []\<rparr>"

definition demo_meta :: "bytes Meta" where
  "demo_meta = \<lparr>State = StatePending, Sequence = 0, Attempts = 0, LastErrTs = None,
      LogTimeMicros = 77, Web3Receipts = [], TraceContext = []\<rparr>"

definition demo1 :: memdb where
  "demo1 = snd (walFlushBatch mem_badger raw_codec demo_cfg 5 [demo_sub 11, demo_sub 12] [])"
definition demo2 :: memdb where
  "demo2 = snd (walSequence mem_badger raw_codec None 11 1 demo1)"
definition demo3 :: memdb where
  "demo3 = snd (MarkShipped mem_badger raw_codec None 11 demo2)"
definition demo4 :: memdb where
  "demo4 = snd (AdvanceHWM mem_badger None 2 demo3)"

lemma mem_ops [simp]:
  "bg_get mem_badger d k = Inr (map_of d k)" "bg_set mem_badger d k v = Inr ((k, v) # d)"
  "bg_delete mem_badger d k = Inr (filter (\<lambda>x. fst x \<noteq> k) d)" "bg_commit mem_badger d d' = Inr d'"
  "bg_sync mem_badger d = Inr d"
  by (simp_all add: mem_badger_def)

lemmas run_simps = walFlushBatch_def walSequence_def MarkShipped_def MarkManual_def MarkRetry_def
  AdvanceHWM_def dedupSet_def flushOne_def put_meta_def txn_get_def txn_set_def txn_delete_def
  readMeta_def ctx_update_def db_update_def encode_V1 decodeMeta_V1 fresh_meta_def meta_wf_def
  demo_sub_def demo_meta_def demo_cfg_def demo_cfg0_def NewCommitter_cfg_def

lemma demo1_run:
  "walFlushBatch mem_badger raw_codec demo_cfg 5 [demo_sub 11, demo_sub 12] [] = (Inr (), demo1)"
  and demo1_list: "demo1 = [(inflightKey 12, inflight_ts 5), (metaKey 12, encodeV1 demo_meta),
     (entryKey 12, [0xA0, 0xB1]), (inflightKey 11, inflight_ts 5),
     (metaKey 11, encodeV1 demo_meta), (entryKey 11, [0xA0, 0xB1])]"
  by (simp_all add: demo1_def run_simps)

lemma demo2_run: "walSequence mem_badger raw_codec None 11 1 demo1 = (Inr (), demo2)"
  and demo2_list: "demo2 = [(seqIndexKey 1, hash_bytes 11),
     (metaKey 11, encodeV1 (demo_meta\<lparr>State := StateSequenced, Sequence := 1\<rparr>)),
     (inflightKey 12, inflight_ts 5), (metaKey 12, encodeV1 demo_meta),
     (entryKey 12, [0xA0, 0xB1]), (metaKey 11, encodeV1 demo_meta), (entryKey 11, [0xA0, 0xB1])]"
  by (simp_all add: demo2_def demo1_list run_simps)

lemma demo3_run: "MarkShipped mem_badger raw_codec None 11 demo2 = (Inr (), demo3)"
  and demo3_list: "demo3 = (metaKey 11, encodeV1 (demo_meta\<lparr>State := StateShipped, Sequence := 1\<rparr>)) # demo2"
  by (simp_all add: demo3_def demo2_list run_simps)

lemma demo4_run: "AdvanceHWM mem_badger None 2 demo3 = (Inr (), demo4)"
  and demo4_list: "demo4 = (hwmKey, be64 2) # demo3"
  by (simp_all add: demo4_def run_simps)

lemmas demo_lists = demo4_list demo3_list demo2_list demo1_list

lemma sub_ok_demo [simp]: "sub_ok raw_codec (demo_sub h)"
  by (simp add: sub_ok_def demo_sub_def fresh_meta_def meta_wf_def)

lemma demo_reach:
  "wal_reach mem_badger map_of raw_codec demo_cfg demo1"
  "wal_reach mem_badger map_of raw_codec demo_cfg demo2"
  "wal_reach mem_badger map_of raw_codec demo_cfg demo3"
  "wal_reach mem_badger map_of raw_codec demo_cfg demo4"
proof -
  have "wal_step mem_badger raw_codec demo_cfg [] demo1"
    by (rule wal_step.submit [OF _ demo1_run]) simp
  then show 1: "wal_reach mem_badger map_of raw_codec demo_cfg demo1"
    by (intro wal_reach.step [OF wal_reach.start]) simp_all
  show 2: "wal_reach mem_badger map_of raw_codec demo_cfg demo2"
    by (rule wal_reach.step [OF 1 wal_step.seq [OF demo2_run]])
  show 3: "wal_reach mem_badger map_of raw_codec demo_cfg demo3"
    by (rule wal_reach.step [OF 2 wal_step.shipped [OF demo3_run]])
  show "wal_reach mem_badger map_of raw_codec demo_cfg demo4"
    by (rule wal_reach.step [OF 3 wal_step.advance [OF demo4_run]])
qed

lemma demo4_view:
  "v_hwm (view_of raw_codec (map_of demo4)) = 2"
  "v_seq (view_of raw_codec (map_of demo4)) 1 = Some 11"
  "v_meta (view_of raw_codec (map_of demo4)) 11 = Some (demo_meta\<lparr>State := StateShipped, Sequence := 1\<rparr>)"
  "v_meta (view_of raw_codec (map_of demo4)) 12 = Some demo_meta"
  by (simp_all add: demo_lists view_of_def decodeMeta_V1 demo_meta_def meta_wf_def)

lemma demo4_index: "dom (v_seq (view_of raw_codec (map_of demo4))) = {1}"
  by (auto simp: demo_lists view_of_def split: if_splits)

subsection \<open>Failed updates\<close>

lemma db_update_fail: "fst (db_update B w body d) = Inl e \<Longrightarrow> snd (db_update B w body d) = d"
  by (auto simp: db_update_def split: sum.splits)

lemma ctx_update_fail: "fst (ctx_update B x body d) = Inl e \<Longrightarrow> snd (ctx_update B x body d) = d"
  by (simp add: ctx_update_def db_update_fail split: option.splits)

lemma ReconcileHWM_fail: "fst (ReconcileHWM B c x d) = Inl e \<Longrightarrow> snd (ReconcileHWM B c x d) = d"
  by (auto simp: ReconcileHWM_def AdvanceHWM_def split: sum.splits if_splits prod.splits)
     (metis ctx_update_fail fst_conv snd_conv)

subsection \<open>Invariant and life cycle\<close>

text \<open>
  C6.  Whatever sequence of submissions, transitions, reconciliations
  and garbage collections ran, failed ones included, the database is well formed: every stored
  record decodes, every hash with wire bytes has a meta record and conversely, and every index
  entry points at a record that carries its sequence number and is sequenced, shipped or manual.
\<close>

theorem wal_reachable_invariant:
  assumes "wal_store B content c" "wal_reach B content c cfg d"
  shows "wf_kv c (content d) \<and> wal_inv (view_of c (content d))"
  using wal_store.reach_inv [OF assms] .

theorem wal_reachable_invariant_witness:
  "wf_kv raw_codec (map_of demo4) \<and> wal_inv (view_of raw_codec (map_of demo4))
   \<and> v_seq (view_of raw_codec (map_of demo4)) 1 = Some 11"
  using wal_reachable_invariant [OF mem_wal_store demo_reach(4)] demo4_view by simp

text \<open>
  C24.  From a reachable database a step of the committer keeps a record's
  log time, receipts and trace context, moves its state only from pending to sequenced, from sequenced
  or manual to shipped, or to manual by a \<open>MarkManual\<close> of that very hash (from whatever state,
  shipped included: \<open>MarkManual\<close> has no guard, although the diagram of \<open>storage.md\<close> and
  the property P7 of \<open>property_test.go\<close> make shipped terminal), changes its sequence number only when
  a pending entry is sequenced, and removes a record only when it is shipped and its sequence number lies
  below the retention window.
\<close>

theorem wal_record_lifecycle:
  assumes "wal_store B content c" "wal_reach B content c cfg d" "wal_step B c cfg d d'"
    and "v_meta (view_of c (content d)) h = Some m"
  shows "(\<exists>m'. v_meta (view_of c (content d')) h = Some m' \<and> meta_next m m' \<and>
      (State m' = State m \<or> State m = StatePending \<and> State m' = StateSequenced \<or>
       State m \<in> {StateSequenced, StateManual} \<and> State m' = StateShipped \<or>
       State m' = StateManual \<and> (\<exists>x. MarkManual B c x h d = (Inr (), d')))) \<or>
    v_meta (view_of c (content d')) h = None \<and> State m = StateShipped \<and>
    RetentionBuffer cfg < v_hwm (view_of c (content d)) \<and>
    Sequence m \<le> v_hwm (view_of c (content d)) - RetentionBuffer cfg"
proof -
  have inv: "wf_kv c (content d)" "wal_inv (view_of c (content d))"
    using wal_store.reach_inv [OF assms(1,2)] by simp_all
  have "(\<exists>m'. v_meta (view_of c (content d')) h = Some m' \<and> meta_next m m') \<or>
    v_meta (view_of c (content d')) h = None \<and> State m = StateShipped \<and>
    RetentionBuffer cfg < v_hwm (view_of c (content d)) \<and>
    Sequence m \<le> v_hwm (view_of c (content d)) - RetentionBuffer cfg"
    using wal_store.step_refines [OF assms(1,3) inv] wal_astep_meta [OF _ inv(2) assms(4)] by blast
  then show ?thesis using wal_store.step_to_manual [OF assms(1,3) inv assms(4)]
    by (auto simp: meta_next_def legal_state_def)
qed

theorem wal_record_lifecycle_witness:
  "\<exists>m. v_meta (view_of raw_codec (map_of demo2)) 12 = Some m \<and> meta_next demo_meta m"
proof -
  note st = wal_step.seq [OF demo2_run, of demo_cfg]
  have "v_meta (view_of raw_codec (map_of demo1)) 12 = Some demo_meta"
    by (simp add: demo_lists view_of_def decodeMeta_V1 demo_meta_def meta_wf_def)
  from wal_record_lifecycle [OF mem_wal_store demo_reach(1) st this] show ?thesis
    by (auto simp: demo_meta_def)
qed

subsection \<open>Submission\<close>

text \<open>
  C22.  A batch that the group commit acknowledges is stored as a whole: every
  submitted hash has the wire bytes of its last submission and an inflight marker, a hash that was
  known keeps its meta record untouched, a new one gets the fresh record of its first submission,
  and nothing else changes.
\<close>

theorem wal_submit_refines:
  assumes "wal_store B content c" "wf_kv c (content d)" "\<forall>s \<in> set batch. sub_ok c s"
    and "walFlushBatch B c cfg now batch d = (Inr (), d')"
  shows "wf_kv c (content d') \<and> view_of c (content d') = fold av_submit batch (view_of c (content d)) \<and>
    (\<forall>h. v_meta (view_of c (content d')) h =
        (case v_meta (view_of c (content d)) h of
           Some m \<Rightarrow> Some m
         | None \<Rightarrow> map_option fresh_meta (find (\<lambda>s. s_hash s = h) batch))) \<and>
    (\<forall>h. v_wire (view_of c (content d')) h =
        (case find (\<lambda>s. s_hash s = h) (rev batch) of
           Some s \<Rightarrow> Some (s_wire s) | None \<Rightarrow> v_wire (view_of c (content d)) h)) \<and>
    v_inflight (view_of c (content d')) = s_hash ` set batch \<union> v_inflight (view_of c (content d))"
  using wal_store.flushBatch_refines(1,2) [OF assms(1,4,2,3)]
  by (simp add: submits_meta submits_wire submits_other)

theorem wal_submit_refines_witness:
  "v_wire (view_of raw_codec (map_of demo1)) 12 = Some [0xA0, 0xB1]"
proof -
  have "\<forall>s \<in> set [demo_sub 11, demo_sub 12]. sub_ok raw_codec s" by simp
  from wal_submit_refines [OF mem_wal_store _ this demo1_run] show ?thesis by (simp add: demo_sub_def av_submit_def)
qed

text \<open>
  Submitting an acknowledged batch again changes nothing that a
  reader of the WAL can see: the second acknowledged flush leaves every table as the first did.
\<close>

theorem wal_submit_idempotent:
  assumes "wal_store B content c" "wf_kv c (content d)" "\<forall>s \<in> set batch. sub_ok c s"
    and "walFlushBatch B c cfg now batch d = (Inr (), d1)"
    and "walFlushBatch B c cfg now' batch d1 = (Inr (), d2)"
  shows "view_of c (content d2) = view_of c (content d1)"
proof -
  let ?v = "view_of c (content d)"
  note r1 = wal_store.flushBatch_refines(1,2) [OF assms(1,4,2,3)]
  have v1: "view_of c (content d1) = fold av_submit batch ?v" using r1(2) by simp
  have v2: "view_of c (content d2) = fold av_submit batch (fold av_submit batch ?v)"
    using wal_store.flushBatch_refines(2) [OF assms(1,5) r1(1) assms(3)] v1 by simp
  have "v_meta (fold av_submit batch (fold av_submit batch ?v)) h = v_meta (fold av_submit batch ?v) h" for h
    by (auto simp: submits_meta split: option.splits)
  moreover have "v_wire (fold av_submit batch (fold av_submit batch ?v)) h = v_wire (fold av_submit batch ?v) h" for h
    by (auto simp: submits_wire split: option.splits)
  ultimately show ?thesis unfolding v1 v2 by (intro wal_view.equality) (auto simp: submits_other)
qed

theorem wal_submit_idempotent_witness:
  "\<exists>d2. walFlushBatch mem_badger raw_codec demo_cfg 9 [demo_sub 11, demo_sub 12] demo1 = (Inr (), d2)
     \<and> view_of raw_codec (map_of d2) = view_of raw_codec (map_of demo1)"
proof -
  have ok: "\<forall>s \<in> set [demo_sub 11, demo_sub 12]. sub_ok raw_codec s" by simp
  obtain d2 where "walFlushBatch mem_badger raw_codec demo_cfg 9 [demo_sub 11, demo_sub 12] demo1 = (Inr (), d2)"
    by (simp add: demo1_list run_simps)
  with wal_submit_idempotent [OF mem_wal_store _ ok demo1_run] show ?thesis by auto
qed

subsection \<open>Sequencing and shipping\<close>

text \<open>
  On a store that does not fail, \<open>Sequence(h, s)\<close> does one of
  four things: it reports a missing record, accepts a repeated call with the same number without
  writing, refuses an entry that is neither pending nor sequenced at \<open>s\<close> with the database
  untouched, or sequences a pending entry: the record gets state and number, the index entry is
  written and the inflight marker disappears.
\<close>

theorem wal_sequence_outcome:
  assumes "wal_store B content c" "faultless B" "wf_kv c (content d)"
  shows "case v_meta (view_of c (content d)) h of
      None \<Rightarrow> walSequence B c None h s d = (Inl ErrNotFound, d)
    | Some m \<Rightarrow>
        if State m = StateSequenced \<and> Sequence m = s then
          \<exists>d'. walSequence B c None h s d = (Inr (), d') \<and> content d' = content d
        else if State m = StatePending then
          \<exists>d'. walSequence B c None h s d = (Inr (), d') \<and> wf_kv c (content d') \<and>
             view_of c (content d') = av_sequence h s m (view_of c (content d))
        else walSequence B c None h s d = (Inl (WBadState (State m) StatePending), d)"
  by (rule wal_store.Sequence_outcome [OF assms])

theorem wal_sequence_outcome_witness:
  "\<exists>d'. walSequence mem_badger raw_codec None 12 2 demo4 = (Inr (), d') \<and>
     v_seq (view_of raw_codec (map_of d')) 2 = Some 12"
  using wal_sequence_outcome [OF mem_wal_store mem_faultless, of demo4 12 2]
    wal_store.reach_inv [OF mem_wal_store demo_reach(4)] demo4_view(4)
  by (auto simp: demo_meta_def av_sequence_def)

text \<open>
  An operation that reports an error, for any reason (a cancelled
  context, a missing record, a wrong state, a store fault at any point), leaves the database as it
  found it.
\<close>

theorem wal_failure_atomic:
  "(fst (walSequence B c x h s d) = Inl e \<longrightarrow> snd (walSequence B c x h s d) = d) \<and>
   (fst (MarkShipped B c x h d) = Inl e \<longrightarrow> snd (MarkShipped B c x h d) = d) \<and>
   (fst (MarkRetry B c x now h d) = Inl e \<longrightarrow> snd (MarkRetry B c x now h d) = d) \<and>
   (fst (MarkManual B c x h d) = Inl e \<longrightarrow> snd (MarkManual B c x h d) = d) \<and>
   (fst (AdvanceHWM B x n d) = Inl e \<longrightarrow> snd (AdvanceHWM B x n d) = d) \<and>
   (fst (dedupSet B x i n d) = Inl e \<longrightarrow> snd (dedupSet B x i n d) = d) \<and>
   (fst (ReconcileHWM B c x d) = Inl e \<longrightarrow> snd (ReconcileHWM B c x d) = d)"
  using ReconcileHWM_fail [of B c x d e]
  unfolding walSequence_def MarkShipped_def MarkRetry_def MarkManual_def AdvanceHWM_def
  by (simp add: ctx_update_fail dedupSet_def db_update_fail split: option.splits)

theorem wal_failure_atomic_witness:
  "fst (walSequence mem_badger raw_codec None 11 7 demo4) = Inl (WBadState StateShipped StatePending) \<and>
   snd (walSequence mem_badger raw_codec None 11 7 demo4) = demo4"
proof -
  have "fst (walSequence mem_badger raw_codec None 11 7 demo4) = Inl (WBadState StateShipped StatePending)"
    by (simp add: demo_lists run_simps)
  with wal_failure_atomic [of mem_badger raw_codec None 11 7 demo4] show ?thesis by blast
qed

subsection \<open>Retention\<close>

text \<open>
  C7.  A run of \<open>GCBelowRetention\<close> on a reachable database with no other writer
  between its transactions, however it ends, removes a hash's data only if the entry was shipped and its
  sequence number is at most the high-water mark minus the retention buffer; it removes wire bytes,
  record and index entry together; every other record, every other index entry, the inflight markers, the
  deduplication table and the high-water mark stay.
\<close>

theorem wal_gc_safety:
  assumes "wal_store B content c" "wal_reach B content c cfg d"
    and "GCBelowRetention fuel B c cfg cx cur d = Some (r, n, d', cur')"
  defines "v \<equiv> view_of c (content d)" and "v' \<equiv> view_of c (content d')"
  shows "(\<forall>h. v_meta v' h = v_meta v h \<and> v_wire v' h = v_wire v h \<or>
      v_meta v' h = None \<and> v_wire v' h = None \<and>
      (\<exists>m. v_meta v h = Some m \<and> State m = StateShipped \<and> v_seq v (Sequence m) = Some h \<and>
         v_seq v' (Sequence m) = None \<and> RetentionBuffer cfg < v_hwm v \<and>
         Sequence m \<le> v_hwm v - RetentionBuffer cfg)) \<and>
    (\<forall>s. v_seq v' s = v_seq v s \<or>
      v_seq v' s = None \<and> (\<exists>h m. v_seq v s = Some h \<and> v_meta v h = Some m \<and> Sequence m = s \<and> State m = StateShipped \<and>
         s \<le> v_hwm v - RetentionBuffer cfg \<and> v_meta v' h = None)) \<and>
    v_inflight v' = v_inflight v \<and> v_hwm v' = v_hwm v \<and> v_dedup v' = v_dedup v"
proof -
  note inv = wal_store.reach_inv [OF assms(1,2)]
  from wal_store.GC_sound [OF assms(1,3)] inv obtain gs where
    ok: "\<forall>g \<in> set gs. victim_ok v (v_hwm v - RetentionBuffer cfg) g \<and> RetentionBuffer cfg < v_hwm v"
    and v': "v' = fold av_collect gs v" unfolding v_def v'_def by blast
  have inv': "wal_inv v" using inv by (simp add: v_def)
  have seq: "\<exists>h m. v_seq v s = Some h \<and> v_meta v h = Some m \<and> Sequence m = s \<and> State m = StateShipped \<and>
      s \<le> v_hwm v - RetentionBuffer cfg \<and> h \<in> gv_hash ` set gs" if s: "s \<in> gv_seq ` set gs" for s
  proof -
    obtain g where g: "g \<in> set gs" "s = gv_seq g" "victim_ok v (v_hwm v - RetentionBuffer cfg) g" using s ok by blast
    with wal_invD(2) [OF inv', of s "gv_hash g"] show ?thesis by (auto simp: victim_ok_def)
  qed
  show ?thesis
  proof (intro conjI allI)
    fix h show "v_meta v' h = v_meta v h \<and> v_wire v' h = v_wire v h \<or>
      v_meta v' h = None \<and> v_wire v' h = None \<and>
      (\<exists>m. v_meta v h = Some m \<and> State m = StateShipped \<and> v_seq v (Sequence m) = Some h \<and>
         v_seq v' (Sequence m) = None \<and> RetentionBuffer cfg < v_hwm v \<and> Sequence m \<le> v_hwm v - RetentionBuffer cfg)"
      unfolding v' collects_tables using gc_victims_below [OF inv' ok, of h] by auto
  next
    fix s show "v_seq v' s = v_seq v s \<or>
      v_seq v' s = None \<and> (\<exists>h m. v_seq v s = Some h \<and> v_meta v h = Some m \<and> Sequence m = s \<and> State m = StateShipped \<and>
         s \<le> v_hwm v - RetentionBuffer cfg \<and> v_meta v' h = None)"
      unfolding v' collects_tables using seq [of s] by (cases "s \<in> gv_seq ` set gs") auto
  qed (simp_all add: v' collects_frame)
qed

theorem wal_gc_safety_witness:
  "\<exists>r n d' cur'. GCBelowRetention 5 mem_badger raw_codec demo_cfg (\<lambda>_. None) 0 demo4 = Some (r, n, d', cur') \<and>
     v_meta (view_of raw_codec (map_of d')) 12 = Some demo_meta"
proof -
  have R: "RetentionBuffer demo_cfg = 1" by (simp add: demo_cfg_def demo_cfg0_def NewCommitter_cfg_def)
  note inv = wal_store.reach_inv [OF mem_wal_store demo_reach(4)]
  from wal_store.GC_complete [OF mem_wal_store mem_faultless conjunct1 [OF inv] conjunct2 [OF inv],
      of demo_cfg 5 0] R demo4_view(1) demo4_index
  obtain r n d' cur' where
    run: "GCBelowRetention 5 mem_badger raw_codec demo_cfg (\<lambda>_. None) 0 demo4 = Some (r, n, d', cur')"
    by auto
  have "State demo_meta \<noteq> StateShipped" by (simp add: demo_meta_def)
  with conjunct1 [OF wal_gc_safety [OF mem_wal_store demo_reach(4) run], THEN spec, of 12] demo4_view(4)
  have "v_meta (view_of raw_codec (map_of d')) 12 = Some demo_meta" by auto
  with run show ?thesis by blast
qed

text \<open>
  C23.  On a store that does not fail, with a live context and the mark above the
  positive retention buffer and no other writer between the transactions,
  \<open>GCBelowRetention\<close> terminates within one turn per index entry (plus one),
  succeeds, moves its cursor to the cutoff, and leaves no shipped entry between the old cursor and
  the cutoff.
\<close>

theorem wal_gc_complete:
  assumes "wal_store B content c" "faultless B" "wal_reach B content c cfg d"
    and "0 < RetentionBuffer cfg" "RetentionBuffer cfg < v_hwm (view_of c (content d))"
    and "card (dom (v_seq (view_of c (content d)))) < fuel"
  shows "\<exists>n d'. GCBelowRetention fuel B c cfg (\<lambda>_. None) cur d =
      Some (Inr (), n, d', v_hwm (view_of c (content d)) - RetentionBuffer cfg) \<and>
    (\<forall>s. cur \<le> s \<and> s \<le> v_hwm (view_of c (content d)) - RetentionBuffer cfg \<longrightarrow>
       \<not> shipped_at (view_of c (content d')) s)"
  using wal_store.GC_complete [OF assms(1,2)] wal_store.reach_inv [OF assms(1,3)] assms(4-6) by blast

theorem wal_gc_complete_witness:
  "shipped_at (view_of raw_codec (map_of demo4)) 1 \<and>
   (\<exists>n d'. GCBelowRetention 2 mem_badger raw_codec demo_cfg (\<lambda>_. None) 0 demo4 = Some (Inr (), n, d', 1) \<and>
     \<not> shipped_at (view_of raw_codec (map_of d')) 1)"
proof -
  have R: "RetentionBuffer demo_cfg = 1" by (simp add: demo_cfg_def demo_cfg0_def NewCommitter_cfg_def)
  have "shipped_at (view_of raw_codec (map_of demo4)) 1"
    using demo4_view by (simp add: shipped_at_def demo_meta_def)
  moreover have "\<exists>n d'. GCBelowRetention 2 mem_badger raw_codec demo_cfg (\<lambda>_. None) 0 demo4 = Some (Inr (), n, d', 1) \<and>
     \<not> shipped_at (view_of raw_codec (map_of d')) 1"
    using wal_gc_complete [OF mem_wal_store mem_faultless demo_reach(4), of 2 0] demo4_view(1) demo4_index R
    by auto
  ultimately show ?thesis ..
qed

subsection \<open>Scans\<close>

text \<open>
  On a reachable database \<open>IterateSequenced\<close> calls back for
  exactly the entries in state sequenced above \<open>fromSeq\<close> (all of them when it is 0), in
  strictly ascending order, and stops at the callback's first error or when the context ends: it
  never fails for a missing record.
\<close>

theorem wal_iterate_sequenced:
  assumes "wal_store B content c" "faultless B" "wal_reach B content c cfg d" "fromSeq \<noteq> - 1"
  shows "\<exists>es. sorted_wrt (<) (map SE_Seq es) \<and> set es = sequenced_above (view_of c (content d)) fromSeq \<and>
    (\<forall>cx (fn :: 's \<Rightarrow> SequencedEntry \<Rightarrow> wal_error option \<times> 's) s. cx s = None \<longrightarrow>
      IterateSequenced B c cx fromSeq fn s d = visit cx fn s es)"
  using wal_store.IterateSequenced_visit [OF assms(1,2)] wal_store.reach_inv [OF assms(1,3)] assms(4)
  by blast

theorem wal_iterate_sequenced_witness:
  "\<exists>es. set es = {\<lparr>SE_Seq = 1, SE_Hash = 11\<rparr>} \<and>
     IterateSequenced mem_badger raw_codec (\<lambda>_. None) 0 (\<lambda>acc e. (None, acc @ [e])) [] demo2
       = visit (\<lambda>_. None) (\<lambda>acc e. (None, acc @ [e])) [] es"
proof -
  have one: "sequenced_above (view_of raw_codec (map_of demo2)) 0 = {\<lparr>SE_Seq = 1, SE_Hash = 11\<rparr>}"
    by (auto simp: sequenced_above_def demo_lists view_of_def decodeMeta_V1 demo_meta_def meta_wf_def
        split: if_splits option.splits)
  from wal_iterate_sequenced [OF mem_wal_store mem_faultless demo_reach(2), of 0] one
  show ?thesis by (metis (no_types, lifting) neg_equal_0_iff_equal zero_neq_one)
qed

text \<open>
  At boot \<open>ReconcileHWM\<close> moves the mark over exactly the
  contiguous run of shipped entries above it: every entry it passes is shipped, and it stops only
  where the next number is not shipped.  Nothing but the mark changes.
\<close>

theorem wal_reconcile_hwm:
  assumes "wal_store B content c" "faultless B" "wal_reach B content c cfg d"
    and "v_hwm (view_of c (content d)) \<noteq> - 1"
  shows "\<exists>n d'. ReconcileHWM B c None d = (Inr n, d') \<and>
    view_of c (content d') = (view_of c (content d))\<lparr>v_hwm := n\<rparr> \<and>
    v_hwm (view_of c (content d)) \<le> n \<and>
    (\<forall>s. v_hwm (view_of c (content d)) < s \<and> s \<le> n \<longrightarrow> shipped_at (view_of c (content d)) s) \<and>
    (n = - 1 \<or> \<not> shipped_at (view_of c (content d)) (n + 1))"
  using wal_store.Reconcile_complete [OF assms(1,2)] wal_store.reach_inv [OF assms(1,3)] assms(4) by blast

theorem wal_reconcile_hwm_witness:
  "\<exists>d'. ReconcileHWM mem_badger raw_codec None demo3 = (Inr 1, d')"
proof -
  let ?v = "view_of raw_codec (map_of demo3)"
  have v: "v_hwm ?v = 0" "shipped_at ?v 1" "\<not> shipped_at ?v 2"
    by (simp_all add: shipped_at_def demo_lists view_of_def decodeMeta_V1 demo_meta_def meta_wf_def)
  from wal_reconcile_hwm [OF mem_wal_store mem_faultless demo_reach(3)] v(1) obtain n d' where
    n: "ReconcileHWM mem_badger raw_codec None demo3 = (Inr n, d')"
    "\<forall>s. 0 < s \<and> s \<le> n \<longrightarrow> shipped_at ?v s" "n = - 1 \<or> \<not> shipped_at ?v (n + 1)" by auto
  have "n \<noteq> 0" using n(3) v(2) by auto
  moreover have "\<not> 2 \<le> n" using n(2) v(3) by auto
  ultimately have "unat n = 1" by (auto simp: word_le_nat_alt unat_eq_0 [symmetric])
  then have "n = 1" by (simp add: word_unat_eq_iff)
  with n(1) show ?thesis by blast
qed

end
