(* ===== verification/WalLoop.thy ===== *)
theory WalLoop
  imports WalSpec
begin

section \<open>Group commit: Submit, the commit loop and Close\<close>

text \<open>
  Models the concurrent half of \<open>wal/committer.go\<close>: the submitters' two \<open>select\<close>
  statements, the commit goroutine and \<open>Close\<close>.  The state holds the buffered channel
  \<open>c.in\<close>, the two close signals, the goroutine's local variables and the database; a
  submission's \<open>done\<close> channel (capacity one) is the entry of its number in
  \<open>l_done\<close>.  \<open>l_accepted\<close> is a ghost: the submissions ever sent on \<open>c.in\<close>, in
  order.  A Go \<open>select\<close> picks any ready case, so the steps form a relation; other WAL
  operations run between them (\<open>env\<close>).  A stopped timer may still have fired before, so the
  timer case is enabled at any time.
\<close>

type_synonym 'r sub = "nat \<times> 'r submission"

record ('r, 'db) loop =
  l_in :: "'r sub list"
  l_closing :: bool
  l_closed :: bool
  l_draining :: bool
  l_batch :: "'r sub list"
  l_bytes :: int
  l_timer :: bool
  l_done :: "nat \<rightharpoonup> wal_error + unit"
  l_db :: 'db
  l_accepted :: "'r sub list"

definition wire_len :: "'r sub \<Rightarrow> int" where
  "wire_len s = int (length (s_wire (snd s)))"

definition NewCommitter :: "'db \<Rightarrow> ('r, 'db) loop" where
  "NewCommitter d =
     \<lparr>l_in = [], l_closing = False, l_closed = False, l_draining = False, l_batch = [], l_bytes = 0,
      l_timer = False, l_done = Map.empty, l_db = d, l_accepted = []\<rparr>"

subsection \<open>The submitter's side\<close>

datatype enq = Enqueued | Refused wal_error

text \<open>The first \<open>select\<close> of \<open>Submit\<close>: which outcomes it may have, and their effect.\<close>

definition submitEnq ::
  "CommitterConfig \<Rightarrow> ('r, 'db) loop \<Rightarrow> 'r sub \<Rightarrow> (enq \<times> ('r, 'db) loop) list" where
  "submitEnq cfg st s =
     (if s_wire (snd s) = [] then [(Refused ErrEmptyWire, st)]
      else
        let send = (if int (length (l_in st)) < QueueSize cfg
                    then [(Enqueued, st\<lparr>l_in := l_in st @ [s], l_accepted := l_accepted st @ [s]\<rparr>)]
                    else []);
            clos = (if l_closing st then [(Refused ErrClosed, st)] else []) in
        if send @ clos = [] then [(Refused ErrQueueFull, st)] else send @ clos)"

text \<open>The second \<open>select\<close>: the results it may return; none while it blocks.\<close>

definition submitWait :: "('r, 'db) loop \<Rightarrow> ctx \<Rightarrow> nat \<Rightarrow> (wal_error + unit) list" where
  "submitWait st x i =
     (case l_done st i of Some r \<Rightarrow> [r] | None \<Rightarrow> []) @
     (case x of Some e \<Rightarrow> [Inl (WCtx e)] | None \<Rightarrow> []) @
     (if l_closing st then [Inl ErrClosed] else [])"

definition closeSignal :: "('r, 'db) loop \<Rightarrow> ('r, 'db) loop" where
  "closeSignal st = (if l_closing st then st else st\<lparr>l_closing := True\<rparr>)"

subsection \<open>The commit goroutine\<close>

definition loopFlush ::
  "'db badger \<Rightarrow> 'r receipt_codec \<Rightarrow> CommitterConfig \<Rightarrow> u64 \<Rightarrow> ('r, 'db) loop \<Rightarrow> ('r, 'db) loop" where
  "loopFlush B c cfg now st =
     (if l_batch st = [] then st
      else
        let (err, d') = walFlushBatch B c cfg now (map snd (l_batch st)) (l_db st) in
        st\<lparr>l_done := l_done st ++ map_of (map (\<lambda>s. (fst s, err)) (l_batch st)),
           l_batch := [], l_bytes := 0, l_timer := False, l_db := d'\<rparr>)"

definition loopAppend :: "'r sub \<Rightarrow> ('r, 'db) loop \<Rightarrow> ('r, 'db) loop" where
  "loopAppend s st =
     st\<lparr>l_in := tl (l_in st), l_batch := l_batch st @ [s], l_bytes := l_bytes st + wire_len s\<rparr>"

text \<open>\<open>case s := <-c.in\<close>\<close>

definition loopRecv ::
  "'db badger \<Rightarrow> 'r receipt_codec \<Rightarrow> CommitterConfig \<Rightarrow> u64 \<Rightarrow> 'r sub \<Rightarrow> ('r, 'db) loop \<Rightarrow> ('r, 'db) loop" where
  "loopRecv B c cfg now s st =
     (let st0 = (if l_batch st = [] then st\<lparr>l_timer := True\<rparr> else st);
          st1 = loopAppend s st0 in
      if int (length (l_batch st1)) \<ge> BatchMaxEntries cfg \<or> l_bytes st1 \<ge> BatchMaxBytes cfg
      then loopFlush B c cfg now st1 else st1)"

text \<open>\<open>case <-batchTimer.C\<close>\<close>

definition loopTick ::
  "'db badger \<Rightarrow> 'r receipt_codec \<Rightarrow> CommitterConfig \<Rightarrow> u64 \<Rightarrow> ('r, 'db) loop \<Rightarrow> ('r, 'db) loop" where
  "loopTick B c cfg now st = loopFlush B c cfg now (st\<lparr>l_timer := False\<rparr>)"

text \<open>One turn of the drain loop after \<open><-c.closing\<close>.\<close>

definition loopDrain ::
  "'db badger \<Rightarrow> 'r receipt_codec \<Rightarrow> CommitterConfig \<Rightarrow> u64 \<Rightarrow> ('r, 'db) loop \<Rightarrow> ('r, 'db) loop" where
  "loopDrain B c cfg now st =
     (case l_in st of
        s # _ \<Rightarrow> loopAppend s st
      | [] \<Rightarrow> (loopFlush B c cfg now st)\<lparr>l_closed := True\<rparr>)"

inductive loop_step ::
  "'db badger \<Rightarrow> 'r receipt_codec \<Rightarrow> CommitterConfig \<Rightarrow> ('r, 'db) loop \<Rightarrow> ('r, 'db) loop \<Rightarrow> bool"
  for B c cfg where
  enq: "sub_ok c (snd s) \<Longrightarrow> fst s \<notin> fst ` set (l_accepted st) \<Longrightarrow> (e, st') \<in> set (submitEnq cfg st s) \<Longrightarrow>
    loop_step B c cfg st st'"
| recv: "\<not> l_draining st \<Longrightarrow> l_in st = s # q \<Longrightarrow> loop_step B c cfg st (loopRecv B c cfg now s st)"
| tick: "\<not> l_draining st \<Longrightarrow> loop_step B c cfg st (loopTick B c cfg now st)"
| see_close: "\<not> l_draining st \<Longrightarrow> l_closing st \<Longrightarrow> loop_step B c cfg st (st\<lparr>l_draining := True\<rparr>)"
| drain: "l_draining st \<Longrightarrow> \<not> l_closed st \<Longrightarrow> loop_step B c cfg st (loopDrain B c cfg now st)"
| close: "loop_step B c cfg st (closeSignal st)"
| env: "wal_step B c cfg (l_db st) d' \<Longrightarrow> loop_step B c cfg st (st\<lparr>l_db := d'\<rparr>)"

inductive loop_reach ::
  "'db badger \<Rightarrow> ('db \<Rightarrow> kv) \<Rightarrow> 'r receipt_codec \<Rightarrow> CommitterConfig \<Rightarrow> ('r, 'db) loop \<Rightarrow> bool"
  for B content c cfg where
  start: "wal_reach B content c cfg d \<Longrightarrow> loop_reach B content c cfg (NewCommitter d)"
| step: "loop_reach B content c cfg st \<Longrightarrow> loop_step B c cfg st st' \<Longrightarrow> loop_reach B content c cfg st'"

subsection \<open>Invariant\<close>

text \<open>
  FIFO conservation: the accepted submissions are, in order, the answered ones, the current batch
  and the channel's buffer.
\<close>

definition loop_inv :: "'r receipt_codec \<Rightarrow> CommitterConfig \<Rightarrow> ('r, 'db) loop \<Rightarrow> bool" where
  "loop_inv c cfg st \<longleftrightarrow>
     (\<exists>fin. l_accepted st = fin @ l_batch st @ l_in st \<and> dom (l_done st) = fst ` set fin) \<and>
     distinct (map fst (l_accepted st)) \<and> (\<forall>s \<in> set (l_accepted st). sub_ok c (snd s)) \<and>
     l_bytes st = sum_list (map wire_len (l_batch st)) \<and>
     int (length (l_in st)) \<le> QueueSize cfg \<and>
     (l_closed st \<longrightarrow> l_draining st \<and> l_batch st = []) \<and> (l_draining st \<longrightarrow> l_closing st) \<and>
     (\<not> l_draining st \<longrightarrow> (l_timer st \<longleftrightarrow> l_batch st \<noteq> []) \<and>
        int (length (l_batch st)) < BatchMaxEntries cfg \<and> l_bytes st < BatchMaxBytes cfg)"

definition cfg_ok :: "CommitterConfig \<Rightarrow> bool" where
  "cfg_ok cfg \<longleftrightarrow> 0 < QueueSize cfg \<and> 0 < BatchMaxEntries cfg \<and> 0 < BatchMaxBytes cfg"

lemma NewCommitter_cfg_ok: "cfg_ok (NewCommitter_cfg cfg)"
  by (simp add: cfg_ok_def NewCommitter_cfg_def)

lemma flush_fields [simp]:
  "l_in (loopFlush B c cfg now st) = l_in st" "l_accepted (loopFlush B c cfg now st) = l_accepted st"
  "l_closing (loopFlush B c cfg now st) = l_closing st" "l_closed (loopFlush B c cfg now st) = l_closed st"
  "l_draining (loopFlush B c cfg now st) = l_draining st" "l_batch (loopFlush B c cfg now st) = []"
  "dom (l_done (loopFlush B c cfg now st)) = fst ` set (l_batch st) \<union> dom (l_done st)"
  by (auto simp: loopFlush_def Let_def dom_map_of_conv_image_fst image_image split: prod.splits)

lemma flush_reset:
  "l_batch st \<noteq> [] \<Longrightarrow> l_bytes (loopFlush B c cfg now st) = 0 \<and> \<not> l_timer (loopFlush B c cfg now st)"
  "l_batch st = [] \<Longrightarrow> loopFlush B c cfg now st = st"
  by (auto simp: loopFlush_def Let_def split: prod.splits)

text \<open>
  What a flush needs of its state; the size bounds are not among it, since a flush runs exactly
  when they are reached.
\<close>

definition loop_core :: "'r receipt_codec \<Rightarrow> CommitterConfig \<Rightarrow> ('r, 'db) loop \<Rightarrow> bool" where
  "loop_core c cfg st \<longleftrightarrow>
     (\<exists>fin. l_accepted st = fin @ l_batch st @ l_in st \<and> dom (l_done st) = fst ` set fin) \<and>
     distinct (map fst (l_accepted st)) \<and> (\<forall>s \<in> set (l_accepted st). sub_ok c (snd s)) \<and>
     l_bytes st = sum_list (map wire_len (l_batch st)) \<and>
     int (length (l_in st)) \<le> QueueSize cfg"

lemma loop_inv_core: "loop_inv c cfg st \<Longrightarrow> loop_core c cfg st"
  by (simp add: loop_inv_def loop_core_def)

lemma core_flush:
  assumes "loop_core c cfg st"
  shows "loop_core c cfg (loopFlush B c' cfg' now st)"
proof -
  obtain fin where "l_accepted st = fin @ l_batch st @ l_in st" "dom (l_done st) = fst ` set fin"
    using assms by (auto simp: loop_core_def)
  then have "\<exists>fin. l_accepted st = fin @ l_in st \<and> fst ` set (l_batch st) \<union> dom (l_done st) = fst ` set fin"
    by (intro exI [of _ "fin @ l_batch st"]) auto
  moreover have "l_bytes (loopFlush B c' cfg' now st) = 0"
    using assms by (cases "l_batch st = []") (auto simp: loop_core_def flush_reset)
  ultimately show ?thesis using assms by (simp add: loop_core_def)
qed

lemma core_append:
  assumes "loop_core c cfg st" "l_in st = s # q"
  shows "loop_core c cfg (loopAppend s st)"
  using assms by (auto simp: loop_core_def loopAppend_def)

lemma core_timer [simp]: "loop_core c cfg (st\<lparr>l_timer := b\<rparr>) = loop_core c cfg st"
  by (simp add: loop_core_def)

lemma loop_inv_start: "cfg_ok cfg \<Longrightarrow> loop_inv c cfg (NewCommitter d)"
  by (simp add: loop_inv_def NewCommitter_def cfg_ok_def)

lemma loop_inv_enq:
  assumes "loop_inv c cfg st" "sub_ok c (snd s)" "fst s \<notin> fst ` set (l_accepted st)"
    and "(e, st') \<in> set (submitEnq cfg st s)"
  shows "loop_inv c cfg st'"
proof (cases "st' = st")
  case False
  then have "int (length (l_in st)) < QueueSize cfg"
    and st': "st' = st\<lparr>l_in := l_in st @ [s], l_accepted := l_accepted st @ [s]\<rparr>"
    using assms(4) by (auto simp: submitEnq_def Let_def split: if_splits)
  moreover obtain fin where "l_accepted st = fin @ l_batch st @ l_in st" "dom (l_done st) = fst ` set fin"
    using assms(1) by (auto simp: loop_inv_def)
  ultimately show ?thesis using assms(1-3) by (auto simp: loop_inv_def)
qed (use assms in simp)

lemma loop_inv_recv:
  assumes "loop_inv c cfg st" "\<not> l_draining st" "l_in st = s # q" "cfg_ok cfg"
  shows "loop_inv c cfg (loopRecv B c' cfg now s st)"
proof -
  let ?st0 = "if l_batch st = [] then st\<lparr>l_timer := True\<rparr> else st"
  let ?st1 = "loopAppend s ?st0"
  have "loop_core c cfg ?st0" "l_in ?st0 = s # q" using loop_inv_core [OF assms(1)] assms(3) by auto
  then have core: "loop_core c cfg ?st1" by (rule core_append)
  have f: "l_draining ?st1 = False" "l_closing ?st1 = l_closing st" "l_closed ?st1 = False" "l_timer ?st1"
    "l_batch ?st1 \<noteq> []"
    using assms(1,2) by (auto simp: loopAppend_def loop_inv_def)
  show ?thesis
  proof (cases "int (length (l_batch ?st1)) \<ge> BatchMaxEntries cfg \<or> l_bytes ?st1 \<ge> BatchMaxBytes cfg")
    case True
    then have "loopRecv B c' cfg now s st = loopFlush B c' cfg now ?st1" by (auto simp: loopRecv_def Let_def)
    then show ?thesis
      using core_flush [OF core, of B c' cfg now] f flush_reset(1) [OF f(5), of B c' cfg now] assms(4)
      by (simp add: loop_inv_def loop_core_def cfg_ok_def)
  next
    case False
    then have "loopRecv B c' cfg now s st = ?st1" by (auto simp: loopRecv_def Let_def)
    then show ?thesis using core f False by (simp add: loop_inv_def loop_core_def not_le)
  qed
qed

lemma loop_inv_tick:
  assumes "loop_inv c cfg st" "\<not> l_draining st" "cfg_ok cfg"
  shows "loop_inv c cfg (loopTick B c' cfg now st)"
proof -
  let ?st0 = "st\<lparr>l_timer := False\<rparr>"
  have core: "loop_core c cfg ?st0" using loop_inv_core [OF assms(1)] by simp
  show ?thesis
    using core_flush [OF core, of B c' cfg now] flush_reset [of ?st0 B c' cfg now] assms
    by (cases "l_batch st = []") (auto simp: loopTick_def loop_inv_def loop_core_def cfg_ok_def)
qed

lemma loop_inv_drain:
  assumes "loop_inv c cfg st" "l_draining st" "\<not> l_closed st"
  shows "loop_inv c cfg (loopDrain B c' cfg now st)"
proof (cases "l_in st")
  case Nil
  then show ?thesis
    using core_flush [OF loop_inv_core [OF assms(1)], of B c' cfg now] assms
    by (auto simp: loopDrain_def loop_inv_def loop_core_def)
next
  case (Cons s q)
  then show ?thesis
    using core_append [OF loop_inv_core [OF assms(1)] Cons] assms
    by (auto simp: loopDrain_def loop_inv_def loop_core_def loopAppend_def)
qed

lemma loop_step_inv:
  assumes "loop_step B c cfg st st'" "loop_inv c cfg st" "cfg_ok cfg"
  shows "loop_inv c cfg st'"
  using assms
proof (induction rule: loop_step.induct)
  case (see_close st)
  then show ?case by (auto simp: loop_inv_def)
next
  case (close st)
  then show ?case by (auto simp: loop_inv_def closeSignal_def)
next
  case (env st d')
  then show ?case by (auto simp: loop_inv_def)
qed (auto simp: loop_inv_enq loop_inv_recv loop_inv_tick loop_inv_drain)

subsection \<open>The loop works on reachable databases\<close>

lemma flush_db:
  assumes "\<forall>s \<in> set (l_batch st). sub_ok c (snd s)"
  shows "l_db (loopFlush B c cfg now st) = l_db st \<or>
    wal_step B c cfg (l_db st) (l_db (loopFlush B c cfg now st))"
proof (cases "l_batch st = []")
  case True
  then show ?thesis by (simp add: flush_reset)
next
  case False
  obtain r d' where fl: "walFlushBatch B c cfg now (map snd (l_batch st)) (l_db st) = (r, d')" by fastforce
  have "wal_step B c cfg (l_db st) d'"
    by (rule wal_step.submit [OF _ fl]) (use assms in auto)
  with False fl show ?thesis by (simp add: loopFlush_def)
qed

lemma loop_step_db:
  assumes "loop_step B c cfg st st'" "loop_inv c cfg st"
  shows "l_db st' = l_db st \<or> wal_step B c cfg (l_db st) (l_db st')"
proof -
  have ok: "\<forall>s \<in> set (l_batch st). sub_ok c (snd s)" "\<forall>s \<in> set (l_in st). sub_ok c (snd s)"
    using assms(2) by (auto simp: loop_inv_def)
  from assms(1) show ?thesis
  proof cases
    case (enq s e)
    then show ?thesis by (auto simp: submitEnq_def Let_def split: if_splits)
  next
    case (recv s q now)
    let ?st1 = "loopAppend s (if l_batch st = [] then st\<lparr>l_timer := True\<rparr> else st)"
    have "l_db ?st1 = l_db st" "\<forall>s \<in> set (l_batch ?st1). sub_ok c (snd s)"
      using ok recv(3) by (auto simp: loopAppend_def)
    with flush_db [of ?st1 c B cfg now] recv(1) show ?thesis by (auto simp: loopRecv_def Let_def)
  next
    case (tick now)
    with flush_db [of "st\<lparr>l_timer := False\<rparr>" c B cfg now] ok show ?thesis by (simp add: loopTick_def)
  next
    case (drain now)
    with flush_db [of st c B cfg now] ok show ?thesis
      by (auto simp: loopDrain_def loopAppend_def split: list.splits)
  qed (auto simp: closeSignal_def)
qed

lemma loop_reach_inv:
  assumes "loop_reach B content c cfg st" "cfg_ok cfg"
  shows "loop_inv c cfg st \<and> wal_reach B content c cfg (l_db st)"
  using assms(1)
proof (induction rule: loop_reach.induct)
  case (start d)
  with loop_inv_start [OF assms(2)] show ?case by (simp add: NewCommitter_def)
next
  case (step st st')
  with loop_step_inv [OF step(2) _ assms(2)] loop_step_db [OF step(2)] wal_reach.step show ?case by metis
qed

text \<open>Where an answer comes from: a flush of the batch that holds the submission.\<close>

lemma flush_answer:
  assumes "l_done (loopFlush B c cfg now st) i = Some r" "l_done st i = None"
  shows "\<exists>s d'. (i, s) \<in> set (l_batch st) \<and>
    walFlushBatch B c cfg now (map snd (l_batch st)) (l_db st) = (r, d') \<and>
    l_db (loopFlush B c cfg now st) = d'"
proof -
  obtain r' d' where fl: "walFlushBatch B c cfg now (map snd (l_batch st)) (l_db st) = (r', d')" by fastforce
  have ne: "l_batch st \<noteq> []" using assms flush_reset(2) by fastforce
  then have "map_of (map (\<lambda>s. (fst s, r')) (l_batch st)) i = Some r"
    using assms fl by (auto simp: loopFlush_def map_add_Some_iff)
  then have "(i, r) \<in> set (map (\<lambda>s. (fst s, r')) (l_batch st))" by (rule map_of_SomeD)
  then have "r = r'" "i \<in> fst ` set (l_batch st)" by auto
  with fl ne show ?thesis by (auto simp: loopFlush_def)
qed

lemma step_answer:
  assumes "loop_step B c cfg st st'" "l_done st' i = Some r" "l_done st i = None"
  shows "\<exists>now s bt. (i, s) \<in> set bt \<and> set bt \<subseteq> set (l_batch st) \<union> set (l_in st) \<and>
    walFlushBatch B c cfg now (map snd bt) (l_db st) = (r, l_db st')"
  using assms(1)
proof cases
  case (enq s e)
  with assms(2,3) show ?thesis by (auto simp: submitEnq_def Let_def split: if_splits)
next
  case (recv s q now)
  let ?st1 = "loopAppend s (if l_batch st = [] then st\<lparr>l_timer := True\<rparr> else st)"
  have f: "l_done ?st1 = l_done st" "l_db ?st1 = l_db st" "set (l_batch ?st1) \<subseteq> set (l_batch st) \<union> set (l_in st)"
    using recv(3) by (auto simp: loopAppend_def)
  then have "st' = loopFlush B c cfg now ?st1"
    using recv(1) assms(2,3) by (auto simp: loopRecv_def Let_def split: if_splits)
  with flush_answer [of B c cfg now ?st1 i r] f assms(2,3) show ?thesis by metis
next
  case (tick now)
  with flush_answer [of B c cfg now "st\<lparr>l_timer := False\<rparr>" i r] assms(2,3) show ?thesis
    by (fastforce simp: loopTick_def)
next
  case (drain now)
  with assms(2,3) have "l_in st = []" "l_done (loopFlush B c cfg now st) i = Some r"
    "l_db st' = l_db (loopFlush B c cfg now st)"
    by (auto simp: loopDrain_def loopAppend_def split: list.splits)
  with flush_answer [of B c cfg now st i r] assms(3) show ?thesis by fastforce
qed (use assms(2,3) in \<open>auto simp: closeSignal_def split: if_splits\<close>)

lemma drain_turns:
  assumes "loop_inv c cfg st" "l_draining st" "\<not> l_closed st"
  shows "let st' = (loopDrain B c' cfg now ^^ Suc (length (l_in st))) st in
    l_closed st' \<and> l_in st' = [] \<and> l_batch st' = [] \<and> dom (l_done st') = fst ` set (l_accepted st)"
  using assms
proof (induction "length (l_in st)" arbitrary: st)
  case 0
  then obtain fin where "l_accepted st = fin @ l_batch st" "dom (l_done st) = fst ` set fin"
    by (auto simp: loop_inv_def)
  with 0 show ?case by (auto simp: loopDrain_def Let_def)
next
  case (Suc n)
  then obtain s q where q: "l_in st = s # q" by (cases "l_in st") auto
  let ?st1 = "loopDrain B c' cfg now st"
  have st1: "?st1 = loopAppend s st" by (simp add: loopDrain_def q)
  have "n = length (l_in ?st1)" "l_draining ?st1" "\<not> l_closed ?st1" "l_accepted ?st1 = l_accepted st"
    using Suc.hyps(2) Suc.prems q unfolding st1 by (auto simp: loopAppend_def)
  with Suc.hyps(1) [of ?st1] loop_inv_drain [OF Suc.prems]
  show ?case unfolding Suc.hyps(2) [symmetric] funpow_Suc_right [of "Suc n"] o_apply by simp
qed

lemma find_hit: "s \<in> set xs \<Longrightarrow> \<exists>s'. find (\<lambda>x. s_hash x = s_hash s) xs = Some s'"
  by (induction xs) auto

lemma find_mem: "find P xs = Some x \<Longrightarrow> x \<in> set xs \<and> P x"
  by (induction xs) (auto split: if_splits)

subsection \<open>A run\<close>

definition demo_loop :: "(bytes, memdb) loop" where
  "demo_loop = loopRecv mem_badger raw_codec demo_cfg 5 (0, demo_sub 11)
     ((NewCommitter [])\<lparr>l_in := [(0, demo_sub 11)], l_accepted := [(0, demo_sub 11)]\<rparr>)"

lemma demo_loop_fields:
  "demo_loop = (NewCommitter [])\<lparr>l_accepted := [(0, demo_sub 11)], l_batch := [(0, demo_sub 11)],
     l_bytes := 2, l_timer := True\<rparr>"
  by (simp add: demo_loop_def loopRecv_def loopAppend_def NewCommitter_def Let_def demo_cfg_def
      demo_cfg0_def NewCommitter_cfg_def wire_len_def demo_sub_def)

lemma demo_loop_reach: "loop_reach mem_badger map_of raw_codec (NewCommitter_cfg demo_cfg0) demo_loop"
proof -
  let ?st = "(NewCommitter [])\<lparr>l_in := [(0, demo_sub 11)], l_accepted := [(0, demo_sub 11)]\<rparr>"
  have "loop_reach mem_badger map_of raw_codec demo_cfg (NewCommitter [])"
    by (intro loop_reach.start wal_reach.start) simp
  moreover have "(Enqueued, ?st) \<in> set (submitEnq demo_cfg (NewCommitter []) (0, demo_sub 11))"
    by (simp add: submitEnq_def NewCommitter_def demo_cfg_def demo_cfg0_def NewCommitter_cfg_def demo_sub_def)
  then have "loop_step mem_badger raw_codec demo_cfg (NewCommitter []) ?st"
    by (intro loop_step.enq) (simp_all add: NewCommitter_def)
  ultimately have "loop_reach mem_badger map_of raw_codec demo_cfg ?st" by (rule loop_reach.step)
  then show ?thesis
    unfolding demo_loop_def demo_cfg_def
    by (rule loop_reach.step, intro loop_step.recv) (simp_all add: NewCommitter_def)
qed

subsection \<open>Properties\<close>

text \<open>
  C11.  In every interleaving of submitters, timer, close and the other
  WAL operations, with the defaults of \<open>NewCommitter\<close> applied: accepted submissions are
  answered in order and at most once, none is lost or duplicated between channel, batch and
  answers; the batch's byte count is exact; outside shutdown the batch stays below both size limits
  and its timer runs exactly when it is not empty, so a waiting submission is never forgotten; and
  the database is reachable by WAL operations.
\<close>

theorem group_commit_invariant:
  assumes "loop_reach B content c (NewCommitter_cfg cfg) st"
  shows "loop_inv c (NewCommitter_cfg cfg) st \<and> wal_reach B content c (NewCommitter_cfg cfg) (l_db st)"
  by (rule loop_reach_inv [OF assms NewCommitter_cfg_ok])

theorem group_commit_invariant_witness:
  "loop_inv raw_codec (NewCommitter_cfg demo_cfg0) demo_loop \<and> l_batch demo_loop = [(0, demo_sub 11)]"
  using group_commit_invariant [OF demo_loop_reach] by (simp add: demo_loop_fields)

text \<open>
  C10.  A submission is answered with success only in a step after which
  the WAL holds its wire bytes and a record for its hash.  (The wire bytes are those of the last
  submission of the same hash in the batch; hashes are taken to identify the wire.)
\<close>

theorem group_commit_durable:
  assumes "wal_store B content c" "loop_reach B content c (NewCommitter_cfg cfg) st"
    and "loop_step B c (NewCommitter_cfg cfg) st st'"
    and "l_done st i = None" "l_done st' i = Some (Inr ())"
    and "\<forall>a \<in> set (l_accepted st). \<forall>b \<in> set (l_accepted st).
      s_hash (snd a) = s_hash (snd b) \<longrightarrow> s_wire (snd a) = s_wire (snd b)"
  shows "\<exists>s. (i, s) \<in> set (l_accepted st) \<and>
    v_wire (view_of c (content (l_db st'))) (s_hash s) = Some (s_wire s) \<and>
    v_meta (view_of c (content (l_db st'))) (s_hash s) \<noteq> None"
proof -
  note inv = loop_reach_inv [OF assms(2) NewCommitter_cfg_ok]
  have acc: "set (l_batch st) \<union> set (l_in st) \<subseteq> set (l_accepted st)"
    "\<forall>s \<in> set (l_accepted st). sub_ok c (snd s)" using inv by (auto simp: loop_inv_def)
  from step_answer [OF assms(3,5,4)] obtain now s bt where
    s: "(i, s) \<in> set bt" and bt: "set bt \<subseteq> set (l_batch st) \<union> set (l_in st)"
    and fl: "walFlushBatch B c (NewCommitter_cfg cfg) now (map snd bt) (l_db st) = (Inr (), l_db st')" by blast
  have ok: "\<forall>x \<in> set (map snd bt). sub_ok c x" using bt acc by auto
  have wf: "wf_kv c (content (l_db st))" using wal_store.reach_inv [OF assms(1)] inv by blast
  note v = wal_store.flushBatch_refines(2) [OF assms(1) fl wf ok refl]
  have mem: "s \<in> set (map snd bt)" using s by force
  have "v_meta (view_of c (content (l_db st'))) (s_hash s) \<noteq> None"
    unfolding v submits_meta using find_hit [OF mem] by (auto split: option.splits)
  moreover have "v_wire (view_of c (content (l_db st'))) (s_hash s) = Some (s_wire s)"
  proof -
    obtain s' where f: "find (\<lambda>x. s_hash x = s_hash s) (rev (map snd bt)) = Some s'"
      using find_hit [of s "rev (map snd bt)"] mem by auto
    from find_mem [OF f] have "s' \<in> set (map snd bt)" "s_hash s' = s_hash s" by auto
    moreover from this obtain j where "(j, s') \<in> set bt" by auto
    then have "(j, s') \<in> set (l_accepted st)" using bt acc(1) by blast
    moreover have "(i, s) \<in> set (l_accepted st)" using s bt acc(1) by blast
    ultimately have "s_wire s' = s_wire s" using assms(6) by fastforce
    with f show ?thesis unfolding v submits_wire by simp
  qed
  ultimately show ?thesis using s bt acc(1) by blast
qed

theorem group_commit_durable_witness:
  "\<exists>st'. loop_step mem_badger raw_codec demo_cfg demo_loop st' \<and> l_done st' 0 = Some (Inr ()) \<and>
     v_wire (view_of raw_codec (map_of (l_db st'))) 11 = Some [0xA0, 0xB1]"
proof -
  let ?st' = "loopTick mem_badger raw_codec (NewCommitter_cfg demo_cfg0) 5 demo_loop"
  have st: "loop_step mem_badger raw_codec (NewCommitter_cfg demo_cfg0) demo_loop ?st'"
    by (rule loop_step.tick) (simp add: demo_loop_fields NewCommitter_def)
  have done': "l_done demo_loop 0 = None" "l_done ?st' 0 = Some (Inr ())"
    by (simp_all add: demo_loop_fields loopTick_def loopFlush_def NewCommitter_def run_simps)
  have acc: "l_accepted demo_loop = [(0, demo_sub 11)]" by (simp add: demo_loop_fields)
  from group_commit_durable [OF mem_wal_store demo_loop_reach st done'] acc
  have "v_wire (view_of raw_codec (map_of (l_db ?st'))) 11 = Some [0xA0, 0xB1]"
    by (simp add: demo_sub_def)
  with st done'(2) show ?thesis unfolding demo_cfg_def by blast
qed

text \<open>
  C27.  Once the goroutine has seen the close signal, the drain loop
  ends after one turn per buffered submission and one more: the channel and the batch are empty,
  the loop is closed, and every submission accepted so far has its answer, so \<open>Close\<close>
  returns and nothing that reached the channel is dropped.
\<close>

theorem group_commit_close_drains:
  assumes "loop_reach B content c (NewCommitter_cfg cfg) st" "l_draining st" "\<not> l_closed st"
  shows "let st' = (loopDrain B c (NewCommitter_cfg cfg) now ^^ Suc (length (l_in st))) st in
    l_closed st' \<and> l_in st' = [] \<and> l_batch st' = [] \<and> dom (l_done st') = fst ` set (l_accepted st)"
  using drain_turns [OF _ assms(2,3)] loop_reach_inv [OF assms(1) NewCommitter_cfg_ok] by blast

theorem group_commit_close_drains_witness:
  "let st = (closeSignal demo_loop)\<lparr>l_draining := True\<rparr> in
   l_closed ((loopDrain mem_badger raw_codec (NewCommitter_cfg demo_cfg0) 5 ^^ Suc (length (l_in st))) st)"
proof -
  let ?cfg = "NewCommitter_cfg demo_cfg0" and ?st = "(closeSignal demo_loop)\<lparr>l_draining := True\<rparr>"
  have "loop_reach mem_badger map_of raw_codec ?cfg (closeSignal demo_loop)"
    by (rule loop_reach.step [OF demo_loop_reach loop_step.close])
  moreover have "loop_step mem_badger raw_codec ?cfg (closeSignal demo_loop) ?st"
    by (rule loop_step.see_close) (simp_all add: closeSignal_def demo_loop_fields NewCommitter_def)
  ultimately have "loop_reach mem_badger map_of raw_codec ?cfg ?st" by (rule loop_reach.step)
  from group_commit_close_drains [OF this] show ?thesis
    by (simp add: Let_def closeSignal_def demo_loop_fields NewCommitter_def)
qed

end
