(* ===== verification/Aimd.thy ===== *)
theory Aimd
  imports Complex_Main Prelude
begin

section \<open>AIMD congestion control\<close>

text \<open>
  Models \<open>shipper/aimd.go\<close>.  The limit is a \<open>float64\<close> in the code and a rational
  here: the model does not round.  Time is in nanoseconds.  \<open>acquire\<close> returns \<open>None\<close>
  where the caller parks until the next release; \<open>gen\<close> only wakes parked callers and has no
  counterpart.
\<close>

record aimdLimiter =
  al_limit :: rat
  al_inflight :: int
  al_min :: rat
  al_max :: rat
  al_step :: rat
  al_lastSuccess :: "int option"

definition newAIMDLimiter :: "int \<Rightarrow> int \<Rightarrow> rat \<Rightarrow> aimdLimiter" where
  "newAIMDLimiter mn mx stp =
     (let mn = (if mn < 1 then 1 else mn);
          mx = (if mx < mn then mn else mx);
          stp = (if stp \<le> 0 then 1 / 2 else stp) in
      \<lparr>al_limit = of_int mx, al_inflight = 0, al_min = of_int mn, al_max = of_int mx,
       al_step = stp, al_lastSuccess = None\<rparr>)"

definition aimd_acquire :: "aimdLimiter \<Rightarrow> aimdLimiter option" where
  "aimd_acquire l =
     (if of_int (al_inflight l) < al_limit l
      then Some (l\<lparr>al_inflight := al_inflight l + 1\<rparr>) else None)"

definition aimd_release :: "int \<Rightarrow> bool \<Rightarrow> aimdLimiter \<Rightarrow> aimdLimiter" where
  "aimd_release now success l =
     (let l1 = (if al_inflight l > 0 then l\<lparr>al_inflight := al_inflight l - 1\<rparr> else l) in
      if success
      then l1\<lparr>al_limit := min (al_max l) (al_limit l + al_step l), al_lastSuccess := Some now\<rparr>
      else l1\<lparr>al_limit := max (al_min l) (al_limit l / 2)\<rparr>)"

definition aimd_healthy :: "int \<Rightarrow> int \<Rightarrow> aimdLimiter \<Rightarrow> bool" where
  "aimd_healthy now window l =
     (case al_lastSuccess l of None \<Rightarrow> False | Some t \<Rightarrow> now - t < window)"

definition currentLimit :: "aimdLimiter \<Rightarrow> rat" where
  "currentLimit l = al_limit l"

subsection \<open>Runs of the limiter\<close>

inductive aimd_step :: "aimdLimiter \<Rightarrow> aimdLimiter \<Rightarrow> bool" where
  acquire: "aimd_acquire l = Some l' \<Longrightarrow> aimd_step l l'"
| release: "aimd_step l (aimd_release now success l)"

inductive aimd_reach :: "aimdLimiter \<Rightarrow> aimdLimiter \<Rightarrow> bool" for l0 where
  start: "aimd_reach l0 l0"
| step: "aimd_reach l0 l \<Longrightarrow> aimd_step l l' \<Longrightarrow> aimd_reach l0 l'"

definition aimd_inv :: "aimdLimiter \<Rightarrow> bool" where
  "aimd_inv l \<longleftrightarrow> 1 \<le> al_min l \<and> al_min l \<le> al_limit l \<and> al_limit l \<le> al_max l \<and> 0 < al_step l \<and>
     al_max l \<in> \<int> \<and> 0 \<le> al_inflight l \<and> of_int (al_inflight l) \<le> al_max l"

lemma aimd_inv_new: "aimd_inv (newAIMDLimiter mn mx stp)"
  by (simp add: aimd_inv_def newAIMDLimiter_def Let_def)

lemma aimd_inv_acquire:
  assumes "aimd_inv l" "aimd_acquire l = Some l'"
  shows "aimd_inv l'"
proof -
  obtain z where z: "al_max l = of_int z" using assms(1) by (auto simp: aimd_inv_def elim: Ints_cases)
  have "(of_int (al_inflight l) :: rat) < of_int z" and l': "l' = l\<lparr>al_inflight := al_inflight l + 1\<rparr>"
    using assms z by (auto simp: aimd_inv_def aimd_acquire_def split: if_splits)
  then have "al_inflight l + 1 \<le> z" by simp
  then have "(of_int (al_inflight l + 1) :: rat) \<le> al_max l" unfolding z of_int_le_iff .
  then show ?thesis using assms(1) unfolding l' aimd_inv_def by simp
qed

lemma aimd_inv_release: "aimd_inv l \<Longrightarrow> aimd_inv (aimd_release now success l)"
  by (auto simp: aimd_inv_def aimd_release_def Let_def)

lemma aimd_step_inv: "aimd_step l l' \<Longrightarrow> aimd_inv l \<Longrightarrow> aimd_inv l'"
  by (induction rule: aimd_step.induct) (simp_all add: aimd_inv_release aimd_inv_acquire)

lemma aimd_reach_inv: "aimd_reach l0 l \<Longrightarrow> aimd_inv l0 \<Longrightarrow> aimd_inv l"
  by (induction rule: aimd_reach.induct) (blast intro: aimd_step_inv)+

lemma aimd_release_frame:
  "al_min (aimd_release now b l) = al_min l" "al_max (aimd_release now b l) = al_max l"
  "al_step (aimd_release now b l) = al_step l"
  by (simp_all add: aimd_release_def Let_def)

subsection \<open>Properties\<close>

text \<open>
  Whatever uploads succeed or fail, the limit stays between its floor (at least
  1) and the worker-pool ceiling, the number of slots in use never exceeds the ceiling and never
  goes negative, and a limiter with no slot in use always grants one: it keeps probing a failing
  store.
\<close>

theorem aimd_bounds:
  assumes "aimd_reach (newAIMDLimiter mn mx stp) l"
  shows "1 \<le> al_min l \<and> al_min l \<le> currentLimit l \<and> currentLimit l \<le> al_max l \<and>
    0 \<le> al_inflight l \<and> of_int (al_inflight l) \<le> al_max l \<and>
    (al_inflight l = 0 \<longrightarrow> aimd_acquire l \<noteq> None)"
  using aimd_reach_inv [OF assms aimd_inv_new] by (auto simp: aimd_inv_def currentLimit_def aimd_acquire_def)

theorem aimd_bounds_witness:
  "let l = aimd_release 5 False (newAIMDLimiter 1 32 0) in currentLimit l = 16 \<and> aimd_acquire l \<noteq> None"
proof -
  have "aimd_reach (newAIMDLimiter 1 32 0) (aimd_release 5 False (newAIMDLimiter 1 32 0))"
    by (rule aimd_reach.step [OF aimd_reach.start aimd_step.release])
  from aimd_bounds [OF this] show ?thesis
    by (simp add: aimd_release_def newAIMDLimiter_def Let_def currentLimit_def aimd_acquire_def)
qed

lemma min_chain: "0 \<le> p \<Longrightarrow> min M (min M a + p) = min M (a + p :: rat)"
  by (auto simp: min_def)

lemma successes_limit:
  "aimd_inv l \<Longrightarrow>
   al_limit ((aimd_release now True ^^ n) l) = min (al_max l) (al_limit l + of_nat n * al_step l)"
proof (induction n arbitrary: l)
  case 0
  then show ?case by (simp add: aimd_inv_def)
next
  case (Suc n)
  let ?l = "aimd_release now True l"
  have "al_limit ((aimd_release now True ^^ Suc n) l) = min (al_max ?l) (al_limit ?l + of_nat n * al_step ?l)"
    using Suc.IH [OF aimd_inv_release [OF Suc.prems]] by (simp add: funpow_swap1)
  moreover have "al_limit ?l = min (al_max l) (al_limit l + al_step l)"
    by (simp add: aimd_release_def Let_def)
  moreover have "0 \<le> al_step l * rat_of_nat n" using Suc.prems by (simp add: aimd_inv_def)
  ultimately show ?case
    unfolding aimd_release_frame by (simp only: min_chain mult.commute [of "rat_of_nat _"] of_nat_Suc distrib_left distrib_right mult_1 mult_1_right
        add.assoc)
qed

lemma failures_limit:
  "aimd_inv l \<Longrightarrow>
   al_limit ((aimd_release now False ^^ n) l) = max (al_min l) (al_limit l / 2 ^ n)"
proof (induction n arbitrary: l)
  case 0
  then show ?case by (simp add: aimd_inv_def)
next
  case (Suc n)
  let ?l = "aimd_release now False l"
  have "al_limit ((aimd_release now False ^^ Suc n) l) = max (al_min ?l) (al_limit ?l / 2 ^ n)"
    using Suc.IH [OF aimd_inv_release [OF Suc.prems]] by (simp add: funpow_swap1)
  moreover have "al_limit ?l = max (al_min l) (al_limit l / 2)"
    by (simp add: aimd_release_def Let_def)
  moreover have "al_min l / 2 ^ n \<le> al_min l"
    using Suc.prems by (auto simp: aimd_inv_def divide_le_eq)
  moreover have "max (al_min l) (al_limit l / 2) / 2 ^ n = max (al_min l / 2 ^ n) (al_limit l / 2 ^ Suc n)"
    by (auto simp: max_def divide_right_mono not_le frac_le_eq field_simps intro!: antisym)
  ultimately show ?case unfolding aimd_release_frame by simp
qed

text \<open>
  After \<open>n\<close> successes in a row the limit is the old one plus \<open>n\<close>
  steps, capped at the ceiling; after \<open>n\<close> failures it is the old one halved \<open>n\<close>
  times, floored: additive increase, multiplicative decrease, so enough successes restore the
  ceiling after any outage.
\<close>

theorem aimd_adapts:
  assumes "aimd_reach (newAIMDLimiter mn mx stp) l"
  shows "currentLimit ((aimd_release now True ^^ n) l) =
      min (al_max l) (currentLimit l + of_nat n * al_step l) \<and>
    currentLimit ((aimd_release now False ^^ n) l) = max (al_min l) (currentLimit l / 2 ^ n)"
  using successes_limit failures_limit aimd_reach_inv [OF assms aimd_inv_new]
  by (simp add: currentLimit_def)

theorem aimd_adapts_witness:
  "currentLimit ((aimd_release 9 False ^^ 2) (newAIMDLimiter 1 32 0)) = 8"
  using aimd_adapts [OF aimd_reach.start, where mn = 1 and mx = 32 and stp = 0 and now = 9 and n = 2]
  by (simp add: newAIMDLimiter_def Let_def currentLimit_def)

end
