(* ===== verification/Shipper.thy ===== *)
theory Shipper
  imports WalLoop Aimd
begin

section \<open>The shipper: operations\<close>

text \<open>
  Models \<open>shipper/shipper.go\<close>: configuration and defaults, the scan that dispatches
  sequenced entries, the workers' \<open>shipOne\<close> with its failure path, the retry backoff and
  the goroutine that advances the high-water mark.

  The Go interface \<open>shipper.WAL\<close> is the record \<open>shipWAL\<close> of its eight methods over
  an abstract WAL value \<open>'w\<close>; \<open>committerWAL\<close> is the one the ledger passes in.  The
  byte store is an external service: an upload is its outcome.  A shipper state holds the WAL, the
  work channel, the entries the workers hold (before and after taking a limiter slot), the
  completion channel with the sends that wait for it, the hold set \<open>above\<close> and the limiter.
  A scan reads the mark, opens a Badger snapshot and hands the entries of that snapshot to its callback
  one by one; \<open>sh_scan\<close> holds what is left of it, so that workers, completions and the WAL's other
  users run between any two of these steps.  \<open>scanAndDispatch\<close> is the scan that nobody interrupts.
\<close>

record Config =
  PollInterval :: int
  MaxInFlight :: int
  MaxAttempts :: u32
  BackoffBase :: int
  BackoffMax :: int
  HealthyWindow :: int
  AIMDStep :: rat

definition NewShipper_cfg :: "Config \<Rightarrow> Config" where
  "NewShipper_cfg cfg =
     cfg\<lparr>PollInterval := (if PollInterval cfg \<le> 0 then 100 * 1000000 else PollInterval cfg),
         MaxInFlight := (if MaxInFlight cfg \<le> 0 then 32 else MaxInFlight cfg),
         MaxAttempts := (if MaxAttempts cfg = 0 then 10 else MaxAttempts cfg),
         BackoffBase := (if BackoffBase cfg \<le> 0 then 1000000000 else BackoffBase cfg),
         BackoffMax := (if BackoffMax cfg \<le> 0 then 60 * 1000000000 else BackoffMax cfg),
         HealthyWindow := (if HealthyWindow cfg \<le> 0 then 60 * 1000000000 else HealthyWindow cfg),
         AIMDStep := (if AIMDStep cfg \<le> 0 then 1 / 2 else AIMDStep cfg)\<rparr>"

text \<open>
  Where the scanner is: between two scans, after reading the mark and the clock, or with the rest of
  the entries its snapshot still has to yield.
\<close>

datatype scan = ScanIdle | ScanFrom u64 int | ScanAt int "SequencedEntry list"

record ('w, 'r) shipWAL =
  sw_HWM :: "ctx \<Rightarrow> 'w \<Rightarrow> wal_error + u64"
  sw_AdvanceHWM :: "ctx \<Rightarrow> u64 \<Rightarrow> 'w \<Rightarrow> (wal_error + unit) \<times> 'w"
  sw_IterateSequenced :: "(SequencedEntry list \<Rightarrow> ctx) \<Rightarrow> u64
     \<Rightarrow> (SequencedEntry list \<Rightarrow> SequencedEntry \<Rightarrow> wal_error option \<times> SequencedEntry list) \<Rightarrow> SequencedEntry list
     \<Rightarrow> 'w \<Rightarrow> (wal_error + unit) \<times> SequencedEntry list"
  sw_Read :: "ctx \<Rightarrow> 'w \<Rightarrow> hash \<Rightarrow> wal_error + bytes"
  sw_MetaState :: "ctx \<Rightarrow> 'w \<Rightarrow> hash \<Rightarrow> wal_error + 'r Meta"
  sw_MarkShipped :: "ctx \<Rightarrow> hash \<Rightarrow> 'w \<Rightarrow> (wal_error + unit) \<times> 'w"
  sw_MarkRetry :: "ctx \<Rightarrow> u64 \<Rightarrow> hash \<Rightarrow> 'w \<Rightarrow> (wal_error + unit) \<times> 'w"
  sw_MarkManual :: "ctx \<Rightarrow> hash \<Rightarrow> 'w \<Rightarrow> (wal_error + unit) \<times> 'w"

definition committerWAL :: "'db badger \<Rightarrow> 'r receipt_codec \<Rightarrow> ('db, 'r) shipWAL" where
  "committerWAL B c =
     \<lparr>sw_HWM = HWM B, sw_AdvanceHWM = AdvanceHWM B, sw_IterateSequenced = IterateSequenced B c,
      sw_Read = walRead B, sw_MetaState = MetaState B c, sw_MarkShipped = MarkShipped B c,
      sw_MarkRetry = MarkRetry B c, sw_MarkManual = MarkManual B c\<rparr>"

record 'w shipper =
  sh_wal :: 'w
  sh_scan :: scan
  sh_work :: "SequencedEntry list"
  sh_active :: "SequencedEntry list"
  sh_upload :: "(SequencedEntry \<times> bytes) list"
  sh_inflight :: "u64 set"
  sh_completion :: "u64 list"
  sh_above :: "u64 set"
  sh_limiter :: aimdLimiter
  sh_shipped :: nat
  sh_uniqueShipped :: "u64 set"
  sh_retries :: nat
  sh_manual :: nat
  sh_markShippedFailures :: nat
  sh_skippedInflight :: nat
  sh_hwm :: u64

definition NewShipper :: "'w \<Rightarrow> Config \<Rightarrow> 'w shipper" where
  "NewShipper w cfg =
     \<lparr>sh_wal = w, sh_scan = ScanIdle, sh_work = [], sh_active = [], sh_upload = [], sh_inflight = {}, sh_completion = [],
      sh_above = {}, sh_limiter = newAIMDLimiter 1 (MaxInFlight cfg) (AIMDStep cfg),
      sh_shipped = 0, sh_uniqueShipped = {}, sh_retries = 0, sh_manual = 0, sh_markShippedFailures = 0,
      sh_skippedInflight = 0, sh_hwm = 0\<rparr>"

subsection \<open>Backoff\<close>

text \<open>\<open>time.Duration\<close> is an \<open>int64\<close>; Go's shift by 64 or more gives 0.\<close>

definition backoffFor :: "Config \<Rightarrow> u32 \<Rightarrow> int" where
  "backoffFor cfg attempt =
     (if attempt = 0 then 0
      else
        let d = sint (push_bit (unat (attempt - 1)) (word_of_int (BackoffBase cfg) :: u64)) in
        if d \<le> 0 \<or> d > BackoffMax cfg then BackoffMax cfg else d)"

subsection \<open>Scan and dispatch\<close>

definition iterStop :: wal_error where
  "iterStop = WCallback ''shipper: iteration paused (workers full)''"

text \<open>
  \<open>now.Before(meta.LastErrTs.Add(backoff))\<close>; the zero time is before every instant a
  running ledger can read.
\<close>

definition backing_off :: "Config \<Rightarrow> int \<Rightarrow> 'r Meta \<Rightarrow> bool" where
  "backing_off cfg now m =
     (Attempts m > 0 \<and>
      (case LastErrTs m of None \<Rightarrow> False | Some ns \<Rightarrow> now < sint ns + backoffFor cfg (Attempts m)))"

text \<open>
  The callback of \<open>IterateSequenced\<close>, on the state of the shipper when it runs.  \<open>x\<close> is the
  context when it starts, \<open>x'\<close> at the \<open>select\<close>; \<open>pick\<close> tells which case the
  \<open>select\<close> takes when the send and the ended context are both ready.
\<close>

definition scanCallback ::
  "('w, 'r) shipWAL \<Rightarrow> Config \<Rightarrow> int \<Rightarrow> ctx \<Rightarrow> ctx \<Rightarrow> bool \<Rightarrow> SequencedEntry \<Rightarrow> 'w shipper
     \<Rightarrow> wal_error option \<times> 'w shipper" where
  "scanCallback W cfg now x x' pick e s =
     (case x of
        Some er \<Rightarrow> (Some (WCtx er), s)
      | None \<Rightarrow>
          (case sw_MetaState W x (sh_wal s) (SE_Hash e) of
             Inl _ \<Rightarrow> (None, s)
           | Inr m \<Rightarrow>
               if backing_off cfg now m then (None, s)
               else if SE_Seq e \<in> sh_inflight s then (None, s\<lparr>sh_skippedInflight := sh_skippedInflight s + 1\<rparr>)
               else
                 let s1 = s\<lparr>sh_inflight := insert (SE_Seq e) (sh_inflight s)\<rparr>;
                     s2 = s1\<lparr>sh_inflight := sh_inflight s1 - {SE_Seq e}\<rparr>;
                     room = int (length (sh_work s1)) < MaxInFlight cfg * 2 in
                 (case x' of
                    None \<Rightarrow>
                      if room then (None, s1\<lparr>sh_work := sh_work s1 @ [e]\<rparr>) else (Some iterStop, s2)
                  | Some er \<Rightarrow>
                      if room \<and> pick then (None, s1\<lparr>sh_work := sh_work s1 @ [e]\<rparr>) else (Some (WCtx er), s2))))"

text \<open>
  The steps of a scan.  \<open>scanOpen\<close> takes the snapshot: what the iteration over it yields, up to its
  first read error, is what \<open>IterateSequenced\<close> hands to a callback that collects.
\<close>

definition scanBegin :: "('w, 'r) shipWAL \<Rightarrow> ctx \<Rightarrow> int \<Rightarrow> 'w shipper \<Rightarrow> 'w shipper" where
  "scanBegin W x now st =
     (case sw_HWM W x (sh_wal st) of Inl _ \<Rightarrow> st | Inr hwm \<Rightarrow> st\<lparr>sh_scan := ScanFrom hwm now\<rparr>)"

definition scanOpen :: "('w, 'r) shipWAL \<Rightarrow> (SequencedEntry list \<Rightarrow> ctx) \<Rightarrow> 'w shipper \<Rightarrow> 'w shipper" where
  "scanOpen W cx st =
     (case sh_scan st of
        ScanFrom hwm now \<Rightarrow>
          st\<lparr>sh_scan := ScanAt now (snd (sw_IterateSequenced W cx hwm (\<lambda>es e. (None, es @ [e])) [] (sh_wal st)))\<rparr>
      | _ \<Rightarrow> st)"

definition scanItem :: "('w, 'r) shipWAL \<Rightarrow> Config \<Rightarrow> ctx \<Rightarrow> ctx \<Rightarrow> bool \<Rightarrow> 'w shipper \<Rightarrow> 'w shipper" where
  "scanItem W cfg x x' pick st =
     (case sh_scan st of
        ScanAt now (e # es) \<Rightarrow>
          (case scanCallback W cfg now x x' pick e st of
             (None, st') \<Rightarrow> st'\<lparr>sh_scan := ScanAt now es\<rparr>
           | (Some _, st') \<Rightarrow> st'\<lparr>sh_scan := ScanIdle\<rparr>)
      | ScanAt now [] \<Rightarrow> st\<lparr>sh_scan := ScanIdle\<rparr>
      | _ \<Rightarrow> st)"

definition scanAndDispatch ::
  "('w, 'r) shipWAL \<Rightarrow> Config \<Rightarrow> int \<Rightarrow> ctx \<Rightarrow> ctx \<Rightarrow> bool \<Rightarrow> 'w shipper \<Rightarrow> 'w shipper" where
  "scanAndDispatch W cfg now x x' pick st =
     (let st1 = scanOpen W (\<lambda>_. x) (scanBegin W x now st) in
      case sh_scan st1 of
        ScanAt _ es \<Rightarrow> (scanItem W cfg x x' pick ^^ Suc (length es)) st1
      | _ \<Rightarrow> st1)"

subsection \<open>Workers\<close>

text \<open>
  \<open>case s.completion <- e.Seq / case <-ctx.Done()\<close>: the send waits until there is room; it may be
  given up only when the context has ended (\<open>x\<close>), as \<open>pick\<close> decides.
\<close>

definition signalCompletion :: "ctx \<Rightarrow> bool \<Rightarrow> u64 \<Rightarrow> 'w shipper \<Rightarrow> 'w shipper" where
  "signalCompletion x pick q st =
     (if x = None \<or> pick then st\<lparr>sh_completion := sh_completion st @ [q]\<rparr> else st)"

definition recordFailure ::
  "('w, 'r) shipWAL \<Rightarrow> Config \<Rightarrow> ctx \<Rightarrow> bool \<Rightarrow> u64 \<Rightarrow> SequencedEntry \<Rightarrow> 'w shipper \<Rightarrow> 'w shipper" where
  "recordFailure W cfg x pick now e st =
     (case sw_MetaState W x (sh_wal st) (SE_Hash e) of
        Inl _ \<Rightarrow> st
      | Inr m \<Rightarrow>
          if aimd_healthy (sint now) (HealthyWindow cfg) (sh_limiter st) \<and> Attempts m + 1 \<ge> MaxAttempts cfg then
            (case sw_MarkManual W x (SE_Hash e) (sh_wal st) of
               (Inl _, w) \<Rightarrow> st\<lparr>sh_wal := w\<rparr>
             | (Inr _, w) \<Rightarrow>
                 signalCompletion x pick (SE_Seq e) (st\<lparr>sh_wal := w, sh_manual := sh_manual st + 1\<rparr>))
          else
            (case sw_MarkRetry W x now (SE_Hash e) (sh_wal st) of
               (Inl _, w) \<Rightarrow> st\<lparr>sh_wal := w\<rparr>
             | (Inr _, w) \<Rightarrow> st\<lparr>sh_wal := w, sh_retries := sh_retries st + 1\<rparr>))"

definition releaseInflight :: "SequencedEntry \<Rightarrow> 'w shipper \<Rightarrow> 'w shipper" where
  "releaseInflight e st = st\<lparr>sh_inflight := sh_inflight st - {SE_Seq e}\<rparr>"

text \<open>A worker takes the next entry off the work channel.\<close>

definition workerRecv :: "'w shipper \<Rightarrow> 'w shipper" where
  "workerRecv st =
     (case sh_work st of
        [] \<Rightarrow> st
      | e # es \<Rightarrow> st\<lparr>sh_work := es, sh_active := sh_active st @ [e]\<rparr>)"

text \<open>
  \<open>shipOne\<close> up to the limiter: \<open>None\<close> where it parks in \<open>acquire\<close>.  \<open>x\<close> is
  the context at entry, \<open>x'\<close> at the limiter.  The deferred release of the reservation runs on
  every return.
\<close>

definition shipBegin ::
  "('w, 'r) shipWAL \<Rightarrow> Config \<Rightarrow> ctx \<Rightarrow> ctx \<Rightarrow> bool \<Rightarrow> u64 \<Rightarrow> SequencedEntry \<Rightarrow> 'w shipper \<Rightarrow> 'w shipper option" where
  "shipBegin W cfg x x' pick now e st =
     (let st0 = st\<lparr>sh_active := remove1 e (sh_active st)\<rparr> in
      if x \<noteq> None then Some (releaseInflight e st0)
      else
        (case sw_Read W x (sh_wal st) (SE_Hash e) of
           Inl _ \<Rightarrow> Some (releaseInflight e (recordFailure W cfg x pick now e st0))
         | Inr wire \<Rightarrow>
             (case aimd_acquire (sh_limiter st) of
                Some l \<Rightarrow> Some (st0\<lparr>sh_limiter := l, sh_upload := sh_upload st @ [(e, wire)]\<rparr>)
              | None \<Rightarrow> if x' \<noteq> None then Some (releaseInflight e st0) else None)))"

text \<open>\<open>shipOne\<close> from the upload on; \<open>up\<close> is the byte store's outcome.\<close>

definition shipFinish ::
  "('w, 'r) shipWAL \<Rightarrow> Config \<Rightarrow> ctx \<Rightarrow> bool \<Rightarrow> u64 \<Rightarrow> bool \<Rightarrow> SequencedEntry \<times> bytes \<Rightarrow> 'w shipper \<Rightarrow> 'w shipper" where
  "shipFinish W cfg x pick now up ew st =
     (let e = fst ew;
          st0 = st\<lparr>sh_upload := remove1 ew (sh_upload st),
                   sh_limiter := aimd_release (sint now) up (sh_limiter st)\<rparr> in
      releaseInflight e
        (if \<not> up then recordFailure W cfg x pick now e st0
         else
           (case sw_MarkShipped W x (SE_Hash e) (sh_wal st0) of
              (Inl _, w) \<Rightarrow> st0\<lparr>sh_wal := w, sh_markShippedFailures := sh_markShippedFailures st0 + 1\<rparr>
            | (Inr _, w) \<Rightarrow>
                signalCompletion x pick (SE_Seq e)
                  (st0\<lparr>sh_wal := w, sh_shipped := sh_shipped st0 + 1,
                       sh_uniqueShipped := insert (SE_Seq e) (sh_uniqueShipped st0)\<rparr>))))"

subsection \<open>The high-water mark\<close>

definition aboveSetSizeFactor :: int where "aboveSetSizeFactor = 1024"

text \<open>The circuit breaker; \<open>Inl\<close> is the panic.\<close>

definition checkAboveSetBounded :: "Config \<Rightarrow> u64 set \<Rightarrow> string + unit" where
  "checkAboveSetBounded cfg held =
     (if MaxInFlight cfg \<le> 0 then Inr ()
      else if int (card held) \<le> MaxInFlight cfg * aboveSetSizeFactor then Inr ()
      else Inl ''shipper/hwm: catastrophic stall'')"

text \<open>
  The run of held completions above \<open>n\<close>.  Each turn takes a number out of the finite hold
  set.
\<close>

function aboveRun :: "u64 \<Rightarrow> u64 set \<Rightarrow> u64 \<times> u64 set" where
  "aboveRun n held =
     (if n + 1 \<in> held then aboveRun (n + 1) (held - {n + 1}) else (n, held))"
  by pat_completeness auto
termination
  by (relation "measure (\<lambda>(n, held). card held)") (auto intro: card_Diff1_less simp del: card_Diff_insert)

declare aboveRun.simps [simp del]

text \<open>
  \<open>processCompletion\<close>: the new state and the breaker's verdict.  The re-stash loop after a
  failed write visits \<open>seq..newHWM\<close>.
\<close>

definition processCompletion ::
  "('w, 'r) shipWAL \<Rightarrow> Config \<Rightarrow> ctx \<Rightarrow> u64 \<Rightarrow> 'w shipper \<Rightarrow> (string + unit) \<times> 'w shipper" where
  "processCompletion W cfg x q st =
     (case sw_HWM W x (sh_wal st) of
        Inl _ \<Rightarrow>
          let st1 = st\<lparr>sh_above := insert q (sh_above st)\<rparr> in
          (checkAboveSetBounded cfg (sh_above st1), st1)
      | Inr hwm \<Rightarrow>
          if q \<le> hwm then (Inr (), st)
          else if q > hwm + 1 then
            let st1 = st\<lparr>sh_above := insert q (sh_above st)\<rparr> in
            (checkAboveSetBounded cfg (sh_above st1), st1)
          else
            let (newHWM, held) = aboveRun q (sh_above st) in
            (case sw_AdvanceHWM W x newHWM (sh_wal st) of
               (Inl _, w) \<Rightarrow> (Inr (), st\<lparr>sh_wal := w, sh_above := held \<union> {q..newHWM}\<rparr>)
             | (Inr _, w) \<Rightarrow> (Inr (), st\<lparr>sh_wal := w, sh_above := held, sh_hwm := newHWM\<rparr>)))"

text \<open>\<open>hwmAdvancer\<close>: one receive from the completion channel.\<close>

definition hwmAdvancer ::
  "('w, 'r) shipWAL \<Rightarrow> Config \<Rightarrow> ctx \<Rightarrow> 'w shipper \<Rightarrow> (string + unit) \<times> 'w shipper" where
  "hwmAdvancer W cfg x st =
     (case sh_completion st of
        [] \<Rightarrow> (Inr (), st)
      | q # qs \<Rightarrow> processCompletion W cfg x q (st\<lparr>sh_completion := qs\<rparr>))"

end
