(* ===== verification/ShipperHwm.thy ===== *)
theory ShipperHwm
  imports Shipper
begin

section \<open>Backoff and the high-water mark\<close>

text \<open>
  Properties of the shipper's arithmetic and of the advancer: the backoff is the capped exponential
  in spite of the 64-bit shift; completions may arrive in any order; and what happens to the mark
  after a write of it failed.
\<close>

subsection \<open>Backoff\<close>

lemma sint_word_of_int64: "\<exists>q. sint (word_of_int x :: u64) = x - q * 2 ^ 64"
proof -
  have "sint (word_of_int x :: u64) = (x + 2 ^ 63) mod 2 ^ 64 - 2 ^ 63" by (simp add: int_word_sint)
  also have "\<dots> = x - ((x + 2 ^ 63) div 2 ^ 64) * 2 ^ 64"
    using div_mult_mod_eq [of "x + 2 ^ 63" "2 ^ 64 :: int"] by linarith
  finally show ?thesis by blast
qed

lemma sint_small: "0 \<le> x \<Longrightarrow> x < 2 ^ 63 \<Longrightarrow> sint (word_of_int x :: u64) = x"
  by (simp add: int_word_sint)

lemma shifted_base: "push_bit k (word_of_int b :: u64) = word_of_int (b * 2 ^ k)"
  by (simp add: push_bit_eq_mult of_int_power [symmetric] del: of_int_power) (simp add: mult.commute)

text \<open>A shifted duration is a multiple of a power of two that exceeds the cap once it overflows.\<close>

lemma overflow_exceeds:
  assumes "0 < b" "b = c * 2 ^ v" "c * mx < 2 ^ 63" "\<not> b * 2 ^ k < 2 ^ 63" "0 < mx"
  shows "sint (word_of_int (b * 2 ^ k) :: u64) \<le> 0 \<or> mx < sint (word_of_int (b * 2 ^ k) :: u64)"
proof -
  have c: "0 < c" using assms(1,2) by (simp add: zero_less_mult_iff)
  have big: "mx < 2 ^ (v + k)"
  proof (rule ccontr)
    assume "\<not> mx < 2 ^ (v + k)"
    then have "c * 2 ^ (v + k) \<le> c * mx" using c by simp
    with assms(2-4) show False by (simp add: power_add mult.assoc)
  qed
  obtain q where q: "sint (word_of_int (b * 2 ^ k) :: u64) = b * 2 ^ k - q * 2 ^ 64"
    using sint_word_of_int64 by blast
  show ?thesis
  proof (cases "v + k \<le> 64")
    case True
    then have "(2 :: int) ^ (v + k) dvd 2 ^ 64" by (rule le_imp_power_dvd)
    moreover have "(2 :: int) ^ (v + k) dvd b * 2 ^ k" unfolding assms(2) by (simp add: power_add)
    ultimately have "2 ^ (v + k) dvd sint (word_of_int (b * 2 ^ k) :: u64)" unfolding q by simp
    then show ?thesis using big zdvd_imp_le by fastforce
  next
    case False
    then have "(2 :: int) ^ 64 dvd b * 2 ^ k"
      unfolding assms(2) mult.assoc power_add [symmetric] by (intro dvd_mult le_imp_power_dvd) simp
    then have "2 ^ 64 dvd sint (word_of_int (b * 2 ^ k) :: u64)" unfolding q by simp
    moreover have "sint (word_of_int (b * 2 ^ k) :: u64) < 2 ^ 64"
      using sint_lt [of "word_of_int (b * 2 ^ k) :: u64"] by simp
    ultimately show ?thesis using zdvd_imp_le by fastforce
  qed
qed

text \<open>
  The delay before the next try after attempt \<open>a\<close> is exactly
  \<open>min (base * 2^(a-1)) max\<close> for every attempt count, although the code shifts in 64 bits:
  an overflowed shift is never mistaken for a short delay.  The condition is on the odd part of the
  base delay only; the defaults (1s, 60s) satisfy it.
\<close>

theorem backoff_capped_exponential:
  assumes "0 < BackoffBase cfg" "0 < BackoffMax cfg" "BackoffBase cfg < 2 ^ 63"
    and "BackoffBase cfg = c * 2 ^ v" "c * BackoffMax cfg < 2 ^ 63"
  shows "backoffFor cfg a =
    (if a = 0 then 0 else min (BackoffBase cfg * 2 ^ unat (a - 1)) (BackoffMax cfg))"
proof (cases "a = 0")
  case False
  let ?k = "unat (a - 1)" and ?b = "BackoffBase cfg" and ?mx = "BackoffMax cfg"
  show ?thesis
  proof (cases "?b * 2 ^ ?k < 2 ^ 63")
    case True
    have "0 < ?b * 2 ^ ?k" using assms(1) by simp
    then have "sint (word_of_int (?b * 2 ^ ?k) :: u64) = ?b * 2 ^ ?k" using True by (intro sint_small) auto
    with \<open>0 < ?b * 2 ^ ?k\<close> False show ?thesis by (simp add: backoffFor_def shifted_base Let_def min_def)
  next
    case ov: False
    have "?mx \<le> c * ?mx" using assms(1,2,4) by (simp add: zero_less_mult_iff)
    then have "?mx < ?b * 2 ^ ?k" using ov assms(5) by linarith
    with overflow_exceeds [OF assms(1,4,5) ov assms(2)] False show ?thesis
      by (auto simp: backoffFor_def shifted_base Let_def min_def)
  qed
qed (simp add: backoffFor_def)

definition ship_demo_cfg :: Config where
  "ship_demo_cfg = NewShipper_cfg \<lparr>PollInterval = 0, MaxInFlight = 0, MaxAttempts = 0, BackoffBase = 0,
     BackoffMax = 0, HealthyWindow = 0, AIMDStep = 0\<rparr>"

lemma ship_demo_cfg_fields:
  "BackoffBase ship_demo_cfg = 1000000000" "BackoffMax ship_demo_cfg = 60000000000"
  "MaxInFlight ship_demo_cfg = 32" "MaxAttempts ship_demo_cfg = 10"
  "HealthyWindow ship_demo_cfg = 60000000000" "AIMDStep ship_demo_cfg = 1 / 2"
  by (simp_all add: ship_demo_cfg_def NewShipper_cfg_def)

theorem backoff_capped_exponential_witness:
  "backoffFor ship_demo_cfg 5 = 16000000000 \<and> backoffFor ship_demo_cfg 56 = 60000000000"
  using backoff_capped_exponential [of ship_demo_cfg 1953125 9]
  by (simp add: ship_demo_cfg_fields)

subsection \<open>The hold set\<close>

lemma greaterThanAtMost_inc:
  "(n :: u64) \<noteq> - 1 \<Longrightarrow> n + 1 \<le> m \<Longrightarrow> {n <.. m} = insert (n + 1) {n + 1 <.. m}"
proof (rule set_eqI)
  fix x assume n: "n \<noteq> - 1" and m: "n + 1 \<le> m"
  have "n < x \<longleftrightarrow> n + 1 = x \<or> n + 1 < x" using word_inc_le_iff [OF n, of x] by (auto simp: le_less)
  with m show "x \<in> {n <.. m} \<longleftrightarrow> x \<in> insert (n + 1) {n + 1 <.. m}" by auto
qed

lemma aboveRun_spec:
  "aboveRun n held = (m, held') \<Longrightarrow> - 1 \<notin> held \<Longrightarrow> n \<noteq> - 1 \<Longrightarrow>
   n \<le> m \<and> m \<noteq> - 1 \<and> {n <.. m} \<subseteq> held \<and> m + 1 \<notin> held \<and> held' = held - {n <.. m}"
proof (induction n held rule: aboveRun.induct)
  case (1 n held)
  show ?case
  proof (cases "n + 1 \<in> held")
    case False
    with 1 show ?thesis by (auto simp: aboveRun.simps [of n held])
  next
    case True
    have n1: "n + 1 \<noteq> - 1" using True 1(3) by metis
    have run: "aboveRun (n + 1) (held - {n + 1}) = (m, held')" using 1(2) True by (simp add: aboveRun.simps [of n held])
    from 1(1) [OF True run] 1(3) n1 have IH: "n + 1 \<le> m" "m \<noteq> - 1" "{n + 1 <.. m} \<subseteq> held - {n + 1}"
      "m + 1 \<notin> held - {n + 1}" "held' = held - {n + 1} - {n + 1 <.. m}" by auto
    have lt: "n < m" using IH(1) word_inc_le_iff [OF 1(4)] by blast
    have "m + 1 \<noteq> n + 1" using lt by auto
    with IH lt True greaterThanAtMost_inc [OF 1(4) IH(1)] show ?thesis by auto
  qed
qed

subsection \<open>A mark that can be read and written\<close>

text \<open>
  The interface the advancer relies on when the WAL works: a register.  \<open>good\<close> are the WAL
  values on which reads and writes of the mark succeed.
\<close>

locale hwm_register =
  fixes W :: "('w, 'r) shipWAL" and mark :: "'w \<Rightarrow> u64" and good :: "'w \<Rightarrow> bool"
  assumes read_mark: "good w \<Longrightarrow> sw_HWM W None w = Inr (mark w)"
    and write_mark: "good w \<Longrightarrow> \<exists>w'. sw_AdvanceHWM W None n w = (Inr (), w') \<and> good w' \<and> mark w' = n"
begin

text \<open>
  \<open>settled h P st\<close>: the state the advancer is in after the completions \<open>P\<close> above
  \<open>h\<close>, in whatever order: the mark is at the end of the run above \<open>h\<close>, the rest is
  held.
\<close>

definition settled :: "u64 \<Rightarrow> u64 set \<Rightarrow> 'w shipper \<Rightarrow> bool" where
  "settled h P st \<longleftrightarrow> good (sh_wal st) \<and> h \<le> mark (sh_wal st) \<and> mark (sh_wal st) \<noteq> - 1 \<and>
     {h <.. mark (sh_wal st)} \<subseteq> P \<and> mark (sh_wal st) + 1 \<notin> P \<and>
     sh_above st = P - {h <.. mark (sh_wal st)}"

lemma settled_step:
  assumes "settled h P st" "h < q" "q \<noteq> - 1" "- 1 \<notin> P"
  shows "settled h (insert q P) (snd (processCompletion W cfg None q st))"
proof -
  let ?m = "mark (sh_wal st)"
  have good: "good (sh_wal st)" and m: "h \<le> ?m" "?m \<noteq> - 1" "{h <.. ?m} \<subseteq> P" "?m + 1 \<notin> P"
    and ab: "sh_above st = P - {h <.. ?m}" using assms(1) by (auto simp: settled_def)
  note rd = read_mark [OF good]
  consider (old) "q \<le> ?m" | (gap) "?m + 1 < q" | (next') "q = ?m + 1"
    using word_inc_le [of ?m q] by fastforce
  then show ?thesis
  proof cases
    case old
    then have "insert q P = P" using m(3) assms(2) by auto
    with old rd assms(1) show ?thesis by (simp add: processCompletion_def)
  next
    case gap
    have gt: "?m < ?m + 1" using word_inc_le_iff [OF m(2), of "?m + 1"] by simp
    have "\<not> q \<le> ?m" using gap gt by auto
    then have st': "snd (processCompletion W cfg None q st) = st\<lparr>sh_above := insert q (sh_above st)\<rparr>"
      using gap rd by (simp add: processCompletion_def Let_def)
    show ?thesis
      unfolding st' using good m ab gap gt \<open>\<not> q \<le> ?m\<close> by (auto simp: settled_def)
  next
    case next'
    have gt: "?m < q" using word_inc_le_iff [OF m(2), of q] next' by simp
    obtain n' held' where run: "aboveRun q (sh_above st) = (n', held')" by fastforce
    note sp = aboveRun_spec [OF run _ assms(3)]
    have sp: "q \<le> n'" "n' \<noteq> - 1" "{q <.. n'} \<subseteq> P" "n' + 1 \<notin> sh_above st" "held' = sh_above st - {q <.. n'}"
      using sp ab assms(4) by auto
    obtain w' where w': "sw_AdvanceHWM W None n' (sh_wal st) = (Inr (), w')" "good w'" "mark w' = n'"
      using write_mark [OF good] by blast
    have "snd (processCompletion W cfg None q st) = st\<lparr>sh_wal := w', sh_above := held', sh_hwm := n'\<rparr>"
      using rd gt next' run w'(1) by (simp add: processCompletion_def Let_def)
    moreover have "{h <.. n'} = {h <.. ?m} \<union> {?m <.. n'}" using m(1) gt sp(1) by auto
    moreover have "{?m <.. n'} = insert q {q <.. n'}"
      unfolding next' by (rule greaterThanAtMost_inc [OF m(2)]) (use sp(1) next' in simp)
    ultimately have split: "{h <.. n'} = {h <.. ?m} \<union> insert q {q <.. n'}"
      and st': "snd (processCompletion W cfg None q st) = st\<lparr>sh_wal := w', sh_above := held', sh_hwm := n'\<rparr>"
      by simp_all
    have up: "n' < n' + 1" using word_inc_le_iff [OF sp(2), of "n' + 1"] by simp
    then have "n' + 1 \<noteq> q" "\<not> n' + 1 \<le> ?m" using sp(1) gt by auto
    then have "n' + 1 \<notin> insert q P" using sp(4) ab by auto
    moreover have "{h <.. n'} \<subseteq> insert q P" using split m(3) sp(3) by auto
    moreover have "held' = insert q P - {h <.. n'}" using split sp(5) ab m(4) next' by auto
    moreover have "h \<le> n'" using m(1) gt sp(1) by auto
    ultimately show ?thesis using w' sp(2) by (simp add: settled_def st')
  qed
qed

lemma settled_run:
  "settled h P st \<Longrightarrow> \<forall>q \<in> set qs. h < q \<and> q \<noteq> - 1 \<Longrightarrow> - 1 \<notin> P \<Longrightarrow>
   settled h (set qs \<union> P) (fold (\<lambda>q st. snd (processCompletion W cfg None q st)) qs st)"
proof (induction qs arbitrary: P st)
  case (Cons q qs)
  then have "settled h (insert q P) (snd (processCompletion W cfg None q st))" by (intro settled_step) auto
  moreover have "- 1 \<notin> insert q P" using Cons.prems by auto
  ultimately show ?case using Cons.IH [of "insert q P"] Cons.prems(2) by simp
qed simp

lemma any_order:
  assumes "good (sh_wal st)" "mark (sh_wal st) = h" "sh_above st = {}" "h \<noteq> - 1"
    and "\<forall>q \<in> set qs. h < q \<and> q \<noteq> - 1"
  shows "settled h (set qs) (fold (\<lambda>q st. snd (processCompletion W cfg None q st)) qs st)"
  using settled_run [of h "{}" st qs cfg] assms by (simp add: settled_def)

end

locale wal_live = wal_store B content c
  for B :: "'db badger" and content and c :: "'r receipt_codec" +
  assumes live: "faultless B"
begin

lemma AdvanceHWM_ok: "\<exists>d'. AdvanceHWM B None n d = (Inr (), d')"
proof -
  obtain d1 where d1: "txn_set B d hwmKey (be64 n) = Inr d1" using txn_ok(1) [OF live] by blast
  from ctx_update_ok [OF live, of "\<lambda>d. txn_set B d hwmKey (be64 n)", OF d1]
  show ?thesis unfolding AdvanceHWM_def by blast
qed

end

sublocale wal_live \<subseteq> adv: hwm_register "committerWAL B c" "\<lambda>d. v_hwm (view_of c (content d))" "\<lambda>d. wf_kv c (content d)"
proof
  fix d assume wf: "wf_kv c (content d)"
  then show "sw_HWM (committerWAL B c) None d = Inr (v_hwm (view_of c (content d)))"
    by (simp add: committerWAL_def HWM_ok [OF live])
  fix n
  obtain d' where d': "AdvanceHWM B None n d = (Inr (), d')" using AdvanceHWM_ok by blast
  with AdvanceHWM_refines [OF d' wf]
  show "\<exists>d'. sw_AdvanceHWM (committerWAL B c) None n d = (Inr (), d') \<and> wf_kv c (content d') \<and>
      v_hwm (view_of c (content d')) = n" by (simp add: committerWAL_def)
qed

context wal_live
begin

lemma marks_any_order:
  assumes "wf_kv c (content (sh_wal st))" "v_hwm (view_of c (content (sh_wal st))) = h"
    and "sh_above st = {}" "h \<noteq> - 1" "\<forall>q \<in> set qs. h < q \<and> q \<noteq> - 1"
    and "st' = fold (\<lambda>q st. snd (processCompletion (committerWAL B c) cfg None q st)) qs st"
  shows "let m = v_hwm (view_of c (content (sh_wal st'))) in
    h \<le> m \<and> {h <.. m} \<subseteq> set qs \<and> m + 1 \<notin> set qs \<and> sh_above st' = set qs - {h <.. m}"
  using adv.any_order [OF assms(1-5), of cfg] unfolding assms(6) adv.settled_def Let_def by blast

lemma marks_stall:
  assumes "wf_kv c (content (sh_wal st))" "v_hwm (view_of c (content (sh_wal st))) = h"
    and "h + 1 \<in> sh_above st" "h + 1 \<notin> set qs"
    and "st' = fold (\<lambda>q st. snd (processCompletion (committerWAL B c) cfg None q st)) qs st"
  shows "v_hwm (view_of c (content (sh_wal st'))) = h \<and> h + 1 \<in> sh_above st'"
  using assms
proof (induction qs arbitrary: st st')
  case (Cons q qs)
  let ?st1 = "snd (processCompletion (committerWAL B c) cfg None q st)"
  have "sh_wal ?st1 = sh_wal st \<and> h + 1 \<in> sh_above ?st1"
  proof (cases "q \<le> h \<or> q > h + 1")
    case True
    then show ?thesis using adv.read_mark [OF Cons.prems(1)] Cons.prems(2,3)
      by (auto simp: processCompletion_def Let_def)
  next
    case False
    then have "q = h + 1" using word_inc_le [of h q] by auto
    with Cons.prems(4) show ?thesis by simp
  qed
  with Cons.IH [of ?st1] Cons.prems show ?case by simp
qed simp

end

interpretation memlive: wal_live mem_badger map_of raw_codec
  by unfold_locales (rule mem_faultless)

lemma mem_wal_live: "wal_live mem_badger map_of raw_codec"
  by unfold_locales

subsection \<open>Properties of the advancer\<close>


definition demo_ship :: "memdb shipper" where
  "demo_ship = NewShipper [] ship_demo_cfg"


text \<open>
  C26.  When the mark is \<open>h\<close> and the number
  \<open>h + 1\<close> has ended in the hold set, which is what a failed read or write of the mark leaves
  behind, no later completion other than a second one for \<open>h + 1\<close> moves the mark: the hold
  set is only consulted when the next number itself arrives, so the promised retry by the next
  completion does not happen.
\<close>

theorem hwm_stalls_after_failed_write:
  assumes "wal_live B content c" "wf_kv c (content (sh_wal st))"
    and "v_hwm (view_of c (content (sh_wal st))) = h" "h + 1 \<in> sh_above st" "h + 1 \<notin> set qs"
    and "st' = fold (\<lambda>q st. snd (processCompletion (committerWAL B c) cfg None q st)) qs st"
  shows "v_hwm (view_of c (content (sh_wal st'))) = h \<and> h + 1 \<in> sh_above st'"
  by (rule wal_live.marks_stall [OF assms])

theorem hwm_stalls_after_failed_write_witness:
  "let st = demo_ship\<lparr>sh_above := {1}\<rparr>;
      st' = fold (\<lambda>q st. snd (processCompletion (committerWAL mem_badger raw_codec)
        ship_demo_cfg None q st)) [2, 3, 4] st in
   v_hwm (view_of raw_codec (map_of (sh_wal st'))) = 0"
proof -
  have f: "sh_wal (demo_ship\<lparr>sh_above := {1}\<rparr>) = []" "sh_above (demo_ship\<lparr>sh_above := {1}\<rparr>) = {1}"
    by (simp_all add: demo_ship_def NewShipper_def)
  show ?thesis
    using hwm_stalls_after_failed_write [OF mem_wal_live, of "demo_ship\<lparr>sh_above := {1}\<rparr>" 0 "[2, 3, 4]" _ ship_demo_cfg] f
    by (simp add: view_of_def Let_def)
qed

text \<open>
  A failed write of the mark loses no completion: the database is
  unchanged and the completed number and the run taken from the hold set are all held again.
\<close>

theorem hwm_failed_write_holds:
  assumes "sw_HWM W x (sh_wal st) = Inr h" "h \<noteq> - 1" "h + 1 \<noteq> - 1" "- 1 \<notin> sh_above st"
    and "\<And>n. sw_AdvanceHWM W x n (sh_wal st) = (Inl (e n), sh_wal st)"
  shows "processCompletion W cfg x (h + 1) st =
    (Inr (), st\<lparr>sh_above := insert (h + 1) (sh_above st)\<rparr>)"
proof -
  obtain n' held' where run: "aboveRun (h + 1) (sh_above st) = (n', held')" by fastforce
  note sp = aboveRun_spec [OF run assms(4,3)]
  have "\<not> h + 1 \<le> h" using word_inc_le_iff [OF assms(2), of h] by simp
  moreover have "{h + 1..n'} = insert (h + 1) {h + 1 <.. n'}" using ivl_disj_un_singleton(5) sp by blast
  then have "held' \<union> {h + 1..n'} = insert (h + 1) (sh_above st)" using sp by blast
  ultimately show ?thesis using assms(1,5) run by (simp add: processCompletion_def Let_def)
qed

theorem hwm_failed_write_holds_witness:
  "processCompletion ((committerWAL mem_badger raw_codec)
       \<lparr>sw_AdvanceHWM := \<lambda>x n w. (Inl ErrClosed, w)\<rparr>) ship_demo_cfg None 1 (demo_ship\<lparr>sh_above := {2, 3}\<rparr>) =
   (Inr (), demo_ship\<lparr>sh_above := {1, 2, 3}\<rparr>)"
proof -
  have "HWM mem_badger None [] = Inr 0" by (simp add: HWM_def ctx_check_def txn_get_def)
  then show ?thesis
    using hwm_failed_write_holds [of "(committerWAL mem_badger raw_codec)
       \<lparr>sw_AdvanceHWM := \<lambda>x n w. (Inl ErrClosed, w)\<rparr>" None "demo_ship\<lparr>sh_above := {2, 3}\<rparr>" 0 "\<lambda>_. ErrClosed" ship_demo_cfg]
    by (simp add: committerWAL_def demo_ship_def NewShipper_def)
qed

end
