(* ===== verification/ShipperSpec.thy ===== *)
theory ShipperSpec
  imports ShipperHwm "HOL-Library.Multiset"
begin

section \<open>The shipper as a state machine\<close>

text \<open>
  Scans, workers, uploads, completions, restarts and the WAL's other users (submissions,
  sequencing, GC) interleave freely.  The shipper talks to the WAL through the interface laws
  \<open>ship_wal\<close>, which the committer satisfies.  \<open>fin\<close> collects, as a ghost, the sequence
  numbers whose record has been seen shipped or manual; the main theorem is that the mark only
  passes such numbers.
\<close>

subsection \<open>Other users of the WAL\<close>

inductive wal_env :: "u64 \<Rightarrow> 'r wal_view \<Rightarrow> 'r wal_view \<Rightarrow> bool" for R where
  stutter: "wal_env R v v"
| submit: "wal_env R v (fold av_submit batch v)"
| sequence: "v_meta v h = Some m \<Longrightarrow> State m = StatePending \<Longrightarrow> wal_env R v (av_sequence h s m v)"
| collect: "\<forall>g \<in> set gs. victim_ok v (v_hwm v - R) g \<and> R < v_hwm v \<Longrightarrow>
    wal_env R v (fold av_collect gs v)"
| dedup: "wal_env R v (v\<lparr>v_dedup := (v_dedup v)(i \<mapsto> n)\<rparr>)"

lemma wal_env_hwm: "wal_env R v v' \<Longrightarrow> v_hwm v' = v_hwm v"
  by (induction rule: wal_env.induct) (simp_all add: submits_other collects_frame av_sequence_def)

definition fin_seqs :: "'r wal_view \<Rightarrow> u64 set" where
  "fin_seqs v = {Sequence m | m h. v_meta v h = Some m \<and> (State m = StateShipped \<or> State m = StateManual)}"

text \<open>
  An entry as a scan's snapshot yields it: in state sequenced, at its number.  By the time a worker gets
  it another worker may have finished it: the snapshot is older than the reservation.  What stays true
  of a held entry is that its number is finished or the entry is still sequenced under it.
\<close>

definition item_ok :: "'r wal_view \<Rightarrow> SequencedEntry \<Rightarrow> bool" where
  "item_ok v e \<longleftrightarrow> (\<exists>m. v_meta v (SE_Hash e) = Some m \<and> State m = StateSequenced \<and> Sequence m = SE_Seq e)"

lemma item_ok_env: "wal_env R v v' \<Longrightarrow> item_ok v e \<Longrightarrow> item_ok v' e"
proof (induction rule: wal_env.induct)
  case (submit v batch)
  then show ?case by (auto simp: item_ok_def submits_meta)
next
  case (collect gs v)
  then show ?case by (fastforce simp: item_ok_def collects_tables victim_ok_def)
qed (auto simp: item_ok_def av_sequence_def)

lemma item_ok_other: "item_ok v e \<Longrightarrow> SE_Hash e \<noteq> h \<Longrightarrow> item_ok (av_meta h m v) e"
  by (auto simp: item_ok_def av_meta_def)

lemma item_ok_kept:
  "item_ok v e \<Longrightarrow> v_meta v h = Some m \<Longrightarrow> State m' = State m \<Longrightarrow> Sequence m' = Sequence m \<Longrightarrow>
   item_ok (av_meta h m' v) e"
  by (auto simp: item_ok_def av_meta_def)

lemma item_ok_hwm [simp]: "item_ok (v\<lparr>v_hwm := n\<rparr>) e = item_ok v e"
  by (simp add: item_ok_def)

definition held_ok :: "'r wal_view \<Rightarrow> u64 set \<Rightarrow> SequencedEntry \<Rightarrow> bool" where
  "held_ok v fin e \<longleftrightarrow> SE_Seq e \<in> fin \<or> item_ok v e"

lemma held_ok_mono: "held_ok v fin e \<Longrightarrow> fin \<subseteq> fin' \<Longrightarrow> held_ok v fin' e"
  by (auto simp: held_ok_def)

lemma held_ok_env: "wal_env R v v' \<Longrightarrow> held_ok v fin e \<Longrightarrow> held_ok v' fin e"
  using item_ok_env by (auto simp: held_ok_def)

lemma held_ok_hwm [simp]: "held_ok (v\<lparr>v_hwm := n\<rparr>) fin e = held_ok v fin e"
  by (simp add: held_ok_def)

text \<open>Marking a hash, whichever worker does it, finishes the number of its record and touches no other.\<close>

lemma mark_fin:
  assumes "v_meta v h = Some m" "Sequence m' = Sequence m" "State m' = StateShipped \<or> State m' = StateManual"
  shows "Sequence m \<in> fin_seqs (av_meta h m' v)"
proof -
  have "v_meta (av_meta h m' v) h = Some m'" by (simp add: av_meta_def)
  then have "Sequence m' \<in> fin_seqs (av_meta h m' v)" using assms(3) unfolding fin_seqs_def by blast
  then show ?thesis by (simp add: assms(2))
qed

lemma mark_held:
  assumes "held_ok v fin e" "v_meta v h = Some m" "Sequence m' = Sequence m" "State m' = StateShipped \<or> State m' = StateManual"
  shows "held_ok (av_meta h m' v) (fin \<union> fin_seqs (av_meta h m' v)) e"
    "SE_Hash e = h \<Longrightarrow> SE_Seq e \<in> fin \<union> fin_seqs (av_meta h m' v)"
proof -
  have "SE_Hash e = h \<Longrightarrow> item_ok v e \<Longrightarrow> SE_Seq e = Sequence m" using assms(2) by (auto simp: item_ok_def)
  then show "SE_Hash e = h \<Longrightarrow> SE_Seq e \<in> fin \<union> fin_seqs (av_meta h m' v)"
    using assms(1) mark_fin [OF assms(2-4)] by (auto simp: held_ok_def)
  then show "held_ok (av_meta h m' v) (fin \<union> fin_seqs (av_meta h m' v)) e"
    using assms(1) item_ok_other [of v e h m'] by (auto simp: held_ok_def)
qed

lemma retry_held:
  "held_ok v fin e \<Longrightarrow> v_meta v h = Some m \<Longrightarrow> State m' = State m \<Longrightarrow> Sequence m' = Sequence m \<Longrightarrow>
   held_ok (av_meta h m' v) fin e"
  unfolding held_ok_def using item_ok_kept by blast

subsection \<open>The interface laws\<close>

locale ship_wal =
  fixes W :: "('w, 'r) shipWAL" and vw :: "'w \<Rightarrow> 'r wal_view" and ok :: "'w \<Rightarrow> bool"
    and reconcile :: "'w \<Rightarrow> 'w \<Rightarrow> bool"
  assumes inv_law: "ok w \<Longrightarrow> wal_inv (vw w)"
    and hwm_law: "ok w \<Longrightarrow> sw_HWM W x w = Inr n \<Longrightarrow> n = v_hwm (vw w)"
    and advance_law: "ok w \<Longrightarrow> sw_AdvanceHWM W x n w = (r, w') \<Longrightarrow>
      ok w' \<and> (case r of Inl _ \<Rightarrow> w' = w | Inr _ \<Rightarrow> vw w' = (vw w)\<lparr>v_hwm := n\<rparr>)"
    and meta_law: "ok w \<Longrightarrow> sw_MetaState W x w h = Inr m \<Longrightarrow> v_meta (vw w) h = Some m"
    and shipped_law: "ok w \<Longrightarrow> sw_MarkShipped W x h w = (r, w') \<Longrightarrow>
      ok w' \<and> (case r of Inl _ \<Rightarrow> w' = w
        | Inr _ \<Rightarrow> \<exists>m m'. v_meta (vw w) h = Some m \<and> State m' = StateShipped \<and>
            Sequence m' = Sequence m \<and> vw w' = av_meta h m' (vw w))"
    and manual_law: "ok w \<Longrightarrow> sw_MarkManual W x h w = (r, w') \<Longrightarrow>
      ok w' \<and> (case r of Inl _ \<Rightarrow> w' = w
        | Inr _ \<Rightarrow> \<exists>m m'. v_meta (vw w) h = Some m \<and> State m' = StateManual \<and>
            Sequence m' = Sequence m \<and> vw w' = av_meta h m' (vw w))"
    and retry_law: "ok w \<Longrightarrow> now \<noteq> 0 \<Longrightarrow> sw_MarkRetry W x now h w = (r, w') \<Longrightarrow>
      ok w' \<and> (case r of Inl _ \<Rightarrow> w' = w
        | Inr _ \<Rightarrow> \<exists>m m'. v_meta (vw w) h = Some m \<and> State m' = State m \<and>
            Sequence m' = Sequence m \<and> vw w' = av_meta h m' (vw w))"
    and iterate_law: "ok w \<Longrightarrow> P s \<Longrightarrow>
      (\<And>s e. P s \<Longrightarrow> item_ok (vw w) e \<Longrightarrow> P (snd (fn s e))) \<Longrightarrow>
      P (snd (sw_IterateSequenced W cx n fn s w))"
    and reconcile_law: "ok w \<Longrightarrow> reconcile w w' \<Longrightarrow>
      ok w' \<and> (\<exists>n. vw w' = (vw w)\<lparr>v_hwm := n\<rparr> \<and>
        (\<forall>s. v_hwm (vw w) < s \<and> s \<le> n \<longrightarrow> shipped_at (vw w) s))"

subsection \<open>Steps\<close>

inductive ship_step ::
  "('w, 'r) shipWAL \<Rightarrow> ('w \<Rightarrow> 'r wal_view) \<Rightarrow> ('w \<Rightarrow> bool) \<Rightarrow> ('w \<Rightarrow> 'w \<Rightarrow> bool) \<Rightarrow> Config \<Rightarrow> u64
     \<Rightarrow> 'w shipper \<Rightarrow> 'w shipper \<Rightarrow> bool"
  for W vw ok reconcile cfg R where
  scan_begin: "sh_scan st = ScanIdle \<Longrightarrow> ship_step W vw ok reconcile cfg R st (scanBegin W x t st)"
| scan_open: "ship_step W vw ok reconcile cfg R st (scanOpen W cx st)"
| scan_item: "ship_step W vw ok reconcile cfg R st (scanItem W cfg x x' pick st)"
| recv: "ship_step W vw ok reconcile cfg R st (workerRecv st)"
| start: "e \<in> set (sh_active st) \<Longrightarrow> now \<noteq> 0 \<Longrightarrow> shipBegin W cfg x x' pick now e st = Some st' \<Longrightarrow>
    ship_step W vw ok reconcile cfg R st st'"
| finish: "ew \<in> set (sh_upload st) \<Longrightarrow> now \<noteq> 0 \<Longrightarrow>
    ship_step W vw ok reconcile cfg R st (shipFinish W cfg x pick now up ew st)"
| advance: "hwmAdvancer W cfg x st = (r, st') \<Longrightarrow> ship_step W vw ok reconcile cfg R st st'"
| env: "ok w' \<Longrightarrow> wal_env R (vw (sh_wal st)) (vw w') \<Longrightarrow>
    ship_step W vw ok reconcile cfg R st (st\<lparr>sh_wal := w'\<rparr>)"
| boot: "reconcile (sh_wal st) w' \<Longrightarrow> ship_step W vw ok reconcile cfg R st (NewShipper w' cfg)"

inductive ship_reach ::
  "('w, 'r) shipWAL \<Rightarrow> ('w \<Rightarrow> 'r wal_view) \<Rightarrow> ('w \<Rightarrow> bool) \<Rightarrow> ('w \<Rightarrow> 'w \<Rightarrow> bool) \<Rightarrow> Config \<Rightarrow> u64
     \<Rightarrow> 'w shipper \<Rightarrow> u64 set \<Rightarrow> bool"
  for W vw ok reconcile cfg R where
  start: "ok w \<Longrightarrow> v_hwm (vw w) = 0 \<Longrightarrow>
    ship_reach W vw ok reconcile cfg R (NewShipper w cfg) (fin_seqs (vw w))"
| step: "ship_reach W vw ok reconcile cfg R st fin \<Longrightarrow> ship_step W vw ok reconcile cfg R st st' \<Longrightarrow>
    ship_reach W vw ok reconcile cfg R st' (fin \<union> fin_seqs (vw (sh_wal st')))"

subsection \<open>The invariant\<close>

definition held_items :: "'w shipper \<Rightarrow> SequencedEntry list" where
  "held_items st = sh_work st @ sh_active st @ map fst (sh_upload st)"

definition scan_items :: "'w shipper \<Rightarrow> SequencedEntry list" where
  "scan_items st = (case sh_scan st of ScanAt _ es \<Rightarrow> es | _ \<Rightarrow> [])"

definition ship_inv :: "('w \<Rightarrow> 'r wal_view) \<Rightarrow> Config \<Rightarrow> 'w shipper \<Rightarrow> u64 set \<Rightarrow> bool" where
  "ship_inv vw cfg st fin \<longleftrightarrow>
     {0 <.. v_hwm (vw (sh_wal st))} \<subseteq> fin \<and> sh_above st \<subseteq> fin \<and> set (sh_completion st) \<subseteq> fin \<and>
     (\<forall>e \<in> set (held_items st) \<union> set (scan_items st). held_ok (vw (sh_wal st)) fin e) \<and>
     distinct (map SE_Seq (held_items st)) \<and> sh_inflight st = SE_Seq ` set (held_items st) \<and>
     int (length (sh_work st)) \<le> MaxInFlight cfg * 2 \<and>
     aimd_inv (sh_limiter st) \<and> al_inflight (sh_limiter st) = int (length (sh_upload st))"

lemma ship_inv_mono: "ship_inv vw cfg st fin \<Longrightarrow> fin \<subseteq> fin' \<Longrightarrow> ship_inv vw cfg st fin'"
  by (auto simp: ship_inv_def intro: held_ok_mono)

lemma distinct_remove_mid:
  assumes "x \<in> set ys" "distinct (map f (xs @ ys @ zs))"
  shows "distinct (map f (xs @ remove1 x ys @ zs)) \<and>
    set (xs @ remove1 x ys @ zs) = set (xs @ ys @ zs) - {x} \<and>
    f x \<notin> f ` (set (xs @ ys @ zs) - {x})"
proof -
  obtain a b where ys: "ys = a @ x # b" "x \<notin> set a" using split_list_first [OF assms(1)] by blast
  then have r: "remove1 x ys = a @ b" by (simp add: remove1_append)
  have "f x \<notin> f ` set (xs @ a @ b @ zs)" using assms(2) ys by (auto simp: image_iff)
  moreover have "set (xs @ ys @ zs) - {x} = set (xs @ a @ b @ zs)" using calculation ys by auto
  moreover have "distinct (map f (xs @ (a @ b) @ zs))" using assms(2) ys by auto
  ultimately show ?thesis using r by auto
qed

lemma map_fst_remove1:
  "distinct (map fst us) \<Longrightarrow> u \<in> set us \<Longrightarrow> map fst (remove1 u us) = remove1 (fst u) (map fst us)"
  by (induction us) (auto simp: image_iff)

lemma held_remove_active:
  assumes "e \<in> set (sh_active st)" "distinct (map SE_Seq (held_items st))"
  shows "distinct (map SE_Seq (held_items (st\<lparr>sh_active := remove1 e (sh_active st)\<rparr>))) \<and>
   set (held_items (st\<lparr>sh_active := remove1 e (sh_active st)\<rparr>)) = set (held_items st) - {e} \<and>
   SE_Seq e \<notin> SE_Seq ` (set (held_items st) - {e})"
  using distinct_remove_mid [OF assms(1) assms(2) [unfolded held_items_def]]
  unfolding held_items_def by simp

lemma held_remove_upload:
  assumes "ew \<in> set (sh_upload st)" "distinct (map SE_Seq (held_items st))"
  shows "distinct (map SE_Seq (held_items (st\<lparr>sh_upload := remove1 ew (sh_upload st)\<rparr>))) \<and>
   set (held_items (st\<lparr>sh_upload := remove1 ew (sh_upload st)\<rparr>)) = set (held_items st) - {fst ew} \<and>
   SE_Seq (fst ew) \<notin> SE_Seq ` (set (held_items st) - {fst ew})"
proof -
  have "distinct (held_items st)" using assms(2) by (simp add: distinct_map)
  then have "distinct (map fst (sh_upload st))" by (simp add: held_items_def)
  then have "held_items (st\<lparr>sh_upload := remove1 ew (sh_upload st)\<rparr>) =
      (sh_work st @ sh_active st) @ remove1 (fst ew) (map fst (sh_upload st)) @ []"
    using map_fst_remove1 assms(1) by (simp add: held_items_def)
  moreover have "fst ew \<in> set (map fst (sh_upload st))" using assms(1) by auto
  moreover have "held_items st = (sh_work st @ sh_active st) @ map fst (sh_upload st) @ []"
    by (simp add: held_items_def)
  ultimately show ?thesis
    using distinct_remove_mid [of "fst ew" "map fst (sh_upload st)" SE_Seq "sh_work st @ sh_active st" "[]"]
      assms(2) by simp
qed

lemma aboveRun_subset: "aboveRun n held = (m, held') \<Longrightarrow> {n <.. m} \<subseteq> held \<and> held' \<subseteq> held"
proof (induction n held rule: aboveRun.induct)
  case (1 n held)
  show ?case
  proof (cases "n + 1 \<in> held")
    case False
    with 1 show ?thesis by (simp add: aboveRun.simps [of n held])
  next
    case True
    then have "aboveRun (n + 1) (held - {n + 1}) = (m, held')"
      using 1(2) by (simp add: aboveRun.simps [of n held])
    from 1(1) [OF True this] have IH: "{n + 1 <.. m} \<subseteq> held - {n + 1}" "held' \<subseteq> held - {n + 1}" by auto
    have "{n <.. m} \<subseteq> insert (n + 1) {n + 1 <.. m}"
    proof
      fix y assume y: "y \<in> {n <.. m}"
      then have "n + 1 \<le> y" using word_inc_le by auto
      with y show "y \<in> insert (n + 1) {n + 1 <.. m}" by (auto simp: le_less)
    qed
    with IH True show ?thesis by blast
  qed
qed

context ship_wal
begin

lemma recordFailure_keeps:
  assumes "ok (sh_wal st)" "now \<noteq> 0" "held_ok (vw (sh_wal st)) fin e" "\<forall>e' \<in> E. held_ok (vw (sh_wal st)) fin e'"
    and "st' = recordFailure W cfg x pick now e st"
  shows "ok (sh_wal st') \<and> v_hwm (vw (sh_wal st')) = v_hwm (vw (sh_wal st)) \<and>
    (\<forall>e' \<in> E. held_ok (vw (sh_wal st')) (fin \<union> fin_seqs (vw (sh_wal st'))) e') \<and>
    set (sh_completion st') \<subseteq> set (sh_completion st) \<union> fin \<union> fin_seqs (vw (sh_wal st')) \<and>
    sh_work st' = sh_work st \<and> sh_active st' = sh_active st \<and> sh_upload st' = sh_upload st \<and> sh_scan st' = sh_scan st \<and>
    sh_inflight st' = sh_inflight st \<and> sh_above st' = sh_above st \<and> sh_limiter st' = sh_limiter st"
proof -
  have keep: "\<forall>e' \<in> E. held_ok (vw (sh_wal st)) (fin \<union> F) e'" for F using assms(4) held_ok_mono [OF _ Un_upper1] by blast
  show ?thesis
  proof (cases "sw_MetaState W x (sh_wal st) (SE_Hash e)")
    case (Inl er)
    with assms keep show ?thesis by (auto simp: recordFailure_def)
  next
    case meta: (Inr m)
    show ?thesis
    proof (cases "aimd_healthy (sint now) (HealthyWindow cfg) (sh_limiter st) \<and> Attempts m + 1 \<ge> MaxAttempts cfg")
      case True
      obtain r w where mm: "sw_MarkManual W x (SE_Hash e) (sh_wal st) = (r, w)" by fastforce
      note law = manual_law [OF assms(1) mm]
      have st': "st' = (case r of Inl _ \<Rightarrow> st\<lparr>sh_wal := w\<rparr>
          | Inr _ \<Rightarrow> signalCompletion x pick (SE_Seq e) (st\<lparr>sh_wal := w, sh_manual := sh_manual st + 1\<rparr>))"
        using assms(5) meta True mm by (simp add: recordFailure_def split: sum.splits)
      show ?thesis
      proof (cases r)
        case (Inl er)
        with law assms st' keep show ?thesis by auto
      next
        case (Inr u)
        with law obtain m1 m2 where m: "v_meta (vw (sh_wal st)) (SE_Hash e) = Some m1" "State m2 = StateManual"
          "Sequence m2 = Sequence m1" "vw w = av_meta (SE_Hash e) m2 (vw (sh_wal st))" "ok w" by auto
        have "\<forall>e' \<in> E. held_ok (vw w) (fin \<union> fin_seqs (vw w)) e'" "SE_Seq e \<in> fin \<union> fin_seqs (vw w)"
          using mark_held [OF _ m(1,3)] assms(3,4) m(2,4) by auto
        with m st' Inr show ?thesis by (auto simp: signalCompletion_def av_meta_def)
      qed
    next
      case False
      obtain r w where mr: "sw_MarkRetry W x now (SE_Hash e) (sh_wal st) = (r, w)" by fastforce
      note law = retry_law [OF assms(1,2) mr]
      have st': "st' = (case r of Inl _ \<Rightarrow> st\<lparr>sh_wal := w\<rparr>
          | Inr _ \<Rightarrow> st\<lparr>sh_wal := w, sh_retries := sh_retries st + 1\<rparr>)"
        using assms(5) meta False mr by (simp add: recordFailure_def split: sum.splits)
      show ?thesis
      proof (cases r)
        case (Inl er)
        with law assms st' keep show ?thesis by auto
      next
        case (Inr u)
        with law obtain m1 m2 where m: "v_meta (vw (sh_wal st)) (SE_Hash e) = Some m1" "State m2 = State m1"
          "Sequence m2 = Sequence m1" "vw w = av_meta (SE_Hash e) m2 (vw (sh_wal st))" "ok w" by auto
        have "\<forall>e' \<in> E. held_ok (vw w) (fin \<union> fin_seqs (vw w)) e'"
          using retry_held [OF _ m(1-3)] keep m(4) by auto
        with m st' Inr show ?thesis by (auto simp: av_meta_def)
      qed
    qed
  qed
qed

lemma inv_scan_begin:
  "ship_inv vw cfg st fin \<Longrightarrow> sh_scan st = ScanIdle \<Longrightarrow>
   ship_inv vw cfg (scanBegin W x t st) fin \<and> sh_wal (scanBegin W x t st) = sh_wal st"
  by (auto simp: scanBegin_def ship_inv_def held_items_def scan_items_def split: sum.splits)

lemma inv_scan_open:
  assumes "ok (sh_wal st)" "ship_inv vw cfg st fin"
  shows "ship_inv vw cfg (scanOpen W cx st) fin \<and> sh_wal (scanOpen W cx st) = sh_wal st"
proof -
  have "\<forall>e \<in> set (snd (sw_IterateSequenced W cx n (\<lambda>es e. (None, es @ [e])) [] (sh_wal st))). item_ok (vw (sh_wal st)) e" for n
    by (rule iterate_law [OF assms(1), where P = "\<lambda>es. \<forall>e \<in> set es. item_ok (vw (sh_wal st)) e"]) auto
  then show ?thesis using assms(2)
    by (auto simp: scanOpen_def ship_inv_def held_items_def scan_items_def held_ok_def split: scan.splits)
qed

lemma callback_cases:
  assumes "scanCallback W cfg t x x' pick e st = (r, st')"
  obtains "st' = st" | "st' = st\<lparr>sh_skippedInflight := sh_skippedInflight st + 1\<rparr>"
  | "SE_Seq e \<notin> sh_inflight st" "int (length (sh_work st)) < MaxInFlight cfg * 2"
    "st' = st\<lparr>sh_inflight := insert (SE_Seq e) (sh_inflight st), sh_work := sh_work st @ [e]\<rparr>"
proof (cases "\<exists>m. x = None \<and> sw_MetaState W x (sh_wal st) (SE_Hash e) = Inr m \<and> \<not> backing_off cfg t m")
  case False
  then have "st' = st" using assms by (auto simp: scanCallback_def split: option.splits sum.splits if_splits)
  then show ?thesis by (rule that(1))
next
  case True
  then obtain m where m: "x = None" "sw_MetaState W x (sh_wal st) (SE_Hash e) = Inr m" "\<not> backing_off cfg t m" by blast
  show ?thesis
  proof (cases "SE_Seq e \<in> sh_inflight st")
    case True
    then have "st' = st\<lparr>sh_skippedInflight := sh_skippedInflight st + 1\<rparr>" using assms m by (simp add: scanCallback_def)
    then show ?thesis by (rule that(2))
  next
    case out: False
    let ?d = "st\<lparr>sh_inflight := insert (SE_Seq e) (sh_inflight st), sh_work := sh_work st @ [e]\<rparr>"
    have same: "st\<lparr>sh_inflight := insert (SE_Seq e) (sh_inflight st) - {SE_Seq e}\<rparr> = st" using out by simp
    show ?thesis
    proof (cases "int (length (sh_work st)) < MaxInFlight cfg * 2")
      case True
      have "st' = st \<or> st' = ?d" using assms m out same True
        by (cases x'; cases pick) (simp_all add: scanCallback_def Let_def)
      then show ?thesis using that(1) that(3) [OF out True] by blast
    next
      case False
      have "st' = st" using assms m out same False by (cases x') (simp_all add: scanCallback_def Let_def)
      then show ?thesis by (rule that(1))
    qed
  qed
qed

lemma inv_dispatch:
  assumes "ship_inv vw cfg st fin" "SE_Seq e \<notin> sh_inflight st" "int (length (sh_work st)) < MaxInFlight cfg * 2"
    and "held_ok (vw (sh_wal st)) fin e"
  shows "ship_inv vw cfg (st\<lparr>sh_inflight := insert (SE_Seq e) (sh_inflight st), sh_work := sh_work st @ [e]\<rparr>) fin"
  using assms by (auto simp: ship_inv_def held_items_def scan_items_def)

lemma inv_scan_rest:
  assumes "ship_inv vw cfg st fin" "set (case sc of ScanAt _ es \<Rightarrow> es | _ \<Rightarrow> []) \<subseteq> set (scan_items st)"
  shows "ship_inv vw cfg (st\<lparr>sh_scan := sc\<rparr>) fin"
proof -
  have h: "held_items (st\<lparr>sh_scan := sc\<rparr>) = held_items st" by (simp add: held_items_def)
  have "set (scan_items (st\<lparr>sh_scan := sc\<rparr>)) \<subseteq> set (scan_items st)" using assms(2) by (simp add: scan_items_def)
  then have "\<forall>e \<in> set (held_items st) \<union> set (scan_items (st\<lparr>sh_scan := sc\<rparr>)). held_ok (vw (sh_wal st)) fin e"
    using assms(1) unfolding ship_inv_def by blast
  then show ?thesis using assms(1) unfolding ship_inv_def h by simp
qed

lemma inv_scan_item:
  assumes "ship_inv vw cfg st fin"
  shows "ship_inv vw cfg (scanItem W cfg x x' pick st) fin \<and> sh_wal (scanItem W cfg x x' pick st) = sh_wal st"
proof (cases "\<exists>now e es. sh_scan st = ScanAt now (e # es)")
  case False
  then show ?thesis using assms inv_scan_rest [OF assms, of ScanIdle]
    by (auto simp: scanItem_def split: scan.splits list.splits)
next
  case True
  then obtain now e es where sc: "sh_scan st = ScanAt now (e # es)" by blast
  obtain r st1 where cb: "scanCallback W cfg now x x' pick e st = (r, st1)" by force
  have held: "held_ok (vw (sh_wal st)) fin e" using assms sc by (auto simp: ship_inv_def scan_items_def)
  have st1: "ship_inv vw cfg st1 fin \<and> sh_wal st1 = sh_wal st \<and> sh_scan st1 = sh_scan st" using cb
  proof (cases rule: callback_cases)
    case 1
    then show ?thesis using assms by simp
  next
    case 2
    then show ?thesis using assms by (simp add: ship_inv_def held_items_def scan_items_def)
  next
    case 3
    then show ?thesis using inv_dispatch [OF assms 3(1,2) held] by simp
  qed
  then have "set es \<subseteq> set (scan_items st1)" using sc by (auto simp: scan_items_def)
  then show ?thesis using st1 inv_scan_rest [of cfg st1 fin ScanIdle] inv_scan_rest [of cfg st1 fin "ScanAt now es"] sc cb
    by (auto simp: scanItem_def split: option.splits)
qed

lemma inv_recv:
  assumes "ship_inv vw cfg st fin"
  shows "ship_inv vw cfg (workerRecv st) fin \<and> sh_wal (workerRecv st) = sh_wal st"
  using assms by (cases "sh_work st") (auto simp: workerRecv_def ship_inv_def held_items_def scan_items_def)

text \<open>A worker that leaves: its entry is no longer held, its reservation is gone.\<close>

lemma inv_leave:
  assumes "ship_inv vw cfg st fin" "ok (sh_wal st')"
    and "held_items st' = es" "distinct (map SE_Seq es)" "set es = set (held_items st) - {e}"
    and "SE_Seq e \<notin> SE_Seq ` (set (held_items st) - {e})" "e \<in> set (held_items st)"
    and "v_hwm (vw (sh_wal st')) = v_hwm (vw (sh_wal st))"
    and "\<forall>e' \<in> set (held_items st) \<union> set (scan_items st). held_ok (vw (sh_wal st')) (fin \<union> fin_seqs (vw (sh_wal st'))) e'"
    and "set (sh_completion st') \<subseteq> set (sh_completion st) \<union> fin \<union> fin_seqs (vw (sh_wal st'))"
    and "sh_work st' = sh_work st" "sh_inflight st' = sh_inflight st" "sh_above st' = sh_above st" "sh_scan st' = sh_scan st"
    and "aimd_inv (sh_limiter st')" "al_inflight (sh_limiter st') = int (length (sh_upload st'))"
  shows "ship_inv vw cfg (releaseInflight e st') (fin \<union> fin_seqs (vw (sh_wal st')))"
proof -
  have h: "held_items (releaseInflight e st') = es" "scan_items (releaseInflight e st') = scan_items st"
    using assms(3,14) by (simp_all add: releaseInflight_def held_items_def scan_items_def)
  have "sh_inflight st - {SE_Seq e} = SE_Seq ` set es"
  proof -
    have "SE_Seq ` set (held_items st) = insert (SE_Seq e) (SE_Seq ` (set (held_items st) - {e}))"
      using assms(7) by blast
    then show ?thesis using assms(1,5,6) by (simp add: ship_inv_def)
  qed
  then show ?thesis
    using assms h by (auto simp: ship_inv_def releaseInflight_def)
qed

lemma acquire_fields:
  "aimd_acquire l = Some l' \<Longrightarrow> al_inflight l' = al_inflight l + 1"
  by (auto simp: aimd_acquire_def split: if_splits)

lemma release_inflight:
  "al_inflight (aimd_release t b l) = (if al_inflight l > 0 then al_inflight l - 1 else al_inflight l)"
  by (simp add: aimd_release_def Let_def)

lemma inv_begin:
  assumes "ok (sh_wal st)" "ship_inv vw cfg st fin" "e \<in> set (sh_active st)" "now \<noteq> 0"
    and "shipBegin W cfg x x' pick now e st = Some st'"
  shows "ok (sh_wal st') \<and> ship_inv vw cfg st' (fin \<union> fin_seqs (vw (sh_wal st')))"
proof -
  let ?st0 = "st\<lparr>sh_active := remove1 e (sh_active st)\<rparr>"
  have inv: "distinct (map SE_Seq (held_items st))" "\<forall>e \<in> set (held_items st) \<union> set (scan_items st). held_ok (vw (sh_wal st)) fin e"
    "aimd_inv (sh_limiter st)" "al_inflight (sh_limiter st) = int (length (sh_upload st))"
    using assms(2) by (auto simp: ship_inv_def)
  note rem = held_remove_active [OF assms(3) inv(1)]
  have mem: "e \<in> set (held_items st)" using assms(3) by (simp add: held_items_def)
  have all: "\<forall>e' \<in> set (held_items st) \<union> set (scan_items st). held_ok (vw (sh_wal st)) (fin \<union> fin_seqs (vw (sh_wal st))) e'"
    using inv(2) held_ok_mono [OF _ Un_upper1] by blast
  have leave: "ok (sh_wal (releaseInflight e ?st0)) \<and>
      ship_inv vw cfg (releaseInflight e ?st0) (fin \<union> fin_seqs (vw (sh_wal (releaseInflight e ?st0))))"
    using inv_leave [OF assms(2), of ?st0 _ e] assms(1) rem mem inv all by (auto simp: releaseInflight_def)
  consider (out) "st' = releaseInflight e ?st0"
    | (failed) "st' = releaseInflight e (recordFailure W cfg x pick now e ?st0)"
    | (slot) l wire where "aimd_acquire (sh_limiter st) = Some l"
        "st' = ?st0\<lparr>sh_limiter := l, sh_upload := sh_upload st @ [(e, wire)]\<rparr>"
    using assms(5) by (auto simp: shipBegin_def Let_def split: if_splits sum.splits option.splits)
  then show ?thesis
  proof cases
    case out
    with leave show ?thesis by simp
  next
    case failed
    let ?st1 = "recordFailure W cfg x pick now e ?st0"
    from recordFailure_keeps [of ?st0 now fin e "set (held_items st) \<union> set (scan_items st)" ?st1] assms(1,4) inv(2) mem
    have k: "ok (sh_wal ?st1)" "v_hwm (vw (sh_wal ?st1)) = v_hwm (vw (sh_wal st))"
      "\<forall>e' \<in> set (held_items st) \<union> set (scan_items st). held_ok (vw (sh_wal ?st1)) (fin \<union> fin_seqs (vw (sh_wal ?st1))) e'"
      "set (sh_completion ?st1) \<subseteq> set (sh_completion st) \<union> fin \<union> fin_seqs (vw (sh_wal ?st1))"
      "sh_work ?st1 = sh_work st" "sh_active ?st1 = sh_active ?st0" "sh_upload ?st1 = sh_upload st" "sh_scan ?st1 = sh_scan st"
      "sh_inflight ?st1 = sh_inflight st" "sh_above ?st1 = sh_above st" "sh_limiter ?st1 = sh_limiter st" by auto
    have "held_items ?st1 = held_items ?st0" using k by (simp add: held_items_def)
    from inv_leave [OF assms(2) k(1) this] rem mem k inv failed show ?thesis
      by (simp add: releaseInflight_def)
  next
    case slot
    have h: "mset (held_items st') = mset (held_items st)"
      using slot(2) assms(3) by (simp add: held_items_def)
    have "mset (map SE_Seq (held_items st')) = mset (map SE_Seq (held_items st))" using h by simp
    then have "distinct (map SE_Seq (held_items st'))" using inv(1) mset_eq_imp_distinct_iff by blast
    moreover have "set (held_items st') = set (held_items st)" using h by (rule mset_eq_setD)
    moreover have "scan_items st' = scan_items st" using slot(2) by (simp add: scan_items_def)
    moreover have "aimd_inv l" "al_inflight l = al_inflight (sh_limiter st) + 1"
      using aimd_inv_acquire [OF inv(3) slot(1)] acquire_fields [OF slot(1)] by simp_all
    ultimately show ?thesis using assms(1,2) slot(2) all by (auto simp: ship_inv_def)
  qed
qed

lemma inv_finish:
  assumes "ok (sh_wal st)" "ship_inv vw cfg st fin" "ew \<in> set (sh_upload st)" "now \<noteq> 0"
    and "st' = shipFinish W cfg x pick now up ew st"
  shows "ok (sh_wal st') \<and> ship_inv vw cfg st' (fin \<union> fin_seqs (vw (sh_wal st')))"
proof -
  let ?e = "fst ew" and ?l = "aimd_release (sint now) up (sh_limiter st)" and ?E = "set (held_items st) \<union> set (scan_items st)"
  let ?st0 = "st\<lparr>sh_upload := remove1 ew (sh_upload st), sh_limiter := ?l\<rparr>"
  have inv: "distinct (map SE_Seq (held_items st))" "\<forall>e \<in> ?E. held_ok (vw (sh_wal st)) fin e"
    "aimd_inv (sh_limiter st)" "al_inflight (sh_limiter st) = int (length (sh_upload st))"
    using assms(2) by (auto simp: ship_inv_def)
  have h0: "held_items ?st0 = held_items (st\<lparr>sh_upload := remove1 ew (sh_upload st)\<rparr>)"
    by (simp add: held_items_def)
  note rem = held_remove_upload [OF assms(3) inv(1)]
  have mem: "?e \<in> set (held_items st)" using assms(3) by (auto simp: held_items_def)
  have lim: "aimd_inv ?l" "al_inflight ?l = int (length (remove1 ew (sh_upload st)))"
  proof -
    show "aimd_inv ?l" by (rule aimd_inv_release [OF inv(3)])
    obtain k where "length (sh_upload st) = Suc k"
      using length_pos_if_in_set [OF assms(3)] gr0_conv_Suc by blast
    then show "al_inflight ?l = int (length (remove1 ew (sh_upload st)))"
      using inv(4) assms(3) by (simp add: release_inflight length_remove1)
  qed
  have eok: "held_ok (vw (sh_wal st)) fin ?e" using inv(2) mem by blast
  obtain st1 where st': "st' = releaseInflight ?e st1" and k: "ok (sh_wal st1)"
      "v_hwm (vw (sh_wal st1)) = v_hwm (vw (sh_wal st))" "\<forall>e' \<in> ?E. held_ok (vw (sh_wal st1)) (fin \<union> fin_seqs (vw (sh_wal st1))) e'"
      "set (sh_completion st1) \<subseteq> set (sh_completion st) \<union> fin \<union> fin_seqs (vw (sh_wal st1))"
      "sh_work st1 = sh_work st" "sh_active st1 = sh_active st" "sh_upload st1 = sh_upload ?st0" "sh_scan st1 = sh_scan st"
      "sh_inflight st1 = sh_inflight st" "sh_above st1 = sh_above st" "sh_limiter st1 = ?l"
  proof (cases up)
    case False
    show thesis
      by (rule that [of "recordFailure W cfg x pick now ?e ?st0"])
         (use recordFailure_keeps [of ?st0 now fin ?e ?E, OF _ assms(4) _ _ refl, of cfg x pick] assms(1,5) inv(2) eok False in
           \<open>auto simp: shipFinish_def Let_def\<close>)
  next
    case up: True
    obtain r w where ms: "sw_MarkShipped W x (SE_Hash ?e) (sh_wal st) = (r, w)" by fastforce
    note law = shipped_law [OF assms(1) ms]
    show thesis
    proof (cases r)
      case (Inl er)
      have "\<forall>e' \<in> ?E. held_ok (vw (sh_wal st)) (fin \<union> F) e'" for F using inv(2) held_ok_mono [OF _ Un_upper1] by blast
      then show thesis
        by (intro that [of "?st0\<lparr>sh_wal := w, sh_markShippedFailures := sh_markShippedFailures ?st0 + 1\<rparr>"])
           (use law Inl ms up assms(1,5) in \<open>auto simp: shipFinish_def Let_def\<close>)
    next
      case (Inr u)
      with law obtain m1 m2 where m: "v_meta (vw (sh_wal st)) (SE_Hash ?e) = Some m1" "State m2 = StateShipped"
        "Sequence m2 = Sequence m1" "vw w = av_meta (SE_Hash ?e) m2 (vw (sh_wal st))" "ok w" by auto
      have "\<forall>e' \<in> ?E. held_ok (vw w) (fin \<union> fin_seqs (vw w)) e'" "SE_Seq ?e \<in> fin \<union> fin_seqs (vw w)"
        using mark_held [OF _ m(1,3)] inv(2) eok m(2,4) by auto
      then show thesis
        by (intro that [of "signalCompletion x pick (SE_Seq ?e)
              (?st0\<lparr>sh_wal := w, sh_shipped := sh_shipped ?st0 + 1,
                   sh_uniqueShipped := insert (SE_Seq ?e) (sh_uniqueShipped ?st0)\<rparr>)"])
           (use m ms Inr up assms(5) in \<open>auto simp: shipFinish_def Let_def signalCompletion_def av_meta_def\<close>)
    qed
  qed
  have "held_items st1 = held_items ?st0" using k by (simp add: held_items_def)
  from inv_leave [OF assms(2) k(1) this] rem mem k lim h0 st' show ?thesis by (simp add: releaseInflight_def)
qed

lemma inv_complete:
  assumes "ok (sh_wal st)" "ship_inv vw cfg st fin" "q \<in> fin" "processCompletion W cfg x q st = (r, st')"
  shows "ok (sh_wal st') \<and> ship_inv vw cfg st' fin"
proof -
  let ?hold = "st\<lparr>sh_above := insert q (sh_above st)\<rparr>"
  have hold: "ship_inv vw cfg ?hold fin" using assms(2,3) by (simp add: ship_inv_def held_items_def scan_items_def)
  show ?thesis
  proof (cases "sw_HWM W x (sh_wal st)")
    case (Inl er)
    with assms hold show ?thesis by (auto simp: processCompletion_def Let_def)
  next
    case (Inr h)
    have h: "h = v_hwm (vw (sh_wal st))" by (rule hwm_law [OF assms(1) Inr])
    show ?thesis
    proof (cases "q \<le> h \<or> q > h + 1")
      case True
      with Inr assms hold show ?thesis by (auto simp: processCompletion_def Let_def split: if_splits)
    next
      case False
      then have q: "q = h + 1" "\<not> q \<le> h" using word_inc_le [of h q] by auto
      obtain n' held' where run: "aboveRun q (sh_above st) = (n', held')" by fastforce
      obtain r' w where adv: "sw_AdvanceHWM W x n' (sh_wal st) = (r', w)" by fastforce
      note law = advance_law [OF assms(1) adv]
      have above: "sh_above st \<subseteq> fin" and low: "{0 <.. h} \<subseteq> fin"
        using assms(2) h by (auto simp: ship_inv_def)
      have sub: "held' \<subseteq> fin" "{q <.. n'} \<subseteq> fin" using aboveRun_subset [OF run] above by auto
      then have iv: "{q .. n'} \<subseteq> fin" using assms(3) by (auto simp: le_less)
      have "{0 <.. n'} \<subseteq> {0 <.. h} \<union> {q .. n'}"
      proof
        fix y assume y: "y \<in> {0 <.. n'}"
        have "y \<le> h \<or> q \<le> y" using q(1) word_inc_le [of h y] by (metis linorder_not_le)
        with y show "y \<in> {0 <.. h} \<union> {q .. n'}" by auto
      qed
      then have all: "{0 <.. n'} \<subseteq> fin" using low iv by blast
      show ?thesis
      proof (cases r')
        case (Inl er)
        then have "st' = st\<lparr>sh_wal := w, sh_above := held' \<union> {q .. n'}\<rparr>"
          using assms(4) \<open>sw_HWM W x (sh_wal st) = Inr h\<close> q run adv by (simp add: processCompletion_def Let_def)
        with law Inl assms(1,2) sub(1) iv show ?thesis by (simp add: ship_inv_def held_items_def scan_items_def)
      next
        case (Inr u)
        then have "st' = st\<lparr>sh_wal := w, sh_above := held', sh_hwm := n'\<rparr>"
          using assms(4) \<open>sw_HWM W x (sh_wal st) = Inr h\<close> q run adv by (simp add: processCompletion_def Let_def)
        with law Inr assms(2) sub(1) all show ?thesis by (simp add: ship_inv_def held_items_def scan_items_def)
      qed
    qed
  qed
qed

lemma inv_advance:
  assumes "ok (sh_wal st)" "ship_inv vw cfg st fin" "hwmAdvancer W cfg x st = (r, st')"
  shows "ok (sh_wal st') \<and> ship_inv vw cfg st' fin"
proof (cases "sh_completion st")
  case Nil
  with assms show ?thesis by (simp add: hwmAdvancer_def)
next
  case (Cons q qs)
  have "ship_inv vw cfg (st\<lparr>sh_completion := qs\<rparr>) fin" "q \<in> fin"
    using assms(2) Cons by (auto simp: ship_inv_def held_items_def scan_items_def)
  with inv_complete [of "st\<lparr>sh_completion := qs\<rparr>" cfg fin q x r st'] assms(1,3) Cons show ?thesis
    by (simp add: hwmAdvancer_def)
qed

lemma inv_env:
  assumes "ship_inv vw cfg st fin" "ok w'" "wal_env R (vw (sh_wal st)) (vw w')"
  shows "ship_inv vw cfg (st\<lparr>sh_wal := w'\<rparr>) fin"
  using assms held_ok_env [OF assms(3)] wal_env_hwm [OF assms(3)]
  by (simp add: ship_inv_def held_items_def scan_items_def)

lemma shipped_fin: "wal_inv v \<Longrightarrow> shipped_at v s \<Longrightarrow> s \<in> fin_seqs v"
  using wal_invD(2) [of v s] by (fastforce simp: shipped_at_def fin_seqs_def)

lemma inv_boot:
  assumes "ok (sh_wal st)" "ship_inv vw cfg st fin" "reconcile (sh_wal st) w'" "0 < MaxInFlight cfg"
  shows "ok w' \<and> ship_inv vw cfg (NewShipper w' cfg) (fin \<union> fin_seqs (vw w'))"
proof -
  obtain n where ok: "ok w'" and n: "vw w' = (vw (sh_wal st))\<lparr>v_hwm := n\<rparr>"
    "\<forall>s. v_hwm (vw (sh_wal st)) < s \<and> s \<le> n \<longrightarrow> shipped_at (vw (sh_wal st)) s"
    using reconcile_law [OF assms(1,3)] by blast
  have fs: "fin_seqs (vw w') = fin_seqs (vw (sh_wal st))" by (simp add: n(1) fin_seqs_def)
  have "{0 <.. n} \<subseteq> fin \<union> fin_seqs (vw w')"
  proof
    fix s assume s: "s \<in> {0 <.. n}"
    show "s \<in> fin \<union> fin_seqs (vw w')"
    proof (cases "s \<le> v_hwm (vw (sh_wal st))")
      case True
      with s assms(2) show ?thesis by (auto simp: ship_inv_def)
    next
      case False
      with s n(2) have "shipped_at (vw (sh_wal st)) s" by auto
      with shipped_fin [OF inv_law [OF assms(1)]] fs show ?thesis by simp
    qed
  qed
  then show ?thesis
    using ok assms(4) n(1) by (simp add: ship_inv_def NewShipper_def held_items_def scan_items_def aimd_inv_new)
      (simp add: newAIMDLimiter_def Let_def)
qed

lemma step_inv:
  assumes "ship_step W vw ok reconcile cfg R st st'" "ok (sh_wal st)" "ship_inv vw cfg st fin"
    and "0 < MaxInFlight cfg"
  shows "ok (sh_wal st') \<and> ship_inv vw cfg st' (fin \<union> fin_seqs (vw (sh_wal st')))"
  using assms(1)
proof cases
  case (scan_begin x t)
  with inv_scan_begin [OF assms(3)] ship_inv_mono assms(2) show ?thesis by (metis Un_upper1)
next
  case (scan_open cx)
  with inv_scan_open [OF assms(2,3)] ship_inv_mono assms(2) show ?thesis by (metis Un_upper1)
next
  case (scan_item x x' pick)
  with inv_scan_item [OF assms(3)] ship_inv_mono assms(2) show ?thesis by (metis Un_upper1)
next
  case recv
  with inv_recv [OF assms(3)] ship_inv_mono assms(2) show ?thesis by (metis Un_upper1)
next
  case (start e now x x' pick)
  with inv_begin [OF assms(2,3)] show ?thesis by blast
next
  case (finish ew now x pick up)
  with inv_finish [OF assms(2,3)] show ?thesis by blast
next
  case (advance x r)
  with inv_advance [OF assms(2,3)] ship_inv_mono show ?thesis by (metis Un_upper1)
next
  case (env w')
  with ship_inv_mono [OF inv_env [OF assms(3) env(2,3)], of "fin \<union> fin_seqs (vw w')"] show ?thesis by simp
next
  case (boot w')
  with inv_boot [OF assms(2,3) boot(2) assms(4)] show ?thesis by (simp add: NewShipper_def)
qed

lemma ship_reach_inv:
  assumes "ship_reach W vw ok reconcile cfg R st fin" "0 < MaxInFlight cfg"
  shows "ok (sh_wal st) \<and> ship_inv vw cfg st fin"
  using assms(1)
proof (induction rule: ship_reach.induct)
  case (start w)
  with assms(2) show ?case
    by (simp add: ship_inv_def NewShipper_def held_items_def scan_items_def aimd_inv_new) (simp add: newAIMDLimiter_def Let_def)
next
  case (step st fin st')
  with step_inv [OF step(2)] assms(2) show ?case by blast
qed

end

subsection \<open>The committer satisfies the interface\<close>

lemma av_meta_same: "v_meta v h = Some m \<Longrightarrow> av_meta h m v = v"
  by (simp add: av_meta_def fun_upd_idem)

context wal_store
begin

lemma iterateSequencedLoop_inv:
  assumes "committer_ok c content d"
    and "\<And>s e. P s \<Longrightarrow> item_ok (view_of c (content d)) e \<Longrightarrow> P (snd (fn s e))"
  shows "P s \<Longrightarrow> set items \<subseteq> set (bg_scan B d [prefixSeqIndex] k0) \<Longrightarrow>
    P (snd (iterateSequencedLoop B c d cx fn s items))"
proof (induction items arbitrary: s)
  case (Cons it items)
  obtain k val where it: "it = (k, val)" by (cases it)
  have wf: "wf_kv c (content d)" and inv: "wal_inv (view_of c (content d))"
    using assms(1) by (auto simp: committer_ok_def)
  have "(k, val) \<in> set (bg_scan B d [prefixSeqIndex] k0)" using Cons.prems it by simp
  then obtain q m where q: "k = seqIndexKey q" "length val = 32"
      "v_meta (view_of c (content d)) (un_hash val) = Some m" "Sequence m = q"
    by (rule scan_item_meta [OF _ wf inv])
  show ?case
  proof (cases "readMeta B c d (un_hash val)")
    case (Inl e)
    with Cons.prems q show ?thesis by (simp add: it seq_value_def)
  next
    case (Inr m')
    with readMeta_view [OF wf Inr] q(3) have "m' = m" by simp
    show ?thesis
    proof (cases "State m = StateSequenced")
      case True
      let ?e = "\<lparr>SE_Seq = q, SE_Hash = un_hash val\<rparr>"
      have "item_ok (view_of c (content d)) ?e" using q(3,4) True by (simp add: item_ok_def)
      then have "P (snd (fn s ?e))" using assms(2) Cons.prems(1) by blast
      with Cons.IH Cons.prems(2) Inr q True \<open>m' = m\<close> show ?thesis
        by (auto simp: it seq_value_def split: prod.splits option.splits)
    next
      case False
      with Cons Inr q \<open>m' = m\<close> show ?thesis by (simp add: it seq_value_def)
    qed
  qed
qed simp

lemma reconcileRun_sound:
  assumes "committer_ok c content d"
  shows "reconcileRun B c d n items = Inr n' \<Longrightarrow> set items \<subseteq> set (bg_scan B d [prefixSeqIndex] k0) \<Longrightarrow>
    sorted_wrt (<) (map fst items) \<Longrightarrow> \<forall>k \<in> fst ` set items. seqIndexKey n < k \<Longrightarrow>
    \<forall>s. n < s \<and> s \<le> n' \<longrightarrow> shipped_at (view_of c (content d)) s"
proof (induction items arbitrary: n)
  case Nil
  then show ?case by auto
next
  case (Cons it items)
  let ?v = "view_of c (content d)"
  obtain k val where it: "it = (k, val)" by (cases it)
  have wf: "wf_kv c (content d)" and inv: "wal_inv ?v" using assms(1) by (auto simp: committer_ok_def)
  have "(k, val) \<in> set (bg_scan B d [prefixSeqIndex] k0)" using Cons.prems it by simp
  then obtain s m where s: "k = seqIndexKey s" "length val = 32" "v_seq ?v s = Some (un_hash val)"
      "v_meta ?v (un_hash val) = Some m"
    by (rule scan_item_meta [OF _ wf inv])
  show ?case
  proof (cases "n' = n")
    case False
    then have s1: "s = n + 1" and rest: "reconcileRun B c d s items = Inr n'"
      and sh: "\<exists>m'. readMeta B c d (un_hash val) = Inr m' \<and> State m' = StateShipped"
      using Cons.prems(1) s(1,2) it by (auto simp: Let_def seq_value_def bindE_eq_Inr split: if_splits)
    from sh readMeta_view [OF wf] s(3) have here: "shipped_at ?v s" by (auto simp: shipped_at_def)
    have "\<forall>k \<in> fst ` set items. seqIndexKey s < k" using Cons.prems(3) it s(1) by auto
    with Cons.IH [OF rest] Cons.prems(2,3) have IH: "\<forall>q. s < q \<and> q \<le> n' \<longrightarrow> shipped_at ?v q" by simp
    show ?thesis
    proof (intro allI impI)
      fix q assume q: "n < q \<and> q \<le> n'"
      then have "s \<le> q" using s1 word_inc_le by blast
      with q here IH show "shipped_at ?v q" by (cases "q = s") auto
    qed
  qed auto
qed

lemma Reconcile_moved:
  assumes "ReconcileHWM B c x d = (r, d')" "d' \<noteq> d"
  obtains n where "HWM B x d = Inr (v_hwm (view_of c (content d)))" "v_hwm (view_of c (content d)) < n"
    "reconcileRun B c d (v_hwm (view_of c (content d)))
       (bg_scan B d [prefixSeqIndex] (seqIndexKey (v_hwm (view_of c (content d)) + 1))) = Inr n"
    "AdvanceHWM B x n d = (Inr (), d')"
proof -
  obtain h where h: "HWM B x d = Inr h" using assms by (auto simp: ReconcileHWM_def split: sum.splits)
  note hv = HWM_view [OF h]
  obtain n where n: "reconcileRun B c d h (bg_scan B d [prefixSeqIndex] (seqIndexKey (h + 1))) = Inr n"
    using assms h by (auto simp: ReconcileHWM_def split: sum.splits)
  have gt: "h < n" using assms h n by (auto simp: ReconcileHWM_def split: if_splits)
  obtain r' d1 where adv: "AdvanceHWM B x n d = (r', d1)" by fastforce
  have "d1 = d'" using assms(1) h n gt adv by (auto simp: ReconcileHWM_def split: sum.splits)
  moreover have "\<exists>u. r' = Inr u"
    using adv assms(2) \<open>d1 = d'\<close> ctx_update_Inl unfolding AdvanceHWM_def by (cases r') auto
  ultimately show thesis using that h n gt adv unfolding hv [symmetric] by auto
qed

lemma Reconcile_passes_shipped:
  assumes "committer_ok c content d" "ReconcileHWM B c x d = (r, d')"
  shows "\<exists>n. view_of c (content d') = (view_of c (content d))\<lparr>v_hwm := n\<rparr> \<and>
    (\<forall>s. v_hwm (view_of c (content d)) < s \<and> s \<le> n \<longrightarrow> shipped_at (view_of c (content d)) s)"
proof (cases "d' = d")
  case True
  then show ?thesis by (intro exI [of _ "v_hwm (view_of c (content d))"]) auto
next
  case False
  let ?h = "v_hwm (view_of c (content d))"
  have wf: "wf_kv c (content d)" using assms(1) by (simp add: committer_ok_def)
  obtain n where hw: "HWM B x d = Inr ?h" and gt: "?h < n"
    and run: "reconcileRun B c d ?h (bg_scan B d [prefixSeqIndex] (seqIndexKey (?h + 1))) = Inr n"
    and adv: "AdvanceHWM B x n d = (Inr (), d')"
    by (rule Reconcile_moved [OF assms(2) False])
  have "?h \<noteq> - 1" using gt by (metis linorder_not_less word_order.extremum)
  then have "seqIndexKey ?h < seqIndexKey (?h + 1)" using word_inc_le_iff [of ?h "?h + 1"] by simp
  then have lo: "\<forall>k \<in> fst ` set (bg_scan B d [prefixSeqIndex] (seqIndexKey (?h + 1))). seqIndexKey ?h < k"
    by (auto simp: scan_mem simp del: seqIndexKey_less_iff intro: less_le_trans)
  from reconcileRun_sound [OF assms(1) run subset_refl scan_sorted_law lo] AdvanceHWM_refines [OF adv wf]
  show ?thesis by blast
qed

end

context wal_store
begin

lemma committer_okD: "committer_ok c content d \<Longrightarrow> wf_kv c (content d) \<and> wal_inv (view_of c (content d))"
  by (simp add: committer_ok_def)

lemma law_inv: "committer_ok c content d \<Longrightarrow> wal_inv (view_of c (content d))"
  by (simp add: committer_ok_def)

lemma law_hwm:
  "committer_ok c content d \<Longrightarrow> sw_HWM (committerWAL B c) x d = Inr n \<Longrightarrow> n = v_hwm (view_of c (content d))"
  using HWM_view by (simp add: committerWAL_def)

lemma law_meta:
  "committer_ok c content d \<Longrightarrow> sw_MetaState (committerWAL B c) x d h = Inr m \<Longrightarrow>
   v_meta (view_of c (content d)) h = Some m"
  using readMeta_view
  by (auto simp: committer_ok_def committerWAL_def MetaState_def ctx_check_def split: option.splits)

lemma law_advance:
  assumes "committer_ok c content d" "sw_AdvanceHWM (committerWAL B c) x n d = (r, d')"
  shows "committer_ok c content d' \<and>
    (case r of Inl _ \<Rightarrow> d' = d | Inr _ \<Rightarrow> view_of c (content d') = (view_of c (content d))\<lparr>v_hwm := n\<rparr>)"
proof -
  have a: "AdvanceHWM B x n d = (r, d')" using assms(2) by (simp add: committerWAL_def)
  have "wf_kv c (content d)" using assms(1) by (simp add: committer_ok_def)
  then show ?thesis
    using ok_step [OF wal_step.advance [OF a] assms(1)] AdvanceHWM_refines a ctx_update_Inl
    unfolding AdvanceHWM_def by (cases r) auto
qed

lemma law_shipped:
  assumes "committer_ok c content d" "sw_MarkShipped (committerWAL B c) x h d = (r, d')"
  shows "committer_ok c content d' \<and> (case r of Inl _ \<Rightarrow> d' = d
      | Inr _ \<Rightarrow> \<exists>m m'. v_meta (view_of c (content d)) h = Some m \<and> State m' = StateShipped \<and>
          Sequence m' = Sequence m \<and> view_of c (content d') = av_meta h m' (view_of c (content d)))"
proof -
  have a: "MarkShipped B c x h d = (r, d')" using assms(2) by (simp add: committerWAL_def)
  have wf: "wf_kv c (content d)" using assms(1) by (simp add: committer_ok_def)
  have ok': "committer_ok c content d'" by (rule ok_step [OF wal_step.shipped [OF a] assms(1)])
  show ?thesis
  proof (cases r)
    case (Inl e)
    with a ok' show ?thesis using ctx_update_Inl unfolding MarkShipped_def by auto
  next
    case (Inr u)
    from MarkShipped_refines [OF a [unfolded Inr] wf] obtain m where
      m: "v_meta (view_of c (content d)) h = Some m"
      "State m = StateShipped \<and> content d' = content d \<or>
       view_of c (content d') = av_meta h (m\<lparr>State := StateShipped, LastErrTs := None\<rparr>) (view_of c (content d))"
      by blast
    have "\<exists>m'. State m' = StateShipped \<and> Sequence m' = Sequence m \<and>
        view_of c (content d') = av_meta h m' (view_of c (content d))"
      using m(2)
    proof
      assume "State m = StateShipped \<and> content d' = content d"
      with av_meta_same [OF m(1)] show ?thesis by (intro exI [of _ m]) simp
    next
      assume "view_of c (content d') =
        av_meta h (m\<lparr>State := StateShipped, LastErrTs := None\<rparr>) (view_of c (content d))"
      then show ?thesis by (intro exI [of _ "m\<lparr>State := StateShipped, LastErrTs := None\<rparr>"]) simp
    qed
    with m(1) Inr ok' show ?thesis by auto
  qed
qed

lemma law_manual:
  assumes "committer_ok c content d" "sw_MarkManual (committerWAL B c) x h d = (r, d')"
  shows "committer_ok c content d' \<and> (case r of Inl _ \<Rightarrow> d' = d
      | Inr _ \<Rightarrow> \<exists>m m'. v_meta (view_of c (content d)) h = Some m \<and> State m' = StateManual \<and>
          Sequence m' = Sequence m \<and> view_of c (content d') = av_meta h m' (view_of c (content d)))"
proof -
  have a: "MarkManual B c x h d = (r, d')" using assms(2) by (simp add: committerWAL_def)
  have wf: "wf_kv c (content d)" using assms(1) by (simp add: committer_ok_def)
  have ok': "committer_ok c content d'" by (rule ok_step [OF wal_step.manual [OF a] assms(1)])
  show ?thesis
  proof (cases r)
    case (Inl e)
    with a ok' show ?thesis using ctx_update_Inl unfolding MarkManual_def by auto
  next
    case (Inr u)
    from MarkManual_refines [OF a [unfolded Inr] wf] obtain m where
      "v_meta (view_of c (content d)) h = Some m"
      "view_of c (content d') = av_meta h (m\<lparr>State := StateManual\<rparr>) (view_of c (content d))" by blast
    with ok' Inr show ?thesis by (auto intro!: exI [of _ "m\<lparr>State := StateManual\<rparr>"])
  qed
qed

lemma law_retry:
  assumes "committer_ok c content d" "now \<noteq> 0" "sw_MarkRetry (committerWAL B c) x now h d = (r, d')"
  shows "committer_ok c content d' \<and> (case r of Inl _ \<Rightarrow> d' = d
      | Inr _ \<Rightarrow> \<exists>m m'. v_meta (view_of c (content d)) h = Some m \<and> State m' = State m \<and>
          Sequence m' = Sequence m \<and> view_of c (content d') = av_meta h m' (view_of c (content d)))"
proof -
  have a: "MarkRetry B c x now h d = (r, d')" using assms(3) by (simp add: committerWAL_def)
  have wf: "wf_kv c (content d)" using assms(1) by (simp add: committer_ok_def)
  have ok': "committer_ok c content d'" by (rule ok_step [OF wal_step.retry [OF assms(2) a] assms(1)])
  show ?thesis
  proof (cases r)
    case (Inl e)
    with a ok' show ?thesis using ctx_update_Inl unfolding MarkRetry_def by auto
  next
    case (Inr u)
    from MarkRetry_refines [OF a [unfolded Inr] wf assms(2)] obtain m where
      "v_meta (view_of c (content d)) h = Some m"
      "view_of c (content d') =
         av_meta h (m\<lparr>Attempts := Attempts m + 1, LastErrTs := Some now\<rparr>) (view_of c (content d))" by blast
    with ok' Inr show ?thesis
      by (auto intro!: exI [of _ "m\<lparr>Attempts := Attempts m + 1, LastErrTs := Some now\<rparr>"])
  qed
qed

lemma law_iterate:
  assumes "committer_ok c content d" "P s"
    and "\<And>s e. P s \<Longrightarrow> item_ok (view_of c (content d)) e \<Longrightarrow> P (snd (fn s e))"
  shows "P (snd (sw_IterateSequenced (committerWAL B c) cx n fn s d))"
proof -
  have "P (snd (iterateSequencedLoop B c d cx fn s (bg_scan B d [prefixSeqIndex] k0)))" for k0
    by (rule iterateSequencedLoop_inv [OF assms(1,3,2) subset_refl])
  with assms(2) show ?thesis by (simp add: committerWAL_def IterateSequenced_def Let_def split: option.splits)
qed

lemma law_reconcile:
  assumes "committer_ok c content d" "\<exists>x r. ReconcileHWM B c x d = (r, d')"
  shows "committer_ok c content d' \<and> (\<exists>n. view_of c (content d') = (view_of c (content d))\<lparr>v_hwm := n\<rparr> \<and>
      (\<forall>s. v_hwm (view_of c (content d)) < s \<and> s \<le> n \<longrightarrow> shipped_at (view_of c (content d)) s))"
proof -
  obtain x r where a: "ReconcileHWM B c x d = (r, d')" using assms(2) by blast
  from ok_step [OF wal_step.reconcile [OF a] assms(1)] Reconcile_passes_shipped [OF assms(1) a]
  show ?thesis by blast
qed

lemmas committer_laws = law_inv law_hwm law_advance law_meta law_shipped law_manual law_retry law_iterate law_reconcile

end

sublocale wal_store \<subseteq> ship: ship_wal "committerWAL B c" "\<lambda>d. view_of c (content d)" "committer_ok c content"
  "\<lambda>d d'. \<exists>x r. ReconcileHWM B c x d = (r, d')"
  by (rule ship_wal.intro) (fact committer_laws)+

context ship_wal
begin

lemma outage_keeps_states:
  assumes "ok (sh_wal st)" "now \<noteq> 0" "\<not> aimd_healthy (sint now) (HealthyWindow cfg) (sh_limiter st)"
    and "v_meta (vw (sh_wal st)) h = Some m" "st' = recordFailure W cfg x pick now e st"
  shows "(\<exists>m'. v_meta (vw (sh_wal st')) h = Some m' \<and> State m' = State m \<and> Sequence m' = Sequence m) \<and>
    sh_completion st' = sh_completion st \<and> sh_manual st' = sh_manual st"
proof (cases "sw_MetaState W x (sh_wal st) (SE_Hash e)")
  case (Inl er)
  with assms show ?thesis by (simp add: recordFailure_def)
next
  case (Inr m0)
  obtain r w where mr: "sw_MarkRetry W x now (SE_Hash e) (sh_wal st) = (r, w)" by fastforce
  note law = retry_law [OF assms(1,2) mr]
  show ?thesis
    using assms(3-5) Inr mr law by (cases r) (auto simp: recordFailure_def av_meta_def)
qed

end

context wal_store
begin

lemmas committer_ship_inv = ship.ship_reach_inv
lemmas committer_outage = ship.outage_keeps_states

end

text \<open>A scan from the mark on never yields a number up to the mark.\<close>

context wal_store
begin

lemma iterateSequencedLoop_above:
  assumes "wf_kv c (content d)"
  shows "\<forall>e \<in> set es. n < SE_Seq e \<Longrightarrow> set items \<subseteq> set (bg_scan B d [prefixSeqIndex] k0) \<Longrightarrow>
    \<forall>k \<in> fst ` set items. seqIndexKey n < k \<Longrightarrow>
    \<forall>e \<in> set (snd (iterateSequencedLoop B c d cx (\<lambda>es e. (None, es @ [e])) es items)). n < SE_Seq e"
proof (induction items arbitrary: es)
  case (Cons it items)
  obtain k val where it: "it = (k, val)" by (cases it)
  have "(k, val) \<in> set (bg_scan B d [prefixSeqIndex] k0)" using Cons.prems it by simp
  then obtain q where q: "k = seqIndexKey q" by (rule scan_item [OF _ assms])
  then have "n < q" using Cons.prems(3) it by auto
  then have more: "\<forall>e \<in> set (es @ [\<lparr>SE_Seq = seqFromIndexKey k, SE_Hash = h\<rparr>]). n < SE_Seq e" for h using Cons.prems(1) q by auto
  have IH: "\<forall>e \<in> set es. n < SE_Seq e \<Longrightarrow>
      \<forall>e \<in> set (snd (iterateSequencedLoop B c d cx (\<lambda>es e. (None, es @ [e])) es items)). n < SE_Seq e" for es
    using Cons.IH Cons.prems(2,3) by simp
  show ?case
  proof (cases "bindE (seq_value val) (\<lambda>h. bindE (readMeta B c d h) (\<lambda>m. Inr (h, State m)))")
    case (Inl er)
    then show ?thesis using Cons.prems(1) by (simp add: it)
  next
    case (Inr hs)
    then show ?thesis using Cons.prems(1) IH [OF Cons.prems(1)] more [of "fst hs"] IH [OF more, of "fst hs"]
      by (cases hs) (simp add: it split: option.splits)
  qed
qed simp

lemma iterate_above:
  assumes "wf_kv c (content d)" "fromSeq \<noteq> 0" "fromSeq \<noteq> - 1"
    "IterateSequenced B c cx fromSeq (\<lambda>es e. (None, es @ [e])) [] d = (r, es)"
  shows "\<forall>e \<in> set es. fromSeq < SE_Seq e"
proof -
  have "seqIndexKey fromSeq < seqIndexKey (fromSeq + 1)" using word_inc_le_iff [OF assms(3), of "fromSeq + 1"] by simp
  then have lo: "\<forall>k \<in> fst ` set (bg_scan B d [prefixSeqIndex] (seqIndexKey (fromSeq + 1))). seqIndexKey fromSeq < k"
    by (auto simp: scan_mem simp del: seqIndexKey_less_iff intro: less_le_trans)
  from iterateSequencedLoop_above [OF assms(1) _ subset_refl this, of "[]" cx] assms(2,4) show ?thesis
    by (auto simp: IterateSequenced_def Let_def split: option.splits)
qed

end

text \<open>A scan that nobody interrupts is a sequence of the scanner's steps and ends.\<close>

lemma scan_items_run:
  "sh_scan st = ScanAt t es \<Longrightarrow> (ship_step W vw ok reconcile cfg R)\<^sup>*\<^sup>* st ((scanItem W cfg x x' pick ^^ n) st)"
  by (induction n) (auto intro: rtranclp.rtrancl_into_rtrancl scan_item)

lemma scanAndDispatch_run:
  assumes "sh_scan st = ScanIdle"
  shows "(ship_step W vw ok reconcile cfg R)\<^sup>*\<^sup>* st (scanAndDispatch W cfg t x x' pick st)"
proof -
  let ?b = "scanBegin W x t st" and ?o = "scanOpen W (\<lambda>_. x) (scanBegin W x t st)"
  have "(ship_step W vw ok reconcile cfg R)\<^sup>*\<^sup>* st ?o"
    using scan_begin [OF assms, of W vw ok reconcile cfg R x t] scan_open [of W vw ok reconcile cfg R ?b "\<lambda>_. x"]
    by (meson r_into_rtranclp rtranclp_trans)
  moreover have "(ship_step W vw ok reconcile cfg R)\<^sup>*\<^sup>* ?o ((scanItem W cfg x x' pick ^^ n) ?o)" for n
    by (induction n) (auto intro: rtranclp.rtrancl_into_rtrancl scan_item)
  ultimately show ?thesis unfolding scanAndDispatch_def Let_def
    by (auto intro: rtranclp_trans simp del: funpow.simps split: scan.splits)
qed

lemma ship_reach_run:
  assumes "(ship_step W vw ok reconcile cfg R)\<^sup>*\<^sup>* st st'" "ship_reach W vw ok reconcile cfg R st fin"
  shows "\<exists>fin'. ship_reach W vw ok reconcile cfg R st' fin'"
  using assms by (induction rule: rtranclp_induct) (auto intro: ship_reach.step)

lemma NewShipper_cfg_pos: "0 < MaxInFlight (NewShipper_cfg cfg)"
  by (simp add: NewShipper_cfg_def)

subsection \<open>A run\<close>

abbreviation mem_view :: "memdb \<Rightarrow> bytes wal_view" where
  "mem_view d \<equiv> view_of raw_codec (map_of d)"

abbreviation mem_ship_reach :: "memdb shipper \<Rightarrow> u64 set \<Rightarrow> bool" where
  "mem_ship_reach \<equiv> ship_reach (committerWAL mem_badger raw_codec) (\<lambda>d. mem_view d)
     (committer_ok raw_codec map_of) (\<lambda>d d'. \<exists>x r. ReconcileHWM mem_badger raw_codec x d = (r, d'))
     ship_demo_cfg 1"

lemma ship_demo_cfg_new: "\<exists>cfg. ship_demo_cfg = NewShipper_cfg cfg"
  unfolding ship_demo_cfg_def by blast

lemma demo_ok: "committer_ok raw_codec map_of demo2" "committer_ok raw_codec map_of demo3"
  using memw.reach_inv demo_reach by (simp_all add: committer_ok_def)

lemma demo_marks: "v_hwm (mem_view demo2) = 0" "v_hwm (mem_view demo3) = 0"
  by (simp_all add: demo_lists view_of_def)

lemma demo3_shipped: "shipped_at (mem_view demo3) 1" "\<not> shipped_at (mem_view demo3) 2"
  by (simp_all add: shipped_at_def demo_lists view_of_def decodeMeta_V1 demo_meta_def meta_wf_def)

lemma demo3_reconcile:
  "\<exists>d'. ReconcileHWM mem_badger raw_codec None demo3 = (Inr 1, d') \<and> v_hwm (mem_view d') = 1"
proof -
  from memw.Reconcile_complete [OF mem_faultless, of demo3] demo_ok(2) demo_marks(2) obtain n d' where
    n: "ReconcileHWM mem_badger raw_codec None demo3 = (Inr n, d')" "v_hwm (mem_view d') = n"
    "\<forall>s. 0 < s \<and> s \<le> n \<longrightarrow> shipped_at (mem_view demo3) s" "n = - 1 \<or> \<not> shipped_at (mem_view demo3) (n + 1)"
    by (auto simp: committer_ok_def)
  have "n \<noteq> 0" "\<not> 2 \<le> n" using n(3,4) demo3_shipped by auto
  then have "unat n = 1" by (auto simp: word_le_nat_alt unat_eq_0 [symmetric])
  then have "n = 1" by (simp add: word_unat_eq_iff)
  with n(1,2) show ?thesis by auto
qed

abbreviation demo_entry :: SequencedEntry where
  "demo_entry \<equiv> \<lparr>SE_Seq = 1, SE_Hash = 11\<rparr>"

lemma demo2_sequenced: "sequenced_above (mem_view demo2) 0 = {demo_entry}"
  by (auto simp: sequenced_above_def demo_lists view_of_def decodeMeta_V1 demo_meta_def meta_wf_def
      split: if_splits option.splits)

lemma demo2_iterate:
  assumes "cx s = None"
  shows "IterateSequenced mem_badger raw_codec cx 0 (fn :: SequencedEntry list \<Rightarrow> _) s demo2 = visit cx fn s [demo_entry]"
proof -
  have z: "(0 :: u64) \<noteq> - 1" by simp
  from memw.IterateSequenced_visit [where ?'s = "SequencedEntry list", OF mem_faultless _ _ z, of demo2] demo_ok(1) obtain es where
    es: "sorted_wrt (<) (map SE_Seq es)" "set es = sequenced_above (mem_view demo2) 0"
      "IterateSequenced mem_badger raw_codec cx 0 fn s demo2 = visit cx fn s es"
    using assms by (auto simp: committer_ok_def)
  have "es = [demo_entry]" using es(1,2) demo2_sequenced by (cases es; cases "tl es") auto
  with es(3) show ?thesis by simp
qed

definition demo_scan :: "memdb shipper" where
  "demo_scan = scanAndDispatch (committerWAL mem_badger raw_codec) ship_demo_cfg 9 None None True
     (NewShipper demo2 ship_demo_cfg)"

lemma demo2_reads:
  "HWM mem_badger None demo2 = Inr 0"
  "MetaState mem_badger raw_codec None demo2 11 = Inr (demo_meta\<lparr>State := StateSequenced, Sequence := 1\<rparr>)"
  by (simp_all add: HWM_def MetaState_def readMeta_def ctx_check_def txn_get_def demo_lists
      decodeMeta_V1 demo_meta_def meta_wf_def)

lemma demo_scan_work: "sh_work demo_scan = [demo_entry]" "sh_wal demo_scan = demo2"
  by (simp_all add: demo_scan_def scanAndDispatch_def scanBegin_def scanOpen_def scanItem_def committerWAL_def demo2_reads
      demo2_iterate scanCallback_def backing_off_def demo_meta_def NewShipper_def ship_demo_cfg_fields Let_def)

lemma demo_ship_start:
  "mem_ship_reach (NewShipper demo2 ship_demo_cfg) (fin_seqs (mem_view demo2))"
  "mem_ship_reach (NewShipper demo3 ship_demo_cfg) (fin_seqs (mem_view demo3))"
  by (rule ship_reach.start; simp add: demo_ok demo_marks)+

lemma demo_scan_reach: "\<exists>fin. mem_ship_reach demo_scan fin"
  unfolding demo_scan_def by (rule ship_reach_run [OF scanAndDispatch_run demo_ship_start(1)]) (simp add: NewShipper_def)

subsection \<open>Properties\<close>

text \<open>
  C8.  In every interleaving of the steps of scans, workers, uploads that
  succeed or fail, store faults, restarts with reconciliation, submissions, sequencing and GC, the
  high-water mark has only passed sequence numbers from 1 on whose record had reached shipped or
  manual: no entry at a number above 0 that still waits for its upload is ever skipped over.  (Number 0
  is the exception: see \<open>shipper_strands_sequence_zero\<close>.)
\<close>

theorem shipper_mark_passes_finished:
  assumes "wal_store B content c"
    and "ship_reach (committerWAL B c) (\<lambda>d. view_of c (content d)) (committer_ok c content)
      (\<lambda>d d'. \<exists>x r. ReconcileHWM B c x d = (r, d')) (NewShipper_cfg cfg) R st fin"
  shows "{0 <.. v_hwm (view_of c (content (sh_wal st)))} \<subseteq> fin"
  using wal_store.committer_ship_inv [OF assms NewShipper_cfg_pos] by (simp add: ship_inv_def)

theorem shipper_mark_passes_finished_witness:
  "\<exists>d' fin. mem_ship_reach (NewShipper d' ship_demo_cfg) fin \<and> v_hwm (mem_view d') = 1 \<and> 1 \<in> fin"
proof -
  obtain d' where d': "ReconcileHWM mem_badger raw_codec None demo3 = (Inr 1, d')" "v_hwm (mem_view d') = 1"
    using demo3_reconcile by blast
  obtain cfg where cfg: "ship_demo_cfg = NewShipper_cfg cfg" using ship_demo_cfg_new by blast
  have "mem_ship_reach (NewShipper d' ship_demo_cfg)
      (fin_seqs (mem_view demo3) \<union> fin_seqs (mem_view (sh_wal (NewShipper d' ship_demo_cfg))))"
    by (rule ship_reach.step [OF demo_ship_start(2)], rule ship_step.boot)
       (use d'(1) in \<open>auto simp: NewShipper_def\<close>)
  then obtain fin where reach: "mem_ship_reach (NewShipper d' ship_demo_cfg) fin" by blast
  from shipper_mark_passes_finished [OF mem_wal_store reach [unfolded cfg]] d'(2) have "1 \<in> fin"
    by (simp add: NewShipper_def subset_iff)
  with reach d'(2) show ?thesis by blast
qed

text \<open>
  C9.  At every moment, also in the middle of a scan, each sequence number is
  held by at most one worker or queue slot, the inflight set is exactly the set of held numbers, the
  number of a held entry is finished or the entry is still sequenced under it (a snapshot may yield an
  entry that another worker has finished since), the work queue respects its capacity and the number of
  uploads equals the slots taken from the limiter, which never exceed its ceiling.
\<close>

theorem shipper_single_dispatch:
  assumes "wal_store B content c"
    and "ship_reach (committerWAL B c) (\<lambda>d. view_of c (content d)) (committer_ok c content)
      (\<lambda>d d'. \<exists>x r. ReconcileHWM B c x d = (r, d')) (NewShipper_cfg cfg) R st fin"
  shows "distinct (map SE_Seq (held_items st)) \<and> sh_inflight st = SE_Seq ` set (held_items st) \<and>
    (\<forall>e. e \<in> set (held_items st) \<longrightarrow> SE_Seq e \<in> fin \<or> item_ok (view_of c (content (sh_wal st))) e) \<and>
    int (length (sh_work st)) \<le> MaxInFlight (NewShipper_cfg cfg) * 2 \<and>
    al_inflight (sh_limiter st) = int (length (sh_upload st)) \<and>
    of_int (int (length (sh_upload st))) \<le> al_max (sh_limiter st)"
  using wal_store.committer_ship_inv [OF assms NewShipper_cfg_pos]
  by (auto simp: ship_inv_def aimd_inv_def held_ok_def)

theorem shipper_single_dispatch_witness:
  "sh_inflight demo_scan = SE_Seq ` set (held_items demo_scan) \<and> demo_entry \<in> set (held_items demo_scan)"
proof -
  obtain fin where reach: "mem_ship_reach demo_scan fin" using demo_scan_reach by blast
  obtain cfg where cfg: "ship_demo_cfg = NewShipper_cfg cfg" using ship_demo_cfg_new by blast
  from shipper_single_dispatch [OF mem_wal_store reach [unfolded cfg]] demo_scan_work(1) show ?thesis
    by (simp add: held_items_def)
qed

text \<open>
  While no upload has succeeded within the health window a
  failed entry is only retried: no record changes state, whatever its attempt count, and the mark's
  advancer hears nothing.
\<close>

theorem shipper_outage_never_quarantines:
  assumes "wal_store B content c" "committer_ok c content (sh_wal st)" "now \<noteq> 0"
    and "\<not> aimd_healthy (sint now) (HealthyWindow cfg) (sh_limiter st)"
    and "v_meta (view_of c (content (sh_wal st))) h = Some m"
    and "st' = recordFailure (committerWAL B c) cfg x pick now e st"
  shows "(\<exists>m'. v_meta (view_of c (content (sh_wal st'))) h = Some m' \<and> State m' = State m \<and>
      Sequence m' = Sequence m) \<and> sh_completion st' = sh_completion st \<and> sh_manual st' = sh_manual st"
  by (rule wal_store.committer_outage [OF assms])

theorem shipper_outage_never_quarantines_witness:
  "\<exists>m'. v_meta (mem_view (sh_wal (recordFailure (committerWAL mem_badger raw_codec) ship_demo_cfg None True 5
      demo_entry (NewShipper demo2 ship_demo_cfg)))) 11 = Some m' \<and> State m' = StateSequenced"
proof -
  let ?st = "NewShipper demo2 ship_demo_cfg"
  have m: "v_meta (mem_view (sh_wal ?st)) 11 = Some (demo_meta\<lparr>State := StateSequenced, Sequence := 1\<rparr>)"
    by (simp add: NewShipper_def demo_lists view_of_def decodeMeta_V1 demo_meta_def meta_wf_def)
  have h: "\<not> aimd_healthy (sint (5 :: u64)) (HealthyWindow ship_demo_cfg) (sh_limiter ?st)"
    by (simp add: aimd_healthy_def NewShipper_def newAIMDLimiter_def Let_def)
  have "committer_ok raw_codec map_of (sh_wal ?st)" using demo_ok(1) by (simp add: NewShipper_def)
  from shipper_outage_never_quarantines [OF mem_wal_store this _ h m refl, of None True demo_entry]
  show ?thesis by (auto simp: demo_meta_def)
qed

text \<open>
  C25.  The mark 0 does not tell whether sequence number 0 is done.
  When the store answers, the entry at 0 still waits for its upload (say, in backoff) and the completion
  of number 1 arrives, the mark moves past 0 while the entry stays in state sequenced; and in whatever
  well-formed database a later scan starts from a mark above 0 (and below the largest number),
  \<open>IterateSequenced\<close> hands it no entry at 0.
\<close>

theorem shipper_strands_sequence_zero:
  assumes "wal_live B content c" "wf_kv c (content (sh_wal st))"
    and "v_hwm (view_of c (content (sh_wal st))) = 0" "- 1 \<notin> sh_above st"
    and "\<lparr>SE_Seq = 0, SE_Hash = h\<rparr> \<in> sequenced_above (view_of c (content (sh_wal st))) 0"
    and "st' = snd (processCompletion (committerWAL B c) cfg None 1 st)"
  shows "1 \<le> v_hwm (view_of c (content (sh_wal st'))) \<and> wf_kv c (content (sh_wal st')) \<and>
    \<lparr>SE_Seq = 0, SE_Hash = h\<rparr> \<in> sequenced_above (view_of c (content (sh_wal st'))) 0 \<and>
    (\<forall>d mark cx r es. wf_kv c (content d) \<longrightarrow> HWM B None d = Inr mark \<longrightarrow> mark \<noteq> 0 \<longrightarrow> mark \<noteq> - 1 \<longrightarrow>
       IterateSequenced B c cx mark (\<lambda>es e. (None, es @ [e])) [] d = (r, es) \<longrightarrow> (\<forall>e \<in> set es. SE_Seq e \<noteq> 0))"
proof -
  obtain n' held' where run: "aboveRun 1 (sh_above st) = (n', held')" by fastforce
  have n': "1 \<le> n'" using aboveRun_spec [OF run assms(4)] by simp
  obtain d' where adv: "AdvanceHWM B None n' (sh_wal st) = (Inr (), d')"
    using wal_live.AdvanceHWM_ok [OF assms(1)] by blast
  have ws: "wal_store B content c" "faultless B" using assms(1) by (simp_all add: wal_live_def wal_live_axioms_def)
  note v' = wal_store.AdvanceHWM_refines [OF ws(1) adv assms(2)]
  have "HWM B None (sh_wal st) = Inr 0" using wal_store.HWM_ok [OF ws assms(2)] assms(3) by simp
  then have d': "sh_wal st' = d'"
    using assms(6) run adv by (simp add: processCompletion_def committerWAL_def Let_def)
  have later: "\<forall>e \<in> set es. SE_Seq e \<noteq> 0" if "wf_kv c (content d)" "mark \<noteq> 0" "mark \<noteq> - 1"
      "IterateSequenced B c cx mark (\<lambda>es e. (None, es @ [e])) [] d = (r, es)" for d mark cx r es
    using wal_store.iterate_above [OF ws(1) that] word_not_simps(1) by metis
  have "1 \<le> v_hwm (view_of c (content d')) \<and> wf_kv c (content d') \<and>
      \<lparr>SE_Seq = 0, SE_Hash = h\<rparr> \<in> sequenced_above (view_of c (content d')) 0"
    using v' n' assms(5) by (auto simp: sequenced_above_def)
  with later show ?thesis unfolding d' by blast
qed

definition demo_zero :: memdb where
  "demo_zero = snd (walSequence mem_badger raw_codec None 12 0 demo1)"

lemma demo_zero_run: "walSequence mem_badger raw_codec None 12 0 demo1 = (Inr (), demo_zero)"
  and demo_zero_list: "demo_zero = [(seqIndexKey 0, hash_bytes 12),
     (metaKey 12, encodeV1 (demo_meta\<lparr>State := StateSequenced, Sequence := 0\<rparr>)),
     (metaKey 12, encodeV1 demo_meta), (entryKey 12, [0xA0, 0xB1]), (inflightKey 11, inflight_ts 5),
     (metaKey 11, encodeV1 demo_meta), (entryKey 11, [0xA0, 0xB1])]"
  by (simp_all add: demo_zero_def demo1_list run_simps)

theorem shipper_strands_sequence_zero_witness:
  "let st' = snd (processCompletion (committerWAL mem_badger raw_codec) ship_demo_cfg None 1
        (NewShipper demo_zero ship_demo_cfg)) in
   \<lparr>SE_Seq = 0, SE_Hash = 12\<rparr> \<in> sequenced_above (mem_view (sh_wal st')) 0 \<and>
   (\<exists>d. HWM mem_badger None d = Inr 1 \<and>
      (\<forall>e \<in> set (snd (IterateSequenced mem_badger raw_codec (\<lambda>_. None) 1 (\<lambda>es e. (None, es @ [e])) [] d)). SE_Seq e \<noteq> 0))"
proof -
  let ?st = "NewShipper demo_zero ship_demo_cfg" and ?st' = "snd (processCompletion (committerWAL mem_badger raw_codec) ship_demo_cfg None 1
        (NewShipper demo_zero ship_demo_cfg))"
  have wf: "wf_kv raw_codec (map_of (sh_wal ?st))"
    using memw.reach_inv [OF wal_reach.step [OF demo_reach(1) wal_step.seq [OF demo_zero_run]]]
    by (simp add: NewShipper_def)
  have z: "v_hwm (mem_view (sh_wal ?st)) = 0" "- 1 \<notin> sh_above ?st"
    "\<lparr>SE_Seq = 0, SE_Hash = 12\<rparr> \<in> sequenced_above (mem_view (sh_wal ?st)) 0"
    by (simp_all add: NewShipper_def demo_zero_list view_of_def sequenced_above_def decodeMeta_V1
        demo_meta_def meta_wf_def)
  note strand = shipper_strands_sequence_zero [OF mem_wal_live wf z refl, of ship_demo_cfg]
  obtain d' where d': "ReconcileHWM mem_badger raw_codec None demo3 = (Inr 1, d')" "v_hwm (mem_view d') = 1"
    using demo3_reconcile by blast
  have wf': "wf_kv raw_codec (map_of d')"
    using memw.ok_step [OF wal_step.reconcile [OF d'(1)] demo_ok(2)] by (simp add: committer_ok_def)
  have mark: "HWM mem_badger None d' = Inr 1" using memw.HWM_ok [OF mem_faultless wf'] d'(2) by simp
  obtain r es where it: "IterateSequenced mem_badger raw_codec (\<lambda>_. None) 1 (\<lambda>es e. (None, es @ [e])) [] d' = (r, es)" by force
  have "\<forall>e \<in> set es. SE_Seq e \<noteq> 0" using strand wf' mark it by auto
  then have "\<exists>d. HWM mem_badger None d = Inr 1 \<and>
      (\<forall>e \<in> set (snd (IterateSequenced mem_badger raw_codec (\<lambda>_. None) 1 (\<lambda>es e. (None, es @ [e])) [] d)). SE_Seq e \<noteq> 0)"
    using mark it by (intro exI [of _ d']) simp
  with strand show ?thesis by (simp add: Let_def)
qed

end
