(* ===== verification/Heap.thy ===== *)
theory Heap
  imports Prelude "HOL-Library.Multiset"
begin

section \<open>The priority queue of the sequencer's committer\<close>

text \<open>
  \<open>sequencer.committerHeap\<close> implements Go's \<open>heap.Interface\<close> over a slice, ordered
  by \<open>Seq\<close>; the operations are those of the standard library's \<open>container/heap\<close>.
  The slice is a list, the order a key function.  \<open>heap_wf\<close> is the heap order; the locale
  \<open>prio_queue\<close> is what the committer relies on: the head is a smallest element, a push adds
  one element, a pop removes the head.
\<close>

definition swap_at :: "'a list \<Rightarrow> nat \<Rightarrow> nat \<Rightarrow> 'a list" where
  "swap_at xs i j = xs[i := xs ! j, j := xs ! i]"

fun heap_up :: "('a \<Rightarrow> 'k::linorder) \<Rightarrow> 'a list \<Rightarrow> nat \<Rightarrow> 'a list" where
  "heap_up key xs j =
     (let i = (j - 1) div 2 in
      if i = j \<or> \<not> key (xs ! j) < key (xs ! i) then xs
      else heap_up key (swap_at xs i j) i)"

definition min_kid :: "('a \<Rightarrow> 'k::linorder) \<Rightarrow> 'a list \<Rightarrow> nat \<Rightarrow> nat \<Rightarrow> nat" where
  "min_kid key xs i n =
     (let j1 = 2 * i + 1 in
      if j1 + 1 < n \<and> key (xs ! (j1 + 1)) < key (xs ! j1) then j1 + 1 else j1)"

function heap_down :: "('a \<Rightarrow> 'k::linorder) \<Rightarrow> 'a list \<Rightarrow> nat \<Rightarrow> nat \<Rightarrow> 'a list" where
  "heap_down key xs i n =
     (if n \<le> 2 * i + 1 \<or> \<not> key (xs ! min_kid key xs i n) < key (xs ! i) then xs
      else heap_down key (swap_at xs i (min_kid key xs i n)) (min_kid key xs i n) n)"
  by pat_completeness auto
termination
  by (relation "measure (\<lambda>(key, xs, i, n). n - i)") (auto simp: min_kid_def Let_def)

declare heap_up.simps [simp del] heap_down.simps [simp del]

definition heap_push :: "('a \<Rightarrow> 'k::linorder) \<Rightarrow> 'a \<Rightarrow> 'a list \<Rightarrow> 'a list" where
  "heap_push key x xs = heap_up key (xs @ [x]) (length xs)"

definition heap_pop :: "('a \<Rightarrow> 'k::linorder) \<Rightarrow> 'a list \<Rightarrow> 'a \<times> 'a list" where
  "heap_pop key xs =
     (let n = length xs - 1;
          ys = heap_down key (swap_at xs 0 n) 0 n in
      (ys ! n, take n ys))"

subsection \<open>The heap order\<close>

definition heap_upto :: "('a \<Rightarrow> 'k::linorder) \<Rightarrow> nat \<Rightarrow> 'a list \<Rightarrow> bool" where
  "heap_upto key n xs \<longleftrightarrow> (\<forall>c. 0 < c \<longrightarrow> c < n \<longrightarrow> key (xs ! ((c - 1) div 2)) \<le> key (xs ! c))"

definition heap_wf :: "('a \<Rightarrow> 'k::linorder) \<Rightarrow> 'a list \<Rightarrow> bool" where
  "heap_wf key xs \<longleftrightarrow> heap_upto key (length xs) xs"

text \<open>The heap order with a possible violation at the edge above, or below, one position.\<close>

definition hole_up :: "('a \<Rightarrow> 'k::linorder) \<Rightarrow> nat \<Rightarrow> nat \<Rightarrow> 'a list \<Rightarrow> bool" where
  "hole_up key n j xs \<longleftrightarrow>
     (\<forall>c. 0 < c \<longrightarrow> c < n \<longrightarrow> c \<noteq> j \<longrightarrow> key (xs ! ((c - 1) div 2)) \<le> key (xs ! c)) \<and>
     (\<forall>c. 0 < c \<longrightarrow> c < n \<longrightarrow> 0 < j \<longrightarrow> (c - 1) div 2 = j \<longrightarrow> key (xs ! ((j - 1) div 2)) \<le> key (xs ! c))"

definition hole_down :: "('a \<Rightarrow> 'k::linorder) \<Rightarrow> nat \<Rightarrow> nat \<Rightarrow> 'a list \<Rightarrow> bool" where
  "hole_down key n i xs \<longleftrightarrow>
     (\<forall>c. 0 < c \<longrightarrow> c < n \<longrightarrow> (c - 1) div 2 \<noteq> i \<longrightarrow> key (xs ! ((c - 1) div 2)) \<le> key (xs ! c)) \<and>
     (\<forall>c. 0 < c \<longrightarrow> c < n \<longrightarrow> 0 < i \<longrightarrow> (c - 1) div 2 = i \<longrightarrow> key (xs ! ((i - 1) div 2)) \<le> key (xs ! c))"

lemma length_swap_at [simp]: "length (swap_at xs i j) = length xs"
  by (simp add: swap_at_def)

lemma nth_swap_at:
  "i < length xs \<Longrightarrow> j < length xs \<Longrightarrow>
     swap_at xs i j ! k = (if k = j then xs ! i else if k = i then xs ! j else xs ! k)"
  by (auto simp: swap_at_def nth_list_update)

lemma mset_swap_at [simp]: "i < length xs \<Longrightarrow> j < length xs \<Longrightarrow> mset (swap_at xs i j) = mset xs"
  by (simp add: swap_at_def mset_swap)

lemma length_heap_up [simp]: "length (heap_up key xs j) = length xs"
  by (induction key xs j rule: heap_up.induct) (subst heap_up.simps, simp add: Let_def)

lemma length_heap_down [simp]: "length (heap_down key xs i n) = length xs"
  by (induction key xs i n rule: heap_down.induct) (subst heap_down.simps, simp)

lemma mset_heap_up: "j < length xs \<Longrightarrow> mset (heap_up key xs j) = mset xs"
proof (induction key xs j rule: heap_up.induct)
  case (1 key xs j)
  show ?case
  proof (cases "(j - 1) div 2 = j \<or> \<not> key (xs ! j) < key (xs ! ((j - 1) div 2))")
    case True
    then show ?thesis by (subst heap_up.simps) (simp add: Let_def)
  next
    case False
    have "(j - 1) div 2 < length xs" using "1.prems" by linarith
    with False 1 show ?thesis by (subst heap_up.simps) (simp add: Let_def)
  qed
qed

lemma hole_up_step:
  assumes hole: "hole_up key n j xs" and i: "i = (j - 1) div 2" "i < j" and j: "j < n" "n \<le> length xs"
    and lt: "key (xs ! j) < key (xs ! i)"
  shows "hole_up key n i (swap_at xs i j)"
proof -
  let ?ys = "swap_at xs i j"
  have at: "?ys ! k = (if k = j then xs ! i else if k = i then xs ! j else xs ! k)" for k
    using i j by (intro nth_swap_at) auto
  have below: "key (xs ! ((c - 1) div 2)) \<le> key (xs ! c)" if "0 < c" "c < n" "c \<noteq> j" for c
    using hole that unfolding hole_up_def by blast
  have grand: "key (xs ! i) \<le> key (xs ! c)" if "0 < c" "c < n" "(c - 1) div 2 = j" for c
    using hole that i unfolding hole_up_def by auto
  have "key (?ys ! ((c - 1) div 2)) \<le> key (?ys ! c)" if c: "0 < c" "c < n" "c \<noteq> i" for c
  proof (cases "c = j")
    case True
    then have "(c - 1) div 2 = i" using i by simp
    then show ?thesis using True i(2) lt by (simp add: at)
  next
    case False
    have "key (xs ! i) \<le> key (xs ! c)" if "(c - 1) div 2 = i" using below [of c] c False that by simp
    then show ?thesis using False c below [of c] grand [of c] lt by (auto simp: at)
  qed
  moreover have "key (?ys ! ((i - 1) div 2)) \<le> key (?ys ! c)"
    if c: "0 < c" "c < n" "0 < i" "(c - 1) div 2 = i" for c
  proof -
    have ne: "(i - 1) div 2 \<noteq> i" "(i - 1) div 2 \<noteq> j" using c i by linarith+
    have up: "key (xs ! ((i - 1) div 2)) \<le> key (xs ! i)" using below [of i] c i j by simp
    have "c \<noteq> i" using c by linarith
    then show ?thesis using ne up below [of c] c by (auto simp: at intro: order_trans)
  qed
  ultimately show ?thesis unfolding hole_up_def by blast
qed

lemma heap_up_ok: "hole_up key n j xs \<Longrightarrow> j < n \<Longrightarrow> n \<le> length xs \<Longrightarrow> heap_upto key n (heap_up key xs j)"
proof (induction key xs j rule: heap_up.induct)
  case (1 key xs j)
  let ?i = "(j - 1) div 2"
  show ?case
  proof (cases "?i = j \<or> \<not> key (xs ! j) < key (xs ! ?i)")
    case True
    have "key (xs ! ((c - 1) div 2)) \<le> key (xs ! c)" if c: "0 < c" "c < n" for c
    proof (cases "c = j")
      case True
      then have "?i \<noteq> j" using c by linarith
      with \<open>?i = j \<or> \<not> key (xs ! j) < key (xs ! ?i)\<close> True show ?thesis by simp
    next
      case False
      with c "1.prems"(1) show ?thesis unfolding hole_up_def by blast
    qed
    then show ?thesis using True by (subst heap_up.simps) (simp add: Let_def heap_upto_def)
  next
    case False
    then have ij: "?i < j" and lt: "key (xs ! j) < key (xs ! ?i)" by auto
    have "heap_upto key n (heap_up key (swap_at xs ?i j) ?i)"
      using "1.IH" [OF refl False] hole_up_step [OF "1.prems"(1) refl ij "1.prems"(2,3) lt] ij "1.prems"
      by simp
    then show ?thesis using False by (subst heap_up.simps) (simp add: Let_def)
  qed
qed

lemma heap_push_wf: "heap_wf key xs \<Longrightarrow> heap_wf key (heap_push key x xs)"
  unfolding heap_wf_def heap_push_def
  by (rule heap_up_ok) (auto simp: hole_up_def heap_upto_def nth_append)

lemma heap_push_mset: "mset (heap_push key x xs) = add_mset x (mset xs)"
  by (simp add: heap_push_def mset_heap_up)

subsection \<open>Removing the smallest element\<close>

lemma hole_down_step:
  assumes hole: "hole_down key n i xs" and ij: "j = 2 * i + 1 \<or> j = 2 * i + 2" "j < n" "n \<le> length xs"
    and lt: "key (xs ! j) < key (xs ! i)"
    and least: "\<And>c. 0 < c \<Longrightarrow> c < n \<Longrightarrow> (c - 1) div 2 = i \<Longrightarrow> key (xs ! j) \<le> key (xs ! c)"
  shows "hole_down key n j (swap_at xs i j)"
proof -
  let ?ys = "swap_at xs i j"
  have pj: "(j - 1) div 2 = i" "i < j" "i < n" "0 < j" using ij by auto
  have at: "?ys ! k = (if k = j then xs ! i else if k = i then xs ! j else xs ! k)" for k
    using ij pj by (intro nth_swap_at) auto
  have below: "key (xs ! ((c - 1) div 2)) \<le> key (xs ! c)" if "0 < c" "c < n" "(c - 1) div 2 \<noteq> i" for c
    using hole that unfolding hole_down_def by blast
  have grand: "key (xs ! ((i - 1) div 2)) \<le> key (xs ! c)" if "0 < c" "c < n" "0 < i" "(c - 1) div 2 = i" for c
    using hole that unfolding hole_down_def by blast
  have "key (?ys ! ((c - 1) div 2)) \<le> key (?ys ! c)" if c: "0 < c" "c < n" "(c - 1) div 2 \<noteq> j" for c
  proof (cases "(c - 1) div 2 = i")
    case True
    have "c \<noteq> i" using True c by linarith
    then show ?thesis using True pj least [of c] c lt by (auto simp: at intro: less_imp_le)
  next
    case False
    then have "c \<noteq> j" using pj by blast
    moreover have "key (xs ! ((i - 1) div 2)) \<le> key (xs ! j)" if "c = i"
      using grand [of j] pj ij that c by simp
    ultimately show ?thesis using False c below [of c] by (auto simp: at)
  qed
  moreover have "key (?ys ! ((j - 1) div 2)) \<le> key (?ys ! c)"
    if c: "0 < c" "c < n" "(c - 1) div 2 = j" for c
  proof -
    have "c \<noteq> i" "c \<noteq> j" using c pj by linarith+
    then show ?thesis using below [of c] c pj by (simp add: at)
  qed
  ultimately show ?thesis unfolding hole_down_def by blast
qed

lemma min_kid_props:
  "\<not> n \<le> 2 * i + 1 \<Longrightarrow> (min_kid key xs i n = 2 * i + 1 \<or> min_kid key xs i n = 2 * i + 2) \<and> min_kid key xs i n < n"
  by (auto simp: min_kid_def Let_def)

lemma min_kid_least:
  assumes "0 < c" "c < n" "(c - 1) div 2 = i"
  shows "key (xs ! min_kid key xs i n) \<le> key (xs ! c)"
proof -
  have "c = 2 * i + 1 \<or> c = 2 * i + 2" using assms by linarith
  then show ?thesis using assms by (auto simp: min_kid_def Let_def)
qed

lemma mset_heap_down:
  "n \<le> length xs \<Longrightarrow> mset (heap_down key xs i n) = mset xs \<and> (\<forall>k\<ge>n. heap_down key xs i n ! k = xs ! k)"
proof (induction key xs i n rule: heap_down.induct)
  case (1 key xs i n)
  show ?case
  proof (cases "n \<le> 2 * i + 1 \<or> \<not> key (xs ! min_kid key xs i n) < key (xs ! i)")
    case True
    then show ?thesis by (simp add: heap_down.simps [of key xs i n])
  next
    case False
    define j where "j = min_kid key xs i n"
    have j: "j < n" "i < n" using False min_kid_props [of n i key xs] by (auto simp: j_def)
    have eq: "heap_down key xs i n = heap_down key (swap_at xs i j) j n"
      using False by (simp add: heap_down.simps [of key xs i n] j_def)
    have "mset (heap_down key (swap_at xs i j) j n) = mset (swap_at xs i j) \<and>
      (\<forall>k\<ge>n. heap_down key (swap_at xs i j) j n ! k = swap_at xs i j ! k)"
      unfolding j_def by (rule "1.IH" [OF False]) (simp add: "1.prems")
    then show ?thesis using j "1.prems" unfolding eq by (simp add: nth_swap_at)
  qed
qed

lemma heap_down_ok:
  "hole_down key n i xs \<Longrightarrow> n \<le> length xs \<Longrightarrow> heap_upto key n (heap_down key xs i n)"
proof (induction key xs i n rule: heap_down.induct)
  case (1 key xs i n)
  let ?j = "min_kid key xs i n"
  show ?case
  proof (cases "n \<le> 2 * i + 1 \<or> \<not> key (xs ! ?j) < key (xs ! i)")
    case True
    have "key (xs ! ((c - 1) div 2)) \<le> key (xs ! c)" if c: "0 < c" "c < n" for c
    proof (cases "(c - 1) div 2 = i")
      case kid: True
      then have "\<not> n \<le> 2 * i + 1" using c by linarith
      then have "key (xs ! i) \<le> key (xs ! ?j)" using True by simp
      also have "\<dots> \<le> key (xs ! c)" by (rule min_kid_least [OF c kid])
      finally show ?thesis unfolding kid .
    next
      case False
      with c "1.prems"(1) show ?thesis unfolding hole_down_def by blast
    qed
    then show ?thesis using True by (simp add: heap_down.simps [of key xs i n] heap_upto_def)
  next
    case False
    have kid: "(?j = 2 * i + 1 \<or> ?j = 2 * i + 2) \<and> ?j < n" using False min_kid_props by blast
    have "hole_down key n ?j (swap_at xs i ?j)"
      using False by (intro hole_down_step [OF "1.prems"(1) _ _ "1.prems"(2) _ min_kid_least] kid [THEN conjunct1]
          kid [THEN conjunct2]) simp_all
    then have "heap_upto key n (heap_down key (swap_at xs i ?j) ?j n)"
      using "1.prems"(2) by (intro "1.IH" [OF False]) simp_all
    then show ?thesis using False by (simp add: heap_down.simps [of key xs i n])
  qed
qed

lemma heap_head_least: "heap_wf key xs \<Longrightarrow> c < length xs \<Longrightarrow> key (xs ! 0) \<le> key (xs ! c)"
proof (induction c rule: less_induct)
  case (less c)
  show ?case
  proof (cases "c = 0")
    case False
    then have "(c - 1) div 2 < c" by linarith
    then have "key (xs ! 0) \<le> key (xs ! ((c - 1) div 2))" using less by simp
    also have "\<dots> \<le> key (xs ! c)" using less.prems False by (simp add: heap_wf_def heap_upto_def)
    finally show ?thesis .
  qed simp
qed

lemma heap_pop_ok:
  assumes "heap_wf key xs" and "xs \<noteq> []"
  shows "fst (heap_pop key xs) = xs ! 0"
    and "mset xs = add_mset (xs ! 0) (mset (snd (heap_pop key xs)))"
    and "heap_wf key (snd (heap_pop key xs))"
proof -
  define n where "n = length xs - 1"
  define zs where "zs = swap_at xs 0 n"
  define ys where "ys = heap_down key zs 0 n"
  have n: "n < length xs" "length xs = Suc n" using assms(2) by (simp_all add: n_def)
  have pop: "heap_pop key xs = (ys ! n, take n ys)"
    by (simp add: heap_pop_def n_def zs_def ys_def Let_def)
  have zn: "zs ! k = (if k = n then xs ! 0 else if k = 0 then xs ! n else xs ! k)" for k
    unfolding zs_def using n by (intro nth_swap_at) auto
  have len: "length ys = Suc n" "length zs = Suc n" using n by (simp_all add: ys_def zs_def)
  have dn: "mset ys = mset zs \<and> (\<forall>k\<ge>n. ys ! k = zs ! k)"
    unfolding ys_def using len by (intro mset_heap_down) simp
  then show 1: "fst (heap_pop key xs) = xs ! 0" by (simp add: pop zn)
  have "ys = take n ys @ [ys ! n]" using len by (metis lessI take_Suc_conv_app_nth take_all order_refl)
  then have "mset ys = add_mset (ys ! n) (mset (take n ys))"
    by (metis add_mset_add_single mset.simps mset_append)
  moreover have "mset zs = mset xs" using n by (simp add: zs_def)
  ultimately show "mset xs = add_mset (xs ! 0) (mset (snd (heap_pop key xs)))"
    using 1 dn by (simp add: pop)
  have "key (zs ! ((c - 1) div 2)) \<le> key (zs ! c)" if "0 < c" "c < n" "(c - 1) div 2 \<noteq> 0" for c
  proof -
    have "(c - 1) div 2 \<noteq> n" using that by linarith
    then show ?thesis using that assms(1) n unfolding heap_wf_def heap_upto_def by (simp add: zn)
  qed
  then have "hole_down key n 0 zs" unfolding hole_down_def by blast
  then have "heap_upto key n ys" unfolding ys_def using len by (intro heap_down_ok) simp_all
  then show "heap_wf key (snd (heap_pop key xs))"
    using len by (simp add: pop heap_wf_def heap_upto_def)
qed

subsection \<open>The queue contract\<close>

locale prio_queue =
  fixes push :: "'a \<Rightarrow> 'q \<Rightarrow> 'q" and pop :: "'q \<Rightarrow> 'a \<times> 'q" and head :: "'q \<Rightarrow> 'a"
    and items :: "'q \<Rightarrow> 'a multiset" and wf :: "'q \<Rightarrow> bool" and key :: "'a \<Rightarrow> 'k::linorder"
  assumes push_wf: "wf q \<Longrightarrow> wf (push x q)"
    and push_items: "items (push x q) = add_mset x (items q)"
    and pop_head: "wf q \<Longrightarrow> items q \<noteq> {#} \<Longrightarrow> fst (pop q) = head q"
    and pop_items: "wf q \<Longrightarrow> items q \<noteq> {#} \<Longrightarrow> items q = add_mset (head q) (items (snd (pop q)))"
    and pop_wf: "wf q \<Longrightarrow> items q \<noteq> {#} \<Longrightarrow> wf (snd (pop q))"
    and head_least: "wf q \<Longrightarrow> x \<in># items q \<Longrightarrow> key (head q) \<le> key x"
begin

lemma pop_cases:
  assumes "wf q" "items q \<noteq> {#}"
  obtains q' where "pop q = (head q, q')" "wf q'" "items q = add_mset (head q) (items q')"
    "\<And>x. x \<in># items q' \<Longrightarrow> key (head q) \<le> key x"
proof
  show "pop q = (head q, snd (pop q))" using pop_head [OF assms] by (metis prod.collapse)
  show "wf (snd (pop q))" by (rule pop_wf [OF assms])
  show "items q = add_mset (head q) (items (snd (pop q)))" by (rule pop_items [OF assms])
  show "key (head q) \<le> key x" if "x \<in># items (snd (pop q))" for x
    using that pop_items [OF assms] head_least [OF assms(1), of x] by simp
qed

lemma pop_size: "wf q \<Longrightarrow> items q \<noteq> {#} \<Longrightarrow> size (items (snd (pop q))) < size (items q)"
  using pop_items by (metis lessI size_add_mset)

lemma pushes_wf: "wf q \<Longrightarrow> wf (foldl (\<lambda>q x. push x q) q xs)"
  by (induction xs arbitrary: q) (simp_all add: push_wf)

lemma pushes_items: "items (foldl (\<lambda>q x. push x q) q xs) = items q + mset xs"
  by (induction xs arbitrary: q) (simp_all add: push_items)

end

interpretation slice_heap: prio_queue "heap_push key" "heap_pop key" "\<lambda>xs. xs ! 0" mset "heap_wf key" key
proof unfold_locales
  show "key (xs ! 0) \<le> key x" if "heap_wf key xs" "x \<in># mset xs" for x xs
    using that heap_head_least [of key xs] by (auto simp: in_set_conv_nth)
qed (auto simp: heap_push_wf heap_push_mset heap_pop_ok)

end
