(* ===== verification/StoreCodec.thy ===== *)
theory StoreCodec
  imports WalMeta
begin

section \<open>Column codecs of the entry index\<close>

text \<open>
  Models the encodings the ledger stores in \<open>entry_index\<close>: log positions
  (\<open>store/smt_state.go\<close>), the receipt column (\<open>store/entries.go\<close>) and the two discovery
  projections (\<open>store/anchor_source.go\<close>, \<open>store/entry_kind.go\<close>).  The SDK's receipt
  codec, anchor parser, kind catalogue and the JSON probes are parameters.  A Go panic is an error
  value of its own.

  The lemmas show that the receipt column holds byte for byte the block the WAL stores and decodes
  back, and for which log positions the position codec round-trips: the decoder adds lengths in
  16 bits.
\<close>

record LogPosition =
  LogDID :: string
  PosSequence :: u64

definition string_bytes :: "string \<Rightarrow> bytes" where
  "string_bytes s = map of_char s"

definition bytes_string :: "bytes \<Rightarrow> string" where
  "bytes_string b = map (\<lambda>x. char_of (unat x)) b"

text \<open>\<open>hex.DecodeString\<close>: an odd length or a byte outside the hexadecimal digits is an error.\<close>

definition hexDigit :: "char \<Rightarrow> nat option" where
  "hexDigit ch =
     (let n = of_char ch :: nat in
      if 48 \<le> n \<and> n \<le> 57 then Some (n - 48) else if 97 \<le> n \<and> n \<le> 102 then Some (n - 87) else if 65 \<le> n \<and> n \<le> 70 then Some (n - 55) else None)"

fun hexDecode :: "string \<Rightarrow> bytes option" where
  "hexDecode [] = Some []"
| "hexDecode [a] = None"
| "hexDecode (a # b # s) =
     (case hexDigit a of
        None \<Rightarrow> None
      | Some x \<Rightarrow>
          (case hexDigit b of
             None \<Rightarrow> None
           | Some y \<Rightarrow> map_option ((#) (word_of_nat (16 * x + y))) (hexDecode s)))"

definition SerializeLogPosition :: "LogPosition \<Rightarrow> bytes" where
  "SerializeLogPosition pos =
     (let did = string_bytes (LogDID pos) in
      be16 (word_of_nat (length did)) @ did @ be64 (PosSequence pos))"

datatype codec_error =
    PosTooShort nat
  | PosTruncated u16 nat
  | CodecPanic
  | ReceiptCount nat
  | ReceiptSerialize nat string
  | ReceiptHeader nat
  | ReceiptPrefix nat nat
  | ReceiptPayload nat nat
  | ReceiptDeserialize nat string
  | ReceiptTrailing nat

text \<open>
  \<open>didLen\<close> is a \<open>uint16\<close> and so are \<open>2+didLen+8\<close> and \<open>2+didLen\<close>.  A slice
  expression whose bounds are out of order or out of range panics, and so does
  \<open>Uint64\<close> on fewer than eight bytes.
\<close>

definition DeserializeLogPosition :: "bytes \<Rightarrow> codec_error + LogPosition" where
  "DeserializeLogPosition data =
     (if length data < 10 then Inl (PosTooShort (length data))
      else
        let didLen = un16 (bslice data 0 2) in
        if unat (2 + didLen + 8) > length data then Inl (PosTruncated didLen (length data))
        else
          let hi = unat (2 + didLen) in
          if hi < 2 \<or> hi > length data then Inl CodecPanic
          else if length data - hi < 8 then Inl CodecPanic
          else Inr \<lparr>LogDID = bytes_string (bslice data 2 hi), PosSequence = un64 (bslice data hi (hi + 8))\<rparr>)"

subsection \<open>Receipts\<close>

fun encodeEntryReceipts :: "'r receipt_codec \<Rightarrow> nat \<Rightarrow> bytes \<Rightarrow> 'r list \<Rightarrow> codec_error + bytes" where
  "encodeEntryReceipts c i out [] = Inr out"
| "encodeEntryReceipts c i out (r # rs) =
     (case rc_ser c r of
        Inl e \<Rightarrow> Inl (ReceiptSerialize i e)
      | Inr body \<Rightarrow> encodeEntryReceipts c (i + 1) (out @ be32 (word_of_nat (length body)) @ body) rs)"

definition EncodeEntryWeb3Receipts :: "'r receipt_codec \<Rightarrow> 'r list \<Rightarrow> codec_error + bytes option" where
  "EncodeEntryWeb3Receipts c receipts =
     (if receipts = [] then Inr None
      else if length receipts > 0xFFFF then Inl (ReceiptCount (length receipts))
      else (bindE (encodeEntryReceipts c 0 (be16 (word_of_nat (length receipts))) receipts) (\<lambda>b. Inr (Some b))))"

fun decodeEntryReceipts :: "'r receipt_codec \<Rightarrow> bytes \<Rightarrow> nat \<Rightarrow> nat \<Rightarrow> nat \<Rightarrow> codec_error + 'r list \<times> nat" where
  "decodeEntryReceipts c buf i off 0 = Inr ([], off)"
| "decodeEntryReceipts c buf i off (Suc n) =
     (if off + 4 > length buf then Inl (ReceiptPrefix i off)
      else
        let recLen = unat (un32 (bslice buf off (off + 4))); off' = off + 4 in
        if off' + recLen > length buf then Inl (ReceiptPayload i recLen)
        else
          (case rc_deser c (bslice buf off' (off' + recLen)) of
             Inl e \<Rightarrow> Inl (ReceiptDeserialize i e)
           | Inr (r, _) \<Rightarrow>
               bindE (decodeEntryReceipts c buf (i + 1) (off' + recLen) n) (\<lambda>(rs, end). Inr (r # rs, end))))"

definition decodeEntryWeb3Receipts :: "'r receipt_codec \<Rightarrow> bytes \<Rightarrow> codec_error + 'r list" where
  "decodeEntryWeb3Receipts c buf =
     (if length buf = 0 then Inr []
      else if length buf < 2 then Inl (ReceiptHeader (length buf))
      else
        bindE (decodeEntryReceipts c buf 0 2 (unat (un16 (bslice buf 0 2)))) (\<lambda>(rs, off).
          if off \<noteq> length buf then Inl (ReceiptTrailing (length buf - off)) else Inr rs))"

subsection \<open>Discovery projections\<close>

definition MaxSourceLogDIDLen :: nat where "MaxSourceLogDIDLen = 512"

text \<open>
  \<open>payload\<close> is the entry's domain payload, \<open>None\<close> for a nil entry;
  \<open>isAnchor\<close> and \<open>parseAnchor\<close> are the SDK's, the parser returning the anchored log's DID.
\<close>

definition AnchorSourceLogDID :: "(bytes \<Rightarrow> bool) \<Rightarrow> (bytes \<Rightarrow> string option) \<Rightarrow> bytes option \<Rightarrow> string" where
  "AnchorSourceLogDID isAnchor parseAnchor payload =
     (case payload of
        None \<Rightarrow> []
      | Some p \<Rightarrow>
          if length p = 0 then []
          else if \<not> isAnchor p then []
          else (case parseAnchor p of
                  None \<Rightarrow> []
                | Some did \<Rightarrow> if did = [] \<or> length did > MaxSourceLogDIDLen then [] else did))"

text \<open>\<open>probe\<close> is the JSON probe of the \<open>kind\<close> field (\<open>None\<close>: not JSON), \<open>kinds\<close> the SDK's catalogue.\<close>

definition EntryKindProjection :: "(bytes \<Rightarrow> string option) \<Rightarrow> string list \<Rightarrow> bytes option \<Rightarrow> string" where
  "EntryKindProjection probe kinds payload =
     (case payload of
        None \<Rightarrow> []
      | Some p \<Rightarrow>
          if length p = 0 then []
          else (case probe p of
                  None \<Rightarrow> []
                | Some k \<Rightarrow> if k \<notin> set kinds then [] else k))"

subsection \<open>Log positions\<close>

lemma unat_of_char: "unat (of_char ch :: byte) = of_char ch"
proof -
  have "unat (of_char ch :: byte) = unat (word_of_nat (of_char ch) :: byte)" by (simp add: of_nat_of_char)
  also have "\<dots> = of_char ch mod 256" by (rule unat_byte_of_nat)
  finally show ?thesis by simp
qed

lemma bytes_string_inv [simp]: "bytes_string (string_bytes s) = s"
  by (simp add: bytes_string_def string_bytes_def comp_def unat_of_char)

lemma length_string_bytes [simp]: "length (string_bytes s) = length s"
  by (simp add: string_bytes_def)

lemma bslice_head: "length xs = n \<Longrightarrow> bslice (xs @ ys) 0 n = xs"
  by (simp add: bslice_def)

lemma unat_add_small: "unat (a :: u16) + n < 65536 \<Longrightarrow> unat (word_of_nat n + a) = n + unat a"
  by (simp add: unat_word_ariths unat_of_nat)

lemma DeserializeLogPosition_inverse:
  assumes "length (LogDID pos) \<le> 65533"
  shows "DeserializeLogPosition (SerializeLogPosition pos) = Inr pos"
proof -
  define n where "n = length (LogDID pos)"
  define l where "l = (word_of_nat n :: u16)"
  let ?did = "string_bytes (LogDID pos)"
  let ?d = "be16 l @ ?did @ be64 (PosSequence pos)"
  have ul: "unat l = n" using assms by (simp add: l_def n_def unat_of_nat)
  have ser: "SerializeLogPosition pos = ?d" by (simp add: SerializeLogPosition_def l_def n_def)
  have len: "length ?d = n + 10" by (simp add: n_def)
  have hd: "bslice ?d 0 2 = be16 l" by (rule bslice_head) simp
  have a1: "unat (2 + l) = n + 2" using unat_add_small [of l 2] ul assms by (simp add: n_def)
  have "unat (2 + l + 8) = (10 + n) mod 65536" by (simp add: ul unat_word_ariths mod_simps)
  then have a2: "unat (2 + l + 8) \<le> n + 10" by (simp add: add.commute)
  have s1: "bslice ?d 2 (n + 2) = ?did" by (rule bslice_mid) (simp_all add: n_def)
  have s2: "bslice ?d (n + 2) (n + 2 + 8) = be64 (PosSequence pos)"
    using bslice_mid [of "be16 l @ ?did" "n + 2" "be64 (PosSequence pos)" "n + 2 + 8" "[]"] by (simp add: n_def)
  show ?thesis
    unfolding ser DeserializeLogPosition_def len hd un_be Let_def a1 s1 s2 using a2 by simp
qed

subsection \<open>Receipts: the column equals the WAL's block\<close>

lemma encodeEntryReceipts_eq:
  "encodeEntryReceipts c i out rs = Inr b \<longleftrightarrow> appendReceipts c out rs = Inr b"
  by (induction rs arbitrary: i out) (auto split: sum.splits)

lemma decodeEntryReceipts_eq:
  "decodeReceipts c buf off n = Inr r \<Longrightarrow> decodeEntryReceipts c buf i off n = Inr r"
proof (induction c buf off n arbitrary: i r rule: decodeReceipts.induct)
  case (2 c buf off n)
  then show ?case by (auto simp: Let_def bindE_eq_Inr split: if_splits sum.splits prod.splits)
qed simp

lemma DeserializeLogPosition_wrap:
  assumes "10 \<le> length data" "length data \<le> 65535 + 10" "un16 (bslice data 0 2) = l" "unat (2 + l + 8) \<le> length data"
    and "unat (2 + l) < 2 \<or> length data < unat (2 + l)"
  shows "DeserializeLogPosition data = Inl CodecPanic"
  using assms by (auto simp: DeserializeLogPosition_def Let_def)

lemma SerializeLogPosition_wraps:
  assumes "length (LogDID pos) = 65534 \<or> length (LogDID pos) = 65535"
  shows "DeserializeLogPosition (SerializeLogPosition pos) = Inl CodecPanic"
proof -
  define l where "l = (word_of_nat (length (LogDID pos)) :: u16)"
  have ser: "SerializeLogPosition pos = be16 l @ string_bytes (LogDID pos) @ be64 (PosSequence pos)"
    by (simp add: SerializeLogPosition_def l_def)
  have "l = 65534 \<or> l = 65535" using assms by (auto simp: l_def)
  then have "unat (2 + l) < 2" "unat (2 + l + 8) \<le> 9" by (elim disjE; hypsubst; simp)+
  then show ?thesis unfolding ser using assms
    by (intro DeserializeLogPosition_wrap [of _ l]) (auto simp: bslice_head)
qed

lemma EncodeEntryWeb3Receipts_block:
  assumes "rs \<noteq> []" "length rs \<le> 0xFFFF"
  shows "EncodeEntryWeb3Receipts c rs = Inr (Some b) \<longleftrightarrow> appendReceiptBlock c [] rs = Inr b"
  using assms by (auto simp: EncodeEntryWeb3Receipts_def appendReceiptBlock_def encodeEntryReceipts_eq bindE_eq_Inr)

lemma decodeEntryWeb3Receipts_block:
  assumes "codec_ok c" "receipts_fit c rs" "appendReceiptBlock c [] rs = Inr b"
  shows "decodeEntryWeb3Receipts c b = Inr rs"
proof -
  have dec: "decodeReceiptBlock c b 0 = Inr (rs, length b)"
    using decodeReceiptBlock_append [OF assms] by simp
  then have "2 \<le> length b" "decodeReceipts c b 2 (unat (un16 (bslice b 0 2))) = Inr (rs, length b)"
    by (auto simp: decodeReceiptBlock_def numeral_2_eq_2 split: if_splits)
  then show ?thesis using decodeEntryReceipts_eq [of c b 2 _ "(rs, length b)" 0]
    by (auto simp: decodeEntryWeb3Receipts_def)
qed

subsection \<open>Properties\<close>

text \<open>
  C29.  A log position survives its column encoding for every DID of up to 65533 bytes; at
  65534 and 65535 bytes the decoder's 16-bit sums wrap and it panics on the encoder's own output.
\<close>

theorem logpos_roundtrip:
  "(length (LogDID pos) \<le> 65533 \<longrightarrow> DeserializeLogPosition (SerializeLogPosition pos) = Inr pos)
   \<and> (length (LogDID pos) \<in> {65534, 65535} \<longrightarrow> DeserializeLogPosition (SerializeLogPosition pos) = Inl CodecPanic)"
  using DeserializeLogPosition_inverse SerializeLogPosition_wraps by auto

theorem logpos_roundtrip_witness:
  "DeserializeLogPosition (SerializeLogPosition \<lparr>LogDID = ''did:web:a'', PosSequence = 7\<rparr>)
     = Inr \<lparr>LogDID = ''did:web:a'', PosSequence = 7\<rparr>
   \<and> DeserializeLogPosition (SerializeLogPosition \<lparr>LogDID = replicate 65534 CHR ''a'', PosSequence = 7\<rparr>) = Inl CodecPanic"
  using logpos_roundtrip [of "\<lparr>LogDID = ''did:web:a'', PosSequence = 7\<rparr>"]
    logpos_roundtrip [of "\<lparr>LogDID = replicate 65534 CHR ''a'', PosSequence = 7\<rparr>"] by simp

text \<open>
  The receipt column is byte for byte the receipt block of the WAL's meta record, and
  its decoder returns the receipts that were encoded.
\<close>

theorem receipt_column_equiv:
  assumes "codec_ok c" and "receipts_fit c rs" and "rs \<noteq> []"
  shows "\<exists>b. EncodeEntryWeb3Receipts c rs = Inr (Some b) \<and> appendReceiptBlock c [] rs = Inr b
    \<and> decodeEntryWeb3Receipts c b = Inr rs"
proof -
  obtain b where b: "appendReceiptBlock c [] rs = Inr b"
    using appendReceipts_ok [OF assms(2)] by (auto simp: appendReceiptBlock_def)
  have "length rs \<le> 0xFFFF" using assms(2) by (simp add: receipts_fit_def)
  with b show ?thesis
    using EncodeEntryWeb3Receipts_block [OF assms(3)] decodeEntryWeb3Receipts_block [OF assms(1,2) b] by blast
qed

definition demo_codec :: "bytes receipt_codec" where
  "demo_codec = \<lparr>rc_ser = Inr, rc_deser = (\<lambda>b. Inr (b, length b))\<rparr>"

theorem receipt_column_equiv_witness:
  "\<exists>b. EncodeEntryWeb3Receipts demo_codec [[1, 2], [3]] = Inr (Some b) \<and> decodeEntryWeb3Receipts demo_codec b = Inr [[1, 2], [3]]"
  using receipt_column_equiv [of demo_codec "[[1, 2], [3]]"]
  by (auto simp: demo_codec_def codec_ok_def receipts_fit_def)

end
