(* ===== verification/EntryIndex.thy ===== *)
theory EntryIndex
  imports Prelude
begin

section \<open>The entry index: operations of \<open>store.EntryStore\<close>\<close>

text \<open>
  Models \<open>store/entries.go\<close> (\<open>Insert\<close>, \<open>InsertBatch\<close> and the fetches) over the
  table \<open>entry_index\<close> of the migrations 0001 to 0022, and \<open>store.WithTransaction\<close>.
  The table is the list of its rows in the order they were written.  Its constraints are those of
  the schema: the primary key on \<open>sequence_number\<close>, the partial unique index on
  \<open>canonical_hash\<close> over rows with \<open>status <> 2\<close>, and the two CHECKs.  One statement
  is one pass over the rows it inserts: a row that fails a CHECK aborts it, a row that conflicts
  on the arbiter of \<open>ON CONFLICT ... DO NOTHING\<close> is skipped (a conflict with an earlier row
  of the same statement included), any other conflict aborts it.

  A transport failure may hit each round trip: \<open>pg_env\<close> says which of them fails.  A failed
  commit leaves open whether the server made the transaction durable, so its outcome carries a
  flag.  Every writer stores a 32-byte \<open>canonical_hash\<close>, so the column is a \<open>hash\<close>.
\<close>

type_synonym EntryStatus = byte

definition StatusLive :: EntryStatus where [simp]: "StatusLive = 0"
definition StatusTombstone :: EntryStatus where [simp]: "StatusTombstone = 1"
definition StatusGhostLeaf :: EntryStatus where [simp]: "StatusGhostLeaf = 2"

definition TombstoneSignerDID :: string where "TombstoneSignerDID = ''system:tombstone''"
definition GhostSignerDID :: string where "GhostSignerDID = ''system:ghost''"

record EntryRow =
  SequenceNumber :: u64
  CanonicalHash :: hash
  LogTime :: int
  SignerDID :: string
  TargetRoot :: "bytes option"
  CosignatureOf :: "bytes option"
  SchemaRef :: "bytes option"
  DelegateDID :: string
  SourceLogDID :: string
  Kind :: string
  Status :: EntryStatus
  Web3ReceiptsBytes :: "bytes option"

text \<open>A row of the table; NULL is \<open>None\<close>.  \<open>BIGINT\<close> is the bit pattern of the \<open>int64\<close>.\<close>

record index_row =
  c_seq :: u64
  c_hash :: hash
  c_logTime :: int
  c_signer :: string
  c_targetRoot :: "bytes option"
  c_cosigOf :: "bytes option"
  c_schemaRef :: "bytes option"
  c_delegate :: "string option"
  c_status :: byte
  c_web3 :: "bytes option"
  c_source :: "string option"
  c_kind :: "string option"

datatype pg_error = UniqueViolation string | CheckViolation string | ForeignKeyViolation string | PgFault string

datatype store_error =
    ErrDuplicateEntry
  | InsertErr u64 pg_error
  | InsertBatchErr nat pg_error
  | ReturningErr nat pg_error
  | SkipLookupErr nat pg_error
  | SkipLookupRowsErr pg_error
  | GhostInsertErr nat pg_error
  | SplitInsertErr u64 pg_error
  | BeginErr pg_error
  | CommitErr pg_error
  | BatchInsertErr nat store_error
  | RollbackErr store_error pg_error

record pg_env =
  pe_begin :: "pg_error option"
  pe_insert :: "pg_error option"
  pe_returning :: "pg_error option"
  pe_lookup :: "pg_error option"
  pe_lookup_rows :: "pg_error option"
  pe_ghost :: "pg_error option"
  pe_split :: "u64 \<Rightarrow> pg_error option"
  pe_rollback :: "pg_error option"
  pe_commit :: "(pg_error \<times> bool) option"
  pe_now :: int

definition pg_calm :: "pg_env \<Rightarrow> bool" where
  "pg_calm P \<longleftrightarrow> pe_insert P = None \<and> pe_returning P = None \<and> pe_lookup P = None
     \<and> pe_lookup_rows P = None \<and> pe_ghost P = None"

subsection \<open>Constraints and statements\<close>

definition nullif :: "string \<Rightarrow> string option" where
  "nullif s = (if s = [] then None else Some s)"

definition row_of :: "EntryRow \<Rightarrow> index_row" where
  "row_of r =
     \<lparr>c_seq = SequenceNumber r, c_hash = CanonicalHash r, c_logTime = LogTime r, c_signer = SignerDID r,
      c_targetRoot = TargetRoot r, c_cosigOf = CosignatureOf r, c_schemaRef = SchemaRef r,
      c_delegate = nullif (DelegateDID r), c_status = Status r, c_web3 = Web3ReceiptsBytes r,
      c_source = nullif (SourceLogDID r), c_kind = nullif (Kind r)\<rparr>"

definition is_primary :: "index_row \<Rightarrow> bool" where
  "is_primary r \<longleftrightarrow> c_status r \<noteq> StatusGhostLeaf"

definition row_check :: "index_row \<Rightarrow> pg_error option" where
  "row_check r =
     (if c_signer r = [] then Some (CheckViolation ''entry_index_signer_did_check'')
      else if c_status r \<notin> {0, 1, 2} then Some (CheckViolation ''entry_index_status_check'')
      else None)"

definition hash_taken :: "index_row list \<Rightarrow> index_row \<Rightarrow> bool" where
  "hash_taken t r \<longleftrightarrow> is_primary r \<and> (\<exists>q\<in>set t. is_primary q \<and> c_hash q = c_hash r)"

definition seq_taken :: "index_row list \<Rightarrow> index_row \<Rightarrow> bool" where
  "seq_taken t r \<longleftrightarrow> c_seq r \<in> c_seq ` set t"

definition insertRow :: "index_row \<Rightarrow> index_row list \<Rightarrow> pg_error + index_row list" where
  "insertRow r t =
     (case row_check r of
        Some e \<Rightarrow> Inl e
      | None \<Rightarrow>
          if seq_taken t r then Inl (UniqueViolation ''entry_index_pkey'')
          else if hash_taken t r then Inl (UniqueViolation ''entry_index_canonical_hash_primary_idx'')
          else Inr (t @ [r]))"

text \<open>\<open>ON CONFLICT (canonical_hash) WHERE status <> 2 DO NOTHING RETURNING sequence_number, canonical_hash\<close>\<close>

fun insertOnHash :: "index_row list \<Rightarrow> index_row list \<Rightarrow> pg_error + (index_row list \<times> (u64 \<times> hash) list)" where
  "insertOnHash [] t = Inr (t, [])"
| "insertOnHash (r # rs) t =
     (case row_check r of
        Some e \<Rightarrow> Inl e
      | None \<Rightarrow>
          if hash_taken t r then insertOnHash rs t
          else
            bindE (insertRow r t) (\<lambda>t1.
            bindE (insertOnHash rs t1) (\<lambda>(t', ret). Inr (t', (c_seq r, c_hash r) # ret))))"

text \<open>\<open>ON CONFLICT (sequence_number) DO NOTHING\<close>\<close>

fun insertOnSeq :: "index_row list \<Rightarrow> index_row list \<Rightarrow> pg_error + index_row list" where
  "insertOnSeq [] t = Inr t"
| "insertOnSeq (r # rs) t =
     (case row_check r of
        Some e \<Rightarrow> Inl e
      | None \<Rightarrow>
          if seq_taken t r then insertOnSeq rs t
          else bindE (insertRow r t) (insertOnSeq rs))"

definition pg_run :: "pg_error option \<Rightarrow> pg_error + 'a \<Rightarrow> pg_error + 'a" where
  "pg_run flt res = (case flt of Some e \<Rightarrow> Inl e | None \<Rightarrow> res)"

subsection \<open>Insert and InsertBatch\<close>

text \<open>
  The driver refuses a \<open>uint64\<close> beyond \<open>math.MaxInt64\<close> as a \<open>BIGINT\<close>
  argument; \<open>InsertBatch\<close> converts to \<open>int64\<close> first.  A unique violation is recognised
  by its text.
\<close>

definition Insert :: "pg_env \<Rightarrow> EntryRow \<Rightarrow> index_row list \<Rightarrow> (store_error + unit) \<times> index_row list" where
  "Insert P row t =
     (case (if sint (SequenceNumber row) < 0 then Inl (PgFault ''unable to encode'')
            else pg_run (pe_insert P) (insertRow (row_of row) t)) of
        Inr t' \<Rightarrow> (Inr (), t')
      | Inl (UniqueViolation u) \<Rightarrow> (Inl ErrDuplicateEntry, t)
      | Inl e \<Rightarrow> (Inl (InsertErr (SequenceNumber row) e), t))"

record HashCollision =
  AttemptedSeq :: u64
  HC_CanonicalHash :: hash
  ExistingSeq :: u64

record InsertBatchResult =
  Inserted :: nat
  SeqReplays :: nat
  HashCollisions :: "HashCollision list"

definition lookup_row :: "EntryRow list \<Rightarrow> hash \<Rightarrow> EntryRow option" where
  "lookup_row skipped = map_of (rev (map (\<lambda>r. (CanonicalHash r, r)) skipped))"

fun classifySkips ::
  "EntryRow list \<Rightarrow> (u64 \<times> hash) list \<Rightarrow> InsertBatchResult \<Rightarrow> InsertBatchResult" where
  "classifySkips skipped [] res = res"
| "classifySkips skipped ((existSeq, h) # rest) res =
     (case lookup_row skipped h of
        None \<Rightarrow> classifySkips skipped rest res
      | Some attempted \<Rightarrow>
          if existSeq = SequenceNumber attempted
          then classifySkips skipped rest (res\<lparr>SeqReplays := SeqReplays res + 1\<rparr>)
          else classifySkips skipped rest
                 (res\<lparr>HashCollisions := HashCollisions res @
                    [\<lparr>AttemptedSeq = SequenceNumber attempted, HC_CanonicalHash = h, ExistingSeq = existSeq\<rparr>]\<rparr>))"

definition primarySelect :: "index_row list \<Rightarrow> hash list \<Rightarrow> (u64 \<times> hash) list" where
  "primarySelect t hs =
     map (\<lambda>q. (c_seq q, c_hash q)) (filter (\<lambda>q. c_hash q \<in> set hs \<and> is_primary q) t)"

definition ghost_row :: "int \<Rightarrow> HashCollision \<Rightarrow> index_row" where
  "ghost_row now c =
     \<lparr>c_seq = AttemptedSeq c, c_hash = HC_CanonicalHash c, c_logTime = now, c_signer = GhostSignerDID,
      c_targetRoot = None, c_cosigOf = None, c_schemaRef = None, c_delegate = None,
      c_status = StatusGhostLeaf, c_web3 = None, c_source = None, c_kind = None\<rparr>"

definition InsertBatch ::
  "pg_env \<Rightarrow> EntryRow list \<Rightarrow> index_row list \<Rightarrow> store_error + (InsertBatchResult \<times> index_row list)" where
  "InsertBatch P rows t =
     (if rows = [] then Inr (\<lparr>Inserted = 0, SeqReplays = 0, HashCollisions = []\<rparr>, t)
      else
        bindE (mapE (InsertBatchErr (length rows)) (pg_run (pe_insert P) (insertOnHash (map row_of rows) t))) (\<lambda>(t1, ret).
        bindE (mapE (ReturningErr (length rows)) (pg_run (pe_returning P) (Inr ()))) (\<lambda>_.
          let insertedByHash = remdups (map snd ret);
              result = \<lparr>Inserted = length insertedByHash, SeqReplays = 0, HashCollisions = []\<rparr> in
          if Inserted result = length rows then Inr (result, t1)
          else
            let skipped = filter (\<lambda>r. CanonicalHash r \<notin> set insertedByHash) rows in
            bindE (mapE (SkipLookupErr (length skipped)) (pg_run (pe_lookup P) (Inr ()))) (\<lambda>_.
            bindE (mapE SkipLookupRowsErr (pg_run (pe_lookup_rows P) (Inr ()))) (\<lambda>_.
              let result1 = classifySkips skipped (primarySelect t1 (map CanonicalHash skipped)) result in
              if HashCollisions result1 = [] then Inr (result1, t1)
              else
                bindE (mapE (GhostInsertErr (length (HashCollisions result1)))
                         (pg_run (pe_ghost P) (insertOnSeq (map (ghost_row (pe_now P)) (HashCollisions result1)) t1))) (\<lambda>t2.
                  Inr (result1, t2)))))))"

subsection \<open>Fetches\<close>

text \<open>
  A query of one row: the transport may fail, otherwise it returns the first matching row.
  An argument beyond \<open>math.MaxInt64\<close> is refused by the driver.
\<close>

definition FetchHashBySeq ::
  "pg_error option \<Rightarrow> index_row list \<Rightarrow> u64 \<Rightarrow> pg_error + (hash \<times> int \<times> bool) option" where
  "FetchHashBySeq flt t s =
     pg_run flt
       (if sint s < 0 then Inl (PgFault ''unable to encode'')
        else Inr (map_option (\<lambda>q. (c_hash q, c_logTime q, c_status q = StatusGhostLeaf))
                    (find (\<lambda>q. c_seq q = s) t)))"

definition FetchPrimarySeqByHash :: "pg_error option \<Rightarrow> index_row list \<Rightarrow> hash \<Rightarrow> pg_error + u64 option" where
  "FetchPrimarySeqByHash flt t h =
     pg_run flt (Inr (map_option c_seq (find (\<lambda>q. c_hash q = h \<and> is_primary q) t)))"

definition FetchByHash :: "pg_error option \<Rightarrow> index_row list \<Rightarrow> hash \<Rightarrow> pg_error + u64 option" where
  "FetchByHash flt t h =
     pg_run flt
       (case find (\<lambda>q. c_hash q = h) t of
          None \<Rightarrow> Inr None
        | Some q \<Rightarrow> if sint (c_seq q) < 0 then Inl (PgFault ''cannot scan into uint64'') else Inr (Some (c_seq q)))"

subsection \<open>Transactions\<close>

text \<open>
  \<open>WithTransaction\<close>: the body's error rolls back.  When the commit fails the transaction may
  or may not be durable; the environment decides.
\<close>

definition WithTransaction ::
  "pg_env \<Rightarrow> ('d \<Rightarrow> store_error + ('a \<times> 'd)) \<Rightarrow> 'd \<Rightarrow> (store_error + 'a) \<times> 'd" where
  "WithTransaction P fn d =
     (case pe_begin P of
        Some e \<Rightarrow> (Inl (BeginErr e), d)
      | None \<Rightarrow>
          (case fn d of
             Inl e \<Rightarrow> ((case pe_rollback P of None \<Rightarrow> Inl e | Some r \<Rightarrow> Inl (RollbackErr e r)), d)
           | Inr (a, d') \<Rightarrow>
               (case pe_commit P of
                  None \<Rightarrow> (Inr a, d')
                | Some (e, durable) \<Rightarrow> (Inl (CommitErr e), if durable then d' else d))))"

end
