(* ===== verification/RecentCache.thy ===== *)
theory RecentCache
  imports StoreCodec EntryIndex "HOL-Library.AList" "HOL-Library.Multiset"
begin

section \<open>The recent-entry cache and the entry fetcher\<close>

text \<open>
  Models \<open>store/recent_entry_cache.go\<close>, the bounded FIFO cache between the sequencer and the
  builder, and the \<open>PostgresEntryFetcher\<close> of \<open>store/entries.go\<close> that consults it.  The
  map is an association list, the FIFO a list of sequence numbers, the front first; the mutex makes
  every method one step.  A lookup of a missing node would dereference nil: \<open>evictLocked\<close>
  returns \<open>None\<close> there.

  \<open>cache_inv\<close> says that map, FIFO and byte tally agree and both bounds hold;
  \<open>cache_view\<close> is the abstract FIFO of entries, and every operation is shown to act on it as
  its contract says.
\<close>

record 'r EntryWithMetadata =
  CanonicalBytes :: bytes
  EWM_LogTime :: int
  Position :: LogPosition
  EWM_Web3Receipts :: "'r list"

record CacheConfig =
  MaxEntries :: int
  MaxBytes :: int
  CC_LogDID :: string

record 'r cacheNode =
  cn_ewm :: "'r EntryWithMetadata"
  cn_bytes :: int

record 'r cache =
  ca_maxEntries :: int
  ca_maxBytes :: int
  ca_logDID :: string
  ca_items :: "(u64 \<times> 'r cacheNode) list"
  ca_fifo :: "u64 list"
  ca_curBytes :: int
  ca_hits :: u64
  ca_misses :: u64
  ca_evictions :: u64
  ca_rejects :: u64
  ca_logDIDDrops :: u64

record CacheStats =
  Hits :: u64
  Misses :: u64
  Evictions :: u64
  Rejects :: u64
  LogDIDDrops :: u64
  StatsSize :: u64
  BytesUsed :: int

definition NewBoundedRecentEntryCache :: "CacheConfig \<Rightarrow> 'r cache option" where
  "NewBoundedRecentEntryCache cfg =
     (if MaxEntries cfg < 0 \<or> MaxBytes cfg < 0 then None
      else if MaxEntries cfg = 0 \<and> MaxBytes cfg = 0 then None
      else Some \<lparr>ca_maxEntries = MaxEntries cfg, ca_maxBytes = MaxBytes cfg, ca_logDID = CC_LogDID cfg,
                 ca_items = [], ca_fifo = [], ca_curBytes = 0, ca_hits = 0, ca_misses = 0, ca_evictions = 0,
                 ca_rejects = 0, ca_logDIDDrops = 0\<rparr>)"

definition cacheCapacity :: "'r cache \<Rightarrow> int" where "cacheCapacity c = ca_maxEntries c"
definition BytesCapacity :: "'r cache \<Rightarrow> int" where "BytesCapacity c = ca_maxBytes c"
definition cacheLen :: "'r cache \<Rightarrow> nat" where "cacheLen c = length (ca_items c)"

definition overBoundsLocked :: "'r cache \<Rightarrow> bool" where
  "overBoundsLocked c \<longleftrightarrow>
     (ca_maxEntries c > 0 \<and> int (length (ca_items c)) > ca_maxEntries c) \<or>
     (ca_maxBytes c > 0 \<and> ca_curBytes c > ca_maxBytes c)"

function evictLocked :: "'r cache \<Rightarrow> 'r cache option" where
  "evictLocked c =
     (if \<not> overBoundsLocked c then Some c
      else (case ca_fifo c of
              [] \<Rightarrow> Some c
            | s # rest \<Rightarrow>
                (case map_of (ca_items c) s of
                   None \<Rightarrow> None
                 | Some node \<Rightarrow>
                     evictLocked (c\<lparr>ca_fifo := rest, ca_items := AList.delete s (ca_items c),
                                    ca_curBytes := ca_curBytes c - cn_bytes node,
                                    ca_evictions := ca_evictions c + 1\<rparr>))))"
  by pat_completeness auto
termination
  by (relation "measure (\<lambda>c. length (ca_fifo c))") auto

declare evictLocked.simps [simp del]

definition cachePut :: "u64 \<Rightarrow> 'r EntryWithMetadata option \<Rightarrow> 'r cache \<Rightarrow> 'r cache option" where
  "cachePut s ewm c =
     (case ewm of
        None \<Rightarrow> Some c
      | Some e \<Rightarrow>
          if ca_logDID c \<noteq> [] \<and> LogDID (Position e) \<noteq> ca_logDID c
          then Some (c\<lparr>ca_logDIDDrops := ca_logDIDDrops c + 1\<rparr>)
          else
            let newBytes = int (length (CanonicalBytes e)) in
            if ca_maxBytes c > 0 \<and> newBytes > ca_maxBytes c
            then Some (c\<lparr>ca_rejects := ca_rejects c + 1\<rparr>)
            else
              (case map_of (ca_items c) s of
                 Some node \<Rightarrow>
                   evictLocked (c\<lparr>ca_curBytes := ca_curBytes c + (newBytes - cn_bytes node),
                                  ca_items := AList.update s \<lparr>cn_ewm = e, cn_bytes = newBytes\<rparr> (ca_items c)\<rparr>)
               | None \<Rightarrow>
                   evictLocked (c\<lparr>ca_fifo := ca_fifo c @ [s],
                                  ca_items := AList.update s \<lparr>cn_ewm = e, cn_bytes = newBytes\<rparr> (ca_items c),
                                  ca_curBytes := ca_curBytes c + newBytes\<rparr>)))"

definition cacheGet :: "u64 \<Rightarrow> 'r cache \<Rightarrow> 'r EntryWithMetadata option \<times> 'r cache" where
  "cacheGet s c =
     (case map_of (ca_items c) s of
        None \<Rightarrow> (None, c\<lparr>ca_misses := ca_misses c + 1\<rparr>)
      | Some node \<Rightarrow> (Some (cn_ewm node), c\<lparr>ca_hits := ca_hits c + 1\<rparr>))"

definition cacheStats :: "'r cache \<Rightarrow> CacheStats" where
  "cacheStats c =
     \<lparr>Hits = ca_hits c, Misses = ca_misses c, Evictions = ca_evictions c, Rejects = ca_rejects c,
      LogDIDDrops = ca_logDIDDrops c, StatsSize = word_of_nat (length (ca_items c)), BytesUsed = ca_curBytes c\<rparr>"

subsection \<open>The fetcher\<close>

text \<open>
  \<open>rd\<close> is the byte store's \<open>ReadEntry\<close>, an external service.
\<close>

datatype fetch_error = FetchIndex u64 pg_error | FetchBytes u64 string | FetchReceipts u64 codec_error | CosigQuery pg_error

definition fetchDurable ::
  "'r receipt_codec \<Rightarrow> (u64 \<Rightarrow> hash \<Rightarrow> string + bytes) \<Rightarrow> pg_error option \<Rightarrow> index_row list \<Rightarrow> LogPosition
     \<Rightarrow> fetch_error + 'r EntryWithMetadata option" where
  "fetchDurable c rd flt t pos =
     bindE (mapE (FetchIndex (PosSequence pos))
              (pg_run flt (if sint (PosSequence pos) < 0 then Inl (PgFault ''unable to encode'')
                           else Inr (find (\<lambda>q. c_seq q = PosSequence pos) t)))) (\<lambda>row.
       case row of
         None \<Rightarrow> Inr None
       | Some q \<Rightarrow>
           bindE (mapE (FetchBytes (PosSequence pos)) (rd (PosSequence pos) (c_hash q))) (\<lambda>wire.
           bindE (mapE (FetchReceipts (PosSequence pos))
                    (case c_web3 q of
                       None \<Rightarrow> Inr []
                     | Some b \<Rightarrow> if length b > 0 then decodeEntryWeb3Receipts c b else Inr [])) (\<lambda>rs.
             Inr (Some \<lparr>CanonicalBytes = wire, EWM_LogTime = c_logTime q, Position = pos, EWM_Web3Receipts = rs\<rparr>))))"

definition Fetch ::
  "'r receipt_codec \<Rightarrow> (u64 \<Rightarrow> hash \<Rightarrow> string + bytes) \<Rightarrow> pg_error option \<Rightarrow> string \<Rightarrow> index_row list \<Rightarrow> LogPosition
     \<Rightarrow> 'r cache option \<Rightarrow> (fetch_error + 'r EntryWithMetadata option) \<times> 'r cache option" where
  "Fetch c rd flt logDID t pos cache =
     (if LogDID pos \<noteq> logDID then (Inr None, cache)
      else
        (case cache of
           None \<Rightarrow> (fetchDurable c rd flt t pos, None)
         | Some ca \<Rightarrow>
             (case cacheGet (PosSequence pos) ca of
                (Some ewm, ca') \<Rightarrow> (Inr (Some ewm), Some ca')
              | (None, ca') \<Rightarrow> (fetchDurable c rd flt t pos, Some ca'))))"

fun readCandidates ::
  "(u64 \<Rightarrow> hash \<Rightarrow> string + bytes) \<Rightarrow> string \<Rightarrow> index_row list \<Rightarrow> fetch_error + 'r EntryWithMetadata list" where
  "readCandidates rd logDID [] = Inr []"
| "readCandidates rd logDID (q # qs) =
     bindE (mapE (FetchBytes (c_seq q)) (rd (c_seq q) (c_hash q))) (\<lambda>wire.
     bindE (readCandidates rd logDID qs) (\<lambda>out.
       Inr (\<lparr>CanonicalBytes = wire, EWM_LogTime = c_logTime q,
             Position = \<lparr>LogDID = logDID, PosSequence = c_seq q\<rparr>, EWM_Web3Receipts = []\<rparr> # out)))"

definition FetchByCosignatureOf ::
  "(u64 \<Rightarrow> hash \<Rightarrow> string + bytes) \<Rightarrow> pg_error option \<Rightarrow> string \<Rightarrow> index_row list \<Rightarrow> LogPosition
     \<Rightarrow> fetch_error + 'r EntryWithMetadata list" where
  "FetchByCosignatureOf rd flt logDID t primaryPos =
     (if LogDID primaryPos \<noteq> logDID then Inr []
      else
        let cosigBytes = SerializeLogPosition primaryPos in
        bindE (mapE CosigQuery (pg_run flt (Inr
          (sort_key (\<lambda>q. sint (c_seq q))
             (filter (\<lambda>q. c_cosigOf q = Some cosigBytes \<and> c_status q = StatusLive) t)))))
          (readCandidates rd logDID))"

subsection \<open>Invariant\<close>

definition cache_tally :: "'r cache \<Rightarrow> bool" where
  "cache_tally c \<longleftrightarrow>
     distinct (ca_fifo c) \<and> distinct (map fst (ca_items c)) \<and> set (ca_fifo c) = fst ` set (ca_items c) \<and>
     ca_curBytes c = sum_list (map (cn_bytes \<circ> snd) (ca_items c)) \<and>
     (\<forall>(s, n) \<in> set (ca_items c). cn_bytes n = int (length (CanonicalBytes (cn_ewm n)))
        \<and> (ca_maxBytes c > 0 \<longrightarrow> cn_bytes n \<le> ca_maxBytes c)
        \<and> (ca_logDID c \<noteq> [] \<longrightarrow> LogDID (Position (cn_ewm n)) = ca_logDID c)) \<and>
     0 \<le> ca_maxEntries c \<and> 0 \<le> ca_maxBytes c \<and> (0 < ca_maxEntries c \<or> 0 < ca_maxBytes c)"

definition cache_inv :: "'r cache \<Rightarrow> bool" where
  "cache_inv c \<longleftrightarrow> cache_tally c \<and> \<not> overBoundsLocked c"

definition cache_view :: "'r cache \<Rightarrow> (u64 \<times> 'r EntryWithMetadata) list" where
  "cache_view c = map (\<lambda>s. (s, cn_ewm (the (map_of (ca_items c) s)))) (ca_fifo c)"

lemma sum_list_delete:
  "distinct (map fst xs) \<Longrightarrow> map_of xs k = Some v \<Longrightarrow>
     sum_list (map (f \<circ> snd) (AList.delete k xs)) = sum_list (map (f \<circ> snd) xs) - (f v :: int)"
proof (induction xs)
  case (Cons p xs)
  show ?case
  proof (cases "fst p = k")
    case True
    then have "AList.delete k xs = xs" using Cons.prems(1) by (intro delete_id) auto
    with True Cons.prems show ?thesis by (cases p) simp
  next
    case False
    with Cons show ?thesis by (cases p) (simp split: if_splits)
  qed
qed simp

lemma sum_list_update_old:
  "distinct (map fst xs) \<Longrightarrow> map_of xs k = Some v \<Longrightarrow>
     sum_list (map (f \<circ> snd) (AList.update k w xs)) = sum_list (map (f \<circ> snd) xs) - f v + (f w :: int)"
  by (induction xs) (auto split: if_splits)

lemma sum_list_update_new:
  "k \<notin> fst ` set xs \<Longrightarrow>
     sum_list (map (f \<circ> snd) (AList.update k w xs)) = sum_list (map (f \<circ> snd) xs) + (f w :: int)"
  by (induction xs) auto

lemma set_update_sub: "(s, n) \<in> set (AList.update k w xs) \<Longrightarrow> (s, n) \<in> set xs \<or> (s = k \<and> n = w)"
  by (induction xs) (auto split: if_splits)

subsection \<open>The abstract FIFO\<close>

definition fits :: "int \<Rightarrow> int \<Rightarrow> (u64 \<times> 'r EntryWithMetadata) list \<Rightarrow> bool" where
  "fits me mb xs \<longleftrightarrow> (me > 0 \<longrightarrow> int (length xs) \<le> me) \<and>
     (mb > 0 \<longrightarrow> sum_list (map (\<lambda>(s, e). int (length (CanonicalBytes e))) xs) \<le> mb)"

fun trim :: "int \<Rightarrow> int \<Rightarrow> (u64 \<times> 'r EntryWithMetadata) list \<Rightarrow> (u64 \<times> 'r EntryWithMetadata) list" where
  "trim me mb [] = []"
| "trim me mb (x # xs) = (if fits me mb (x # xs) then x # xs else trim me mb xs)"

definition fifo_put :: "u64 \<Rightarrow> 'r EntryWithMetadata \<Rightarrow> (u64 \<times> 'r EntryWithMetadata) list \<Rightarrow> (u64 \<times> 'r EntryWithMetadata) list" where
  "fifo_put s e xs =
     (if s \<in> fst ` set xs then map (\<lambda>(s', e'). if s' = s then (s, e) else (s', e')) xs else xs @ [(s, e)])"

lemma fits_Nil [simp]: "fits me mb []"
  by (simp add: fits_def)

lemma trim_suffix: "\<exists>k. trim me mb xs = drop k xs"
proof (induction xs)
  case (Cons x xs)
  then obtain k where "trim me mb xs = drop k xs" by blast
  then show ?case by (metis drop0 drop_Suc_Cons trim.simps(2))
qed simp

lemma trim_fits [simp]: "fits me mb (trim me mb xs)"
  by (induction xs) auto

lemma trim_id: "fits me mb xs \<Longrightarrow> trim me mb xs = xs"
  by (cases xs) auto

lemma trim_snoc: "fits me mb [x] \<Longrightarrow> \<exists>ys. trim me mb (xs @ [x]) = ys @ [x]"
  by (induction xs) (auto simp: trim_id)

lemma view_keys: "cache_tally c \<Longrightarrow> fst ` set (cache_view c) = fst ` set (ca_items c)"
  by (auto simp: cache_view_def cache_tally_def image_image)

lemma map_fst_view [simp]: "map fst (cache_view c) = ca_fifo c"
  by (simp add: cache_view_def comp_def)

lemma cache_items_perm:
  assumes "cache_tally c"
  shows "mset (ca_items c) = mset (map (\<lambda>s. (s, the (map_of (ca_items c) s))) (ca_fifo c))"
proof -
  have d: "distinct (ca_items c)" "distinct (map (\<lambda>s. (s, the (map_of (ca_items c) s))) (ca_fifo c))"
    using assms by (auto simp: cache_tally_def distinct_map inj_on_def)
  have at: "(fst p, the (map_of (ca_items c) (fst p))) = p" if "p \<in> set (ca_items c)" for p
  proof -
    obtain s n where p: "p = (s, n)" by (cases p)
    with that assms show ?thesis by (simp add: cache_tally_def)
  qed
  have keys: "set (ca_fifo c) = fst ` set (ca_items c)" using assms by (simp add: cache_tally_def)
  have "set (ca_items c) = (\<lambda>p. (fst p, the (map_of (ca_items c) (fst p)))) ` set (ca_items c)"
    using at by (simp cong: image_cong)
  also have "\<dots> = set (map (\<lambda>s. (s, the (map_of (ca_items c) s))) (ca_fifo c))"
    by (simp add: keys image_image)
  finally have "set (ca_items c) = set (map (\<lambda>s. (s, the (map_of (ca_items c) s))) (ca_fifo c))" .
  then show ?thesis using set_eq_iff_mset_eq_distinct [OF d] by (rule iffD1 [rotated])
qed

lemma overBounds_iff:
  assumes "cache_tally c"
  shows "overBoundsLocked c \<longleftrightarrow> \<not> fits (ca_maxEntries c) (ca_maxBytes c) (cache_view c)"
proof -
  note perm = cache_items_perm [OF assms]
  have len: "length (ca_items c) = length (cache_view c)"
    using arg_cong [OF perm, of size] by (simp add: cache_view_def)
  have "sum_list (map (cn_bytes \<circ> snd) (ca_items c))
      = sum_list (map (cn_bytes \<circ> snd) (map (\<lambda>s. (s, the (map_of (ca_items c) s))) (ca_fifo c)))"
    using arg_cong [OF perm, of "\<lambda>m. sum_mset (image_mset (cn_bytes \<circ> snd) m)"] by (simp only: mset_map [symmetric] sum_mset_sum_list)
  also have "\<dots> = sum_list (map (\<lambda>(s, e). int (length (CanonicalBytes e))) (cache_view c))"
  proof -
    have "cn_bytes (the (map_of (ca_items c) s)) = int (length (CanonicalBytes (cn_ewm (the (map_of (ca_items c) s)))))"
      if "s \<in> set (ca_fifo c)" for s
      using that assms unfolding cache_tally_def by (force dest: map_of_SomeD)
    then show ?thesis by (simp add: cache_view_def comp_def cong: map_cong)
  qed
  finally show ?thesis using assms len by (auto simp: overBoundsLocked_def fits_def cache_tally_def)
qed

definition node_ok :: "'r cache \<Rightarrow> 'r cacheNode \<Rightarrow> bool" where
  "node_ok c n \<longleftrightarrow> cn_bytes n = int (length (CanonicalBytes (cn_ewm n)))
     \<and> (ca_maxBytes c > 0 \<longrightarrow> cn_bytes n \<le> ca_maxBytes c)
     \<and> (ca_logDID c \<noteq> [] \<longrightarrow> LogDID (Position (cn_ewm n)) = ca_logDID c)"

lemma tallyD:
  assumes "cache_tally c"
  shows "distinct (ca_fifo c)" "distinct (map fst (ca_items c))" "set (ca_fifo c) = fst ` set (ca_items c)"
    "ca_curBytes c = sum_list (map (cn_bytes \<circ> snd) (ca_items c))"
    "(s, n) \<in> set (ca_items c) \<Longrightarrow> node_ok c n"
    "0 \<le> ca_maxEntries c" "0 \<le> ca_maxBytes c" "0 < ca_maxEntries c \<or> 0 < ca_maxBytes c"
  using assms unfolding cache_tally_def node_ok_def by blast+

lemma tallyI:
  assumes "distinct (ca_fifo c)" "distinct (map fst (ca_items c))" "set (ca_fifo c) = fst ` set (ca_items c)"
    "ca_curBytes c = sum_list (map (cn_bytes \<circ> snd) (ca_items c))"
    "\<And>s n. (s, n) \<in> set (ca_items c) \<Longrightarrow> node_ok c n"
    "0 \<le> ca_maxEntries c" "0 \<le> ca_maxBytes c" "0 < ca_maxEntries c \<or> 0 < ca_maxBytes c"
  shows "cache_tally c"
  using assms unfolding cache_tally_def node_ok_def by blast

lemma tally_item: "cache_tally c \<Longrightarrow> s \<in> set (ca_fifo c) \<Longrightarrow> \<exists>n. map_of (ca_items c) s = Some n"
  using tallyD(3) [of c] weak_map_of_SomeI by fastforce

lemma evict_step:
  assumes "cache_tally c" "ca_fifo c = s # rest" "map_of (ca_items c) s = Some node"
    and "c' = c\<lparr>ca_fifo := rest, ca_items := AList.delete s (ca_items c),
                ca_curBytes := ca_curBytes c - cn_bytes node, ca_evictions := ca_evictions c + 1\<rparr>"
  shows "cache_tally c'" "cache_view c' = tl (cache_view c)"
proof -
  note T = tallyD [OF assms(1)]
  have s: "s \<notin> set rest" using T(1) assms(2) by simp
  show "cache_tally c'"
  proof (rule tallyI)
    show "ca_curBytes c' = sum_list (map (cn_bytes \<circ> snd) (ca_items c'))"
      using T(4) sum_list_delete [OF T(2) assms(3), of cn_bytes] by (simp add: assms(4))
    show "set (ca_fifo c') = fst ` set (ca_items c')"
      using T(3) s assms(2) by (auto simp: assms(4) delete_keys [symmetric] image_iff dom_map_of_conv_image_fst [symmetric] delete_conv')
    show "node_ok c' n" if "(s', n) \<in> set (ca_items c')" for s' n
      using T(5) that by (auto simp: assms(4) node_ok_def AList.delete_eq)
  qed (use T assms(2) in \<open>simp_all add: assms(4) distinct_delete\<close>)
  have "map_of (AList.delete s (ca_items c)) s' = map_of (ca_items c) s'" if "s' \<in> set rest" for s'
    using that s by (auto simp: delete_conv')
  then show "cache_view c' = tl (cache_view c)"
    by (simp add: cache_view_def assms(2,4) cong: map_cong)
qed

lemma evictLocked_ok:
  "cache_tally c \<Longrightarrow> \<exists>c'. evictLocked c = Some c' \<and> cache_inv c'
     \<and> cache_view c' = trim (ca_maxEntries c) (ca_maxBytes c) (cache_view c)
     \<and> ca_maxEntries c' = ca_maxEntries c \<and> ca_maxBytes c' = ca_maxBytes c \<and> ca_logDID c' = ca_logDID c"
proof (induction c rule: evictLocked.induct)
  case (1 c)
  show ?case
  proof (cases "overBoundsLocked c")
    case False
    then have "evictLocked c = Some c" by (simp add: evictLocked.simps)
    moreover have "fits (ca_maxEntries c) (ca_maxBytes c) (cache_view c)"
      using False overBounds_iff [OF "1.prems"] by blast
    ultimately show ?thesis using "1.prems" False by (simp add: cache_inv_def trim_id)
  next
    case True
    then have nf: "\<not> fits (ca_maxEntries c) (ca_maxBytes c) (cache_view c)"
      using overBounds_iff [OF "1.prems"] by blast
    then obtain s rest where fifo: "ca_fifo c = s # rest" by (cases "ca_fifo c") (auto simp: cache_view_def)
    obtain node where node: "map_of (ca_items c) s = Some node"
      using tally_item [OF "1.prems", of s] fifo by auto
    define c1 where "c1 = c\<lparr>ca_fifo := rest, ca_items := AList.delete s (ca_items c),
      ca_curBytes := ca_curBytes c - cn_bytes node, ca_evictions := ca_evictions c + 1\<rparr>"
    note st = evict_step [OF "1.prems" fifo node c1_def]
    have "evictLocked c = evictLocked c1"
      using True fifo node by (subst evictLocked.simps) (simp add: c1_def)
    moreover have "\<exists>c'. evictLocked c1 = Some c' \<and> cache_inv c'
      \<and> cache_view c' = trim (ca_maxEntries c1) (ca_maxBytes c1) (cache_view c1)
      \<and> ca_maxEntries c' = ca_maxEntries c1 \<and> ca_maxBytes c' = ca_maxBytes c1 \<and> ca_logDID c' = ca_logDID c1"
      unfolding c1_def by (rule "1.IH" [OF _ fifo node]) (use True st(1) in \<open>simp_all add: c1_def\<close>)
    moreover have "ca_maxEntries c1 = ca_maxEntries c" "ca_maxBytes c1 = ca_maxBytes c" "ca_logDID c1 = ca_logDID c"
      by (simp_all add: c1_def)
    moreover have "trim (ca_maxEntries c) (ca_maxBytes c) (cache_view c) = trim (ca_maxEntries c) (ca_maxBytes c) (tl (cache_view c))"
      using nf by (cases "cache_view c") auto
    ultimately show ?thesis using st(2) by auto
  qed
qed

text \<open>What \<open>Put\<close> does before it evicts.\<close>

definition put_raw :: "u64 \<Rightarrow> 'r EntryWithMetadata \<Rightarrow> 'r cache \<Rightarrow> 'r cache" where
  "put_raw s e c =
     (let n = int (length (CanonicalBytes e)) in
      (case map_of (ca_items c) s of
         Some node \<Rightarrow> c\<lparr>ca_curBytes := ca_curBytes c + (n - cn_bytes node),
                        ca_items := AList.update s \<lparr>cn_ewm = e, cn_bytes = n\<rparr> (ca_items c)\<rparr>
       | None \<Rightarrow> c\<lparr>ca_fifo := ca_fifo c @ [s], ca_items := AList.update s \<lparr>cn_ewm = e, cn_bytes = n\<rparr> (ca_items c),
                   ca_curBytes := ca_curBytes c + n\<rparr>))"

definition put_accepts :: "'r EntryWithMetadata \<Rightarrow> 'r cache \<Rightarrow> bool" where
  "put_accepts e c \<longleftrightarrow> (ca_logDID c \<noteq> [] \<longrightarrow> LogDID (Position e) = ca_logDID c)
     \<and> (ca_maxBytes c > 0 \<longrightarrow> int (length (CanonicalBytes e)) \<le> ca_maxBytes c)"

lemma cachePut_accepted: "put_accepts e c \<Longrightarrow> cachePut s (Some e) c = evictLocked (put_raw s e c)"
  by (auto simp: cachePut_def put_accepts_def put_raw_def Let_def split: option.splits)

lemma cachePut_refused:
  "\<not> put_accepts e c \<Longrightarrow> \<exists>c'. cachePut s (Some e) c = Some c' \<and> ca_items c' = ca_items c \<and> ca_fifo c' = ca_fifo c
     \<and> ca_curBytes c' = ca_curBytes c \<and> ca_maxEntries c' = ca_maxEntries c \<and> ca_maxBytes c' = ca_maxBytes c
     \<and> ca_logDID c' = ca_logDID c"
  by (auto simp: cachePut_def put_accepts_def Let_def)

lemma put_raw_config [simp]:
  "ca_maxEntries (put_raw s e c) = ca_maxEntries c" "ca_maxBytes (put_raw s e c) = ca_maxBytes c"
  "ca_logDID (put_raw s e c) = ca_logDID c"
  by (simp_all add: put_raw_def Let_def split: option.splits)

lemma put_raw_node [simp]: "node_ok (put_raw s e c) n \<longleftrightarrow> node_ok c n"
  by (simp add: node_ok_def)

lemma put_raw_items:
  "ca_items (put_raw s e c) = AList.update s \<lparr>cn_ewm = e, cn_bytes = int (length (CanonicalBytes e))\<rparr> (ca_items c)"
  by (simp add: put_raw_def Let_def split: option.splits)

lemma put_raw_tally:
  assumes T: "cache_tally c" and acc: "put_accepts e c"
  shows "cache_tally (put_raw s e c)"
proof -
  let ?n = "int (length (CanonicalBytes e))"
  let ?items = "AList.update s \<lparr>cn_ewm = e, cn_bytes = ?n\<rparr> (ca_items c)"
  note D = tallyD [OF T]
  have ok: "node_ok c n" if "(s', n) \<in> set ?items" for s' n
    using set_update_sub [OF that] D(5) acc by (auto simp: node_ok_def put_accepts_def)
  have keys: "fst ` set ?items = insert s (fst ` set (ca_items c))" by (simp add: dom_update)
  show ?thesis
  proof (cases "map_of (ca_items c) s")
    case None
    then have new: "s \<notin> fst ` set (ca_items c)" by (simp add: map_of_eq_None_iff)
    show ?thesis
    proof (rule tallyI)
      show "node_ok (put_raw s e c) n" if "(s', n) \<in> set (ca_items (put_raw s e c))" for s' n
        using ok that by (simp add: put_raw_items)
    qed (use None D new keys in \<open>simp_all add: put_raw_def Let_def distinct_update sum_list_update_new\<close>)
  next
    case (Some node)
    then have old: "s \<in> fst ` set (ca_items c)" by (metis domI dom_map_of_conv_image_fst)
    show ?thesis
    proof (rule tallyI)
      show "node_ok (put_raw s e c) n" if "(s', n) \<in> set (ca_items (put_raw s e c))" for s' n
        using ok that by (simp add: put_raw_items)
    qed (use Some D old keys in \<open>simp_all add: put_raw_def Let_def distinct_update sum_list_update_old insert_absorb\<close>)
  qed
qed

lemma put_raw_view:
  assumes T: "cache_tally c"
  shows "cache_view (put_raw s e c) = fifo_put s e (cache_view c)"
proof -
  have keys: "s \<in> fst ` set (cache_view c) \<longleftrightarrow> map_of (ca_items c) s \<noteq> None"
    using view_keys [OF T] by (simp add: map_of_eq_None_iff)
  show ?thesis
  proof (cases "map_of (ca_items c) s")
    case None
    then have "s \<notin> set (ca_fifo c)" using tallyD(3) [OF T] by (simp add: map_of_eq_None_iff)
    then show ?thesis using None keys
      by (simp add: put_raw_def Let_def fifo_put_def) (auto simp: cache_view_def update_conv')
  next
    case (Some node)
    then show ?thesis using keys
      by (simp add: put_raw_def Let_def fifo_put_def) (auto simp: cache_view_def update_conv')
  qed
qed

lemma cachePut_refines:
  assumes "cache_inv c"
  shows "\<exists>c'. cachePut s (Some e) c = Some c' \<and> cache_inv c' \<and>
    cache_view c' = (if put_accepts e c then trim (ca_maxEntries c) (ca_maxBytes c) (fifo_put s e (cache_view c))
                     else cache_view c) \<and>
    ca_maxEntries c' = ca_maxEntries c \<and> ca_maxBytes c' = ca_maxBytes c \<and> ca_logDID c' = ca_logDID c"
proof (cases "put_accepts e c")
  case True
  have T: "cache_tally c" using assms by (simp add: cache_inv_def)
  from evictLocked_ok [OF put_raw_tally [OF T True]] show ?thesis
    using True put_raw_view [OF T] by (simp add: cachePut_accepted)
next
  case False
  from cachePut_refused [OF False] obtain c' where c': "cachePut s (Some e) c = Some c'" "ca_items c' = ca_items c"
    "ca_fifo c' = ca_fifo c" "ca_curBytes c' = ca_curBytes c" "ca_maxEntries c' = ca_maxEntries c"
    "ca_maxBytes c' = ca_maxBytes c" "ca_logDID c' = ca_logDID c" by blast
  then show ?thesis using False assms by (auto simp: cache_inv_def cache_tally_def overBoundsLocked_def cache_view_def)
qed

lemma view_lookup:
  assumes "cache_tally c"
  shows "map_option cn_ewm (map_of (ca_items c) s) = map_of (cache_view c) s"
proof (cases "s \<in> set (ca_fifo c)")
  case True
  then obtain n where "map_of (ca_items c) s = Some n" using tally_item [OF assms] by blast
  then show ?thesis using True by (simp add: cache_view_def map_of_map_restrict)
next
  case False
  then have "map_of (ca_items c) s = None" using tallyD(3) [OF assms] by (simp add: map_of_eq_None_iff)
  then show ?thesis using False by (simp add: cache_view_def map_of_map_restrict)
qed

lemma cacheGet_refines:
  assumes "cache_inv c"
  shows "fst (cacheGet s c) = map_of (cache_view c) s" "cache_inv (snd (cacheGet s c))"
    "cache_view (snd (cacheGet s c)) = cache_view c"
  using assms view_lookup [of c s]
  by (auto simp: cacheGet_def cache_inv_def cache_tally_def overBoundsLocked_def cache_view_def split: option.splits)

subsection \<open>The interface the fetcher and the sequencer rely on\<close>

text \<open>
  \<open>RecentEntryCache\<close> as a contract: a cache holds some entries; a hit returns the held entry;
  a put may drop any entry but adds only what it was given.  It follows that a cache fed only with
  what the durable store holds never answers anything else.
\<close>

locale entry_cache =
  fixes put :: "u64 \<Rightarrow> 'e option \<Rightarrow> 'c \<Rightarrow> 'c option" and get :: "u64 \<Rightarrow> 'c \<Rightarrow> 'e option \<times> 'c"
    and holds :: "'c \<Rightarrow> u64 \<rightharpoonup> 'e" and wf :: "'c \<Rightarrow> bool"
  assumes get_law: "wf c \<Longrightarrow> fst (get s c) = holds c s \<and> wf (snd (get s c)) \<and> holds (snd (get s c)) = holds c"
    and put_law: "wf c \<Longrightarrow> \<exists>c'. put s e c = Some c' \<and> wf c' \<and>
      (\<forall>s'. holds c' s' = None \<or> holds c' s' = holds c s' \<or> (s' = s \<and> holds c' s' = e))"
begin

definition coherent :: "(u64 \<rightharpoonup> 'e) \<Rightarrow> 'c \<Rightarrow> bool" where
  "coherent D c \<longleftrightarrow> wf c \<and> holds c \<subseteq>\<^sub>m D"

lemma coherent_put: "coherent D c \<Longrightarrow> D s = e \<Longrightarrow> \<exists>c'. put s e c = Some c' \<and> coherent D c'"
proof -
  assume a: "coherent D c" "D s = e"
  then have "wf c" and sub: "\<And>s' x. holds c s' = Some x \<Longrightarrow> D s' = Some x"
    by (auto simp: coherent_def map_le_def dom_def)
  then obtain c' where c': "put s e c = Some c'" "wf c'"
    "\<forall>s'. holds c' s' = None \<or> holds c' s' = holds c s' \<or> (s' = s \<and> holds c' s' = e)"
    using put_law by blast
  have "D s' = Some x" if "holds c' s' = Some x" for s' x
    using c'(3) [rule_format, of s'] that sub [of s' x] a(2) by auto
  then have "holds c' \<subseteq>\<^sub>m D" by (auto simp: map_le_def dom_def)
  with c'(1,2) show ?thesis by (auto simp: coherent_def)
qed

lemma coherent_get: "coherent D c \<Longrightarrow> coherent D (snd (get s c)) \<and> (fst (get s c) = Some x \<longrightarrow> D s = Some x)"
  using get_law [of c s] by (auto simp: coherent_def map_le_def dom_def)

end

lemma map_of_drop_sub: "distinct (map fst xs) \<Longrightarrow> map_of (drop k xs) s = None \<or> map_of (drop k xs) s = map_of xs s"
proof (cases "map_of (drop k xs) s")
  case (Some v)
  assume "distinct (map fst xs)"
  moreover have "(s, v) \<in> set xs" using map_of_SomeD [OF Some] by (rule in_set_dropD)
  ultimately show ?thesis using Some by simp
qed simp

lemma map_of_replace:
  "map_of (map (\<lambda>(s', e'). if s' = s then (s, e) else (s', e')) xs) s' =
     (if s' = s then (if s \<in> fst ` set xs then Some e else None) else map_of xs s')"
  by (induction xs) (auto split: if_splits)

lemma map_of_fifo_put: "map_of (fifo_put s e xs) s' = (if s' = s then Some e else map_of xs s')"
proof (cases "s \<in> fst ` set xs")
  case False
  then have "map_of xs s = None" by (simp add: map_of_eq_None_iff)
  with False show ?thesis by (auto simp: fifo_put_def map_add_def split: option.splits)
qed (auto simp: fifo_put_def map_of_replace)

lemma distinct_fifo_put: "distinct (map fst xs) \<Longrightarrow> distinct (map fst (fifo_put s e xs))"
proof -
  have "map fst (map (\<lambda>(s', e'). if s' = s then (s, e) else (s', e')) xs) = map fst xs" by (induction xs) auto
  moreover assume "distinct (map fst xs)"
  ultimately show ?thesis by (cases "s \<in> fst ` set xs") (simp_all only: fifo_put_def if_True if_False, simp)
qed

lemma cache_inv_view: "cache_inv c \<Longrightarrow> distinct (map fst (cache_view c))"
  using tallyD(1) by (auto simp: cache_inv_def)

interpretation recent: entry_cache cachePut cacheGet "\<lambda>c. map_of (cache_view c)" cache_inv
proof
  fix c :: "'a cache" and s and e :: "'a EntryWithMetadata option"
  assume inv: "cache_inv c"
  show "fst (cacheGet s c) = map_of (cache_view c) s \<and> cache_inv (snd (cacheGet s c)) \<and>
      map_of (cache_view (snd (cacheGet s c))) = map_of (cache_view c)"
    using cacheGet_refines [OF inv] by simp
  show "\<exists>c'. cachePut s e c = Some c' \<and> cache_inv c' \<and>
      (\<forall>s'. map_of (cache_view c') s' = None \<or> map_of (cache_view c') s' = map_of (cache_view c) s' \<or>
        s' = s \<and> map_of (cache_view c') s' = e)"
  proof (cases e)
    case None
    then show ?thesis using inv by (simp add: cachePut_def)
  next
    case (Some x)
    obtain c' where c': "cachePut s (Some x) c = Some c'" "cache_inv c'"
      "cache_view c' = (if put_accepts x c then trim (ca_maxEntries c) (ca_maxBytes c) (fifo_put s x (cache_view c)) else cache_view c)"
      using cachePut_refines [OF inv] by blast
    obtain k where "trim (ca_maxEntries c) (ca_maxBytes c) (fifo_put s x (cache_view c)) = drop k (fifo_put s x (cache_view c))"
      using trim_suffix by blast
    then have "map_of (cache_view c') s' = None \<or> map_of (cache_view c') s' = map_of (cache_view c) s' \<or>
        s' = s \<and> map_of (cache_view c') s' = Some x" for s'
      using map_of_drop_sub [OF distinct_fifo_put [OF cache_inv_view [OF inv]], of k s x s'] c'(3)
      unfolding map_of_fifo_put by (cases "put_accepts x c"; cases "s' = s"; simp; blast)
    then show ?thesis using c'(1,2) Some by blast
  qed
qed

subsection \<open>Runs\<close>

datatype 'r cache_op = OpPut u64 "'r EntryWithMetadata option" | OpGet u64

fun cache_run :: "'r cache_op list \<Rightarrow> 'r cache \<Rightarrow> 'r cache option" where
  "cache_run [] c = Some c"
| "cache_run (OpPut s e # ops) c = (case cachePut s e c of None \<Rightarrow> None | Some c' \<Rightarrow> cache_run ops c')"
| "cache_run (OpGet s # ops) c = cache_run ops (snd (cacheGet s c))"

lemma cachePut_config:
  assumes "cache_inv c" "cachePut s e c = Some c'"
  shows "cache_inv c' \<and> ca_maxEntries c' = ca_maxEntries c \<and> ca_maxBytes c' = ca_maxBytes c"
proof (cases e)
  case None
  with assms show ?thesis by (simp add: cachePut_def)
next
  case (Some x)
  with assms cachePut_refines [OF assms(1), of s x] show ?thesis by auto
qed

lemma cache_run_inv:
  "cache_inv c \<Longrightarrow> \<exists>c'. cache_run ops c = Some c' \<and> cache_inv c' \<and> ca_maxEntries c' = ca_maxEntries c \<and> ca_maxBytes c' = ca_maxBytes c"
proof (induction ops arbitrary: c)
  case (Cons op ops)
  show ?case
  proof (cases op)
    case (OpPut s e)
    obtain c1 where c1: "cachePut s e c = Some c1" using recent.put_law [OF Cons.prems] by blast
    from cachePut_config [OF Cons.prems c1] Cons.IH [of c1] c1 OpPut show ?thesis by auto
  next
    case (OpGet s)
    have "cache_inv (snd (cacheGet s c))" by (rule cacheGet_refines(2) [OF Cons.prems])
    moreover have "ca_maxEntries (snd (cacheGet s c)) = ca_maxEntries c" "ca_maxBytes (snd (cacheGet s c)) = ca_maxBytes c"
      by (simp_all add: cacheGet_def split: option.splits)
    ultimately show ?thesis using Cons.IH OpGet by fastforce
  qed
qed simp

lemma new_cache_inv: "NewBoundedRecentEntryCache cfg = Some c \<Longrightarrow> cache_inv c \<and> ca_maxEntries c = MaxEntries cfg \<and> ca_maxBytes c = MaxBytes cfg"
  by (auto simp: NewBoundedRecentEntryCache_def cache_inv_def cache_tally_def overBoundsLocked_def split: if_splits)

text \<open>
  C30.  Whatever sequence of puts and lookups reaches the cache, it never crashes, its map,
  FIFO and byte tally agree, and the configured entry and byte budgets hold.
\<close>

theorem cache_stays_bounded:
  assumes "NewBoundedRecentEntryCache cfg = Some c"
  shows "\<exists>c'. cache_run ops c = Some c' \<and> cache_tally c'
    \<and> (0 < MaxEntries cfg \<longrightarrow> int (cacheLen c') \<le> MaxEntries cfg)
    \<and> (0 < MaxBytes cfg \<longrightarrow> BytesUsed (cacheStats c') \<le> MaxBytes cfg)"
proof -
  note n = new_cache_inv [OF assms]
  obtain c' where "cache_run ops c = Some c'" "cache_inv c'" "ca_maxEntries c' = MaxEntries cfg" "ca_maxBytes c' = MaxBytes cfg"
    using cache_run_inv [of c ops] n by auto
  then show ?thesis by (auto simp: cache_inv_def overBoundsLocked_def cacheLen_def cacheStats_def)
qed

definition demo_cache :: "bytes cache" where
  "demo_cache = the (NewBoundedRecentEntryCache \<lparr>MaxEntries = 2, MaxBytes = 5, CC_LogDID = ''did:a''\<rparr>)"

definition demo_ewm :: "u64 \<Rightarrow> nat \<Rightarrow> bytes EntryWithMetadata" where
  "demo_ewm s n = \<lparr>CanonicalBytes = replicate n 1, EWM_LogTime = 0, Position = \<lparr>LogDID = ''did:a'', PosSequence = s\<rparr>,
     EWM_Web3Receipts = []\<rparr>"

lemma demo_cache_new:
  "NewBoundedRecentEntryCache \<lparr>MaxEntries = 2, MaxBytes = 5, CC_LogDID = ''did:a''\<rparr> = Some demo_cache"
  by (simp add: demo_cache_def NewBoundedRecentEntryCache_def)

theorem cache_stays_bounded_witness:
  "\<exists>c'. cache_run [OpPut 1 (Some (demo_ewm 1 3)), OpPut 2 (Some (demo_ewm 2 3)), OpGet 1] demo_cache = Some c'
     \<and> int (cacheLen c') \<le> 2 \<and> BytesUsed (cacheStats c') \<le> 5"
  using cache_stays_bounded [OF demo_cache_new, of "[OpPut 1 (Some (demo_ewm 1 3)), OpPut 2 (Some (demo_ewm 2 3)), OpGet 1]"]
  by auto

text \<open>
  A put that is not refused acts on the cache as on a FIFO: a new sequence number goes to
  the back, the oldest entries are dropped until both budgets hold again, the new entry itself is
  kept and a lookup returns it.
\<close>

theorem cache_put_fifo:
  assumes "cache_inv c" and "put_accepts e c" and "s \<notin> fst ` set (cache_view c)"
  shows "\<exists>c' k. cachePut s (Some e) c = Some c' \<and> cache_inv c' \<and> cache_view c' = drop k (cache_view c) @ [(s, e)]
    \<and> fst (cacheGet s c') = Some e"
proof -
  obtain c' where c': "cachePut s (Some e) c = Some c'" "cache_inv c'"
    "cache_view c' = trim (ca_maxEntries c) (ca_maxBytes c) (cache_view c @ [(s, e)])"
    using cachePut_refines [OF assms(1), of s e] assms(2,3) by (auto simp: fifo_put_def)
  have "fits (ca_maxEntries c) (ca_maxBytes c) [(s, e)]"
    using assms(2) by (auto simp: fits_def put_accepts_def)
  then obtain ys where ys: "cache_view c' = ys @ [(s, e)]" using trim_snoc c'(3) by metis
  obtain k where "cache_view c' = drop k (cache_view c @ [(s, e)])" using trim_suffix c'(3) by metis
  then have "\<exists>k. cache_view c' = drop k (cache_view c) @ [(s, e)]"
    using ys by (cases "k \<le> length (cache_view c)") auto
  moreover have "map_of (cache_view c') s = Some e"
    using cache_inv_view [OF c'(2)] ys by (intro map_of_is_SomeI) auto
  ultimately show ?thesis using c'(1,2) cacheGet_refines(1) [OF c'(2)] by auto
qed

theorem cache_put_fifo_witness:
  "\<exists>c' k. cachePut 1 (Some (demo_ewm 1 3)) demo_cache = Some c' \<and> fst (cacheGet 1 c') = Some (demo_ewm 1 3)"
  using cache_put_fifo [of demo_cache "demo_ewm 1 3" 1] new_cache_inv [OF demo_cache_new]
  by (auto simp: put_accepts_def demo_cache_def NewBoundedRecentEntryCache_def demo_ewm_def cache_view_def)

end
