(* ===== verification/Sequencer.thy ===== *)
theory Sequencer
  imports Heap RecentCache Wal
begin

section \<open>The sequencer: the committer stage\<close>

text \<open>
  Models \<open>sequencer/sequencer.go\<close> (configuration, state, boot) and
  \<open>sequencer/committer.go\<close>: the singleton committer that reorders staged entries with a
  min-heap, commits the contiguous prefix to the entry index in one transaction, advances the WAL,
  recovers duplicates, and trips a breaker on a batch that keeps failing.  Stage 1, which produces
  the staged entries, is the theory \<open>SeqStage1\<close>.

  \<open>sequencer.WAL\<close> is the record \<open>seqWAL\<close> of its methods; \<open>committerSeqWAL\<close> is the
  one the ledger passes in.  The SDK's envelope functions are the record \<open>sdk\<close>.  Every WAL call
  reads the context anew: \<open>cx n\<close> is what the \<open>n\<close>-th call of the process reads, and
  \<open>q_tick\<close> counts the calls.  The gossip-side writers and the emitter are best-effort sinks:
  the state lists what they were given.  Histograms and log lines are left out; counters are
  64-bit words.
\<close>

subsection \<open>Configuration\<close>

record SeqConfig =
  cf_PollInterval :: int
  cf_MaxInFlight :: int
  cf_MaxAttempts :: u32
  cf_BackoffBase :: int
  cf_BackoffMax :: int
  cf_MaxBuilderLag :: u64
  cf_MaxCommitterHeapSize :: int
  cf_MaxEntriesPerCycle :: int
  cf_CommitChannelBuffer :: int
  cf_CommitMaxBatchSize :: int
  cf_CommitMaxWait :: int

definition NewSequencer_cfg :: "SeqConfig \<Rightarrow> SeqConfig" where
  "NewSequencer_cfg cfg =
     (let c1 = cfg\<lparr>cf_PollInterval := (if cf_PollInterval cfg \<le> 0 then 1000000000 else cf_PollInterval cfg),
                   cf_MaxInFlight := (if cf_MaxInFlight cfg \<le> 0 then 4 else cf_MaxInFlight cfg),
                   cf_MaxAttempts := (if cf_MaxAttempts cfg = 0 then 10 else cf_MaxAttempts cfg),
                   cf_BackoffBase := (if cf_BackoffBase cfg \<le> 0 then 1000000000 else cf_BackoffBase cfg),
                   cf_BackoffMax := (if cf_BackoffMax cfg \<le> 0 then 60 * 1000000000 else cf_BackoffMax cfg),
                   cf_MaxBuilderLag := (if cf_MaxBuilderLag cfg = 0 then 4096 else cf_MaxBuilderLag cfg),
                   cf_MaxCommitterHeapSize := (if cf_MaxCommitterHeapSize cfg = 0 then 4096 else cf_MaxCommitterHeapSize cfg),
                   cf_MaxEntriesPerCycle := (if cf_MaxEntriesPerCycle cfg = 0 then 256 else cf_MaxEntriesPerCycle cfg),
                   cf_CommitMaxBatchSize := (if cf_CommitMaxBatchSize cfg \<le> 0 then 256 else cf_CommitMaxBatchSize cfg),
                   cf_CommitMaxWait := (if cf_CommitMaxWait cfg \<le> 0 then 50 * 1000000 else cf_CommitMaxWait cfg)\<rparr> in
      c1\<lparr>cf_CommitChannelBuffer :=
           (if cf_CommitChannelBuffer c1 \<le> 0 then 4 * cf_MaxInFlight c1 else cf_CommitChannelBuffer c1)\<rparr>)"

subsection \<open>Interfaces and data\<close>

text \<open>What one drain cycle's iteration accumulates: the hashes handed to workers.\<close>

record drain =
  dr_dispatched :: nat
  dr_hashes :: "hash list"

record ('w, 'r) seqWAL =
  qw_IterateInflight :: "(drain \<Rightarrow> ctx) \<Rightarrow> (drain \<Rightarrow> hash \<Rightarrow> wal_error option \<times> drain) \<Rightarrow> drain \<Rightarrow> 'w \<Rightarrow> (wal_error + unit) \<times> drain"
  qw_Read :: "ctx \<Rightarrow> 'w \<Rightarrow> hash \<Rightarrow> wal_error + bytes"
  qw_MetaState :: "ctx \<Rightarrow> 'w \<Rightarrow> hash \<Rightarrow> wal_error + 'r Meta"
  qw_Sequence :: "ctx \<Rightarrow> hash \<Rightarrow> u64 \<Rightarrow> 'w \<Rightarrow> (wal_error + unit) \<times> 'w"
  qw_MarkRetry :: "ctx \<Rightarrow> u64 \<Rightarrow> hash \<Rightarrow> 'w \<Rightarrow> (wal_error + unit) \<times> 'w"
  qw_MarkManual :: "ctx \<Rightarrow> hash \<Rightarrow> 'w \<Rightarrow> (wal_error + unit) \<times> 'w"

definition committerSeqWAL :: "'db badger \<Rightarrow> 'r receipt_codec \<Rightarrow> ('db, 'r) seqWAL" where
  "committerSeqWAL B c =
     \<lparr>qw_IterateInflight = IterateInflight B, qw_Read = walRead B, qw_MetaState = MetaState B c,
      qw_Sequence = walSequence B c, qw_MarkRetry = MarkRetry B c, qw_MarkManual = MarkManual B c\<rparr>"

record ('e, 'r) sdk =
  sdk_Deserialize :: "bytes \<Rightarrow> string + 'e"
  sdk_Serialize :: "'e \<Rightarrow> string + bytes"
  sdk_DomainPayload :: "'e \<Rightarrow> bytes"
  sdk_SignerDID :: "'e \<Rightarrow> string"
  sdk_TargetRoot :: "'e \<Rightarrow> LogPosition option"
  sdk_CosignatureOf :: "'e \<Rightarrow> LogPosition option"
  sdk_SchemaRef :: "'e \<Rightarrow> LogPosition option"
  sdk_DelegateDID :: "'e \<Rightarrow> string option"
  sdk_EventTime :: "'e \<Rightarrow> int"
  sdk_Signatures :: "'e \<Rightarrow> bytes list"
  sdk_schemaIDOf :: "bytes \<Rightarrow> string option"
  sdk_kindOf :: "bytes \<Rightarrow> string option"
  sdk_entryKinds :: "string list"
  sdk_IsCosignedAnchor :: "bytes \<Rightarrow> bool"
  sdk_anchorSource :: "bytes \<Rightarrow> string option"
  sdk_PREGrantSchemaID :: string
  sdk_EscrowSplitSchemaID :: string
  sdk_ParsePREGrant :: "'e \<Rightarrow> string + hash"
  sdk_ParseEscrowSplit :: "'e \<Rightarrow> string + hash"
  sdk_receipts :: "'r receipt_codec"

record 'e registry =
  reg_Has :: "string \<Rightarrow> bool"
  reg_ValidateEntry :: "string \<Rightarrow> 'e \<Rightarrow> string option"

record ('e, 'r) stagedEntry =
  st_Seq :: u64
  st_Hash :: hash
  st_Tombstone :: bool
  st_Reason :: string
  st_Row :: EntryRow
  st_HasSplitID :: bool
  st_SplitID :: hash
  st_SchemaID :: string
  st_Entry :: "'e option"
  st_Web3Receipts :: "'r list"

record SplitIDIndexEntry =
  EquivocatorDID :: string
  SI_CanonicalHash :: hash
  SigBytes :: bytes

record EntryLookupIndexEntry =
  EL_CanonicalBytes :: bytes
  EL_LogTimeMicros :: int
  EL_LogDID :: string

record GhostLeafEvent =
  GhostSeq :: u64
  CanonicalSeq :: u64
  GL_CanonicalHash :: hash
  GL_LogDID :: string
  ObservedAtUnixNano :: u64

datatype ghostLeafErr = EmptyLogDID | ZeroHash | SeqOrder | ZeroObservedAt

definition GhostLeafEvent_Validate :: "GhostLeafEvent \<Rightarrow> ghostLeafErr option" where
  "GhostLeafEvent_Validate ev =
     (if GL_LogDID ev = [] then Some EmptyLogDID
      else if GL_CanonicalHash ev = 0 then Some ZeroHash
      else if GhostSeq ev \<le> CanonicalSeq ev then Some SeqOrder
      else if ObservedAtUnixNano ev = 0 then Some ZeroObservedAt
      else None)"

record Metrics =
  m_drainCycles :: u64
  m_processed :: u64
  m_failures :: u64
  m_manualCount :: u64
  m_currentLag :: int
  m_backpressureStalls :: u64
  m_committerHeapStalls :: u64
  m_committedBatches :: u64
  m_committedEntries :: u64
  m_commitWaitOnGap :: u64
  m_commitBatchFailures :: u64
  m_staleDuplicatesDiscarded :: u64
  m_staleInBatchDuplicates :: u64
  m_staleCrossBatchDuplicates :: u64
  m_staleCrashRecoveries :: u64
  m_staleCrashRecoveriesAfterPGCollision :: u64
  m_tesseraInFlight :: int
  m_tesseraInFlightHighWater :: int

datatype seq_fatal = FatalBreaker u64 nat string | FatalInversion hash

record ('w, 'e, 'r) seqEnv =
  en_WAL :: "('w, 'r) seqWAL"
  en_sdk :: "('e, 'r) sdk"
  en_cfg :: SeqConfig
  en_logDID :: string
  en_db :: bool
  en_splitIDIndex :: bool
  en_entryLookup :: bool
  en_ghostEmitter :: bool
  en_fatalCap :: "nat option"
  en_registry :: "'e registry option"
  en_errString :: "store_error \<Rightarrow> string"

record ('w, 'e, 'r) sequencer =
  q_wal :: 'w
  q_tick :: nat
  q_index :: "index_row list"
  q_splits :: "(u64 \<times> string \<times> hash) list"
  q_heap :: "('e, 'r) stagedEntry list"
  q_pending :: "('e, 'r) stagedEntry list"
  q_next :: u64
  q_ch :: "('e, 'r) stagedEntry list"
  q_timer :: bool
  q_stopped :: bool
  q_attempts :: "hash \<rightharpoonup> u32"
  q_brkSeq :: u64
  q_brkErrFP :: string
  q_brkStreak :: nat
  q_brkTripped :: bool
  q_fatal :: "seq_fatal list"
  q_ghosts :: "GhostLeafEvent list"
  q_splitWrites :: "(string \<times> hash \<times> u64 \<times> SplitIDIndexEntry) list"
  q_lookupWrites :: "(string \<times> hash \<times> u64 \<times> EntryLookupIndexEntry) list"
  q_cache :: "'r cache option"
  q_m :: Metrics

definition heapLen :: "('w, 'e, 'r) sequencer \<Rightarrow> nat" where "heapLen s = length (q_heap s)"
definition committerPush :: "('e, 'r) stagedEntry \<Rightarrow> ('e, 'r) stagedEntry list \<Rightarrow> ('e, 'r) stagedEntry list" where
  "committerPush = heap_push st_Seq"
definition committerPop :: "('e, 'r) stagedEntry list \<Rightarrow> ('e, 'r) stagedEntry \<times> ('e, 'r) stagedEntry list" where
  "committerPop = heap_pop st_Seq"

definition isContextErr :: "wal_error \<Rightarrow> bool" where
  "isContextErr e \<longleftrightarrow> (\<exists>x \<in> {Canceled, DeadlineExceeded}. e = WCtx x)"

subsection \<open>Calls on the WAL, attempt counters\<close>

definition walDo ::
  "(nat \<Rightarrow> ctx) \<Rightarrow> (ctx \<Rightarrow> 'w \<Rightarrow> (wal_error + unit) \<times> 'w) \<Rightarrow> ('w, 'e, 'r) sequencer \<Rightarrow> (wal_error + unit) \<times> ('w, 'e, 'r) sequencer" where
  "walDo cx op s =
     (case op (cx (q_tick s)) (q_wal s) of (r, w) \<Rightarrow> (r, s\<lparr>q_wal := w, q_tick := Suc (q_tick s)\<rparr>))"

definition walAsk ::
  "(nat \<Rightarrow> ctx) \<Rightarrow> (ctx \<Rightarrow> 'w \<Rightarrow> wal_error + 'a) \<Rightarrow> ('w, 'e, 'r) sequencer \<Rightarrow> (wal_error + 'a) \<times> ('w, 'e, 'r) sequencer" where
  "walAsk cx op s = (op (cx (q_tick s)) (q_wal s), s\<lparr>q_tick := Suc (q_tick s)\<rparr>)"

definition resetAttempts :: "hash \<Rightarrow> ('w, 'e, 'r) sequencer \<Rightarrow> ('w, 'e, 'r) sequencer" where
  "resetAttempts h s = s\<lparr>q_attempts := (q_attempts s)(h := None)\<rparr>"

definition recordAttempt :: "hash \<Rightarrow> ('w, 'e, 'r) sequencer \<Rightarrow> u32 \<times> ('w, 'e, 'r) sequencer" where
  "recordAttempt h s =
     (let n = (case q_attempts s h of None \<Rightarrow> 0 | Some k \<Rightarrow> k) + 1 in
      (n, s\<lparr>q_attempts := (q_attempts s)(h \<mapsto> n)\<rparr>))"

subsection \<open>Duplicates and post-commit work\<close>

definition committerStaleRecover ::
  "('w, 'e, 'r) seqEnv \<Rightarrow> (nat \<Rightarrow> ctx) \<Rightarrow> ('e, 'r) stagedEntry \<Rightarrow> ('w, 'e, 'r) sequencer \<Rightarrow> ('w, 'e, 'r) sequencer" where
  "committerStaleRecover E cx e s =
     (case walAsk cx (\<lambda>x w. qw_MetaState (en_WAL E) x w (st_Hash e)) s of
        (Inl er, s1) \<Rightarrow> s1
      | (Inr meta, s1) \<Rightarrow>
          if State meta \<noteq> StatePending then
            s1\<lparr>q_m := (q_m s1)\<lparr>m_staleDuplicatesDiscarded := m_staleDuplicatesDiscarded (q_m s1) + 1,
                               m_staleCrossBatchDuplicates := m_staleCrossBatchDuplicates (q_m s1) + 1\<rparr>\<rparr>
          else
            let s2 = s1\<lparr>q_m := (q_m s1)\<lparr>m_staleCrashRecoveries := m_staleCrashRecoveries (q_m s1) + 1\<rparr>\<rparr>;
                s3 = (if st_Tombstone e
                      then snd (walDo cx (\<lambda>x. qw_MarkManual (en_WAL E) x (st_Hash e)) s2)
                      else snd (walDo cx (\<lambda>x. qw_Sequence (en_WAL E) x (st_Hash e) (st_Seq e)) s2)) in
            resetAttempts (st_Hash e) s3)"

definition sidecarWrites ::
  "('w, 'e, 'r) seqEnv \<Rightarrow> bool \<Rightarrow> ('e, 'r) stagedEntry \<Rightarrow> ('w, 'e, 'r) sequencer \<Rightarrow> ('w, 'e, 'r) sequencer" where
  "sidecarWrites E dbCommitted e s =
     (case st_Entry e of
        None \<Rightarrow> s
      | Some en \<Rightarrow>
          if \<not> dbCommitted \<or> \<not> st_HasSplitID e then s
          else
            let s1 = (if en_splitIDIndex E \<and> sdk_Signatures (en_sdk E) en \<noteq> []
                      then s\<lparr>q_splitWrites := q_splitWrites s @
                             [(st_SchemaID e, st_SplitID e, st_Seq e,
                               \<lparr>EquivocatorDID = sdk_SignerDID (en_sdk E) en, SI_CanonicalHash = st_Hash e,
                                SigBytes = hd (sdk_Signatures (en_sdk E) en)\<rparr>)]\<rparr>
                      else s) in
            (if en_entryLookup E
             then (case sdk_Serialize (en_sdk E) en of
                     Inl _ \<Rightarrow> s1
                   | Inr canonical \<Rightarrow>
                       s1\<lparr>q_lookupWrites := q_lookupWrites s1 @
                          [(st_SchemaID e, st_SplitID e, st_Seq e,
                            \<lparr>EL_CanonicalBytes = canonical, EL_LogTimeMicros = sdk_EventTime (en_sdk E) en,
                             EL_LogDID = en_logDID E\<rparr>)]\<rparr>)
             else s1))"

text \<open>
  A panic of the cache unwinds to the loop's deferred handler, which ends the goroutine:
  \<open>q_stopped\<close> is set and nothing after it runs.
\<close>

definition cacheWrite ::
  "('w, 'e, 'r) seqEnv \<Rightarrow> bool \<Rightarrow> ('e, 'r) stagedEntry \<Rightarrow> ('w, 'e, 'r) sequencer \<Rightarrow> ('w, 'e, 'r) sequencer" where
  "cacheWrite E dbCommitted e s =
     (case (st_Entry e, q_cache s) of
        (Some en, Some ca) \<Rightarrow>
          if \<not> dbCommitted \<or> st_Tombstone e then s
          else (case sdk_Serialize (en_sdk E) en of
                  Inl _ \<Rightarrow> s
                | Inr canonical \<Rightarrow>
                    (case cachePut (st_Seq e)
                            (Some \<lparr>CanonicalBytes = canonical, EWM_LogTime = LogTime (st_Row e),
                                   Position = \<lparr>LogDID = en_logDID E, PosSequence = st_Seq e\<rparr>,
                                   EWM_Web3Receipts = st_Web3Receipts e\<rparr>) ca of
                       None \<Rightarrow> s\<lparr>q_stopped := True\<rparr>
                     | Some ca' \<Rightarrow> s\<lparr>q_cache := Some ca'\<rparr>))
      | _ \<Rightarrow> s)"

definition applyPostCommitForOne ::
  "('w, 'e, 'r) seqEnv \<Rightarrow> (nat \<Rightarrow> ctx) \<Rightarrow> bool \<Rightarrow> ('e, 'r) stagedEntry \<Rightarrow> ('w, 'e, 'r) sequencer \<Rightarrow> ('w, 'e, 'r) sequencer" where
  "applyPostCommitForOne E cx dbCommitted e s =
     (if st_Tombstone e then
        let s1 = resetAttempts (st_Hash e) (snd (walDo cx (\<lambda>x. qw_MarkManual (en_WAL E) x (st_Hash e)) s)) in
        s1\<lparr>q_m := (q_m s1)\<lparr>m_manualCount := m_manualCount (q_m s1) + 1\<rparr>\<rparr>
      else
        let s1 = resetAttempts (st_Hash e) (snd (walDo cx (\<lambda>x. qw_Sequence (en_WAL E) x (st_Hash e) (st_Seq e)) s));
            s2 = s1\<lparr>q_m := (q_m s1)\<lparr>m_processed := m_processed (q_m s1) + 1\<rparr>\<rparr> in
        cacheWrite E dbCommitted e (sidecarWrites E dbCommitted e s2))"

subsection \<open>One batch\<close>

text \<open>
  The inserts into \<open>commitment_split_id\<close>: the primary key conflict is ignored, the foreign key
  to \<open>entry_index\<close> is not.
\<close>

fun insertSplits ::
  "pg_env \<Rightarrow> index_row list \<Rightarrow> hash set \<Rightarrow> ('e, 'r) stagedEntry list \<Rightarrow> (u64 \<times> string \<times> hash) list
     \<Rightarrow> store_error + (u64 \<times> string \<times> hash) list" where
  "insertSplits P t collided [] sp = Inr sp"
| "insertSplits P t collided (e # es) sp =
     (if st_Tombstone e \<or> \<not> st_HasSplitID e then insertSplits P t collided es sp
      else if st_Hash e \<in> collided then insertSplits P t collided es sp
      else
        (case pe_split P (st_Seq e) of
           Some er \<Rightarrow> Inl (SplitInsertErr (st_Seq e) er)
         | None \<Rightarrow>
             if st_Seq e \<in> fst ` set sp then insertSplits P t collided es sp
             else if st_Seq e \<notin> c_seq ` set t
             then Inl (SplitInsertErr (st_Seq e) (ForeignKeyViolation ''commitment_split_id_sequence_number_fkey''))
             else insertSplits P t collided es (sp @ [(st_Seq e, st_SchemaID e, st_SplitID e)])))"

definition flushTx ::
  "pg_env \<Rightarrow> ('e, 'r) stagedEntry list \<Rightarrow> index_row list \<times> (u64 \<times> string \<times> hash) list
     \<Rightarrow> store_error + (InsertBatchResult \<times> index_row list \<times> (u64 \<times> string \<times> hash) list)" where
  "flushTx P batch d =
     bindE (mapE (BatchInsertErr (length batch)) (InsertBatch P (map st_Row batch) (fst d))) (\<lambda>(res, t').
     bindE (insertSplits P t' (HC_CanonicalHash ` set (HashCollisions res)) batch (snd d)) (\<lambda>sp'.
       Inr (res, t', sp')))"

definition recoverCollision ::
  "('w, 'e, 'r) seqEnv \<Rightarrow> (nat \<Rightarrow> ctx) \<Rightarrow> u64 \<Rightarrow> ('e, 'r) stagedEntry list \<Rightarrow> HashCollision \<Rightarrow> ('w, 'e, 'r) sequencer
     \<Rightarrow> ('w, 'e, 'r) sequencer" where
  "recoverCollision E cx obs batch c s =
     (case map_of (rev (map (\<lambda>e. (st_Hash e, e)) batch)) (HC_CanonicalHash c) of
        None \<Rightarrow> s
      | Some orig \<Rightarrow>
          let rec = orig\<lparr>st_Seq := ExistingSeq c, st_Row := (st_Row orig)\<lparr>SequenceNumber := ExistingSeq c\<rparr>\<rparr>;
              s1 = s\<lparr>q_m := (q_m s)\<lparr>m_staleCrashRecoveriesAfterPGCollision := m_staleCrashRecoveriesAfterPGCollision (q_m s) + 1\<rparr>\<rparr>;
              s2 = committerStaleRecover E cx rec s1 in
          (if en_ghostEmitter E
           then s2\<lparr>q_ghosts := q_ghosts s2 @
                   [\<lparr>GhostSeq = AttemptedSeq c, CanonicalSeq = ExistingSeq c, GL_CanonicalHash = HC_CanonicalHash c,
                     GL_LogDID = en_logDID E, ObservedAtUnixNano = obs\<rparr>]\<rparr>
           else s2))"

definition running :: "(('w, 'e, 'r) sequencer \<Rightarrow> ('w, 'e, 'r) sequencer) \<Rightarrow> ('w, 'e, 'r) sequencer \<Rightarrow> ('w, 'e, 'r) sequencer" where
  "running f s = (if q_stopped s then s else f s)"

definition postCommit ::
  "('w, 'e, 'r) seqEnv \<Rightarrow> (nat \<Rightarrow> ctx) \<Rightarrow> u64 \<Rightarrow> ('e, 'r) stagedEntry list \<Rightarrow> InsertBatchResult \<Rightarrow> ('w, 'e, 'r) sequencer
     \<Rightarrow> ('w, 'e, 'r) sequencer" where
  "postCommit E cx obs batch res s =
     (let s1 = fold (recoverCollision E cx obs batch) (HashCollisions res) s in
      fold (\<lambda>e. if st_Hash e \<in> HC_CanonicalHash ` set (HashCollisions res) then id
                else running (applyPostCommitForOne E cx True e)) batch s1)"

definition flushBatch ::
  "('w, 'e, 'r) seqEnv \<Rightarrow> pg_env \<Rightarrow> (nat \<Rightarrow> ctx) \<Rightarrow> u64 \<Rightarrow> ('e, 'r) stagedEntry list \<Rightarrow> ('w, 'e, 'r) sequencer
     \<Rightarrow> store_error option \<times> ('w, 'e, 'r) sequencer" where
  "flushBatch E P cx obs batch s =
     (if batch = [] then (None, s)
      else if \<not> en_db E then (None, fold (\<lambda>e. running (applyPostCommitForOne E cx False e)) batch s)
      else
        (case WithTransaction P (flushTx P batch) (q_index s, q_splits s) of
           (Inl e, (t', sp')) \<Rightarrow> (Some e, s\<lparr>q_index := t', q_splits := sp'\<rparr>)
         | (Inr res, (t', sp')) \<Rightarrow> (None, postCommit E cx obs batch res (s\<lparr>q_index := t', q_splits := sp'\<rparr>))))"

subsection \<open>The identical-batch breaker\<close>

definition identicalBatchBreakerThreshold :: nat where "identicalBatchBreakerThreshold = 3"

definition sendFatal :: "('w, 'e, 'r) seqEnv \<Rightarrow> seq_fatal \<Rightarrow> ('w, 'e, 'r) sequencer \<Rightarrow> ('w, 'e, 'r) sequencer" where
  "sendFatal E f s =
     (case en_fatalCap E of
        None \<Rightarrow> s
      | Some n \<Rightarrow> if length (q_fatal s) < n then s\<lparr>q_fatal := q_fatal s @ [f]\<rparr> else s)"

definition checkIdenticalBatchBreaker ::
  "('w, 'e, 'r) seqEnv \<Rightarrow> u64 \<Rightarrow> string \<Rightarrow> ('w, 'e, 'r) sequencer \<Rightarrow> bool \<times> ('w, 'e, 'r) sequencer" where
  "checkIdenticalBatchBreaker E firstSeq fp s =
     (let s1 = (if firstSeq = q_brkSeq s \<and> fp = q_brkErrFP s then s\<lparr>q_brkStreak := q_brkStreak s + 1\<rparr>
                else s\<lparr>q_brkSeq := firstSeq, q_brkErrFP := fp, q_brkStreak := 1\<rparr>);
          streak = q_brkStreak s1 in
      if streak < identicalBatchBreakerThreshold then (False, s1)
      else if q_brkTripped s1 then (True, s1)
      else (True, sendFatal E (FatalBreaker firstSeq streak fp) (s1\<lparr>q_brkTripped := True\<rparr>)))"

definition resetIdenticalBatchBreaker :: "('w, 'e, 'r) sequencer \<Rightarrow> ('w, 'e, 'r) sequencer" where
  "resetIdenticalBatchBreaker s =
     (if q_brkStreak s = 0 then s else s\<lparr>q_brkSeq := 0, q_brkErrFP := [], q_brkStreak := 0\<rparr>)"

subsection \<open>The committer loop\<close>

definition flushPending ::
  "('w, 'e, 'r) seqEnv \<Rightarrow> pg_env \<Rightarrow> (nat \<Rightarrow> ctx) \<Rightarrow> u64 \<Rightarrow> ('w, 'e, 'r) sequencer \<Rightarrow> ('w, 'e, 'r) sequencer" where
  "flushPending E P cx obs s =
     (if q_pending s = [] then s
      else
        let pending = q_pending s in
        (case flushBatch E P cx obs pending s of
           (Some err, s1) \<Rightarrow>
             let s2 = s1\<lparr>q_m := (q_m s1)\<lparr>m_commitBatchFailures := m_commitBatchFailures (q_m s1) + 1\<rparr>\<rparr> in
             (case checkIdenticalBatchBreaker E (st_Seq (hd pending)) (en_errString E err) s2 of
                (True, s3) \<Rightarrow> s3\<lparr>q_pending := []\<rparr>
              | (False, s3) \<Rightarrow> s3\<lparr>q_heap := fold committerPush pending (q_heap s3), q_pending := []\<rparr>)
         | (None, s1) \<Rightarrow>
             if q_stopped s1 then s1
             else let s2 = resetIdenticalBatchBreaker s1; n = word_of_nat (length pending) in
             s2\<lparr>q_next := q_next s2 + n,
                q_m := (q_m s2)\<lparr>m_committedBatches := m_committedBatches (q_m s2) + 1,
                                m_committedEntries := m_committedEntries (q_m s2) + n\<rparr>,
                q_pending := []\<rparr>))"

text \<open>What the committer's own WAL work leaves alone.\<close>

definition same_queue :: "('w, 'e, 'r) sequencer \<Rightarrow> ('w, 'e, 'r) sequencer \<Rightarrow> bool" where
  "same_queue s s' \<longleftrightarrow> q_heap s' = q_heap s \<and> q_pending s' = q_pending s \<and> q_next s' = q_next s \<and> q_ch s' = q_ch s
     \<and> q_index s' = q_index s \<and> q_splits s' = q_splits s"

lemma same_queue_refl [simp]: "same_queue s s"
  by (simp add: same_queue_def)

lemma same_queue_trans: "same_queue s s' \<Longrightarrow> same_queue s' s'' \<Longrightarrow> same_queue s s''"
  by (simp add: same_queue_def)

lemma same_queueD:
  "same_queue s s' \<Longrightarrow> q_heap s' = q_heap s \<and> q_pending s' = q_pending s \<and> q_next s' = q_next s \<and> q_ch s' = q_ch s
     \<and> q_index s' = q_index s \<and> q_splits s' = q_splits s"
  by (simp add: same_queue_def)

lemma walDo_queue: "same_queue s (snd (walDo cx op s))"
  by (simp add: walDo_def same_queue_def split: prod.splits)

lemma walAsk_queue: "walAsk cx op s = (r, s') \<Longrightarrow> same_queue s s'"
  by (auto simp: walAsk_def same_queue_def)

lemma resetAttempts_queue: "same_queue s (resetAttempts h s)"
  by (simp add: resetAttempts_def same_queue_def)

lemma metrics_queue [simp]: "same_queue s (s\<lparr>q_m := m\<rparr>)" "same_queue s (s\<lparr>q_ghosts := g\<rparr>)"
  by (simp_all add: same_queue_def)

lemma staleRecover_queue: "same_queue s (committerStaleRecover E cx e s)"
  unfolding committerStaleRecover_def Let_def
  by (auto simp: walAsk_def walDo_def resetAttempts_def same_queue_def split: prod.splits sum.splits)

lemma staleRecover_frame:
  "q_ghosts (committerStaleRecover E cx e s) = q_ghosts s" "q_stopped (committerStaleRecover E cx e s) = q_stopped s"
  unfolding committerStaleRecover_def Let_def
  by (auto simp: walAsk_def walDo_def resetAttempts_def split: prod.splits sum.splits)

lemma sidecarWrites_queue: "same_queue s (sidecarWrites E b e s)"
  by (auto simp: sidecarWrites_def same_queue_def Let_def split: option.splits sum.splits)

lemma cacheWrite_queue: "same_queue s (cacheWrite E b e s)"
  by (auto simp: cacheWrite_def same_queue_def split: option.splits sum.splits)

lemma postCommit1_queue: "same_queue s (applyPostCommitForOne E cx b e s)"
proof (cases "st_Tombstone e")
  case True
  then show ?thesis
    by (simp add: applyPostCommitForOne_def Let_def) (simp add: walDo_def resetAttempts_def same_queue_def split: prod.splits)
next
  case False
  define s1 where "s1 = resetAttempts (st_Hash e) (snd (walDo cx (\<lambda>x. qw_Sequence (en_WAL E) x (st_Hash e) (st_Seq e)) s))"
  define s2 where "s2 = s1\<lparr>q_m := (q_m s1)\<lparr>m_processed := m_processed (q_m s1) + 1\<rparr>\<rparr>"
  have "same_queue s s1" unfolding s1_def by (rule same_queue_trans [OF walDo_queue resetAttempts_queue])
  moreover have "same_queue s1 s2" by (simp add: s2_def)
  ultimately have "same_queue s (cacheWrite E b e (sidecarWrites E b e s2))"
    by (blast intro: same_queue_trans sidecarWrites_queue cacheWrite_queue)
  then show ?thesis using False by (simp add: applyPostCommitForOne_def Let_def s1_def s2_def)
qed

lemma running_queue: "(\<And>s. same_queue s (f s)) \<Longrightarrow> same_queue s (running f s)"
  by (simp add: running_def)

lemma recoverCollision_queue: "same_queue s (recoverCollision E cx obs batch c s)"
proof (cases "map_of (rev (map (\<lambda>e. (st_Hash e, e)) batch)) (HC_CanonicalHash c)")
  case None
  then show ?thesis by (simp add: recoverCollision_def)
next
  case (Some orig)
  let ?s1 = "s\<lparr>q_m := (q_m s)\<lparr>m_staleCrashRecoveriesAfterPGCollision := m_staleCrashRecoveriesAfterPGCollision (q_m s) + 1\<rparr>\<rparr>"
  have "same_queue s (committerStaleRecover E cx e ?s1)" for e
    by (rule same_queue_trans [OF _ staleRecover_queue]) simp
  then show ?thesis using Some by (auto simp: recoverCollision_def Let_def intro: same_queue_trans [OF _ metrics_queue(2)])
qed

lemma fold_queue: "(\<And>x s. x \<in> set xs \<Longrightarrow> same_queue s (f x s)) \<Longrightarrow> same_queue s (fold f xs s)"
proof (induction xs arbitrary: s)
  case (Cons x xs)
  have "same_queue s (f x s)" using Cons.prems by simp
  moreover have "same_queue (f x s) (fold f xs (f x s))" using Cons by simp
  ultimately show ?case by (auto intro: same_queue_trans)
qed simp

lemma postCommit_queue: "same_queue s (postCommit E cx obs batch res s)"
  unfolding postCommit_def Let_def
  by (intro same_queue_trans [OF fold_queue fold_queue]) (auto intro: recoverCollision_queue postCommit1_queue running_queue)

text \<open>
  \<open>drainHeapInto\<close>: duplicates below the expected number are dropped (the original is pending) or
  recovered (it was committed), a gap stops the drain, the expected entry joins the batch.
\<close>

lemma committerPop_length: "(x, ys) = committerPop xs \<Longrightarrow> xs \<noteq> [] \<Longrightarrow> length ys < length xs"
  by (auto simp: committerPop_def heap_pop_def Let_def)

function drainHeapInto ::
  "('w, 'e, 'r) seqEnv \<Rightarrow> (nat \<Rightarrow> ctx) \<Rightarrow> ('w, 'e, 'r) sequencer \<Rightarrow> ('w, 'e, 'r) sequencer" where
  "drainHeapInto E cx s =
     (if q_heap s = [] then s
      else
        let head = q_heap s ! 0;
            committed = q_next s;
            expected = committed + word_of_nat (length (q_pending s)) in
        if st_Seq head < expected then
          (case committerPop (q_heap s) of
             (stale, heap') \<Rightarrow>
               if st_Seq stale \<ge> committed then
                 drainHeapInto E cx
                   (s\<lparr>q_heap := heap',
                      q_m := (q_m s)\<lparr>m_staleDuplicatesDiscarded := m_staleDuplicatesDiscarded (q_m s) + 1,
                                     m_staleInBatchDuplicates := m_staleInBatchDuplicates (q_m s) + 1\<rparr>\<rparr>)
               else drainHeapInto E cx (committerStaleRecover E cx stale (s\<lparr>q_heap := heap'\<rparr>)))
        else if st_Seq head \<noteq> expected then s
        else
          (case committerPop (q_heap s) of
             (e, heap') \<Rightarrow> drainHeapInto E cx (s\<lparr>q_heap := heap', q_pending := q_pending s @ [e]\<rparr>)))"
  by pat_completeness auto
termination
proof (relation "measure (\<lambda>(E, cx, s). length (q_heap s))", goal_cases)
  case (2 E cx s head committed expected x y)
  then show ?case using committerPop_length [of x y "q_heap s"] by simp
next
  case (3 E cx s head committed expected x y)
  then show ?case using committerPop_length [of x y "q_heap s"] by (simp add: same_queueD [OF staleRecover_queue])
next
  case (4 E cx s head committed expected x y)
  then show ?case using committerPop_length [of x y "q_heap s"] by simp
qed simp

declare drainHeapInto.simps [simp del]

definition stopTimer :: "('w, 'e, 'r) sequencer \<Rightarrow> ('w, 'e, 'r) sequencer" where
  "stopTimer s = s\<lparr>q_timer := False\<rparr>"

definition armTimer :: "('w, 'e, 'r) sequencer \<Rightarrow> ('w, 'e, 'r) sequencer" where
  "armTimer s = (if \<not> q_timer s \<and> q_pending s \<noteq> [] then s\<lparr>q_timer := True\<rparr> else s)"

text \<open>The loop's three cases: a tuple from the channel, the timer, the end of the context.\<close>

definition committerRecv ::
  "('w, 'e, 'r) seqEnv \<Rightarrow> pg_env \<Rightarrow> (nat \<Rightarrow> ctx) \<Rightarrow> u64 \<Rightarrow> ('w, 'e, 'r) sequencer \<Rightarrow> ('w, 'e, 'r) sequencer" where
  "committerRecv E P cx obs s =
     (case q_ch s of
        [] \<Rightarrow> s
      | tuple # rest \<Rightarrow>
          let s1 = s\<lparr>q_ch := rest, q_heap := committerPush tuple (q_heap s)\<rparr>;
              heapHeadSeq = st_Seq (q_heap s1 ! 0);
              expected = q_next s1 + word_of_nat (length (q_pending s1));
              s2 = (if heapHeadSeq \<noteq> expected
                    then s1\<lparr>q_m := (q_m s1)\<lparr>m_commitWaitOnGap := m_commitWaitOnGap (q_m s1) + 1\<rparr>\<rparr> else s1);
              s3 = drainHeapInto E cx s2 in
          (if int (length (q_pending s3)) \<ge> cf_CommitMaxBatchSize (en_cfg E)
           then flushPending E P cx obs (stopTimer s3)
           else armTimer s3))"

definition committerTick ::
  "('w, 'e, 'r) seqEnv \<Rightarrow> pg_env \<Rightarrow> (nat \<Rightarrow> ctx) \<Rightarrow> u64 \<Rightarrow> ('w, 'e, 'r) sequencer \<Rightarrow> ('w, 'e, 'r) sequencer" where
  "committerTick E P cx obs s = (if q_timer s then flushPending E P cx obs (s\<lparr>q_timer := False\<rparr>) else s)"

definition committerDone ::
  "('w, 'e, 'r) seqEnv \<Rightarrow> pg_env \<Rightarrow> (nat \<Rightarrow> ctx) \<Rightarrow> (nat \<Rightarrow> ctx) \<Rightarrow> u64 \<Rightarrow> ('w, 'e, 'r) sequencer \<Rightarrow> ('w, 'e, 'r) sequencer" where
  "committerDone E P cx flushCtx obs s =
     (let s1 = stopTimer (drainHeapInto E cx s);
          s2 = (if q_pending s1 \<noteq> [] then flushPending E P flushCtx obs s1 else s1) in
      s2\<lparr>q_stopped := True\<rparr>)"

definition countTombstones :: "('e, 'r) stagedEntry list \<Rightarrow> nat" where
  "countTombstones batch = fold (\<lambda>e n. if st_Tombstone e then n + 1 else n) batch 0"

subsection \<open>Boot\<close>

definition readNextExpectedSeq :: "bool \<Rightarrow> pg_error option \<Rightarrow> index_row list \<Rightarrow> pg_error + u64" where
  "readNextExpectedSeq db flt t =
     (if \<not> db then Inr 0
      else
        pg_run flt
          (let maxSeq = (case map (\<lambda>q. sint (c_seq q)) t of [] \<Rightarrow> - 1 | x # xs \<Rightarrow> fold max xs x) in
           Inr (word_of_int (maxSeq + 1))))"

definition metrics0 :: Metrics where
  "metrics0 =
     \<lparr>m_drainCycles = 0, m_processed = 0, m_failures = 0, m_manualCount = 0, m_currentLag = 0, m_backpressureStalls = 0,
      m_committerHeapStalls = 0, m_committedBatches = 0, m_committedEntries = 0, m_commitWaitOnGap = 0,
      m_commitBatchFailures = 0, m_staleDuplicatesDiscarded = 0, m_staleInBatchDuplicates = 0,
      m_staleCrossBatchDuplicates = 0, m_staleCrashRecoveries = 0, m_staleCrashRecoveriesAfterPGCollision = 0,
      m_tesseraInFlight = 0, m_tesseraInFlightHighWater = 0\<rparr>"

text \<open>
  A process start over the durable state: \<open>NewSequencer\<close> and the first part of \<open>Run\<close>.
  What was emitted to the gossip side stays emitted; \<open>ca\<close> is the cache wired in, if any.
\<close>

definition sequencerBoot ::
  "('w, 'e, 'r) seqEnv \<Rightarrow> pg_error option \<Rightarrow> 'r cache option \<Rightarrow> ('w, 'e, 'r) sequencer \<Rightarrow> pg_error + ('w, 'e, 'r) sequencer" where
  "sequencerBoot E flt ca s =
     bindE (readNextExpectedSeq (en_db E) flt (q_index s)) (\<lambda>nextSeq.
       Inr (s\<lparr>q_heap := [], q_pending := [], q_next := nextSeq, q_ch := [], q_timer := False, q_stopped := False,
              q_attempts := Map.empty, q_brkSeq := 0, q_brkErrFP := [], q_brkStreak := 0, q_brkTripped := False,
              q_fatal := [], q_cache := ca, q_m := metrics0\<rparr>))"

end
