(* ===== verification/SeqStage1.thy ===== *)
theory SeqStage1
  imports Sequencer
begin

section \<open>The sequencer: stage 1\<close>

text \<open>
  Models \<open>sequencer/loop.go\<close>: a drain cycle with its backpressure gates and its work budget,
  the per-entry pipeline up to the tuple sent to the committer, and the decision between retry
  and manual handling.  \<open>processOne\<close> blocks inside Tessera's \<open>AppendLeaf\<close> while the
  committer runs, so it is split there: \<open>processBegin\<close> ends with the call,
  \<open>processAppend\<close> continues with its result.  A \<open>select\<close> between the channel and
  \<open>ctx.Done()\<close> is a boolean: whether the send was chosen.
\<close>

subsection \<open>Errors\<close>

datatype tess_error = TessCtx ctx_error | ErrAppenderShutdown | TessErr string

datatype entry_cause = CauseWal wal_error | CauseTessera tess_error

definition isContextCause :: "entry_cause \<Rightarrow> bool" where
  "isContextCause c =
     (case c of
        CauseWal e \<Rightarrow> isContextErr e
      | CauseTessera (TessCtx e) \<Rightarrow> True
      | CauseTessera _ \<Rightarrow> False)"

definition handleEntryError ::
  "('w, 'e, 'r) seqEnv \<Rightarrow> (nat \<Rightarrow> ctx) \<Rightarrow> u64 \<Rightarrow> hash \<Rightarrow> entry_cause \<Rightarrow> ('w, 'e, 'r) sequencer \<Rightarrow> ('w, 'e, 'r) sequencer" where
  "handleEntryError E cx now h cause s =
     (if isContextCause cause then s
      else if cause = CauseTessera ErrAppenderShutdown then sendFatal E (FatalInversion h) s
      else
        (case recordAttempt h s of
           (attempt, s1) \<Rightarrow>
             let s2 = s1\<lparr>q_m := (q_m s1)\<lparr>m_failures := m_failures (q_m s1) + 1\<rparr>\<rparr> in
             if attempt \<ge> cf_MaxAttempts (en_cfg E) then
               let s3 = s2\<lparr>q_m := (q_m s2)\<lparr>m_manualCount := m_manualCount (q_m s2) + 1\<rparr>\<rparr> in
               resetAttempts h (snd (walDo cx (\<lambda>x. qw_MarkManual (en_WAL E) x h) s3))
             else snd (walDo cx (\<lambda>x. qw_MarkRetry (en_WAL E) x now h) s2)))"

subsection \<open>The tuple\<close>

definition dispatchCommitmentSchema ::
  "('w, 'e, 'r) seqEnv \<Rightarrow> 'e \<Rightarrow> string + (hash \<times> string) option" where
  "dispatchCommitmentSchema E en =
     (let K = en_sdk E; payload = sdk_DomainPayload K en in
      if length payload = 0 then Inr None
      else
        (case sdk_schemaIDOf K payload of
           None \<Rightarrow> Inr None
         | Some sid \<Rightarrow>
             let parse = (\<lambda>fallback.
                   if sid = sdk_PREGrantSchemaID K
                   then bindE (sdk_ParsePREGrant K en) (\<lambda>split. Inr (Some (split, sdk_PREGrantSchemaID K)))
                   else if sid = sdk_EscrowSplitSchemaID K
                   then bindE (sdk_ParseEscrowSplit K en) (\<lambda>split. Inr (Some (split, sdk_EscrowSplitSchemaID K)))
                   else fallback) in
             (case en_registry E of
                Some R \<Rightarrow>
                  if \<not> reg_Has R sid then Inr None
                  else (case reg_ValidateEntry R sid en of
                          Some err \<Rightarrow> Inl err
                        | None \<Rightarrow> parse (Inl (''dispatchCommitmentSchema: '' @ sid @
                                            '' is registry-bound but has no SplitID parser'')))
              | None \<Rightarrow> parse (Inr None))))"

text \<open>Go's zero \<open>time.Time\<close> is the first of January of year 1; times are in microseconds since 1970.\<close>

definition zeroTime :: int where "zeroTime = - 62135596800000000"

definition buildLiveStagedEntry ::
  "('w, 'e, 'r) seqEnv \<Rightarrow> u64 \<Rightarrow> hash \<Rightarrow> 'e \<Rightarrow> (hash \<times> string) option \<Rightarrow> ('e, 'r) stagedEntry" where
  "buildLiveStagedEntry E s h en extracted =
     (let K = en_sdk E; payload = sdk_DomainPayload K en in
      \<lparr>st_Seq = s, st_Hash = h, st_Tombstone = False, st_Reason = [],
       st_Row =
         \<lparr>SequenceNumber = s, CanonicalHash = h,
          LogTime = (if sdk_EventTime K en \<noteq> 0 then sdk_EventTime K en else zeroTime),
          SignerDID = sdk_SignerDID K en,
          TargetRoot = map_option SerializeLogPosition (sdk_TargetRoot K en),
          CosignatureOf = map_option SerializeLogPosition (sdk_CosignatureOf K en),
          SchemaRef = map_option SerializeLogPosition (sdk_SchemaRef K en),
          DelegateDID = (case sdk_DelegateDID K en of None \<Rightarrow> [] | Some d \<Rightarrow> d),
          SourceLogDID = AnchorSourceLogDID (sdk_IsCosignedAnchor K) (sdk_anchorSource K) (Some payload),
          Kind = EntryKindProjection (sdk_kindOf K) (sdk_entryKinds K) (Some payload),
          Status = StatusLive, Web3ReceiptsBytes = None\<rparr>,
       st_HasSplitID = (extracted \<noteq> None),
       st_SplitID = (case extracted of None \<Rightarrow> 0 | Some (sp, _) \<Rightarrow> sp),
       st_SchemaID = (case extracted of None \<Rightarrow> [] | Some (_, sid) \<Rightarrow> sid),
       st_Entry = Some en, st_Web3Receipts = []\<rparr>)"

definition tombstoneEntry :: "int \<Rightarrow> u64 \<Rightarrow> hash \<Rightarrow> string \<Rightarrow> ('e, 'r) stagedEntry" where
  "tombstoneEntry now s h reason =
     \<lparr>st_Seq = s, st_Hash = h, st_Tombstone = True, st_Reason = reason,
      st_Row =
        \<lparr>SequenceNumber = s, CanonicalHash = h, LogTime = now, SignerDID = TombstoneSignerDID, TargetRoot = None,
         CosignatureOf = None, SchemaRef = None, DelegateDID = [], SourceLogDID = [], Kind = [],
         Status = StatusTombstone, Web3ReceiptsBytes = None\<rparr>,
      st_HasSplitID = False, st_SplitID = 0, st_SchemaID = [], st_Entry = None, st_Web3Receipts = []\<rparr>"

definition emitTuple :: "bool \<Rightarrow> ('e, 'r) stagedEntry \<Rightarrow> ('w, 'e, 'r) sequencer \<Rightarrow> ('w, 'e, 'r) sequencer" where
  "emitTuple sent e s = (if sent then s\<lparr>q_ch := q_ch s @ [e]\<rparr> else s)"

definition emitTombstone ::
  "bool \<Rightarrow> int \<Rightarrow> u64 \<Rightarrow> hash \<Rightarrow> string \<Rightarrow> ('w, 'e, 'r) sequencer \<Rightarrow> ('w, 'e, 'r) sequencer" where
  "emitTombstone sent now n h reason s = emitTuple sent (tombstoneEntry now n h reason) s"

subsection \<open>One entry\<close>

definition processBegin ::
  "('w, 'e, 'r) seqEnv \<Rightarrow> (nat \<Rightarrow> ctx) \<Rightarrow> u64 \<Rightarrow> hash \<Rightarrow> ('w, 'e, 'r) sequencer
     \<Rightarrow> ('e \<times> 'r Meta) option \<times> ('w, 'e, 'r) sequencer" where
  "processBegin E cx now h s =
     (case walAsk cx (\<lambda>x w. qw_MetaState (en_WAL E) x w h) s of
        (Inl er, s1) \<Rightarrow>
          if er = ErrNotFound then (None, resetAttempts h s1)
          else (None, s1\<lparr>q_m := (q_m s1)\<lparr>m_failures := m_failures (q_m s1) + 1\<rparr>\<rparr>)
      | (Inr meta, s1) \<Rightarrow>
          if State meta \<noteq> StatePending then (None, resetAttempts h s1)
          else
            (case walAsk cx (\<lambda>x w. qw_Read (en_WAL E) x w h) s1 of
               (Inl er, s2) \<Rightarrow> (None, handleEntryError E cx now h (CauseWal er) s2)
             | (Inr wire, s2) \<Rightarrow>
                 (case sdk_Deserialize (en_sdk E) wire of
                    Inl _ \<Rightarrow>
                      let s3 = s2\<lparr>q_m := (q_m s2)\<lparr>m_failures := m_failures (q_m s2) + 1,
                                                  m_manualCount := m_manualCount (q_m s2) + 1\<rparr>\<rparr> in
                      (None, resetAttempts h (snd (walDo cx (\<lambda>x. qw_MarkManual (en_WAL E) x h) s3)))
                  | Inr en \<Rightarrow>
                      let inFlight = m_tesseraInFlight (q_m s2) + 1 in
                      (Some (en, meta),
                       s2\<lparr>q_m := (q_m s2)\<lparr>m_tesseraInFlight := inFlight,
                                           m_tesseraInFlightHighWater :=
                                             max inFlight (m_tesseraInFlightHighWater (q_m s2))\<rparr>\<rparr>))))"

definition liveTuple ::
  "('w, 'e, 'r) seqEnv \<Rightarrow> u64 \<Rightarrow> hash \<Rightarrow> 'e \<Rightarrow> 'r Meta \<Rightarrow> (hash \<times> string) option \<Rightarrow> ('e, 'r) stagedEntry" where
  "liveTuple E n h en meta extracted =
     (let tuple = (buildLiveStagedEntry E n h en extracted)\<lparr>st_Web3Receipts := Web3Receipts meta\<rparr> in
      if Web3Receipts meta \<noteq> []
      then (case EncodeEntryWeb3Receipts (sdk_receipts (en_sdk E)) (Web3Receipts meta) of
              Inl _ \<Rightarrow> tuple
            | Inr encoded \<Rightarrow> tuple\<lparr>st_Row := (st_Row tuple)\<lparr>Web3ReceiptsBytes := encoded\<rparr>\<rparr>)
      else tuple)"

definition processAppend ::
  "('w, 'e, 'r) seqEnv \<Rightarrow> (nat \<Rightarrow> ctx) \<Rightarrow> u64 \<Rightarrow> int \<Rightarrow> bool \<Rightarrow> hash \<Rightarrow> 'e \<Rightarrow> 'r Meta \<Rightarrow> tess_error + u64
     \<Rightarrow> ('w, 'e, 'r) sequencer \<Rightarrow> ('w, 'e, 'r) sequencer" where
  "processAppend E cx now clock sent h en meta res s =
     (let s1 = s\<lparr>q_m := (q_m s)\<lparr>m_tesseraInFlight := m_tesseraInFlight (q_m s) - 1\<rparr>\<rparr> in
      case res of
        Inl er \<Rightarrow> handleEntryError E cx now h (CauseTessera er) s1
      | Inr n \<Rightarrow>
          (case dispatchCommitmentSchema E en of
             Inl err \<Rightarrow> emitTombstone sent clock n h (''dispatchCommitmentSchema: '' @ err) s1
           | Inr extracted \<Rightarrow> emitTuple sent (liveTuple E n h en meta extracted) s1))"

subsection \<open>A drain cycle\<close>

definition errCycleBudget :: wal_error where
  "errCycleBudget = WCallback ''sequencer: per-cycle work budget exhausted''"

text \<open>
  The readings of the context: \<open>dx_iter\<close> by the WAL's iterator, \<open>dx_fn\<close> at the start of
  the callback, \<open>dx_sem\<close> when the wait for a worker slot ended because the context did.
\<close>

record drainCtx =
  dx_start :: ctx
  dx_iter :: "drain \<Rightarrow> ctx"
  dx_fn :: "drain \<Rightarrow> ctx"
  dx_sem :: "drain \<Rightarrow> ctx"

definition drainCallback :: "SeqConfig \<Rightarrow> drainCtx \<Rightarrow> drain \<Rightarrow> hash \<Rightarrow> wal_error option \<times> drain" where
  "drainCallback cfg X d h =
     (case dx_fn X d of
        Some e \<Rightarrow> (Some (WCtx e), d)
      | None \<Rightarrow>
          if cf_MaxEntriesPerCycle cfg > 0 \<and> int (dr_dispatched d) \<ge> cf_MaxEntriesPerCycle cfg
          then (Some errCycleBudget, d)
          else
            let d1 = d\<lparr>dr_dispatched := dr_dispatched d + 1\<rparr> in
            (case dx_sem X d1 of
               Some e \<Rightarrow> (Some (WCtx e), d1)
             | None \<Rightarrow> (None, d1\<lparr>dr_hashes := dr_hashes d1 @ [h]\<rparr>)))"

datatype lag_result = LagCtx ctx_error | LagErr string | LagVal int

text \<open>
  The result of \<open>drainOnce\<close> is the list of hashes handed to workers, at most
  \<open>MaxInFlight\<close> of which run at a time; the function returns when they are all done.
  \<open>lag\<close> is the reading of the lag reader, when one is wired in.
\<close>

definition drainOnce ::
  "('w, 'e, 'r) seqEnv \<Rightarrow> drainCtx \<Rightarrow> lag_result option \<Rightarrow> ('w, 'e, 'r) sequencer \<Rightarrow> hash list \<times> ('w, 'e, 'r) sequencer" where
  "drainOnce E X lag s =
     (if dx_start X \<noteq> None then ([], s)
      else
        let cfg = en_cfg E;
            s1 = s\<lparr>q_m := (q_m s)\<lparr>m_drainCycles := m_drainCycles (q_m s) + 1\<rparr>\<rparr>;
            iterate =
              (if cf_MaxCommitterHeapSize cfg > 0 \<and> int (heapLen s1) \<ge> cf_MaxCommitterHeapSize cfg
               then ([], s1\<lparr>q_m := (q_m s1)\<lparr>m_committerHeapStalls := m_committerHeapStalls (q_m s1) + 1\<rparr>\<rparr>)
               else
                 (case qw_IterateInflight (en_WAL E) (dx_iter X) (drainCallback cfg X) \<lparr>dr_dispatched = 0, dr_hashes = []\<rparr> (q_wal s1) of
                    (_, d) \<Rightarrow> (dr_hashes d, s1\<lparr>q_m := (q_m s1)\<lparr>m_currentLag := int (dr_dispatched d)\<rparr>\<rparr>))) in
        (case lag of
           None \<Rightarrow> iterate
         | Some l \<Rightarrow>
             if cf_MaxBuilderLag cfg = 0 then iterate
             else
               (case l of
                  LagCtx e \<Rightarrow> ([], s1)
                | LagErr e \<Rightarrow> iterate
                | LagVal n \<Rightarrow>
                    if (word_of_int n :: u64) \<ge> cf_MaxBuilderLag cfg
                    then ([], s1\<lparr>q_m := (q_m s1)\<lparr>m_backpressureStalls := m_backpressureStalls (q_m s1) + 1\<rparr>\<rparr>)
                    else iterate)))"

definition isUniqueViolation :: "string option \<Rightarrow> bool" where
  "isUniqueViolation err =
     (case err of
        None \<Rightarrow> False
      | Some msg \<Rightarrow> (\<exists>marker \<in> set [''23505'', ''duplicate key value'', ''UNIQUE constraint'']. sublist marker msg))"

end
