(* ===== verification/EntryIndexSpec.thy ===== *)
theory EntryIndexSpec
  imports EntryIndex
begin

section \<open>The entry index: what a batch insert leaves behind\<close>

text \<open>
  \<open>index_inv\<close> is the table's invariant: unique sequence numbers, at most one primary row
  per hash, and every ghost row has a primary to redirect to.  \<open>InsertBatch_outcome\<close>
  gives the exact new table and report of a batch with pairwise different hashes; the
  properties at the end follow from it: no assigned sequence number is left without a row, the
  report adds up, a retried batch changes nothing, and a ghost always resolves.
\<close>

definition primary_hashes :: "index_row list \<Rightarrow> hash set" where
  "primary_hashes t = c_hash ` {q \<in> set t. is_primary q}"

definition index_inv :: "index_row list \<Rightarrow> bool" where
  "index_inv t \<longleftrightarrow>
     distinct (map c_seq t) \<and> distinct (map c_hash (filter is_primary t))
     \<and> (\<forall>q\<in>set t. row_check q = None \<and> c_hash q \<in> primary_hashes t)"

definition primary_rows :: "EntryRow list \<Rightarrow> bool" where
  "primary_rows rows \<longleftrightarrow> (\<forall>r\<in>set rows. Status r \<noteq> StatusGhostLeaf)"

lemma primary_hashes_simps [simp]:
  "primary_hashes [] = {}" "primary_hashes (t @ u) = primary_hashes t \<union> primary_hashes u"
  by (auto simp: primary_hashes_def)

lemma primary_hashes_Cons [simp]:
  "primary_hashes (q # t) = (if is_primary q then {c_hash q} else {}) \<union> primary_hashes t"
  by (auto simp: primary_hashes_def)

lemma primary_hashes_set: "primary_hashes t = c_hash ` set (filter is_primary t)"
  by (simp add: primary_hashes_def)

lemma hash_taken_iff [simp]: "hash_taken t r \<longleftrightarrow> is_primary r \<and> c_hash r \<in> primary_hashes t"
  unfolding hash_taken_def primary_hashes_def by (metis (mono_tags, lifting) image_iff mem_Collect_eq)

lemma row_of_simps [simp]:
  "c_seq (row_of r) = SequenceNumber r" "c_hash (row_of r) = CanonicalHash r"
  "c_status (row_of r) = Status r" "is_primary (row_of r) \<longleftrightarrow> Status r \<noteq> StatusGhostLeaf"
  by (simp_all add: row_of_def is_primary_def)

lemma ghost_row_simps [simp]:
  "c_seq (ghost_row n c) = AttemptedSeq c" "c_hash (ghost_row n c) = HC_CanonicalHash c"
  "\<not> is_primary (ghost_row n c)" "row_check (ghost_row n c) = None"
  by (simp_all add: ghost_row_def is_primary_def row_check_def GhostSignerDID_def)

subsection \<open>One statement\<close>

text \<open>The rows the statement adds, when the hashes are pairwise different.\<close>

definition fresh_rows :: "index_row list \<Rightarrow> index_row list \<Rightarrow> index_row list" where
  "fresh_rows t rs = filter (\<lambda>r. c_hash r \<notin> primary_hashes t) rs"

lemma fresh_rows_snoc: "c_hash r \<notin> c_hash ` set rs \<Longrightarrow> fresh_rows (t @ [r]) rs = fresh_rows t rs"
  unfolding fresh_rows_def by (rule filter_cong [OF refl]) (auto, metis imageI)

lemma insertOnHash_fresh:
  "\<lbrakk>insertOnHash rs t = Inr (t', ret); distinct (map c_hash rs); \<forall>r\<in>set rs. is_primary r\<rbrakk> \<Longrightarrow>
     t' = t @ fresh_rows t rs \<and> ret = map (\<lambda>r. (c_seq r, c_hash r)) (fresh_rows t rs)
     \<and> (\<forall>r\<in>set rs. row_check r = None)
     \<and> distinct (map c_seq (fresh_rows t rs)) \<and> c_seq ` set (fresh_rows t rs) \<inter> c_seq ` set t = {}"
proof (induction rs arbitrary: t t' ret)
  case Nil
  then show ?case by (simp add: fresh_rows_def)
next
  case (Cons r rs)
  have ok: "row_check r = None" using Cons.prems(1) by (auto split: option.splits)
  show ?case
  proof (cases "c_hash r \<in> primary_hashes t")
    case True
    then have "insertOnHash rs t = Inr (t', ret)" using Cons.prems ok by simp
    from Cons.IH [OF this] True ok Cons.prems show ?thesis by (simp add: fresh_rows_def)
  next
    case False
    then have "\<not> seq_taken t r" and "\<exists>ret'. insertOnHash rs (t @ [r]) = Inr (t', ret') \<and> ret = (c_seq r, c_hash r) # ret'"
      using Cons.prems(1) ok by (auto simp: insertRow_def bindE_eq_Inr split: if_splits)
    then obtain ret' where rec: "insertOnHash rs (t @ [r]) = Inr (t', ret')" "ret = (c_seq r, c_hash r) # ret'" by blast
    have same: "fresh_rows (t @ [r]) rs = fresh_rows t rs"
      using Cons.prems(2) by (intro fresh_rows_snoc) simp
    have head: "fresh_rows t (r # rs) = r # fresh_rows t rs" using False by (simp add: fresh_rows_def)
    from Cons.IH [OF rec(1)] Cons.prems(2,3) rec(2) ok \<open>\<not> seq_taken t r\<close> show ?thesis
      unfolding same head by (auto simp: seq_taken_def)
  qed
qed

lemma insertOnHash_ok:
  "\<lbrakk>distinct (map c_hash rs); \<forall>r\<in>set rs. is_primary r \<and> row_check r = None;
    distinct (map c_seq (fresh_rows t rs)); c_seq ` set (fresh_rows t rs) \<inter> c_seq ` set t = {}\<rbrakk> \<Longrightarrow>
     insertOnHash rs t = Inr (t @ fresh_rows t rs, map (\<lambda>r. (c_seq r, c_hash r)) (fresh_rows t rs))"
proof (induction rs arbitrary: t)
  case Nil
  then show ?case by (simp add: fresh_rows_def)
next
  case (Cons r rs)
  show ?case
  proof (cases "c_hash r \<in> primary_hashes t")
    case True
    then have "fresh_rows t (r # rs) = fresh_rows t rs" by (simp add: fresh_rows_def)
    then show ?thesis using Cons True by simp
  next
    case False
    then have head: "fresh_rows t (r # rs) = r # fresh_rows t rs" by (simp add: fresh_rows_def)
    have same: "fresh_rows (t @ [r]) rs = fresh_rows t rs"
      using Cons.prems(1) by (intro fresh_rows_snoc) simp
    have free: "\<not> seq_taken t r" using Cons.prems(4) head by (auto simp: seq_taken_def)
    have "insertOnHash rs (t @ [r]) = Inr ((t @ [r]) @ fresh_rows t rs, map (\<lambda>r. (c_seq r, c_hash r)) (fresh_rows t rs))"
      using Cons.IH [of "t @ [r]"] Cons.prems head unfolding same by auto
    then show ?thesis using Cons.prems(2) False free head by (simp add: insertRow_def)
  qed
qed

lemma insertOnSeq_ghosts:
  "\<forall>r\<in>set rs. \<not> is_primary r \<and> row_check r = None \<Longrightarrow>
     \<exists>new. insertOnSeq rs t = Inr (t @ new) \<and> set new \<subseteq> set rs
       \<and> distinct (map c_seq new) \<and> c_seq ` set new \<inter> c_seq ` set t = {}
       \<and> c_seq ` set rs \<subseteq> c_seq ` set (t @ new)"
proof (induction rs arbitrary: t)
  case Nil
  then show ?case by simp
next
  case (Cons r rs)
  show ?case
  proof (cases "seq_taken t r")
    case True
    from Cons.IH [of t] Cons.prems obtain new where
      "insertOnSeq rs t = Inr (t @ new)" "set new \<subseteq> set rs" "distinct (map c_seq new)"
      "c_seq ` set new \<inter> c_seq ` set t = {}" "c_seq ` set rs \<subseteq> c_seq ` set (t @ new)" by auto
    with True Cons.prems show ?thesis by (intro exI [of _ new]) (auto simp: seq_taken_def)
  next
    case False
    from Cons.IH [of "t @ [r]"] Cons.prems obtain new where
      "insertOnSeq rs (t @ [r]) = Inr ((t @ [r]) @ new)" "set new \<subseteq> set rs" "distinct (map c_seq new)"
      "c_seq ` set new \<inter> c_seq ` set (t @ [r]) = {}" "c_seq ` set rs \<subseteq> c_seq ` set ((t @ [r]) @ new)"
      by auto
    with False Cons.prems show ?thesis
      by (intro exI [of _ "r # new"]) (auto simp: insertRow_def seq_taken_def)
  qed
qed

subsection \<open>Classifying the skipped rows\<close>

lemma lookup_row_distinct:
  "distinct (map CanonicalHash rows) \<Longrightarrow> r \<in> set rows \<Longrightarrow> lookup_row rows (CanonicalHash r) = Some r"
  by (simp add: lookup_row_def map_of_eq_Some_iff comp_def rev_map [symmetric] del: rev_map)

definition replays :: "EntryRow list \<Rightarrow> (u64 \<times> hash) list \<Rightarrow> (u64 \<times> hash) list" where
  "replays rows ex = filter (\<lambda>(s, h). map_option SequenceNumber (lookup_row rows h) = Some s) ex"

definition collisions :: "EntryRow list \<Rightarrow> (u64 \<times> hash) list \<Rightarrow> HashCollision list" where
  "collisions rows ex =
     map (\<lambda>(s, h). \<lparr>AttemptedSeq = SequenceNumber (the (lookup_row rows h)), HC_CanonicalHash = h, ExistingSeq = s\<rparr>)
       (filter (\<lambda>(s, h). lookup_row rows h \<noteq> None \<and> map_option SequenceNumber (lookup_row rows h) \<noteq> Some s) ex)"

lemma classifySkips_eq:
  "classifySkips rows ex res =
     res\<lparr>SeqReplays := SeqReplays res + length (replays rows ex),
         HashCollisions := HashCollisions res @ collisions rows ex\<rparr>"
  by (induction rows ex res rule: classifySkips.induct)
    (auto simp: replays_def collisions_def split: option.splits)

lemma replays_collisions_length:
  "\<forall>(s, h)\<in>set ex. lookup_row rows h \<noteq> None \<Longrightarrow>
     length (replays rows ex) + length (collisions rows ex) = length ex"
proof -
  assume *: "\<forall>(s, h)\<in>set ex. lookup_row rows h \<noteq> None"
  let ?P = "\<lambda>(s, h). map_option SequenceNumber (lookup_row rows h) = Some s"
  have "filter (\<lambda>(s, h). lookup_row rows h \<noteq> None \<and> map_option SequenceNumber (lookup_row rows h) \<noteq> Some s) ex
      = filter (\<lambda>p. \<not> ?P p) ex"
    using * by (intro filter_cong) auto
  then show ?thesis
    using sum_length_filter_compl [of ?P ex] by (simp add: replays_def collisions_def)
qed

subsection \<open>The whole batch\<close>

definition new_rows :: "index_row list \<Rightarrow> EntryRow list \<Rightarrow> EntryRow list" where
  "new_rows t rows = filter (\<lambda>r. CanonicalHash r \<notin> primary_hashes t) rows"

definition old_rows :: "index_row list \<Rightarrow> EntryRow list \<Rightarrow> EntryRow list" where
  "old_rows t rows = filter (\<lambda>r. CanonicalHash r \<in> primary_hashes t) rows"

definition found :: "index_row list \<Rightarrow> EntryRow list \<Rightarrow> (u64 \<times> hash) list" where
  "found t rows = primarySelect t (map CanonicalHash (old_rows t rows))"

definition batch_report :: "index_row list \<Rightarrow> EntryRow list \<Rightarrow> InsertBatchResult" where
  "batch_report t rows =
     \<lparr>Inserted = length (new_rows t rows), SeqReplays = length (replays (old_rows t rows) (found t rows)),
      HashCollisions = collisions (old_rows t rows) (found t rows)\<rparr>"

lemma fresh_rows_map: "fresh_rows t (map row_of rows) = map row_of (new_rows t rows)"
  by (simp add: fresh_rows_def new_rows_def filter_map comp_def)

lemma rows_split: "length (new_rows t rows) + length (old_rows t rows) = length rows"
  using sum_length_filter_compl [of "\<lambda>r. CanonicalHash r \<in> primary_hashes t" rows]
  by (simp add: new_rows_def old_rows_def)

lemma distinct_rows:
  assumes "distinct (map CanonicalHash rows)"
  shows "distinct (map CanonicalHash (new_rows t rows))" "distinct (map CanonicalHash (old_rows t rows))"
  using assms by (simp_all add: new_rows_def old_rows_def distinct_map_filter)

lemma found_after:
  "primarySelect (t @ map row_of (new_rows t rows)) (map CanonicalHash (old_rows t rows)) = found t rows"
  by (auto simp: found_def primarySelect_def filter_empty_conv new_rows_def old_rows_def)

lemma skipped_rows:
  "filter (\<lambda>r. CanonicalHash r \<notin> set (map CanonicalHash (new_rows t rows))) rows = old_rows t rows"
  unfolding old_rows_def new_rows_def by (rule filter_cong) auto

lemma InsertBatch_outcome:
  assumes run: "InsertBatch P rows t = Inr (res, t')"
    and d: "distinct (map CanonicalHash rows)" and p: "primary_rows rows"
  shows "res = batch_report t rows"
    and "(\<forall>r\<in>set rows. row_check (row_of r) = None)"
    and "distinct (map SequenceNumber (new_rows t rows))"
    and "SequenceNumber ` set (new_rows t rows) \<inter> c_seq ` set t = {}"
    and "insertOnSeq (map (ghost_row (pe_now P)) (HashCollisions res)) (t @ map row_of (new_rows t rows)) = Inr t'"
proof -
  let ?t1 = "t @ map row_of (new_rows t rows)"
  have props: "res = batch_report t rows \<and> (\<forall>r\<in>set rows. row_check (row_of r) = None)
    \<and> distinct (map SequenceNumber (new_rows t rows)) \<and> SequenceNumber ` set (new_rows t rows) \<inter> c_seq ` set t = {}
    \<and> insertOnSeq (map (ghost_row (pe_now P)) (HashCollisions res)) ?t1 = Inr t'"
  proof (cases "rows = []")
    case True
    then show ?thesis using run
      by (auto simp: InsertBatch_def batch_report_def new_rows_def old_rows_def found_def primarySelect_def
          replays_def collisions_def)
  next
    case False
    obtain t1 ret where one: "insertOnHash (map row_of rows) t = Inr (t1, ret)"
      using run False by (auto simp: InsertBatch_def bindE_eq_Inr pg_run_def split: option.splits)
    from insertOnHash_fresh [OF one] d p
    have t1: "t1 = ?t1" and ret: "map snd ret = map CanonicalHash (new_rows t rows)"
      and ok: "\<forall>r\<in>set rows. row_check (row_of r) = None"
      and ds: "distinct (map SequenceNumber (new_rows t rows))"
      and dj: "SequenceNumber ` set (new_rows t rows) \<inter> c_seq ` set t = {}"
      by (auto simp: fresh_rows_map primary_rows_def comp_def image_image)
    have rd: "remdups (map snd ret) = map CanonicalHash (new_rows t rows)"
      using distinct_rows(1) [OF d] by (simp add: ret distinct_remdups_id)
    show ?thesis
    proof (cases "old_rows t rows = []")
      case old: True
      then have "res = \<lparr>Inserted = length rows, SeqReplays = 0, HashCollisions = []\<rparr> \<and> t' = t1"
        using run False one rd rows_split [of t rows]
        by (auto simp: InsertBatch_def bindE_eq_Inr pg_run_def Let_def split: option.splits)
      then show ?thesis using old ok ds dj rows_split [of t rows]
        by (simp add: batch_report_def found_def primarySelect_def replays_def collisions_def t1)
    next
      case old: False
      have "res = batch_report t rows \<and> insertOnSeq (map (ghost_row (pe_now P)) (HashCollisions res)) ?t1 = Inr t'"
        using run False one rd rows_split [of t rows] old
        by (auto simp: InsertBatch_def bindE_eq_Inr pg_run_def Let_def classifySkips_eq skipped_rows [unfolded set_map]
            found_after t1 batch_report_def split: option.splits if_splits)
      then show ?thesis using ok ds dj by blast
    qed
  qed
  then show "res = batch_report t rows" "(\<forall>r\<in>set rows. row_check (row_of r) = None)"
    "distinct (map SequenceNumber (new_rows t rows))"
    "SequenceNumber ` set (new_rows t rows) \<inter> c_seq ` set t = {}"
    "insertOnSeq (map (ghost_row (pe_now P)) (HashCollisions res)) ?t1 = Inr t'"
    by blast+
qed

lemma map_of_mem: "distinct (map c_hash (filter is_primary t)) \<Longrightarrow> q \<in> set t \<Longrightarrow> is_primary q \<Longrightarrow>
    q' \<in> set t \<Longrightarrow> is_primary q' \<Longrightarrow> c_hash q = c_hash q' \<Longrightarrow> q = q'"
  by (rule distinct_map_eq [of c_hash "filter is_primary t"]) auto

lemma found_hashes:
  assumes "distinct (map c_hash (filter is_primary t))"
  shows "distinct (map snd (found t rows))" "set (map snd (found t rows)) = CanonicalHash ` set (old_rows t rows)"
proof -
  have eq: "map snd (found t rows) = map c_hash (filter (\<lambda>q. c_hash q \<in> CanonicalHash ` set (old_rows t rows)) (filter is_primary t))"
    by (simp add: found_def primarySelect_def conj_commute)
  show "distinct (map snd (found t rows))" unfolding eq by (rule distinct_map_filter [OF assms])
  show "set (map snd (found t rows)) = CanonicalHash ` set (old_rows t rows)"
  proof (intro equalityI subsetI)
    fix h assume "h \<in> CanonicalHash ` set (old_rows t rows)"
    then obtain r q where "r \<in> set (old_rows t rows)" "q \<in> set t" "is_primary q" "c_hash q = h" "CanonicalHash r = h"
      by (auto simp: old_rows_def primary_hashes_def)
    then show "h \<in> set (map snd (found t rows))"
      by (auto simp: found_def primarySelect_def image_iff intro!: exI [of _ q] bexI [of _ r])
  qed (auto simp: found_def primarySelect_def)
qed

lemma found_length:
  assumes "distinct (map c_hash (filter is_primary t))" "distinct (map CanonicalHash rows)"
  shows "length (found t rows) = length (old_rows t rows)"
proof -
  have "length (found t rows) = card (set (map snd (found t rows)))"
    using found_hashes(1) [OF assms(1), of rows] by (metis distinct_card length_map)
  also have "\<dots> = card (set (map CanonicalHash (old_rows t rows)))"
    using found_hashes(2) [OF assms(1)] by simp
  also have "\<dots> = length (old_rows t rows)"
    using distinct_rows(2) [OF assms(2), of t] by (metis distinct_card length_map)
  finally show ?thesis .
qed

lemma found_lookup:
  "distinct (map c_hash (filter is_primary t)) \<Longrightarrow> distinct (map CanonicalHash rows) \<Longrightarrow>
    (s, h) \<in> set (found t rows) \<Longrightarrow>
    \<exists>r\<in>set (old_rows t rows). CanonicalHash r = h \<and> lookup_row (old_rows t rows) h = Some r"
proof -
  assume a: "distinct (map c_hash (filter is_primary t))" "distinct (map CanonicalHash rows)" "(s, h) \<in> set (found t rows)"
  have "h \<in> CanonicalHash ` set (old_rows t rows)" using found_hashes(2) [OF a(1)] a(3) by force
  then obtain r where r: "r \<in> set (old_rows t rows)" "CanonicalHash r = h" by auto
  then show ?thesis using lookup_row_distinct [OF distinct_rows(2) [OF a(2)] r(1)] by blast
qed

lemma batch_report_total:
  assumes "distinct (map c_hash (filter is_primary t))" "distinct (map CanonicalHash rows)"
  shows "Inserted (batch_report t rows) + SeqReplays (batch_report t rows)
     + length (HashCollisions (batch_report t rows)) = length rows"
proof -
  have "\<forall>(s, h)\<in>set (found t rows). lookup_row (old_rows t rows) h \<noteq> None"
    using found_lookup [OF assms] by fastforce
  from replays_collisions_length [OF this] show ?thesis
    using rows_split [of t rows] found_length [OF assms] by (simp add: batch_report_def)
qed

lemma batch_report_collisions:
  assumes "distinct (map c_hash (filter is_primary t))" "distinct (map CanonicalHash rows)"
  shows "set (HashCollisions (batch_report t rows)) =
    {\<lparr>AttemptedSeq = SequenceNumber r, HC_CanonicalHash = CanonicalHash r, ExistingSeq = c_seq q\<rparr> |r q.
       r \<in> set rows \<and> q \<in> set t \<and> is_primary q \<and> c_hash q = CanonicalHash r \<and> c_seq q \<noteq> SequenceNumber r}"
    (is "_ = ?R")
proof (intro set_eqI iffI)
  fix c assume "c \<in> set (HashCollisions (batch_report t rows))"
  then obtain s h where sh: "(s, h) \<in> set (found t rows)"
    and ne: "map_option SequenceNumber (lookup_row (old_rows t rows) h) \<noteq> Some s"
    and c: "c = \<lparr>AttemptedSeq = SequenceNumber (the (lookup_row (old_rows t rows) h)), HC_CanonicalHash = h, ExistingSeq = s\<rparr>"
    by (auto simp: batch_report_def collisions_def)
  obtain r where r: "r \<in> set (old_rows t rows)" "CanonicalHash r = h" "lookup_row (old_rows t rows) h = Some r"
    using found_lookup [OF assms sh] by blast
  obtain q where q: "q \<in> set t" "is_primary q" "c_hash q = h" "c_seq q = s"
    using sh by (auto simp: found_def primarySelect_def)
  have "r \<in> set rows" "c_seq q \<noteq> SequenceNumber r" "c_hash q = CanonicalHash r"
    "c = \<lparr>AttemptedSeq = SequenceNumber r, HC_CanonicalHash = CanonicalHash r, ExistingSeq = c_seq q\<rparr>"
    using r q ne c by (auto simp: old_rows_def)
  then show "c \<in> ?R" using q(1,2) by blast
next
  fix c assume "c \<in> ?R"
  then obtain r q where r: "r \<in> set rows" and q: "q \<in> set t" "is_primary q" "c_hash q = CanonicalHash r"
    "c_seq q \<noteq> SequenceNumber r"
    and c: "c = \<lparr>AttemptedSeq = SequenceNumber r, HC_CanonicalHash = CanonicalHash r, ExistingSeq = c_seq q\<rparr>"
    by blast
  have old: "r \<in> set (old_rows t rows)"
    using r q by (auto simp: old_rows_def primary_hashes_def image_iff)
  then have look: "lookup_row (old_rows t rows) (CanonicalHash r) = Some r"
    by (rule lookup_row_distinct [OF distinct_rows(2) [OF assms(2)]])
  have "(c_seq q, CanonicalHash r) \<in> set (found t rows)"
    using q old by (auto simp: found_def primarySelect_def intro!: image_eqI [of _ _ q])
  then show "c \<in> set (HashCollisions (batch_report t rows))"
    using look q c by (auto simp: batch_report_def collisions_def intro!: image_eqI [of _ _ "(c_seq q, CanonicalHash r)"])
qed

subsection \<open>The table after a batch\<close>

lemma index_inv_append_new:
  assumes "index_inv t" "distinct (map CanonicalHash rows)" "primary_rows rows"
    "\<forall>r\<in>set rows. row_check (row_of r) = None" "distinct (map SequenceNumber (new_rows t rows))"
    "SequenceNumber ` set (new_rows t rows) \<inter> c_seq ` set t = {}"
  shows "index_inv (t @ map row_of (new_rows t rows))"
proof -
  let ?n = "map row_of (new_rows t rows)"
  have prim: "\<forall>q\<in>set ?n. is_primary q" using assms(3) by (auto simp: new_rows_def primary_rows_def)
  have fp: "filter is_primary ?n = ?n" using prim by (simp add: filter_id_conv)
  have "c_hash ` set ?n \<inter> primary_hashes t = {}" by (auto simp: new_rows_def)
  then have dh: "distinct (map c_hash (filter is_primary (t @ ?n)))"
    using assms(1) distinct_rows(1) [OF assms(2), of t] unfolding filter_append fp
    by (simp add: index_inv_def comp_def primary_hashes_set Int_commute image_image)
  have ds: "distinct (map c_seq (t @ ?n))"
    using assms(1,5,6) by (auto simp: index_inv_def comp_def)
  have "c_hash q \<in> primary_hashes ?n" if "q \<in> set ?n" for q
    using that prim by (auto simp: primary_hashes_def)
  moreover have "\<forall>q\<in>set ?n. row_check q = None" using assms(4) by (auto simp: new_rows_def)
  ultimately show ?thesis using assms(1) dh ds unfolding index_inv_def by auto
qed

lemma index_inv_append_ghosts:
  assumes "index_inv t" "\<forall>g\<in>set new. \<not> is_primary g \<and> row_check g = None \<and> c_hash g \<in> primary_hashes t"
    "distinct (map c_seq new)" "c_seq ` set new \<inter> c_seq ` set t = {}"
  shows "index_inv (t @ new)"
proof -
  have "filter is_primary new = []" using assms(2) by (simp add: filter_empty_conv)
  then show ?thesis using assms unfolding index_inv_def by (auto simp del: disjoint_iff)
qed

lemma InsertBatch_table:
  assumes run: "InsertBatch P rows t = Inr (res, t')"
    and d: "distinct (map CanonicalHash rows)" and p: "primary_rows rows" and inv: "index_inv t"
  obtains gs where "t' = t @ map row_of (new_rows t rows) @ gs"
    "\<forall>g\<in>set gs. \<not> is_primary g \<and> c_signer g = GhostSignerDID \<and> c_hash g \<in> primary_hashes t"
    "index_inv t'" "c_seq ` set t' = c_seq ` set t \<union> SequenceNumber ` set rows"
proof -
  let ?t1 = "t @ map row_of (new_rows t rows)"
  note out = InsertBatch_outcome [OF run d p]
  have dh: "distinct (map c_hash (filter is_primary t))" using inv by (simp add: index_inv_def)
  note col = batch_report_collisions [OF dh d, folded out(1)]
  have gh: "\<forall>r\<in>set (map (ghost_row (pe_now P)) (HashCollisions res)). \<not> is_primary r \<and> row_check r = None"
    by auto
  from insertOnSeq_ghosts [OF gh, of ?t1] out(5) obtain gs where
    gs: "t' = ?t1 @ gs" "set gs \<subseteq> ghost_row (pe_now P) ` set (HashCollisions res)" "distinct (map c_seq gs)"
      "c_seq ` set gs \<inter> c_seq ` set ?t1 = {}" "AttemptedSeq ` set (HashCollisions res) \<subseteq> c_seq ` set (?t1 @ gs)"
    by (auto simp: image_image)
  have hc: "HC_CanonicalHash c \<in> primary_hashes t" if "c \<in> set (HashCollisions res)" for c
    using that unfolding col by (auto simp: primary_hashes_def image_iff)
  have props: "\<forall>g\<in>set gs. \<not> is_primary g \<and> row_check g = None \<and> c_hash g \<in> primary_hashes ?t1"
    using gs(2) hc by auto
  have inv': "index_inv t'" unfolding gs(1)
    by (rule index_inv_append_ghosts [OF index_inv_append_new [OF inv d p out(2-4)] props gs(3,4)])
  have sub: "c_seq ` set gs \<subseteq> SequenceNumber ` set rows"
    using gs(2) unfolding col by auto
  have cover: "SequenceNumber r \<in> c_seq ` set t'" if r: "r \<in> set rows" for r
  proof (cases "CanonicalHash r \<in> primary_hashes t")
    case True
    then obtain q where q: "q \<in> set t" "is_primary q" "c_hash q = CanonicalHash r"
      by (auto simp: primary_hashes_def)
    show ?thesis
    proof (cases "c_seq q = SequenceNumber r")
      case True
      then show ?thesis using q unfolding gs(1) by (metis UnCI image_eqI set_append)
    next
      case False
      then have "\<lparr>AttemptedSeq = SequenceNumber r, HC_CanonicalHash = CanonicalHash r, ExistingSeq = c_seq q\<rparr> \<in> set (HashCollisions res)"
        unfolding col using r q by blast
      then show ?thesis using gs(5) unfolding gs(1) by force
    qed
  next
    case False
    then have "row_of r \<in> set t'" using r unfolding gs(1) by (simp add: new_rows_def)
    then show ?thesis by (metis image_eqI row_of_simps(1))
  qed
  have "c_seq ` set t' = c_seq ` set t \<union> SequenceNumber ` set rows"
    using cover sub unfolding gs(1) by (auto simp: new_rows_def)
  moreover have "\<forall>g\<in>set gs. \<not> is_primary g \<and> c_signer g = GhostSignerDID \<and> c_hash g \<in> primary_hashes t"
    using gs(2) hc by (auto simp: ghost_row_def is_primary_def)
  ultimately show thesis using gs(1) inv' by (intro that [of gs]) simp_all
qed

lemma InsertBatch_ghost_hash:
  assumes run: "InsertBatch P rows t = Inr (res, t')"
    and d: "distinct (map CanonicalHash rows)" and p: "primary_rows rows" and inv: "index_inv t"
    and t': "t' = t @ map row_of (new_rows t rows) @ gs" and g: "g \<in> set gs"
  shows "\<exists>r\<in>set rows. c_seq g = SequenceNumber r \<and> c_hash g = CanonicalHash r"
proof -
  let ?ghosts = "map (ghost_row (pe_now P)) (HashCollisions res)"
  note out = InsertBatch_outcome [OF run d p]
  have dh: "distinct (map c_hash (filter is_primary t))" using inv by (simp add: index_inv_def)
  have "\<forall>r\<in>set ?ghosts. \<not> is_primary r \<and> row_check r = None" by simp
  from insertOnSeq_ghosts [OF this, of "t @ map row_of (new_rows t rows)"] out(5) t'
  have "set gs \<subseteq> set ?ghosts" by auto
  then obtain c where c: "c \<in> set (HashCollisions res)" "g = ghost_row (pe_now P) c" using g by auto
  then show ?thesis unfolding out(1) batch_report_collisions [OF dh d] by auto
qed

lemma InsertBatch_calm:
  assumes calm: "pg_calm P" and d: "distinct (map CanonicalHash rows)" and p: "primary_rows rows"
    and ok: "\<forall>r\<in>set rows. row_check (row_of r) = None"
    and ds: "distinct (map SequenceNumber (new_rows t rows))"
    and dj: "SequenceNumber ` set (new_rows t rows) \<inter> c_seq ` set t = {}"
    and gs: "insertOnSeq (map (ghost_row (pe_now P)) (HashCollisions (batch_report t rows)))
               (t @ map row_of (new_rows t rows)) = Inr t'"
  shows "InsertBatch P rows t = Inr (batch_report t rows, t')"
proof (cases "rows = []")
  case True
  then show ?thesis using gs
    by (simp add: InsertBatch_def batch_report_def new_rows_def old_rows_def found_def primarySelect_def
        replays_def collisions_def)
next
  case False
  have one: "insertOnHash (map row_of rows) t
      = Inr (t @ map row_of (new_rows t rows), map (\<lambda>r. (SequenceNumber r, CanonicalHash r)) (new_rows t rows))"
    using insertOnHash_ok [of "map row_of rows" t] d p ok ds dj
    by (simp add: fresh_rows_map primary_rows_def comp_def image_image)
  have rd: "remdups (map CanonicalHash (new_rows t rows)) = map CanonicalHash (new_rows t rows)"
    using distinct_rows(1) [OF d] by (simp add: distinct_remdups_id)
  show ?thesis
  proof (cases "old_rows t rows = []")
    case True
    then show ?thesis using gs False one rd calm rows_split [of t rows]
      by (simp add: InsertBatch_def pg_run_def pg_calm_def comp_def Let_def distinct_remdups_id batch_report_def found_def
          primarySelect_def replays_def collisions_def)
  next
    case old: False
    have len: "length (new_rows t rows) \<noteq> length rows" using rows_split [of t rows] old by auto
    have report: "classifySkips (old_rows t rows) (found t rows)
        \<lparr>Inserted = length (new_rows t rows), SeqReplays = 0, HashCollisions = []\<rparr> = batch_report t rows"
      by (simp add: classifySkips_eq batch_report_def)
    show ?thesis
      using gs False one rd calm len report
      by (auto simp: InsertBatch_def pg_run_def pg_calm_def comp_def Let_def distinct_remdups_id skipped_rows [unfolded set_map] found_after)
  qed
qed

lemma insertOnSeq_taken:
  "\<forall>r\<in>set rs. row_check r = None \<and> c_seq r \<in> c_seq ` set t \<Longrightarrow> insertOnSeq rs t = Inr t"
  by (induction rs) (auto simp: seq_taken_def)

lemma collisions_distinct:
  "distinct (map snd ex) \<Longrightarrow> distinct (collisions rows ex)"
  by (auto simp: collisions_def distinct_map inj_on_def dest: distinct_filter)

text \<open>Retrying a batch: everything it brought is already there.\<close>

lemma retry_rows:
  assumes "\<forall>r\<in>set rows. CanonicalHash r \<in> primary_hashes t"
  shows "new_rows t rows = []" "old_rows t rows = rows"
  using assms by (auto simp: new_rows_def old_rows_def filter_empty_conv filter_id_conv)

lemma InsertBatch_hashes:
  assumes "InsertBatch P rows t = Inr (res, t')" "distinct (map CanonicalHash rows)" "primary_rows rows" "index_inv t"
    and r: "r \<in> set rows"
  shows "CanonicalHash r \<in> primary_hashes t'"
proof -
  obtain gs where gs: "t' = t @ map row_of (new_rows t rows) @ gs" by (rule InsertBatch_table [OF assms(1-4)])
  show ?thesis
  proof (cases "CanonicalHash r \<in> primary_hashes t")
    case False
    then have "row_of r \<in> set t'" "is_primary (row_of r)"
      using r assms(3) unfolding gs by (auto simp: new_rows_def primary_rows_def)
    then show ?thesis unfolding primary_hashes_def by (metis (mono_tags, lifting) image_eqI mem_Collect_eq row_of_simps(2))
  qed (simp add: gs)
qed

lemma InsertBatch_collisions_after:
  assumes run: "InsertBatch P rows t = Inr (res, t')" and d: "distinct (map CanonicalHash rows)"
    and p: "primary_rows rows" and inv: "index_inv t"
  shows "set (HashCollisions (batch_report t' rows)) = set (HashCollisions res)"
proof -
  obtain gs where gs: "t' = t @ map row_of (new_rows t rows) @ gs" 
    "\<forall>g\<in>set gs. \<not> is_primary g \<and> c_signer g = GhostSignerDID \<and> c_hash g \<in> primary_hashes t" and inv': "index_inv t'"
    by (rule InsertBatch_table [OF run d p inv])
  have out: "res = batch_report t rows" by (rule InsertBatch_outcome(1) [OF run d p])
  have dh: "distinct (map c_hash (filter is_primary t))" "distinct (map c_hash (filter is_primary t'))"
    using inv inv' by (simp_all add: index_inv_def)
  have same: "q \<in> set t \<or> c_seq q = SequenceNumber r" if "q \<in> set t'" "is_primary q" "r \<in> set rows" "c_hash q = CanonicalHash r" for q r
  proof (rule disjCI)
    assume "c_seq q \<noteq> SequenceNumber r"
    have "\<not> (\<exists>r'\<in>set (new_rows t rows). q = row_of r')"
    proof
      assume "\<exists>r'\<in>set (new_rows t rows). q = row_of r'"
      then obtain r' where r': "r' \<in> set rows" "q = row_of r'" by (auto simp: new_rows_def)
      then have "r' = r" using that(3,4) by (intro distinct_map_eq [OF d]) simp_all
      with r' \<open>c_seq q \<noteq> SequenceNumber r\<close> show False by simp
    qed
    then show "q \<in> set t" using that gs by auto
  qed
  show ?thesis
    unfolding out batch_report_collisions [OF dh(1) d] batch_report_collisions [OF dh(2) d]
    using same gs(1) by (intro Collect_cong) (metis UnCI set_append)
qed

lemma InsertBatch_retry:
  assumes run: "InsertBatch P rows t = Inr (res, t')" and d: "distinct (map CanonicalHash rows)"
    and p: "primary_rows rows" and inv: "index_inv t" and calm: "pg_calm P'"
  shows "InsertBatch P' rows t' = Inr (batch_report t' rows, t')"
proof -
  have inv': "index_inv t'" and seqs: "c_seq ` set t' = c_seq ` set t \<union> SequenceNumber ` set rows"
    by (rule InsertBatch_table [OF run d p inv], assumption)+
  note nr = retry_rows [of rows t'] InsertBatch_hashes [OF run d p inv]
  have new: "new_rows t' rows = []" using nr by blast
  have dh: "distinct (map c_hash (filter is_primary t'))" using inv' by (simp add: index_inv_def)
  have "AttemptedSeq c \<in> c_seq ` set t'" if "c \<in> set (HashCollisions (batch_report t' rows))" for c
    using that seqs unfolding batch_report_collisions [OF dh d] by auto
  then have "insertOnSeq (map (ghost_row (pe_now P')) (HashCollisions (batch_report t' rows))) t' = Inr t'"
    by (intro insertOnSeq_taken) auto
  then show ?thesis
    using InsertBatch_outcome(2) [OF run d p] new by (intro InsertBatch_calm [OF calm d p]) simp_all
qed

lemma batch_report_distinct:
  "distinct (map c_hash (filter is_primary t)) \<Longrightarrow> distinct (HashCollisions (batch_report t rows))"
  by (simp add: batch_report_def collisions_distinct found_hashes(1))

subsection \<open>Lookups\<close>

lemma find_primary:
  assumes "index_inv t" "q \<in> set t" "is_primary q"
  shows "find (\<lambda>q'. c_hash q' = c_hash q \<and> is_primary q') t = Some q"
proof -
  obtain q' where q': "find (\<lambda>q'. c_hash q' = c_hash q \<and> is_primary q') t = Some q'"
    using assms(2,3) by (fastforce simp: find_None_iff intro: not_None_eq [THEN iffD1])
  then have "q' \<in> set t" "c_hash q' = c_hash q" "is_primary q'" by (auto simp: find_Some_iff)
  then have "q' = q" using map_of_mem [of t q' q] assms unfolding index_inv_def by blast
  with q' show ?thesis by simp
qed

lemma find_seq:
  assumes "index_inv t" "q \<in> set t"
  shows "find (\<lambda>q'. c_seq q' = c_seq q) t = Some q"
proof -
  obtain q' where q': "find (\<lambda>q'. c_seq q' = c_seq q) t = Some q'"
    using assms(2) by (fastforce simp: find_None_iff intro: not_None_eq [THEN iffD1])
  then have "q' \<in> set t" "c_seq q' = c_seq q" by (auto simp: find_Some_iff)
  then have "q' = q" using assms by (intro distinct_map_eq [of c_seq t]) (simp_all add: index_inv_def)
  with q' show ?thesis by simp
qed

subsection \<open>A concrete table\<close>

definition demo_row :: "u64 \<Rightarrow> hash \<Rightarrow> EntryRow" where
  "demo_row s h =
     \<lparr>SequenceNumber = s, CanonicalHash = h, LogTime = 0, SignerDID = ''did:a'', TargetRoot = None,
      CosignatureOf = None, SchemaRef = None, DelegateDID = [], SourceLogDID = [], Kind = [],
      Status = StatusLive, Web3ReceiptsBytes = None\<rparr>"

definition demo_pg :: pg_env where
  "demo_pg =
     \<lparr>pe_begin = None, pe_insert = None, pe_returning = None, pe_lookup = None, pe_lookup_rows = None,
      pe_ghost = None, pe_split = (\<lambda>_. None), pe_rollback = None, pe_commit = None, pe_now = 5\<rparr>"

definition demo_table :: "index_row list" where
  "demo_table = [row_of (demo_row 0 10), row_of (demo_row 1 11)]"

definition demo_ghost :: index_row where
  "demo_ghost = ghost_row 5 \<lparr>AttemptedSeq = 2, HC_CanonicalHash = 10, ExistingSeq = 0\<rparr>"

lemma demo_row_check [simp]: "row_check (row_of (demo_row s h)) = None"
  by (simp add: row_check_def row_of_def demo_row_def)

lemma demo_row_simps [simp]:
  "SequenceNumber (demo_row s h) = s" "CanonicalHash (demo_row s h) = h" "Status (demo_row s h) = StatusLive"
  by (simp_all add: demo_row_def)

lemma demo_calm: "pg_calm demo_pg"
  by (simp add: pg_calm_def demo_pg_def)

lemma demo_table_inv: "index_inv demo_table"
  by (simp add: index_inv_def demo_table_def)

lemma demo_batch:
  "InsertBatch demo_pg [demo_row 2 10, demo_row 3 12, demo_row 1 11] demo_table =
     Inr (\<lparr>Inserted = 1, SeqReplays = 1, HashCollisions = [\<lparr>AttemptedSeq = 2, HC_CanonicalHash = 10, ExistingSeq = 0\<rparr>]\<rparr>,
          demo_table @ [row_of (demo_row 3 12), demo_ghost])"
  by (simp add: InsertBatch_def demo_pg_def demo_table_def pg_run_def insertRow_def seq_taken_def primarySelect_def
      lookup_row_def demo_ghost_def)

subsection \<open>Properties\<close>

text \<open>
  C19.  A successful batch insert of primary rows with pairwise distinct hashes
  (\<open>index_duplicate_hash_gap\<close> shows what happens otherwise) keeps the index well formed (unique sequence numbers,
  one primary row per hash, every ghost has a primary), only appends, and leaves no gap: the
  sequence numbers with a row afterwards are those from before and exactly those of the batch,
  also for rows whose hash collided.
\<close>

theorem index_batch_no_gap:
  assumes "index_inv t" and "primary_rows rows" and "distinct (map CanonicalHash rows)"
    and "InsertBatch P rows t = Inr (res, t')"
  shows "index_inv t' \<and> prefix t t' \<and> c_seq ` set t' = c_seq ` set t \<union> SequenceNumber ` set rows"
  by (rule InsertBatch_table [OF assms(4,3,2,1)]) simp

theorem index_batch_no_gap_witness:
  "index_inv (demo_table @ [row_of (demo_row 3 12), demo_ghost])
     \<and> prefix demo_table (demo_table @ [row_of (demo_row 3 12), demo_ghost])
     \<and> c_seq ` set (demo_table @ [row_of (demo_row 3 12), demo_ghost])
        = c_seq ` set demo_table \<union> SequenceNumber ` set [demo_row 2 10, demo_row 3 12, demo_row 1 11]"
  by (rule index_batch_no_gap [OF demo_table_inv _ _ demo_batch]) (simp_all add: primary_rows_def)

text \<open>
  The report of a batch adds up to the batch (inserted, replayed and collided rows),
  and its collisions are exactly the rows whose hash has a primary row at another sequence number,
  each with that number.
\<close>

theorem index_batch_report:
  assumes "index_inv t" and "primary_rows rows" and "distinct (map CanonicalHash rows)"
    and "InsertBatch P rows t = Inr (res, t')"
  shows "Inserted res + SeqReplays res + length (HashCollisions res) = length rows
    \<and> distinct (HashCollisions res)
    \<and> set (HashCollisions res) =
       {\<lparr>AttemptedSeq = SequenceNumber r, HC_CanonicalHash = CanonicalHash r, ExistingSeq = c_seq q\<rparr> |r q.
          r \<in> set rows \<and> q \<in> set t \<and> is_primary q \<and> c_hash q = CanonicalHash r \<and> c_seq q \<noteq> SequenceNumber r}"
proof -
  have dh: "distinct (map c_hash (filter is_primary t))" using assms(1) by (simp add: index_inv_def)
  show ?thesis unfolding InsertBatch_outcome(1) [OF assms(4,3,2)]
    by (intro conjI batch_report_total batch_report_distinct batch_report_collisions dh assms(3))
qed

theorem index_batch_report_witness:
  "(1::nat) + 1 + length [\<lparr>AttemptedSeq = 2, HC_CanonicalHash = 10, ExistingSeq = 0\<rparr>] = 3
    \<and> {\<lparr>AttemptedSeq = SequenceNumber r, HC_CanonicalHash = CanonicalHash r, ExistingSeq = c_seq q\<rparr> |r q.
          r \<in> set [demo_row 2 10, demo_row 3 12, demo_row 1 11] \<and> q \<in> set demo_table \<and> is_primary q
          \<and> c_hash q = CanonicalHash r \<and> c_seq q \<noteq> SequenceNumber r}
       = {\<lparr>AttemptedSeq = 2, HC_CanonicalHash = 10, ExistingSeq = 0\<rparr>}"
  using index_batch_report [OF demo_table_inv _ _ demo_batch] by (simp add: primary_rows_def)

text \<open>
  Retrying a batch is idempotent, for instance after a commit whose outcome stayed
  unknown: the table does not change, nothing is inserted, rows that were inserted or replayed
  count as replays and the same collisions are reported.
\<close>

theorem index_batch_retry:
  assumes "index_inv t" and "primary_rows rows" and "distinct (map CanonicalHash rows)"
    and "InsertBatch P rows t = Inr (res, t')" and "pg_calm P'"
  shows "\<exists>res'. InsertBatch P' rows t' = Inr (res', t') \<and> Inserted res' = 0
    \<and> SeqReplays res' = Inserted res + SeqReplays res \<and> set (HashCollisions res') = set (HashCollisions res)"
proof -
  note run = assms(4) and d = assms(3) and p = assms(2) and inv = assms(1)
  have inv': "index_inv t'" by (rule InsertBatch_table [OF run d p inv])
  have dh: "distinct (map c_hash (filter is_primary t))" "distinct (map c_hash (filter is_primary t'))"
    using inv inv' by (simp_all add: index_inv_def)
  note out = InsertBatch_outcome(1) [OF run d p]
  have col: "set (HashCollisions (batch_report t' rows)) = set (HashCollisions res)"
    by (rule InsertBatch_collisions_after [OF run d p inv])
  then have len: "length (HashCollisions (batch_report t' rows)) = length (HashCollisions res)"
    using batch_report_distinct [OF dh(1), of rows] batch_report_distinct [OF dh(2), of rows]
    unfolding out by (metis distinct_card)
  have zero: "Inserted (batch_report t' rows) = 0"
    using retry_rows(1) [of rows t'] InsertBatch_hashes [OF run d p inv] by (simp add: batch_report_def)
  have "SeqReplays (batch_report t' rows) = Inserted res + SeqReplays res"
    using batch_report_total [OF dh(2) d] batch_report_total [OF dh(1) d] zero len unfolding out by linarith
  then show ?thesis using InsertBatch_retry [OF run d p inv assms(5)] zero col by blast
qed

theorem index_batch_retry_witness:
  "\<exists>res'. InsertBatch demo_pg [demo_row 2 10, demo_row 3 12, demo_row 1 11]
        (demo_table @ [row_of (demo_row 3 12), demo_ghost])
      = Inr (res', demo_table @ [row_of (demo_row 3 12), demo_ghost])
    \<and> Inserted res' = 0 \<and> SeqReplays res' = 2"
  using index_batch_retry [OF demo_table_inv _ _ demo_batch demo_calm] by (auto simp: primary_rows_def)

text \<open>
  A ghost always resolves: when the row at a sequence number is a ghost leaf, the
  redirect lookup finds a primary sequence number for its hash, a different one, and that row is
  not a ghost and carries the same hash.
\<close>

theorem index_ghost_resolves:
  assumes "index_inv t" and "FetchHashBySeq None t s = Inr (Some (h, lt, True))"
  shows "\<exists>p. FetchPrimarySeqByHash None t h = Inr (Some p) \<and> p \<noteq> s
    \<and> (0 \<le> sint p \<longrightarrow> (\<exists>lt'. FetchHashBySeq None t p = Inr (Some (h, lt', False))))"
proof -
  obtain g where g: "find (\<lambda>q. c_seq q = s) t = Some g" "c_hash g = h" "\<not> is_primary g"
    using assms(2) by (auto simp: FetchHashBySeq_def pg_run_def is_primary_def split: if_splits)
  then have gt: "g \<in> set t" "c_seq g = s" by (auto simp: find_Some_iff)
  then have "h \<in> primary_hashes t" using assms(1) g(2) by (auto simp: index_inv_def)
  then obtain q where q: "q \<in> set t" "is_primary q" "c_hash q = h" by (auto simp: primary_hashes_def)
  have "c_seq q \<noteq> s"
  proof
    assume "c_seq q = s"
    then have "q = g" using gt q(1) assms(1)
      by (intro distinct_map_eq [of c_seq t]) (simp_all add: index_inv_def)
    with q g show False by simp
  qed
  moreover have "FetchPrimarySeqByHash None t h = Inr (Some (c_seq q))"
    using find_primary [OF assms(1) q(1,2)] q(3) by (simp add: FetchPrimarySeqByHash_def pg_run_def)
  moreover have "FetchHashBySeq None t (c_seq q) = Inr (Some (h, c_logTime q, False))" if "0 \<le> sint (c_seq q)"
    using find_seq [OF assms(1) q(1)] q that by (simp add: FetchHashBySeq_def pg_run_def is_primary_def)
  ultimately show ?thesis by blast
qed

lemma demo_ghost_fetch:
  "FetchHashBySeq None (demo_table @ [row_of (demo_row 3 12), demo_ghost]) 2 = Inr (Some (10, 5, True))"
  by (simp add: FetchHashBySeq_def pg_run_def demo_table_def demo_ghost_def ghost_row_def)

theorem index_ghost_resolves_witness:
  "\<exists>p. FetchPrimarySeqByHash None (demo_table @ [row_of (demo_row 3 12), demo_ghost]) 10 = Inr (Some p) \<and> p \<noteq> 2"
  using index_ghost_resolves [OF _ demo_ghost_fetch] index_batch_no_gap [OF demo_table_inv _ _ demo_batch]
  by (auto simp: primary_rows_def)

text \<open>
  C28.  When one batch carries the same new hash at two sequence numbers, the second row
  is neither inserted, nor counted, nor given a ghost: the report does not add up and the second
  sequence number stays without a row.
\<close>

theorem index_duplicate_hash_gap:
  assumes "pg_calm P" and "primary_rows [a, b]" and "CanonicalHash a = CanonicalHash b"
    and "CanonicalHash a \<notin> primary_hashes t" and "SequenceNumber a \<noteq> SequenceNumber b"
    and "SequenceNumber a \<notin> c_seq ` set t" and "SequenceNumber b \<notin> c_seq ` set t"
    and "row_check (row_of a) = None" and "row_check (row_of b) = None"
  shows "\<exists>res t'. InsertBatch P [a, b] t = Inr (res, t') \<and> SequenceNumber b \<notin> c_seq ` set t'
    \<and> HashCollisions res = [] \<and> Inserted res + SeqReplays res + length (HashCollisions res) \<noteq> length [a, b]"
proof -
  have "insertOnHash (map row_of [a, b]) t = Inr (t @ [row_of a], [(SequenceNumber a, CanonicalHash a)])"
    using assms by (simp add: primary_rows_def insertRow_def seq_taken_def)
  then have "InsertBatch P [a, b] t = Inr (\<lparr>Inserted = 1, SeqReplays = 0, HashCollisions = []\<rparr>, t @ [row_of a])"
    using assms(1,3) by (simp add: InsertBatch_def pg_run_def pg_calm_def primarySelect_def)
  then show ?thesis using assms(5,7) by simp
qed

theorem index_duplicate_hash_gap_witness:
  "\<exists>res t'. InsertBatch demo_pg [demo_row 2 12, demo_row 3 12] demo_table = Inr (res, t')
     \<and> SequenceNumber (demo_row 3 12) \<notin> c_seq ` set t'"
  using index_duplicate_hash_gap [OF demo_calm, of "demo_row 2 12" "demo_row 3 12" demo_table]
  by (auto simp: primary_rows_def demo_table_def)

end
