(* ===== verification/SeqInv.thy ===== *)
theory SeqInv
  imports SeqStage1 EntryIndexSpec
begin

section \<open>The sequencer: the committer's queues and the entry index\<close>

text \<open>
  What one committer operation does to the entry index and to its queues.  \<open>L\<close> is the
  Tessera log: \<open>L i\<close> is the leaf at index \<open>i\<close>.  \<open>index_ok\<close> is the durable
  invariant (the index describes an initial segment of the log and the primary row of a hash is at
  its first leaf), \<open>queue_ok\<close> the one of the in-memory queues.
\<close>

definition tuple_ok :: "(u64 \<Rightarrow> hash) \<Rightarrow> ('e, 'r) stagedEntry \<Rightarrow> bool" where
  "tuple_ok L e \<longleftrightarrow> L (st_Seq e) = st_Hash e \<and> unat (st_Seq e) < 2 ^ 63
     \<and> SequenceNumber (st_Row e) = st_Seq e \<and> CanonicalHash (st_Row e) = st_Hash e
     \<and> Status (st_Row e) \<noteq> StatusGhostLeaf"

definition index_ok :: "(u64 \<Rightarrow> hash) \<Rightarrow> index_row list \<Rightarrow> nat \<Rightarrow> bool" where
  "index_ok L t n \<longleftrightarrow>
     index_inv t \<and> n \<le> 2 ^ 63 \<and> c_seq ` set t = {i. unat i < n}
     \<and> (\<forall>q\<in>set t. c_hash q = L (c_seq q) \<and> (is_primary q \<longrightarrow> (\<forall>i < c_seq q. L i \<noteq> c_hash q)))"

definition batch_ok :: "(u64 \<Rightarrow> hash) \<Rightarrow> nat \<Rightarrow> ('e, 'r) stagedEntry list \<Rightarrow> bool" where
  "batch_ok L m batch \<longleftrightarrow>
     map (unat \<circ> st_Seq) batch = [m..<m + length batch] \<and> m + length batch \<le> 2 ^ 63
     \<and> (\<forall>e\<in>set batch. tuple_ok L e) \<and> distinct (map st_Hash batch)"

lemma batch_ok_seqs:
  assumes "batch_ok L m batch"
  shows "st_Seq ` set batch = {i. m \<le> unat i \<and> unat i < m + length batch}"
proof -
  have "unat ` st_Seq ` set batch = {m..<m + length batch}"
    using assms by (metis batch_ok_def image_comp list.set_map set_upt)
  moreover have "unat ` {i :: u64. m \<le> unat i \<and> unat i < m + length batch} = {m..<m + length batch}"
  proof (intro equalityI subsetI)
    fix k assume k: "k \<in> {m..<m + length batch}"
    then have "unat (word_of_nat k :: u64) = k" using assms by (intro unat_u64_of_nat) (auto simp: batch_ok_def)
    then show "k \<in> unat ` {i :: u64. m \<le> unat i \<and> unat i < m + length batch}"
      using k by (intro image_eqI [of _ _ "word_of_nat k"]) auto
  qed auto
  ultimately show ?thesis by (intro inj_image_eq_iff [OF inj_unat, THEN iffD1]) simp
qed

lemma batch_rows:
  assumes "\<forall>e\<in>set batch. tuple_ok L e"
  shows "map SequenceNumber (map st_Row batch) = map st_Seq batch"
    "map CanonicalHash (map st_Row batch) = map st_Hash batch" "primary_rows (map st_Row batch)"
  using assms by (auto simp: tuple_ok_def primary_rows_def)

text \<open>One batch extends the segment the index describes; a batch that is already there changes nothing.\<close>

lemma insert_index_ok:
  assumes t: "index_ok L t n" and b: "batch_ok L m batch" and m: "m \<le> n"
    and run: "InsertBatch P (map st_Row batch) t = Inr (res, t')"
  shows "index_ok L t' (max n (m + length batch))"
proof -
  let ?rows = "map st_Row batch"
  have tup: "\<forall>e\<in>set batch. tuple_ok L e" and d: "distinct (map st_Hash batch)"
    using b by (simp_all add: batch_ok_def)
  note R = batch_rows [OF tup]
  have inv: "index_inv t" and seqs: "c_seq ` set t = {i. unat i < n}"
    and hashes: "\<And>q. q \<in> set t \<Longrightarrow> c_hash q = L (c_seq q)"
    and first: "\<And>q i. q \<in> set t \<Longrightarrow> is_primary q \<Longrightarrow> i < c_seq q \<Longrightarrow> L i \<noteq> c_hash q"
    and n: "n \<le> 2 ^ 63" using t by (auto simp: index_ok_def)
  from d R(2) have d': "distinct (map CanonicalHash ?rows)" by metis
  obtain gs where t': "t' = t @ map row_of (new_rows t ?rows) @ gs"
    and gs: "\<forall>g\<in>set gs. \<not> is_primary g \<and> c_signer g = GhostSignerDID \<and> c_hash g \<in> primary_hashes t"
    and inv': "index_inv t'" and all: "c_seq ` set t' = c_seq ` set t \<union> SequenceNumber ` set ?rows"
    by (rule InsertBatch_table [OF run d' R(3) inv])
  have "SequenceNumber ` set ?rows = st_Seq ` set batch" using R(1) by (metis list.set_map)
  then have cover: "c_seq ` set t' = {i. unat i < max n (m + length batch)}"
    unfolding all seqs using m by (auto simp: batch_ok_seqs [OF b])
  have ghosts: "c_hash g = L (c_seq g)" if "g \<in> set gs" for g
    using InsertBatch_ghost_hash [OF run d' R(3) inv t' that] tup by (auto simp: tuple_ok_def)
  have new: "c_hash q = L (c_seq q) \<and> (\<forall>i < c_seq q. L i \<noteq> c_hash q)"
    if q: "q \<in> row_of ` set (new_rows t ?rows)" for q
  proof -
    obtain e where e: "e \<in> set batch" "q = row_of (st_Row e)" and fresh: "st_Hash e \<notin> primary_hashes t"
      using q tup by (auto simp: new_rows_def tuple_ok_def)
    have q': "c_seq q = st_Seq e" "c_hash q = st_Hash e" "L (st_Seq e) = st_Hash e"
      using e tup by (auto simp: tuple_ok_def)
    have "L i \<noteq> st_Hash e" if i: "i < st_Seq e" for i
    proof (cases "unat i < n")
      case True
      then obtain r where r: "r \<in> set t" "c_seq r = i" using seqs by (metis (mono_tags, lifting) imageE mem_Collect_eq)
      then have "L i \<in> primary_hashes t" using hashes [OF r(1)] inv by (metis index_inv_def)
      with fresh show ?thesis by metis
    next
      case False
      have "st_Seq e \<in> {i. m \<le> unat i \<and> unat i < m + length batch}" using e by (simp flip: batch_ok_seqs [OF b])
      then have "i \<in> st_Seq ` set batch" using False m i by (simp add: batch_ok_seqs [OF b] word_less_nat_alt)
      then obtain e' where e': "e' \<in> set batch" "st_Seq e' = i" by auto
      then have "L i = st_Hash e'" using tup by (auto simp: tuple_ok_def)
      moreover have "st_Hash e' \<noteq> st_Hash e" using distinct_map_eq [OF d e'(1) e(1)] e' i by auto
      ultimately show ?thesis by simp
    qed
    then show ?thesis using q' by simp
  qed
  have "c_hash q = L (c_seq q) \<and> (is_primary q \<longrightarrow> (\<forall>i < c_seq q. L i \<noteq> c_hash q))" if "q \<in> set t'" for q
    using that hashes [of q] first [of q] new [of q] ghosts [of q] gs unfolding t' by auto
  moreover have "max n (m + length batch) \<le> 2 ^ 63" using n b by (simp add: batch_ok_def)
  ultimately show ?thesis using inv' cover unfolding index_ok_def by blast
qed

text \<open>A primary row is at the first leaf of its hash, and only primary rows are.\<close>

lemma index_ok_primary:
  assumes t: "index_ok L t n" and r: "r \<in> set t"
  shows "is_primary r \<longleftrightarrow> (\<forall>i < c_seq r. L i \<noteq> L (c_seq r))"
proof
  assume first: "\<forall>i < c_seq r. L i \<noteq> L (c_seq r)"
  have inv: "index_inv t" and seqs: "c_seq ` set t = {i. unat i < n}" and hash: "\<And>q. q \<in> set t \<Longrightarrow> c_hash q = L (c_seq q)"
    and prim: "\<And>q i. q \<in> set t \<Longrightarrow> is_primary q \<Longrightarrow> i < c_seq q \<Longrightarrow> L i \<noteq> c_hash q"
    using t by (auto simp: index_ok_def)
  have "c_hash r \<in> primary_hashes t" using inv r by (simp add: index_inv_def)
  then obtain q where q: "q \<in> set t" "is_primary q" "c_hash q = c_hash r" by (auto simp: primary_hashes_def)
  have "\<not> c_seq q < c_seq r" using first hash [OF q(1)] hash [OF r] q(3) by metis
  moreover have "\<not> c_seq r < c_seq q" using prim [OF q(1,2)] hash [OF r] q(3) by metis
  ultimately have "q = r" using inv by (intro distinct_map_eq [of c_seq t]) (use q r in \<open>auto simp: index_inv_def\<close>)
  then show "is_primary r" using q(2) by simp
qed (use t r in \<open>auto simp: index_ok_def\<close>)

text \<open>The collisions a batch reports: a later leaf of a hash whose first leaf has the primary row.\<close>

lemma insert_collisions:
  assumes t: "index_ok L t n" and b: "batch_ok L m batch"
    and run: "InsertBatch P (map st_Row batch) t = Inr (res, t')" and c: "c \<in> set (HashCollisions res)"
  shows "ExistingSeq c < AttemptedSeq c" "L (ExistingSeq c) = HC_CanonicalHash c" "L (AttemptedSeq c) = HC_CanonicalHash c"
    "ExistingSeq c \<in> c_seq ` set t"
proof -
  have tup: "\<forall>e\<in>set batch. tuple_ok L e" and d: "distinct (map st_Hash batch)"
    using b by (simp_all add: batch_ok_def)
  note R = batch_rows [OF tup]
  have d': "distinct (map CanonicalHash (map st_Row batch))" using d R(2) by metis
  have dh: "distinct (map c_hash (filter is_primary t))" using t by (simp add: index_ok_def index_inv_def)
  obtain e q where e: "e \<in> set batch" and q: "q \<in> set t" "is_primary q" "c_hash q = CanonicalHash (st_Row e)"
    "c_seq q \<noteq> SequenceNumber (st_Row e)"
    and c': "c = \<lparr>AttemptedSeq = SequenceNumber (st_Row e), HC_CanonicalHash = CanonicalHash (st_Row e), ExistingSeq = c_seq q\<rparr>"
    using c unfolding InsertBatch_outcome(1) [OF run d' R(3)] batch_report_collisions [OF dh d'] by auto
  have e': "SequenceNumber (st_Row e) = st_Seq e" "CanonicalHash (st_Row e) = st_Hash e" "L (st_Seq e) = st_Hash e"
    using e tup by (auto simp: tuple_ok_def)
  have q': "c_hash q = L (c_seq q)" "\<forall>i < c_seq q. L i \<noteq> c_hash q" using t q by (auto simp: index_ok_def)
  have "\<not> st_Seq e < c_seq q" using q'(2) q(3) e' by metis
  then show "ExistingSeq c < AttemptedSeq c" using q(4) e' c' by simp
  show "L (ExistingSeq c) = HC_CanonicalHash c" "L (AttemptedSeq c) = HC_CanonicalHash c" "ExistingSeq c \<in> c_seq ` set t"
    using q' q e' c' by auto
qed

subsection \<open>The queues\<close>

definition staged :: "('w, 'e, 'r) sequencer \<Rightarrow> ('e, 'r) stagedEntry set" where
  "staged q = set (q_ch q) \<union> set (q_heap q) \<union> set (q_pending q)"

text \<open>
  The last conjunct is what the committer needs of Tessera's deduplication: of the tuples that are
  not known to be committed, two for the same hash carry the same sequence number.
\<close>

definition queue_ok :: "(u64 \<Rightarrow> hash) \<Rightarrow> ('w, 'e, 'r) sequencer \<Rightarrow> bool" where
  "queue_ok L q \<longleftrightarrow>
     heap_wf st_Seq (q_heap q)
     \<and> map (unat \<circ> st_Seq) (q_pending q) = [unat (q_next q)..<unat (q_next q) + length (q_pending q)]
     \<and> unat (q_next q) \<le> 2 ^ 63
     \<and> (\<forall>e\<in>staged q. tuple_ok L e)
     \<and> (\<forall>e\<in>staged q. \<forall>e'\<in>staged q. q_next q \<le> st_Seq e \<longrightarrow> q_next q \<le> st_Seq e' \<longrightarrow> st_Hash e = st_Hash e'
          \<longrightarrow> st_Seq e = st_Seq e')"

lemma queue_okI:
  assumes "heap_wf st_Seq (q_heap q)"
    and "map (unat \<circ> st_Seq) (q_pending q) = [unat (q_next q)..<unat (q_next q) + length (q_pending q)]"
    and "unat (q_next q) \<le> 2 ^ 63" and "\<And>e. e \<in> staged q \<Longrightarrow> tuple_ok L e"
    and "\<And>e e'. e \<in> staged q \<Longrightarrow> e' \<in> staged q \<Longrightarrow> q_next q \<le> st_Seq e \<Longrightarrow> q_next q \<le> st_Seq e' \<Longrightarrow>
       st_Hash e = st_Hash e' \<Longrightarrow> st_Seq e = st_Seq e'"
  shows "queue_ok L q"
  unfolding queue_ok_def using assms by blast

lemma queue_okD:
  assumes "queue_ok L q"
  shows "heap_wf st_Seq (q_heap q)"
    and "map (unat \<circ> st_Seq) (q_pending q) = [unat (q_next q)..<unat (q_next q) + length (q_pending q)]"
    and "unat (q_next q) \<le> 2 ^ 63" and "\<And>e. e \<in> staged q \<Longrightarrow> tuple_ok L e"
    and "\<And>e e'. e \<in> staged q \<Longrightarrow> e' \<in> staged q \<Longrightarrow> q_next q \<le> st_Seq e \<Longrightarrow> q_next q \<le> st_Seq e' \<Longrightarrow>
       st_Hash e = st_Hash e' \<Longrightarrow> st_Seq e = st_Seq e'"
  using assms unfolding queue_ok_def by blast+

text \<open>Fewer tuples and a later expected number keep the queues well formed.\<close>

lemma queue_ok_sub:
  assumes "queue_ok L q" "staged q' \<subseteq> staged q" "q_next q \<le> q_next q'" "unat (q_next q') \<le> 2 ^ 63"
    and "heap_wf st_Seq (q_heap q')"
    and "map (unat \<circ> st_Seq) (q_pending q') = [unat (q_next q')..<unat (q_next q') + length (q_pending q')]"
  shows "queue_ok L q'"
proof (rule queue_okI)
  show "tuple_ok L e" if "e \<in> staged q'" for e using that queue_okD(4) [OF assms(1)] assms(2) by blast
  show "st_Seq e = st_Seq e'" if "e \<in> staged q'" "e' \<in> staged q'" "q_next q' \<le> st_Seq e" "q_next q' \<le> st_Seq e'"
    "st_Hash e = st_Hash e'" for e e'
    using queue_okD(5) [OF assms(1), of e e'] that assms(2,3) order_trans by blast
qed (use assms in simp_all)

lemma queue_ok_same: "same_queue q q' \<Longrightarrow> queue_ok L q \<Longrightarrow> queue_ok L q'"
  by (simp add: same_queue_def queue_ok_def staged_def)

lemma pending_bound:
  assumes "queue_ok L q"
  shows "unat (q_next q) + length (q_pending q) \<le> 2 ^ 63"
proof (cases "q_pending q = []")
  case False
  have "unat (q_next q) + length (q_pending q) - 1 \<in> set (map (unat \<circ> st_Seq) (q_pending q))"
    unfolding queue_okD(2) [OF assms] using False by (cases "q_pending q") auto
  then obtain e where "e \<in> set (q_pending q)" "unat (st_Seq e) = unat (q_next q) + length (q_pending q) - 1" by auto
  moreover have "unat (st_Seq e) < 2 ^ 63"
    using queue_okD(4) [OF assms, of e] calculation by (simp add: staged_def tuple_ok_def)
  ultimately show ?thesis by simp
qed (use queue_okD(3) [OF assms] in simp)

lemma expected_unat:
  assumes "queue_ok L q"
  shows "unat (q_next q + word_of_nat (length (q_pending q))) = unat (q_next q) + length (q_pending q)"
  using pending_bound [OF assms] by (intro unat_u64_add) simp

lemma pending_batch_ok:
  assumes "queue_ok L q"
  shows "batch_ok L (unat (q_next q)) (q_pending q)"
proof -
  note D = queue_okD [OF assms]
  have sub: "set (q_pending q) \<subseteq> staged q" by (auto simp: staged_def)
  have "distinct (map unat (map st_Seq (q_pending q)))" using D(2) by (metis distinct_upt list.map_comp)
  then have ds: "distinct (map st_Seq (q_pending q))" by (auto simp: distinct_map dest: inj_on_imageI2)
  have ge: "q_next q \<le> st_Seq e" if "e \<in> set (q_pending q)" for e
  proof -
    have "unat (st_Seq e) \<in> set (map (unat \<circ> st_Seq) (q_pending q))" using that by simp
    then show ?thesis unfolding D(2) by (simp add: word_le_nat_alt)
  qed
  have "inj_on st_Hash (set (q_pending q))"
  proof (rule inj_onI)
    fix e e' assume e: "e \<in> set (q_pending q)" "e' \<in> set (q_pending q)" "st_Hash e = st_Hash e'"
    then have "st_Seq e = st_Seq e'" using D(5) [of e e'] ge sub by blast
    then show "e = e'" using distinct_map_eq [OF ds e(1,2)] by simp
  qed
  moreover have "distinct (q_pending q)" using ds by (simp add: distinct_map)
  ultimately show ?thesis
    using D(2,4) sub pending_bound [OF assms] by (auto simp: batch_ok_def distinct_map)
qed

text \<open>The heap as a priority queue.\<close>

lemma committerPop_cases:
  assumes "heap_wf st_Seq xs" "xs \<noteq> []"
  obtains ys where "committerPop xs = (xs ! 0, ys)" "heap_wf st_Seq ys" "set xs = insert (xs ! 0) (set ys)"
    "\<And>e. e \<in> set ys \<Longrightarrow> st_Seq (xs ! 0) \<le> st_Seq e"
proof (rule slice_heap.pop_cases [OF assms(1)])
  fix ys assume "heap_pop st_Seq xs = (xs ! 0, ys)" "heap_wf st_Seq ys" "mset xs = add_mset (xs ! 0) (mset ys)"
    "\<And>x. x \<in># mset ys \<Longrightarrow> st_Seq (xs ! 0) \<le> st_Seq x"
  then show thesis by (intro that [of ys]) (simp_all add: committerPop_def flip: set_mset_mset)
qed (use assms in simp)

lemma committerPush_ok:
  "heap_wf st_Seq xs \<Longrightarrow> heap_wf st_Seq (committerPush e xs)" "set (committerPush e xs) = insert e (set xs)"
  "committerPush e xs \<noteq> []"
proof -
  have m: "mset (committerPush e xs) = add_mset e (mset xs)" by (simp add: committerPush_def slice_heap.push_items)
  show "heap_wf st_Seq xs \<Longrightarrow> heap_wf st_Seq (committerPush e xs)" by (simp add: committerPush_def slice_heap.push_wf)
  show "set (committerPush e xs) = insert e (set xs)" using m by (metis set_mset_add_mset_insert set_mset_mset)
  show "committerPush e xs \<noteq> []" using m by auto
qed

lemma committerPushes_ok:
  "heap_wf st_Seq xs \<Longrightarrow> heap_wf st_Seq (fold committerPush es xs)" "set (fold committerPush es xs) = set xs \<union> set es"
  "mset (fold committerPush es xs) = mset xs + mset es"
proof -
  have f: "fold committerPush es xs = foldl (\<lambda>q x. heap_push st_Seq x q) xs es"
    by (simp add: foldl_conv_fold committerPush_def)
  show "heap_wf st_Seq xs \<Longrightarrow> heap_wf st_Seq (fold committerPush es xs)" unfolding f by (rule slice_heap.pushes_wf)
  show m: "mset (fold committerPush es xs) = mset xs + mset es" unfolding f by (rule slice_heap.pushes_items)
  then show "set (fold committerPush es xs) = set xs \<union> set es" by (metis set_mset_mset set_mset_union)
qed

subsection \<open>Draining the heap\<close>

text \<open>One round of \<open>drainHeapInto\<close>, seen from the queues.\<close>

definition set_queues ::
  "('e, 'r) stagedEntry list \<Rightarrow> ('e, 'r) stagedEntry list \<Rightarrow> ('w, 'e, 'r) sequencer \<Rightarrow> ('w, 'e, 'r) sequencer \<Rightarrow> bool" where
  "set_queues heap pending q q' \<longleftrightarrow>
     q_heap q' = heap \<and> q_pending q' = pending \<and> q_next q' = q_next q \<and> q_ch q' = q_ch q \<and> q_index q' = q_index q
     \<and> q_splits q' = q_splits q"

text \<open>
  What a drain achieves: the batch grows to the whole contiguous run above the expected number,
  nothing at or above the committed number is dropped but duplicates, and what stays in the heap
  lies beyond a gap.
\<close>

definition drained :: "('w, 'e, 'r) sequencer \<Rightarrow> ('w, 'e, 'r) sequencer \<Rightarrow> bool" where
  "drained q q' \<longleftrightarrow>
     q_next q' = q_next q \<and> q_ch q' = q_ch q \<and> q_index q' = q_index q \<and> q_splits q' = q_splits q
     \<and> prefix (q_pending q) (q_pending q')
     \<and> set (q_heap q') \<union> set (q_pending q') \<subseteq> set (q_heap q) \<union> set (q_pending q)
     \<and> st_Seq ` (set (q_heap q') \<union> set (q_pending q')) = {n \<in> st_Seq ` (set (q_heap q) \<union> set (q_pending q)). q_next q \<le> n}
     \<and> (\<forall>e\<in>set (q_heap q'). unat (q_next q') + length (q_pending q') < unat (st_Seq e))"

lemma drain_empty: "q_heap q = [] \<Longrightarrow> drainHeapInto E cx q = q"
  by (simp add: drainHeapInto.simps)

lemma drain_gap:
  "q_heap q \<noteq> [] \<Longrightarrow> q_next q + word_of_nat (length (q_pending q)) < st_Seq (q_heap q ! 0) \<Longrightarrow> drainHeapInto E cx q = q"
  by (subst drainHeapInto.simps) (simp add: Let_def)

lemma drain_next:
  "q_heap q \<noteq> [] \<Longrightarrow> st_Seq (q_heap q ! 0) = q_next q + word_of_nat (length (q_pending q)) \<Longrightarrow>
    committerPop (q_heap q) = (e, ys) \<Longrightarrow>
    drainHeapInto E cx q = drainHeapInto E cx (q\<lparr>q_heap := ys, q_pending := q_pending q @ [e]\<rparr>)"
  by (subst drainHeapInto.simps) (simp add: Let_def)

lemma drain_stale:
  assumes "q_heap q \<noteq> []" "st_Seq (q_heap q ! 0) < q_next q + word_of_nat (length (q_pending q))"
    "committerPop (q_heap q) = (q_heap q ! 0, ys)"
  obtains q1 where "drainHeapInto E cx q = drainHeapInto E cx q1" "set_queues ys (q_pending q) q q1"
    "q_wal q1 = q_wal q \<and> q_next q \<le> st_Seq (q_heap q ! 0) \<or>
     st_Seq (q_heap q ! 0) < q_next q \<and> q1 = committerStaleRecover E cx (q_heap q ! 0) (q\<lparr>q_heap := ys\<rparr>)"
    "q_ghosts q1 = q_ghosts q" "q_stopped q1 = q_stopped q"
proof (cases "q_next q \<le> st_Seq (q_heap q ! 0)")
  case True
  with assms show thesis
    by (intro that [of "q\<lparr>q_heap := ys, q_m := (q_m q)\<lparr>m_staleDuplicatesDiscarded := m_staleDuplicatesDiscarded (q_m q) + 1,
              m_staleInBatchDuplicates := m_staleInBatchDuplicates (q_m q) + 1\<rparr>\<rparr>"])
      (subst drainHeapInto.simps, simp_all add: Let_def set_queues_def)
next
  case False
  let ?q = "q\<lparr>q_heap := ys\<rparr>"
  have "set_queues ys (q_pending q) q (committerStaleRecover E cx (q_heap q ! 0) ?q)"
    by (simp add: set_queues_def same_queueD [OF staleRecover_queue])
  with False assms show thesis
    by (intro that [of "committerStaleRecover E cx (q_heap q ! 0) ?q"])
      (subst drainHeapInto.simps, simp_all add: Let_def staleRecover_frame)
qed

lemma drained_step:
  assumes "set_queues ys pd q q1" "drained q1 q'" "prefix (q_pending q) pd"
    "set ys \<union> set pd \<subseteq> set (q_heap q) \<union> set (q_pending q)"
    "\<And>n. q_next q \<le> n \<Longrightarrow> n \<in> st_Seq ` (set (q_heap q) \<union> set (q_pending q)) \<Longrightarrow> n \<in> st_Seq ` (set ys \<union> set pd)"
  shows "drained q q'"
proof -
  have "{n \<in> st_Seq ` (set ys \<union> set pd). q_next q \<le> n} = {n \<in> st_Seq ` (set (q_heap q) \<union> set (q_pending q)). q_next q \<le> n}"
    using assms(4,5) by blast
  with assms(1-4) show ?thesis unfolding drained_def set_queues_def by (auto dest: prefix_order.trans)
qed

lemma queue_ok_queues:
  assumes "queue_ok L q" "set_queues ys pd q q1" "set ys \<union> set pd \<subseteq> set (q_heap q) \<union> set (q_pending q)" "heap_wf st_Seq ys"
    "map (unat \<circ> st_Seq) pd = [unat (q_next q)..<unat (q_next q) + length pd]"
  shows "queue_ok L q1"
proof (rule queue_ok_sub [OF assms(1)])
  show "staged q1 \<subseteq> staged q" using assms(2,3) by (auto simp: staged_def set_queues_def)
qed (use assms(2,4,5) queue_okD(3) [OF assms(1)] in \<open>simp_all add: set_queues_def\<close>)

lemma pending_seqs:
  assumes "queue_ok L q"
  shows "st_Seq ` set (q_pending q) = {n. q_next q \<le> n \<and> n < q_next q + word_of_nat (length (q_pending q))}"
  using batch_ok_seqs [OF pending_batch_ok [OF assms]] expected_unat [OF assms]
  by (simp add: word_le_nat_alt word_less_nat_alt)

lemma drained_gap:
  assumes ok: "queue_ok L q"
    and gap: "q_heap q = [] \<or> q_next q + word_of_nat (length (q_pending q)) < st_Seq (q_heap q ! 0)"
  shows "drained q q"
proof -
  let ?ex = "q_next q + word_of_nat (length (q_pending q))"
  have beyond: "?ex < st_Seq e" if "e \<in> set (q_heap q)" for e
  proof -
    have "q_heap q \<noteq> []" using that by auto
    moreover have "st_Seq (q_heap q ! 0) \<le> st_Seq e"
      using slice_heap.head_least [OF queue_okD(1) [OF ok], of e] that by simp
    ultimately show ?thesis using gap by simp
  qed
  have "q_next q \<le> ?ex" unfolding word_le_nat_alt expected_unat [OF ok] by simp
  then have "q_next q \<le> st_Seq e" if "e \<in> set (q_heap q) \<union> set (q_pending q)" for e
    using that beyond [of e] pending_seqs [OF ok] by (auto dest: order.strict_implies_order intro: order_trans)
  then show ?thesis
    using beyond expected_unat [OF ok] unfolding drained_def by (fastforce simp: word_less_nat_alt)
qed

text \<open>
  The drain, with any further property \<open>Q\<close> that the queue updates and the recovery of a
  committed tuple keep.
\<close>

lemma drain_ok:
  assumes "queue_ok L q" and "Q q"
    and upd: "\<And>q1 q2 ys pd. Q q1 \<Longrightarrow> set_queues ys pd q1 q2 \<Longrightarrow> q_wal q2 = q_wal q1 \<Longrightarrow> q_ghosts q2 = q_ghosts q1 \<Longrightarrow>
       q_stopped q2 = q_stopped q1 \<Longrightarrow> Q q2"
    and rec: "\<And>q1 e. Q q1 \<Longrightarrow> tuple_ok L e \<Longrightarrow> st_Seq e < q_next q1 \<Longrightarrow> Q (committerStaleRecover E cx e q1)"
  shows "queue_ok L (drainHeapInto E cx q) \<and> drained q (drainHeapInto E cx q) \<and> Q (drainHeapInto E cx q)"
  using assms(1,2)
proof (induction q rule: measure_induct_rule [where f = "\<lambda>q. length (q_heap q)"])
  case (less q)
  let ?ex = "q_next q + word_of_nat (length (q_pending q))"
  note D = queue_okD [OF less.prems(1)] and ex = expected_unat [OF less.prems(1)]
  note pend = pending_seqs [OF less.prems(1)]
  show ?case
  proof (cases "q_heap q = [] \<or> ?ex < st_Seq (q_heap q ! 0)")
    case True
    then have id: "drainHeapInto E cx q = q" using drain_empty drain_gap by metis
    show ?thesis unfolding id using drained_gap [OF less.prems(1) True] less.prems by blast
  next
    case False
    then have ne: "q_heap q \<noteq> []" and le: "st_Seq (q_heap q ! 0) \<le> ?ex" by auto
    obtain ys where pop: "committerPop (q_heap q) = (q_heap q ! 0, ys)" "heap_wf st_Seq ys"
      and split: "set (q_heap q) = insert (q_heap q ! 0) (set ys)"
      by (rule committerPop_cases [OF D(1) ne])
    have shorter: "length ys < length (q_heap q)" using committerPop_length [OF pop(1) [symmetric] ne] .
    have tup: "tuple_ok L (q_heap q ! 0)" using D(4) ne by (simp add: staged_def)
    show ?thesis
    proof (cases "st_Seq (q_heap q ! 0) = ?ex")
      case True
      let ?q1 = "q\<lparr>q_heap := ys, q_pending := q_pending q @ [q_heap q ! 0]\<rparr>"
      have sq: "set_queues ys (q_pending q @ [q_heap q ! 0]) q ?q1" by (simp add: set_queues_def)
      have "queue_ok L ?q1"
        using True ex D(2) split by (intro queue_ok_queues [OF less.prems(1) sq _ pop(2)]) auto
      moreover have "Q ?q1" by (rule upd [OF less.prems(2) sq]) simp_all
      ultimately have ih: "queue_ok L (drainHeapInto E cx ?q1) \<and> drained ?q1 (drainHeapInto E cx ?q1) \<and> Q (drainHeapInto E cx ?q1)"
        using less.IH [of ?q1] shorter by simp
      have "drained q (drainHeapInto E cx ?q1)"
        using split by (intro drained_step [OF sq conjunct1 [OF conjunct2 [OF ih]]]) auto
      then show ?thesis unfolding drain_next [OF ne True pop(1)] using ih by blast
    next
      case False
      then have lt: "st_Seq (q_heap q ! 0) < ?ex" using le by simp
      obtain q1 where q1: "drainHeapInto E cx q = drainHeapInto E cx q1" and sq: "set_queues ys (q_pending q) q q1"
        and how: "q_wal q1 = q_wal q \<and> q_next q \<le> st_Seq (q_heap q ! 0) \<or>
          st_Seq (q_heap q ! 0) < q_next q \<and> q1 = committerStaleRecover E cx (q_heap q ! 0) (q\<lparr>q_heap := ys\<rparr>)"
        and gh: "q_ghosts q1 = q_ghosts q" "q_stopped q1 = q_stopped q"
        by (rule drain_stale [OF ne lt pop(1)])
      have "queue_ok L q1" using D(2) split by (intro queue_ok_queues [OF less.prems(1) sq _ pop(2)]) auto
      moreover have "Q q1"
        using how
      proof
        assume "q_wal q1 = q_wal q \<and> q_next q \<le> st_Seq (q_heap q ! 0)"
        then show ?thesis using gh by (intro upd [OF less.prems(2) sq]) simp_all
      next
        assume *: "st_Seq (q_heap q ! 0) < q_next q \<and> q1 = committerStaleRecover E cx (q_heap q ! 0) (q\<lparr>q_heap := ys\<rparr>)"
        have "Q (q\<lparr>q_heap := ys\<rparr>)" by (rule upd [OF less.prems(2), of ys "q_pending q"]) (simp_all add: set_queues_def)
        then show ?thesis using * rec [OF _ tup] by simp
      qed
      ultimately have ih: "queue_ok L (drainHeapInto E cx q1) \<and> drained q1 (drainHeapInto E cx q1) \<and> Q (drainHeapInto E cx q1)"
        using less.IH [of q1] shorter sq by (simp add: set_queues_def)
      have keep: "n \<in> st_Seq ` (set ys \<union> set (q_pending q))"
        if "q_next q \<le> n" "n \<in> st_Seq ` (set (q_heap q) \<union> set (q_pending q))" for n
        using that lt pend split by (auto simp: image_Un)
      have "drained q (drainHeapInto E cx q1)"
        using split keep by (intro drained_step [OF sq conjunct1 [OF conjunct2 [OF ih]]]) auto
      then show ?thesis unfolding q1 using ih by blast
    qed
  qed
qed

end
