(* ===== verification/SeqParity.thy ===== *)
theory SeqParity
  imports SeqInv WalInv
begin

section \<open>The sequencer: WAL, index and ghost events stay in step\<close>

text \<open>
  The interface between the sequencer and the WAL as the locale \<open>seq_wal\<close>, interpreted on the
  WAL's committer, and what the committer's operations keep: every sequence number the WAL hands to
  the shipper has a row in the entry index, for the same hash, and every ghost event names an earlier
  leaf of the same hash.
\<close>

subsection \<open>The WAL the sequencer relies on\<close>

text \<open>
  The contract of \<open>sequencer.WAL\<close>: \<open>vw\<close> reads the view of a WAL state, \<open>ok\<close> is its
  invariant.  \<open>Sequence\<close> adds at most the one index entry it was asked for; the other two
  writers leave the sequence index alone.
\<close>

locale seq_wal =
  fixes W :: "('w, 'r) seqWAL" and vw :: "'w \<Rightarrow> 'r wal_view" and ok :: "'w \<Rightarrow> bool"
  assumes sequence_law: "ok w \<Longrightarrow> qw_Sequence W x h n w = (r, w') \<Longrightarrow>
      ok w' \<and> (v_seq (vw w') = v_seq (vw w) \<or> v_seq (vw w') = (v_seq (vw w))(n \<mapsto> h))"
    and manual_law: "ok w \<Longrightarrow> qw_MarkManual W x h w = (r, w') \<Longrightarrow> ok w' \<and> v_seq (vw w') = v_seq (vw w)"
    and retry_law: "ok w \<Longrightarrow> now \<noteq> 0 \<Longrightarrow> qw_MarkRetry W x now h w = (r, w') \<Longrightarrow> ok w' \<and> v_seq (vw w') = v_seq (vw w)"

text \<open>
  Parity of the WAL with the index: a WAL state is well formed and every sequence number it has
  handed to the shipper has a row, for the same hash.
\<close>

definition wal_parity :: "('w \<Rightarrow> 'r wal_view) \<Rightarrow> ('w \<Rightarrow> bool) \<Rightarrow> (u64 \<Rightarrow> hash) \<Rightarrow> ('w, 'e, 'r) sequencer \<Rightarrow> bool" where
  "wal_parity vw ok L q \<longleftrightarrow>
     ok (q_wal q) \<and> (\<forall>n h. v_seq (vw (q_wal q)) n = Some h \<longrightarrow> n \<in> c_seq ` set (q_index q) \<and> h = L n)"

lemma wal_parity_same:
  "wal_parity vw ok L q \<Longrightarrow> q_wal q' = q_wal q \<Longrightarrow> c_seq ` set (q_index q) \<subseteq> c_seq ` set (q_index q') \<Longrightarrow> wal_parity vw ok L q'"
  unfolding wal_parity_def by (simp only:) blast

lemma sidecar_wal: "q_wal (sidecarWrites E b e s) = q_wal s" "q_ghosts (sidecarWrites E b e s) = q_ghosts s"
  by (auto simp: sidecarWrites_def Let_def split: option.splits sum.splits)

lemma cacheWrite_wal: "q_wal (cacheWrite E b e s) = q_wal s" "q_ghosts (cacheWrite E b e s) = q_ghosts s"
  by (auto simp: cacheWrite_def Let_def split: option.splits sum.splits)

lemma walDo_frame:
  "q_index (snd (walDo cx op s)) = q_index s" "q_ghosts (snd (walDo cx op s)) = q_ghosts s" "q_m (snd (walDo cx op s)) = q_m s"
  "q_wal (snd (walDo cx op s)) = snd (op (cx (q_tick s)) (q_wal s))" "q_stopped (snd (walDo cx op s)) = q_stopped s"
  by (simp_all add: walDo_def split: prod.splits)

lemma resetAttempts_frame:
  "q_index (resetAttempts h s) = q_index s" "q_ghosts (resetAttempts h s) = q_ghosts s"
  "q_wal (resetAttempts h s) = q_wal s" "q_m (resetAttempts h s) = q_m s" "q_stopped (resetAttempts h s) = q_stopped s"
  by (simp_all add: resetAttempts_def)

context seq_wal
begin

lemma sequence_parity:
  assumes "wal_parity vw ok L q" "n \<in> c_seq ` set (q_index q)" "L n = h"
  shows "wal_parity vw ok L (snd (walDo cx (\<lambda>x. qw_Sequence W x h n) q))"
proof -
  obtain r w' where run: "qw_Sequence W (cx (q_tick q)) h n (q_wal q) = (r, w')" by fastforce
  have "ok w' \<and> (v_seq (vw w') = v_seq (vw (q_wal q)) \<or> v_seq (vw w') = (v_seq (vw (q_wal q)))(n \<mapsto> h))"
    using assms(1) by (intro sequence_law [OF _ run]) (simp add: wal_parity_def)
  then show ?thesis using assms run by (auto simp: wal_parity_def walDo_frame split: if_splits)
qed

lemma manual_parity:
  assumes "wal_parity vw ok L q"
  shows "wal_parity vw ok L (snd (walDo cx (\<lambda>x. qw_MarkManual W x h) q))"
proof -
  obtain r w' where run: "qw_MarkManual W (cx (q_tick q)) h (q_wal q) = (r, w')" by fastforce
  have "ok w' \<and> v_seq (vw w') = v_seq (vw (q_wal q))"
    using assms by (intro manual_law [OF _ run]) (simp add: wal_parity_def)
  then show ?thesis using assms run by (auto simp: wal_parity_def walDo_frame)
qed

lemma retry_parity:
  assumes "wal_parity vw ok L q" "now \<noteq> 0"
  shows "wal_parity vw ok L (snd (walDo cx (\<lambda>x. qw_MarkRetry W x now h) q))"
proof -
  obtain r w' where run: "qw_MarkRetry W (cx (q_tick q)) now h (q_wal q) = (r, w')" by fastforce
  have "ok w' \<and> v_seq (vw w') = v_seq (vw (q_wal q))"
    using assms by (intro retry_law [OF _ assms(2) run]) (simp add: wal_parity_def)
  then show ?thesis using assms run by (auto simp: wal_parity_def walDo_frame)
qed

lemma staleRecover_parity:
  assumes "wal_parity vw ok L q" "st_Seq e \<in> c_seq ` set (q_index q)" "L (st_Seq e) = st_Hash e" "en_WAL E = W"
  shows "wal_parity vw ok L (committerStaleRecover E cx e q)"
proof (cases "walAsk cx (\<lambda>x w. qw_MetaState (en_WAL E) x w (st_Hash e)) q")
  case (Pair r q1)
  have q1: "q_wal q1 = q_wal q" "q_index q1 = q_index q" using Pair by (auto simp: walAsk_def)
  define q2 where "q2 = q1\<lparr>q_m := (q_m q1)\<lparr>m_staleCrashRecoveries := m_staleCrashRecoveries (q_m q1) + 1\<rparr>\<rparr>"
  have p2: "wal_parity vw ok L q2" by (rule wal_parity_same [OF assms(1)]) (simp_all add: q2_def q1)
  have i2: "q_index q2 = q_index q" by (simp add: q2_def q1)
  have s: "wal_parity vw ok L (resetAttempts (st_Hash e) (snd (walDo cx (\<lambda>x. qw_Sequence W x (st_Hash e) (st_Seq e)) q2)))"
    by (rule wal_parity_same [OF sequence_parity [OF p2 _ assms(3), of cx]]) (simp_all add: i2 assms(2) resetAttempts_frame)
  have m: "wal_parity vw ok L (resetAttempts (st_Hash e) (snd (walDo cx (\<lambda>x. qw_MarkManual W x (st_Hash e)) q2)))"
    by (rule wal_parity_same [OF manual_parity [OF p2, of cx "st_Hash e"]]) (simp_all add: resetAttempts_frame)
  have same: "wal_parity vw ok L (q1\<lparr>q_m := mm\<rparr>)" "wal_parity vw ok L q1" for mm
    by (rule wal_parity_same [OF assms(1)]; simp add: q1)+
  show ?thesis
    unfolding committerStaleRecover_def Pair Let_def
    using same s m by (auto simp: assms(4) q2_def split: sum.splits)
qed

lemma postCommit1_parity:
  assumes "wal_parity vw ok L q" "st_Seq e \<in> c_seq ` set (q_index q)" "L (st_Seq e) = st_Hash e" "en_WAL E = W"
  shows "wal_parity vw ok L (applyPostCommitForOne E cx b e q)"
proof (cases "st_Tombstone e")
  case True
  then show ?thesis
    by (simp add: applyPostCommitForOne_def Let_def assms(4))
      (rule wal_parity_same [OF manual_parity [OF assms(1), of cx "st_Hash e"]], simp_all add: resetAttempts_frame)
next
  case False
  then show ?thesis
    by (simp add: applyPostCommitForOne_def Let_def assms(4))
      (rule wal_parity_same [OF sequence_parity [OF assms(1-3), of cx]],
        simp_all add: resetAttempts_frame cacheWrite_wal sidecar_wal same_queueD [OF cacheWrite_queue] same_queueD [OF sidecarWrites_queue])
qed

end

subsection \<open>Ghost events\<close>

definition ghost_ok :: "(u64 \<Rightarrow> hash) \<Rightarrow> string \<Rightarrow> GhostLeafEvent \<Rightarrow> bool" where
  "ghost_ok L did g \<longleftrightarrow> CanonicalSeq g < GhostSeq g \<and> L (CanonicalSeq g) = GL_CanonicalHash g
     \<and> L (GhostSeq g) = GL_CanonicalHash g \<and> GL_LogDID g = did"

definition outward :: "('w \<Rightarrow> 'r wal_view) \<Rightarrow> ('w \<Rightarrow> bool) \<Rightarrow> (u64 \<Rightarrow> hash) \<Rightarrow> string \<Rightarrow> ('w, 'e, 'r) sequencer \<Rightarrow> bool" where
  "outward vw ok L did q \<longleftrightarrow> wal_parity vw ok L q \<and> (\<forall>g\<in>set (q_ghosts q). ghost_ok L did g)"

lemma outward_same:
  "outward vw ok L did q \<Longrightarrow> q_wal q' = q_wal q \<Longrightarrow> q_ghosts q' = q_ghosts q \<Longrightarrow>
     c_seq ` set (q_index q) \<subseteq> c_seq ` set (q_index q') \<Longrightarrow> outward vw ok L did q'"
  unfolding outward_def by (metis wal_parity_same)

lemma postCommit1_ghosts: "q_ghosts (applyPostCommitForOne E cx b e s) = q_ghosts s"
  by (simp add: applyPostCommitForOne_def Let_def cacheWrite_wal sidecar_wal resetAttempts_frame walDo_frame)

definition collision_ok :: "(u64 \<Rightarrow> hash) \<Rightarrow> index_row list \<Rightarrow> HashCollision \<Rightarrow> bool" where
  "collision_ok L t c \<longleftrightarrow> ExistingSeq c < AttemptedSeq c \<and> L (ExistingSeq c) = HC_CanonicalHash c
     \<and> L (AttemptedSeq c) = HC_CanonicalHash c \<and> ExistingSeq c \<in> c_seq ` set t"

context seq_wal
begin

lemma recoverCollision_outward:
  assumes "outward vw ok L (en_logDID E) q" "collision_ok L (q_index q) c" "en_WAL E = W"
  shows "outward vw ok L (en_logDID E) (recoverCollision E cx obs batch c q)"
proof (cases "map_of (rev (map (\<lambda>e. (st_Hash e, e)) batch)) (HC_CanonicalHash c)")
  case None
  then show ?thesis using assms(1) by (simp add: recoverCollision_def)
next
  case (Some orig)
  then have "(HC_CanonicalHash c, orig) \<in> set (rev (map (\<lambda>e. (st_Hash e, e)) batch))" by (rule map_of_SomeD)
  then have h: "st_Hash orig = HC_CanonicalHash c" by auto
  let ?rec = "orig\<lparr>st_Seq := ExistingSeq c, st_Row := (st_Row orig)\<lparr>SequenceNumber := ExistingSeq c\<rparr>\<rparr>"
  let ?q1 = "q\<lparr>q_m := (q_m q)\<lparr>m_staleCrashRecoveriesAfterPGCollision := m_staleCrashRecoveriesAfterPGCollision (q_m q) + 1\<rparr>\<rparr>"
  have "wal_parity vw ok L ?q1" by (rule wal_parity_same [of vw ok L q]) (use assms(1) in \<open>simp_all add: outward_def\<close>)
  then have p: "wal_parity vw ok L (committerStaleRecover E cx ?rec ?q1)"
    using assms(2,3) h by (intro staleRecover_parity) (simp_all add: collision_ok_def)
  have p': "wal_parity vw ok L ((committerStaleRecover E cx ?rec ?q1)\<lparr>q_ghosts := gs\<rparr>)" for gs
    by (rule wal_parity_same [OF p]) simp_all
  have g: "\<forall>g\<in>set (q_ghosts (committerStaleRecover E cx ?rec ?q1)). ghost_ok L (en_logDID E) g"
    using assms(1) by (simp add: outward_def staleRecover_frame)
  show ?thesis
    using Some p p' g assms(2) by (simp add: recoverCollision_def outward_def Let_def ghost_ok_def collision_ok_def)
qed

lemma postCommit_outward:
  assumes "outward vw ok L (en_logDID E) q" "\<forall>c\<in>set (HashCollisions res). collision_ok L (q_index q) c" "en_WAL E = W"
    and "\<forall>e\<in>set batch. st_Seq e \<in> c_seq ` set (q_index q) \<and> L (st_Seq e) = st_Hash e"
  shows "outward vw ok L (en_logDID E) (postCommit E cx obs batch res q)"
proof -
  let ?I = "\<lambda>s. outward vw ok L (en_logDID E) s \<and> q_index s = q_index q"
  have one: "?I (fold (recoverCollision E cx obs batch) (HashCollisions res) q)"
  proof (rule fold_invariant [where Q = "collision_ok L (q_index q)"])
    show "?I (recoverCollision E cx obs batch c s)" if "collision_ok L (q_index q) c" "?I s" for c s
      using that recoverCollision_outward [of L E s c cx obs batch] assms(3) by (simp add: same_queueD [OF recoverCollision_queue])
  qed (use assms(1,2) in simp_all)
  have two: "?I (applyPostCommitForOne E cx True e s)"
    if e: "st_Seq e \<in> c_seq ` set (q_index q) \<and> L (st_Seq e) = st_Hash e" and s: "?I s" for e s
  proof -
    have "wal_parity vw ok L (applyPostCommitForOne E cx True e s)"
      by (rule postCommit1_parity) (use e s assms(3) in \<open>simp_all add: outward_def\<close>)
    then show ?thesis using s by (simp add: outward_def postCommit1_ghosts same_queueD [OF postCommit1_queue])
  qed
  have "?I (postCommit E cx obs batch res q)"
    unfolding postCommit_def Let_def
  proof (rule fold_invariant [where Q = "\<lambda>e. st_Seq e \<in> c_seq ` set (q_index q) \<and> L (st_Seq e) = st_Hash e"])
    show "?I ((if st_Hash e \<in> HC_CanonicalHash ` set (HashCollisions res) then id
               else running (applyPostCommitForOne E cx True e)) s)"
      if "st_Seq e \<in> c_seq ` set (q_index q) \<and> L (st_Seq e) = st_Hash e" "?I s" for e s
      using that two [OF that] by (simp add: running_def)
  qed (use assms(4) one in simp_all)
  then show ?thesis by simp
qed

text \<open>A flush extends the index by the whole batch or, on an error, by all or nothing of it.\<close>

lemma flushBatch_ok:
  assumes t: "index_ok L (q_index q) n" and b: "batch_ok L m batch" and m: "m \<le> n" and E: "en_WAL E = W" "en_db E"
    and out: "outward vw ok L (en_logDID E) q" and run: "flushBatch E P cx obs batch q = (r, q')"
  shows "(\<exists>n'. index_ok L (q_index q') n' \<and> n \<le> n' \<and> (r = None \<longrightarrow> m + length batch \<le> n'))
     \<and> outward vw ok L (en_logDID E) q' \<and> q_heap q' = q_heap q \<and> q_pending q' = q_pending q \<and> q_next q' = q_next q \<and> q_ch q' = q_ch q"
proof (cases "batch = []")
  case True
  then show ?thesis using run t m out by (auto simp: flushBatch_def)
next
  case ne: False
  obtain r' t' sp' where tx: "WithTransaction P (flushTx P batch) (q_index q, q_splits q) = (r', (t', sp'))" by (metis surj_pair)
  let ?q1 = "q\<lparr>q_index := t', q_splits := sp'\<rparr>"
  have mono: "index_ok L t2 n2 \<Longrightarrow> n \<le> n2 \<Longrightarrow> c_seq ` set (q_index q) \<subseteq> c_seq ` set t2" for t2 n2
    using t by (auto simp: index_ok_def)
  show ?thesis
  proof (cases "t' = q_index q \<and> (\<exists>e. r' = Inl e)")
    case True
    then have "q' = ?q1 \<and> r \<noteq> None" using run ne E tx by (auto simp: flushBatch_def)
    moreover have "outward vw ok L (en_logDID E) ?q1" by (rule outward_same [OF out]) (use True in simp_all)
    ultimately show ?thesis using True t by auto
  next
    case False
    then obtain res where ins: "InsertBatch P (map st_Row batch) (q_index q) = Inr (res, t')" and r': "r' = Inr res \<or> (\<exists>e. r' = Inl e)"
      using tx by (auto simp: WithTransaction_def flushTx_def bindE_eq_Inr split: option.splits sum.splits if_splits)
    note t' = insert_index_ok [OF t b m ins] and c' = insert_collisions [OF t b ins]
    have sub: "c_seq ` set (q_index q) \<subseteq> c_seq ` set t'" by (rule mono [OF t']) simp
    have out1: "outward vw ok L (en_logDID E) ?q1" by (rule outward_same [OF out]) (use sub in simp_all)
    have cols: "\<forall>c\<in>set (HashCollisions res). collision_ok L (q_index ?q1) c"
      using c' sub by (fastforce simp: collision_ok_def)
    have rows: "\<forall>e\<in>set batch. st_Seq e \<in> c_seq ` set (q_index ?q1) \<and> L (st_Seq e) = st_Hash e"
    proof
      fix e assume e: "e \<in> set batch"
      then have "st_Seq e \<in> {i. m \<le> unat i \<and> unat i < m + length batch}" by (simp flip: batch_ok_seqs [OF b])
      then show "st_Seq e \<in> c_seq ` set (q_index ?q1) \<and> L (st_Seq e) = st_Hash e"
        using b e t' by (simp add: batch_ok_def tuple_ok_def index_ok_def less_max_iff_disj)
    qed
    show ?thesis
    proof (cases r')
      case (Inl e)
      then have "q' = ?q1 \<and> r \<noteq> None" using run ne E tx by (auto simp: flushBatch_def)
      then show ?thesis using out1 t' by (auto intro!: exI [of _ "max n (m + length batch)"])
    next
      case (Inr res')
      then have q': "q' = postCommit E cx obs batch res ?q1" using run ne E tx r' by (auto simp: flushBatch_def)
      have "outward vw ok L (en_logDID E) q'" unfolding q' by (rule postCommit_outward [OF out1 cols E(1) rows])
      moreover have "same_queue ?q1 q'" unfolding q' by (rule postCommit_queue)
      ultimately show ?thesis using t' by (auto simp: same_queue_def intro!: exI [of _ "max n (m + length batch)"])
    qed
  qed
qed

end

subsection \<open>The invariant\<close>

definition seq_inv :: "('w \<Rightarrow> 'r wal_view) \<Rightarrow> ('w \<Rightarrow> bool) \<Rightarrow> (u64 \<Rightarrow> hash) \<Rightarrow> string \<Rightarrow> ('w, 'e, 'r) sequencer \<Rightarrow> bool" where
  "seq_inv vw ok L did q \<longleftrightarrow>
     (\<exists>n. index_ok L (q_index q) n \<and> unat (q_next q) \<le> n) \<and> queue_ok L q \<and> outward vw ok L did q"

lemma seq_inv_same:
  "seq_inv vw ok L did q \<Longrightarrow> same_queue q q' \<Longrightarrow> outward vw ok L did q' \<Longrightarrow> seq_inv vw ok L did q'"
  unfolding seq_inv_def by (metis queue_ok_same same_queueD)

lemma breaker_frame:
  "checkIdenticalBatchBreaker E n fp s = (b, s') \<Longrightarrow> same_queue s s' \<and> q_wal s' = q_wal s \<and> q_ghosts s' = q_ghosts s"
  by (auto simp: checkIdenticalBatchBreaker_def sendFatal_def Let_def same_queue_def split: if_splits option.splits)

lemma resetBreaker_frame:
  "same_queue s (resetIdenticalBatchBreaker s)" "q_wal (resetIdenticalBatchBreaker s) = q_wal s"
  "q_ghosts (resetIdenticalBatchBreaker s) = q_ghosts s"
  by (auto simp: resetIdenticalBatchBreaker_def same_queue_def)

text \<open>The outcomes of \<open>flushPending\<close> on a batch: a panic, a commit, a retry, the breaker.\<close>

lemma flushPending_cases:
  assumes "q_pending q \<noteq> []"
  obtains
    (panicked) q1 where "flushBatch E P cx obs (q_pending q) q = (None, q1)" "flushPending E P cx obs q = q1"
  | (committed) q1 q' where "flushBatch E P cx obs (q_pending q) q = (None, q1)" "flushPending E P cx obs q = q'"
      "q_next q' = q_next q1 + word_of_nat (length (q_pending q))" "q_pending q' = []" "q_heap q' = q_heap q1"
      "q_ch q' = q_ch q1" "q_index q' = q_index q1" "q_wal q' = q_wal q1" "q_ghosts q' = q_ghosts q1"
  | (repushed) err q1 q' where "flushBatch E P cx obs (q_pending q) q = (Some err, q1)" "flushPending E P cx obs q = q'"
      "q_next q' = q_next q1" "q_pending q' = []" "q_heap q' = fold committerPush (q_pending q) (q_heap q1)"
      "q_ch q' = q_ch q1" "q_index q' = q_index q1" "q_wal q' = q_wal q1" "q_ghosts q' = q_ghosts q1"
  | (tripped) err q1 q' where "flushBatch E P cx obs (q_pending q) q = (Some err, q1)" "flushPending E P cx obs q = q'"
      "q_next q' = q_next q1" "q_pending q' = []" "q_heap q' = q_heap q1"
      "q_ch q' = q_ch q1" "q_index q' = q_index q1" "q_wal q' = q_wal q1" "q_ghosts q' = q_ghosts q1"
proof (cases "flushBatch E P cx obs (q_pending q) q")
  case (Pair r q1)
  show thesis
  proof (cases r)
    case None
    show thesis
    proof (cases "q_stopped q1")
      case True
      then show thesis using Pair None assms by (intro panicked [of q1]) (simp_all add: flushPending_def Let_def)
    next
      case False
      have "flushPending E P cx obs q =
          (let s2 = resetIdenticalBatchBreaker q1; n = word_of_nat (length (q_pending q)) in
             s2\<lparr>q_next := q_next s2 + n, q_m := (q_m s2)\<lparr>m_committedBatches := m_committedBatches (q_m s2) + 1,
                  m_committedEntries := m_committedEntries (q_m s2) + n\<rparr>, q_pending := []\<rparr>)"
        using Pair None False assms by (simp add: flushPending_def Let_def)
      then show thesis using Pair None same_queueD [OF resetBreaker_frame(1), of q1]
        by (intro committed [of q1 "flushPending E P cx obs q"]) (simp_all add: Let_def resetBreaker_frame)
    qed
  next
    case (Some err)
    let ?q2 = "q1\<lparr>q_m := (q_m q1)\<lparr>m_commitBatchFailures := m_commitBatchFailures (q_m q1) + 1\<rparr>\<rparr>"
    obtain b q3 where br: "checkIdenticalBatchBreaker E (st_Seq (hd (q_pending q))) (en_errString E err) ?q2 = (b, q3)" by fastforce
    note F = breaker_frame [OF br, THEN conjunct1, THEN same_queueD] breaker_frame [OF br, THEN conjunct2]
    show thesis
    proof (cases b)
      case True
      then show thesis using Pair Some br assms F
        by (intro tripped [of err q1 "flushPending E P cx obs q"]) (simp_all add: flushPending_def Let_def)
    next
      case False
      then show thesis using Pair Some br assms F
        by (intro repushed [of err q1 "flushPending E P cx obs q"]) (simp_all add: flushPending_def Let_def)
    qed
  qed
qed

context seq_wal
begin

lemma flushPending_inv:
  assumes inv: "seq_inv vw ok L (en_logDID E) q" and E: "en_WAL E = W" "en_db E"
  shows "seq_inv vw ok L (en_logDID E) (flushPending E P cx obs q)"
proof (cases "q_pending q = []")
  case True
  then show ?thesis using inv by (simp add: flushPending_def)
next
  case False
  obtain n where t: "index_ok L (q_index q) n" "unat (q_next q) \<le> n" and qu: "queue_ok L q"
    and out: "outward vw ok L (en_logDID E) q" using inv by (auto simp: seq_inv_def)
  note b = pending_batch_ok [OF qu] and D = queue_okD [OF qu]
  have F: "\<exists>n'. index_ok L (q_index q1) n' \<and> n \<le> n' \<and> (r = None \<longrightarrow> unat (q_next q) + length (q_pending q) \<le> n')"
    "outward vw ok L (en_logDID E) q1" "q_heap q1 = q_heap q" "q_pending q1 = q_pending q" "q_next q1 = q_next q" "q_ch q1 = q_ch q"
    if "flushBatch E P cx obs (q_pending q) q = (r, q1)" for r q1
    using flushBatch_ok [OF t(1) b t(2) E out that] by auto
  show ?thesis
  proof (rule flushPending_cases [OF False, of E P cx obs])
    fix q1 assume 1: "flushBatch E P cx obs (q_pending q) q = (None, q1)" "flushPending E P cx obs q = q1"
    have "queue_ok L q1" by (rule queue_ok_sub [OF qu]) (use F(3-6) [OF 1(1)] D in \<open>simp_all add: staged_def\<close>)
    then show ?thesis using F [OF 1(1)] t(2) unfolding 1(2) seq_inv_def by (metis order_trans)
  next
    fix q1 q' assume 1: "flushBatch E P cx obs (q_pending q) q = (None, q1)" "flushPending E P cx obs q = q'"
      and q': "q_next q' = q_next q1 + word_of_nat (length (q_pending q))" "q_pending q' = []" "q_heap q' = q_heap q1"
      "q_ch q' = q_ch q1" "q_index q' = q_index q1" "q_wal q' = q_wal q1" "q_ghosts q' = q_ghosts q1"
    have nx: "unat (q_next q') = unat (q_next q) + length (q_pending q)" using q'(1) F(5) [OF 1(1)] expected_unat [OF qu] by simp
    have "queue_ok L q'"
      by (rule queue_ok_sub [OF qu]) (use F(3-6) [OF 1(1)] q' D nx pending_bound [OF qu] in \<open>auto simp: staged_def word_le_nat_alt\<close>)
    moreover have "outward vw ok L (en_logDID E) q'" by (rule outward_same [OF F(2) [OF 1(1)]]) (use q' in simp_all)
    ultimately show ?thesis using F(1) [OF 1(1)] q' nx unfolding 1(2) seq_inv_def by auto
  next
    fix err q1 q' assume 1: "flushBatch E P cx obs (q_pending q) q = (Some err, q1)" "flushPending E P cx obs q = q'"
      and q': "q_next q' = q_next q1" "q_pending q' = []" "q_heap q' = fold committerPush (q_pending q) (q_heap q1)"
      "q_ch q' = q_ch q1" "q_index q' = q_index q1" "q_wal q' = q_wal q1" "q_ghosts q' = q_ghosts q1"
    have "queue_ok L q'"
      by (rule queue_ok_sub [OF qu]) (use F(3-6) [OF 1(1)] q' D in \<open>auto simp: staged_def committerPushes_ok\<close>)
    moreover have "outward vw ok L (en_logDID E) q'" by (rule outward_same [OF F(2) [OF 1(1)]]) (use q' in simp_all)
    ultimately show ?thesis using F(1) [OF 1(1)] F(5) [OF 1(1)] t(2) q' unfolding 1(2) seq_inv_def by (metis order_trans)
  next
    fix err q1 q' assume 1: "flushBatch E P cx obs (q_pending q) q = (Some err, q1)" "flushPending E P cx obs q = q'"
      and q': "q_next q' = q_next q1" "q_pending q' = []" "q_heap q' = q_heap q1"
      "q_ch q' = q_ch q1" "q_index q' = q_index q1" "q_wal q' = q_wal q1" "q_ghosts q' = q_ghosts q1"
    have "queue_ok L q'"
      by (rule queue_ok_sub [OF qu]) (use F(3-6) [OF 1(1)] q' D in \<open>auto simp: staged_def\<close>)
    moreover have "outward vw ok L (en_logDID E) q'" by (rule outward_same [OF F(2) [OF 1(1)]]) (use q' in simp_all)
    ultimately show ?thesis using F(1) [OF 1(1)] F(5) [OF 1(1)] t(2) q' unfolding 1(2) seq_inv_def by (metis order_trans)
  qed
qed

lemma drain_inv:
  assumes inv: "seq_inv vw ok L (en_logDID E) q" and E: "en_WAL E = W"
  shows "seq_inv vw ok L (en_logDID E) (drainHeapInto E cx q)"
proof -
  obtain n where t: "index_ok L (q_index q) n" "unat (q_next q) \<le> n" and qu: "queue_ok L q"
    and out: "outward vw ok L (en_logDID E) q" using inv by (auto simp: seq_inv_def)
  let ?Q = "\<lambda>q1. outward vw ok L (en_logDID E) q1 \<and> q_index q1 = q_index q \<and> q_next q1 = q_next q"
  have "queue_ok L (drainHeapInto E cx q) \<and> drained q (drainHeapInto E cx q) \<and> ?Q (drainHeapInto E cx q)"
  proof (rule drain_ok [where Q = ?Q, OF qu])
    show "?Q q2" if "?Q q1" "set_queues ys pd q1 q2" "q_wal q2 = q_wal q1" "q_ghosts q2 = q_ghosts q1" for q1 q2 ys pd
      using that outward_same [of vw ok L "en_logDID E" q1 q2] by (simp add: set_queues_def)
    show "?Q (committerStaleRecover E cx e q1)" if q1: "?Q q1" and e: "tuple_ok L e" "st_Seq e < q_next q1" for q1 e
    proof -
      have "unat (st_Seq e) < n" using e(2) q1 t(2) by (simp add: word_less_nat_alt)
      then have "st_Seq e \<in> c_seq ` set (q_index q1)" using t(1) q1 by (simp add: index_ok_def)
      then have "wal_parity vw ok L (committerStaleRecover E cx e q1)"
        using q1 e(1) E by (intro staleRecover_parity) (simp_all add: outward_def tuple_ok_def)
      then show ?thesis using q1 by (simp add: outward_def staleRecover_frame same_queueD [OF staleRecover_queue])
    qed
  qed (use out in simp)
  then show ?thesis using t unfolding seq_inv_def by auto
qed

lemma metrics_inv:
  assumes "seq_inv vw ok L did q" "same_queue q q'" "q_wal q' = q_wal q" "q_ghosts q' = q_ghosts q"
  shows "seq_inv vw ok L did q'"
  by (rule seq_inv_same [OF assms(1,2)], rule outward_same [of vw ok L did q])
    (use assms in \<open>simp_all add: seq_inv_def same_queue_def\<close>)

lemma timer_inv:
  "seq_inv vw ok L did s \<Longrightarrow> seq_inv vw ok L did (s\<lparr>q_timer := b\<rparr>)"
  "seq_inv vw ok L did s \<Longrightarrow> seq_inv vw ok L did (s\<lparr>q_stopped := b\<rparr>)"
  by (erule metrics_inv; simp add: same_queue_def)+

lemma recv_inv:
  assumes inv: "seq_inv vw ok L (en_logDID E) q" and E: "en_WAL E = W" "en_db E"
  shows "seq_inv vw ok L (en_logDID E) (committerRecv E P cx obs q)"
proof (cases "q_ch q")
  case Nil
  then show ?thesis using inv by (simp add: committerRecv_def)
next
  case (Cons tuple rest)
  define s1 where "s1 = q\<lparr>q_ch := rest, q_heap := committerPush tuple (q_heap q)\<rparr>"
  define s2 where "s2 = (if st_Seq (q_heap s1 ! 0) \<noteq> q_next s1 + word_of_nat (length (q_pending s1))
      then s1\<lparr>q_m := (q_m s1)\<lparr>m_commitWaitOnGap := m_commitWaitOnGap (q_m s1) + 1\<rparr>\<rparr> else s1)"
  have qu: "queue_ok L q" using inv by (simp add: seq_inv_def)
  have "queue_ok L s1"
    by (rule queue_ok_sub [OF qu]) (use queue_okD [OF qu] Cons in \<open>auto simp: s1_def staged_def committerPush_ok\<close>)
  moreover have "outward vw ok L (en_logDID E) s1"
    by (rule outward_same [of vw ok L "en_logDID E" q]) (use inv in \<open>simp_all add: s1_def seq_inv_def\<close>)
  ultimately have 1: "seq_inv vw ok L (en_logDID E) s1" using inv by (simp add: seq_inv_def s1_def)
  have "seq_inv vw ok L (en_logDID E) s2" by (rule metrics_inv [OF 1]) (simp_all add: s2_def)
  then have 3: "seq_inv vw ok L (en_logDID E) (drainHeapInto E cx s2)" by (rule drain_inv [OF _ E(1)])
  have eq: "committerRecv E P cx obs q =
      (if int (length (q_pending (drainHeapInto E cx s2))) \<ge> cf_CommitMaxBatchSize (en_cfg E)
       then flushPending E P cx obs (stopTimer (drainHeapInto E cx s2)) else armTimer (drainHeapInto E cx s2))"
    by (simp only: committerRecv_def Let_def Cons list.case s2_def s1_def)
  show ?thesis
    using flushPending_inv [OF timer_inv(1) [OF 3] E] timer_inv(1) [OF 3] 3 by (simp add: eq stopTimer_def armTimer_def)
qed

lemma tick_inv:
  "seq_inv vw ok L (en_logDID E) q \<Longrightarrow> en_WAL E = W \<Longrightarrow> en_db E \<Longrightarrow> seq_inv vw ok L (en_logDID E) (committerTick E P cx obs q)"
  by (simp add: committerTick_def flushPending_inv timer_inv)

lemma done_inv:
  assumes "seq_inv vw ok L (en_logDID E) q" "en_WAL E = W" "en_db E"
  shows "seq_inv vw ok L (en_logDID E) (committerDone E P cx cx' obs q)"
  using flushPending_inv [OF timer_inv(1) [OF drain_inv [OF assms(1,2)]] assms(2,3)] timer_inv(1) [OF drain_inv [OF assms(1,2)]]
  by (simp add: committerDone_def Let_def stopTimer_def timer_inv)

subsection \<open>Stage 1\<close>

lemma call_inv:
  assumes "seq_inv vw ok L did q" "wal_parity vw ok L (snd (walDo cx op q))"
  shows "seq_inv vw ok L did (snd (walDo cx op q))"
  using assms by (intro seq_inv_same [OF assms(1) walDo_queue]) (simp add: outward_def seq_inv_def walDo_frame)

lemma handleEntryError_inv:
  assumes inv: "seq_inv vw ok L did q" and E: "en_WAL E = W" and now: "now \<noteq> 0"
  shows "seq_inv vw ok L did (handleEntryError E cx now h cause q)"
proof -
  have fatal: "seq_inv vw ok L did (sendFatal E f q)" for f
    by (rule metrics_inv [OF inv]) (auto simp: sendFatal_def same_queue_def split: option.splits)
  obtain a q1 where ra: "recordAttempt h q = (a, q1)" by fastforce
  then have f1: "same_queue q q1 \<and> q_wal q1 = q_wal q \<and> q_ghosts q1 = q_ghosts q"
    by (auto simp: recordAttempt_def Let_def same_queue_def)
  have any: "seq_inv vw ok L did (q1\<lparr>q_m := m\<rparr>)" for m
    by (rule metrics_inv [OF inv]) (use f1 in \<open>simp_all add: same_queue_def\<close>)
  then have par: "wal_parity vw ok L (q1\<lparr>q_m := m\<rparr>)" for m by (simp add: seq_inv_def outward_def)
  have man: "seq_inv vw ok L did (resetAttempts h (snd (walDo cx (\<lambda>x. qw_MarkManual W x h) (q1\<lparr>q_m := m\<rparr>))))" for m
    by (rule metrics_inv [OF call_inv [OF any manual_parity [OF par, of cx h]] resetAttempts_queue]) (simp_all add: resetAttempts_frame)
  have ret: "seq_inv vw ok L did (snd (walDo cx (\<lambda>x. qw_MarkRetry W x now h) (q1\<lparr>q_m := m\<rparr>)))" for m
    by (rule call_inv [OF any retry_parity [OF par now]])
  show ?thesis
    using inv fatal man ret by (simp add: handleEntryError_def ra Let_def E)
qed

lemma processBegin_inv:
  assumes inv: "seq_inv vw ok L did q" and E: "en_WAL E = W" and now: "now \<noteq> 0"
    and run: "processBegin E cx now h q = (r, q')"
  shows "seq_inv vw ok L did q'"
proof -
  define q1 where "q1 = q\<lparr>q_tick := Suc (q_tick q)\<rparr>"
  define q2 where "q2 = q1\<lparr>q_tick := Suc (q_tick q1)\<rparr>"
  have f: "same_queue q q1" "q_wal q1 = q_wal q" "q_ghosts q1 = q_ghosts q"
    "same_queue q q2" "q_wal q2 = q_wal q" "q_ghosts q2 = q_ghosts q" by (simp_all add: q1_def q2_def same_queue_def)
  have any: "seq_inv vw ok L did (q1\<lparr>q_m := m\<rparr>)" "seq_inv vw ok L did (q2\<lparr>q_m := m\<rparr>)"
    "seq_inv vw ok L did q2" "seq_inv vw ok L did (resetAttempts h q1)" for m
    by (rule metrics_inv [OF inv]; use f in \<open>simp add: same_queue_def resetAttempts_def\<close>)+
  have par: "wal_parity vw ok L (q2\<lparr>q_m := m\<rparr>)" for m using any(2) by (simp add: seq_inv_def outward_def)
  have man: "seq_inv vw ok L did (resetAttempts h (snd (walDo cx (\<lambda>x. qw_MarkManual W x h) (q2\<lparr>q_m := m\<rparr>))))" for m
    by (rule metrics_inv [OF call_inv [OF any(2) manual_parity [OF par, of cx h]] resetAttempts_queue]) (simp_all add: resetAttempts_frame)
  note err = handleEntryError_inv [OF any(3) E now]
  show ?thesis
    using run any [unfolded q2_def] err [unfolded q2_def] man [unfolded q2_def]
    unfolding processBegin_def walAsk_def q1_def [symmetric] Let_def
    by (auto simp: E split: sum.splits if_splits)
qed

end

end
