(* ===== verification/SeqSpec.thy ===== *)
theory SeqSpec
  imports SeqParity WalSpec
begin

section \<open>The sequencer: the whole pipeline and its properties\<close>

text \<open>
  The step relation \<open>seq_step\<close> runs stage-1 workers and the committer in any order: drain
  cycles, workers entering and returning from Tessera, the three cases of the committer's loop,
  steps of the other users of the WAL, and restarts over the durable state.  Tessera is the log
  \<open>L\<close>; \<open>tessera_answer\<close> is what its \<open>AppendLeaf\<close> promises.
\<close>

subsection \<open>Stage 1 emits well-formed tuples\<close>

text \<open>
  \<open>AppendLeaf\<close> returns the index of a leaf that holds the hash, and its deduplication returns
  the same index for a hash as long as an earlier tuple for it is waiting to be committed.
\<close>

definition tessera_answer :: "(u64 \<Rightarrow> hash) \<Rightarrow> ('w, 'e, 'r) sequencer \<Rightarrow> hash \<Rightarrow> tess_error + u64 \<Rightarrow> bool" where
  "tessera_answer L q h res \<longleftrightarrow>
     (case res of
        Inl e \<Rightarrow> True
      | Inr n \<Rightarrow> L n = h \<and> unat n < 2 ^ 63
          \<and> (q_next q \<le> n \<longrightarrow> (\<forall>e\<in>staged q. q_next q \<le> st_Seq e \<longrightarrow> st_Hash e = h \<longrightarrow> st_Seq e = n)))"

lemma liveTuple_fields:
  "st_Seq (liveTuple E n h en meta ex) = n" "st_Hash (liveTuple E n h en meta ex) = h"
  "st_Tombstone (liveTuple E n h en meta ex) = False"
  "SequenceNumber (st_Row (liveTuple E n h en meta ex)) = n" "CanonicalHash (st_Row (liveTuple E n h en meta ex)) = h"
  "Status (st_Row (liveTuple E n h en meta ex)) = StatusLive"
  by (auto simp: liveTuple_def buildLiveStagedEntry_def Let_def split: sum.splits)

lemma tombstone_fields:
  "st_Seq (tombstoneEntry clock n h reason) = n" "st_Hash (tombstoneEntry clock n h reason) = h"
  "st_Tombstone (tombstoneEntry clock n h reason) = True"
  "SequenceNumber (st_Row (tombstoneEntry clock n h reason)) = n" "CanonicalHash (st_Row (tombstoneEntry clock n h reason)) = h"
  "Status (st_Row (tombstoneEntry clock n h reason)) = StatusTombstone"
  by (simp_all add: tombstoneEntry_def)

lemma tuples_ok:
  assumes "L n = h" "unat n < 2 ^ 63"
  shows "tuple_ok L (liveTuple E n h en meta ex)" "tuple_ok L (tombstoneEntry clock n h reason)"
  using assms by (simp_all add: tuple_ok_def liveTuple_fields tombstone_fields)

lemma emit_inv:
  assumes inv: "seq_inv vw ok L did q" and e: "tuple_ok L e" and ans: "tessera_answer L q (st_Hash e) (Inr (st_Seq e))"
  shows "seq_inv vw ok L did (emitTuple sent e q)"
proof (cases sent)
  case True
  let ?q = "q\<lparr>q_ch := q_ch q @ [e]\<rparr>"
  have qu: "queue_ok L q" using inv by (simp add: seq_inv_def)
  note D = queue_okD [OF qu]
  have st: "staged ?q = insert e (staged q)" by (auto simp: staged_def)
  have dd: "st_Seq a = st_Seq e" if "a \<in> staged q" "q_next q \<le> st_Seq a" "q_next q \<le> st_Seq e" "st_Hash a = st_Hash e" for a
    using ans that by (simp add: tessera_answer_def)
  have "queue_ok L ?q"
  proof (rule queue_okI)
    show "tuple_ok L a" if "a \<in> staged ?q" for a using that D(4) [of a] e unfolding st by auto
    show "st_Seq a = st_Seq b" if "a \<in> staged ?q" "b \<in> staged ?q" "q_next ?q \<le> st_Seq a" "q_next ?q \<le> st_Seq b"
      "st_Hash a = st_Hash b" for a b
    proof (cases "a = e \<or> b = e")
      case True
      then show ?thesis using that dd [of a] dd [of b] unfolding st by auto
    next
      case False
      then show ?thesis using that D(5) [of a b] unfolding st by simp
    qed
  qed (use D(1-3) in simp_all)
  moreover have "outward vw ok L did ?q" by (rule outward_same [of vw ok L did q]) (use inv in \<open>simp_all add: seq_inv_def\<close>)
  ultimately show ?thesis using inv True by (simp add: seq_inv_def emitTuple_def)
qed (use inv in \<open>simp add: emitTuple_def\<close>)

context seq_wal
begin

lemma processAppend_inv:
  assumes inv: "seq_inv vw ok L did q" and E: "en_WAL E = W" and now: "now \<noteq> 0" and ans: "tessera_answer L q h res"
  shows "seq_inv vw ok L did (processAppend E cx now clock sent h en meta res q)"
proof -
  define q1 where "q1 = q\<lparr>q_m := (q_m q)\<lparr>m_tesseraInFlight := m_tesseraInFlight (q_m q) - 1\<rparr>\<rparr>"
  have 1: "seq_inv vw ok L did q1" by (rule metrics_inv [OF inv]) (simp_all add: q1_def)
  show ?thesis
  proof (cases res)
    case (Inl er)
    then show ?thesis using handleEntryError_inv [OF 1 E now] by (simp add: processAppend_def Let_def q1_def)
  next
    case (Inr n)
    have n: "L n = h" "unat n < 2 ^ 63" using ans Inr by (simp_all add: tessera_answer_def)
    have "seq_inv vw ok L did (emitTuple sent e q1)" if "tuple_ok L e" "st_Seq e = n" "st_Hash e = h" for e
      using ans Inr that by (intro emit_inv [OF 1]) (simp_all add: tessera_answer_def q1_def staged_def)
    then have "seq_inv vw ok L did (emitTuple sent (liveTuple E n h en meta ex) q1)"
      "seq_inv vw ok L did (emitTombstone sent clock n h reason q1)" for ex reason
      by (simp_all add: tuples_ok [of L n h, OF n] liveTuple_fields tombstone_fields emitTombstone_def)
    then show ?thesis using Inr by (simp add: processAppend_def Let_def q1_def split: sum.splits)
  qed
qed

lemma drainOnce_inv:
  assumes "seq_inv vw ok L did q"
  shows "seq_inv vw ok L did (snd (drainOnce E X lag q))"
proof -
  have "\<exists>m. snd (drainOnce E X lag q) = q\<lparr>q_m := m\<rparr>"
  proof (cases "dx_start X")
    case None
    then show ?thesis
      by (auto simp: drainOnce_def Let_def split: option.splits lag_result.splits prod.splits if_splits)
  next
    case (Some e)
    then have "snd (drainOnce E X lag q) = q\<lparr>q_m := q_m q\<rparr>" by (simp add: drainOnce_def)
    then show ?thesis by blast
  qed
  then obtain m where "snd (drainOnce E X lag q) = q\<lparr>q_m := m\<rparr>" by blast
  then show ?thesis using metrics_inv [OF assms, of "q\<lparr>q_m := m\<rparr>"] by simp
qed

end

subsection \<open>Restart\<close>

lemma readNextExpectedSeq_ok:
  assumes t: "index_ok L t n"
  shows "readNextExpectedSeq True None t = Inr (word_of_nat n)"
proof (cases t)
  case Nil
  then have "{i :: u64. unat i < n} = {}" using t by (simp add: index_ok_def)
  then have "n = 0" by (metis empty_iff mem_Collect_eq unat_0 neq0_conv)
  then show ?thesis using Nil by (simp add: readNextExpectedSeq_def pg_run_def)
next
  case (Cons q qs)
  have n: "n \<le> 2 ^ 63" and seqs: "c_seq ` set t = {i. unat i < n}" using t by (simp_all add: index_ok_def)
  have small: "sint (c_seq r) = int (unat (c_seq r))" "unat (c_seq r) < n" if "r \<in> set t" for r
  proof -
    have "c_seq r \<in> {i. unat i < n}" using that by (simp flip: seqs)
    then show "unat (c_seq r) < n" by simp
    then show "sint (c_seq r) = int (unat (c_seq r))" using n by (intro sint_u64_small) simp
  qed
  have pos: "0 < n" using small(2) [of q] Cons by simp
  have "word_of_nat (n - 1) \<in> c_seq ` set t" unfolding seqs using pos n unat_u64_of_nat [of "n - 1"] by simp
  then obtain r where r: "r \<in> set t" "c_seq r = word_of_nat (n - 1)" by auto
  have "unat (c_seq r) = n - 1" unfolding r(2) by (rule unat_u64_of_nat) (use n in simp)
  then have top: "sint (c_seq r) = int n - 1" unfolding small(1) [OF r(1)] using pos by simp
  have "Max (set (map (\<lambda>q. sint (c_seq q)) t)) = int n - 1"
  proof (rule Max_eqI)
    show "x \<le> int n - 1" if "x \<in> set (map (\<lambda>q. sint (c_seq q)) t)" for x
    proof -
      from that obtain r where "r \<in> set t" "x = sint (c_seq r)" by auto
      then have "x = int (unat (c_seq r))" "unat (c_seq r) < n" using small by blast+
      then show ?thesis by linarith
    qed
    show "int n - 1 \<in> set (map (\<lambda>q. sint (c_seq q)) t)" using r(1) top by force
  qed simp
  then have "fold max (map (\<lambda>q. sint (c_seq q)) qs) (sint (c_seq q)) = int n - 1"
    unfolding Cons list.map Max.set_eq_fold .
  then show ?thesis using Cons by (simp add: readNextExpectedSeq_def pg_run_def)
qed

lemma boot_inv:
  assumes inv: "seq_inv vw ok L did q" and db: "en_db E" and run: "sequencerBoot E flt ca q = Inr q'"
  shows "seq_inv vw ok L did q'"
proof -
  obtain n where t: "index_ok L (q_index q) n" using inv by (auto simp: seq_inv_def)
  have n: "n \<le> 2 ^ 63" using t by (simp add: index_ok_def)
  have "flt = None" using run db by (auto simp: sequencerBoot_def readNextExpectedSeq_def pg_run_def split: option.splits)
  then have nx: "unat (q_next q') = n" and rest: "q_heap q' = [] \<and> q_pending q' = [] \<and> q_ch q' = [] \<and> q_index q' = q_index q
      \<and> q_wal q' = q_wal q \<and> q_ghosts q' = q_ghosts q"
    using run db readNextExpectedSeq_ok [OF t] unat_u64_of_nat [of n] n by (auto simp: sequencerBoot_def)
  have "queue_ok L q'" using rest nx n by (simp add: queue_ok_def staged_def heap_wf_def heap_upto_def)
  moreover have "outward vw ok L did q'" by (rule outward_same [of vw ok L did q]) (use inv rest in \<open>simp_all add: seq_inv_def\<close>)
  ultimately show ?thesis using t nx rest unfolding seq_inv_def by auto
qed

subsection \<open>The pipeline as a step relation\<close>

record ('w, 'e, 'r) seqSys =
  sy_q :: "('w, 'e, 'r) sequencer"
  sy_todo :: "hash list"
  sy_workers :: "(hash \<times> 'e \<times> 'r Meta) list"

text \<open>
  A drain cycle starts when the previous one is finished.  A worker slot is taken before a worker
  starts, and a worker that returns from Tessera sends its tuple when the channel has room or gives
  up because the context ended.  The committer runs until it stops.  \<open>others\<close> is a step of
  the shipper, of the admission path or of the garbage collector on the WAL: none of them adds to its
  sequence index.
\<close>

inductive seq_step ::
  "('w, 'e, 'r) seqEnv \<Rightarrow> ('w \<Rightarrow> 'r wal_view) \<Rightarrow> ('w \<Rightarrow> bool) \<Rightarrow> (u64 \<Rightarrow> hash) \<Rightarrow> ('w, 'e, 'r) seqSys \<Rightarrow> ('w, 'e, 'r) seqSys \<Rightarrow> bool"
  for E vw ok L where
  drain: "sy_todo y = [] \<Longrightarrow> sy_workers y = [] \<Longrightarrow> drainOnce E X lag (sy_q y) = (hs, q') \<Longrightarrow>
     seq_step E vw ok L y (y\<lparr>sy_q := q', sy_todo := hs\<rparr>)"
| enter: "sy_todo y = h # hs \<Longrightarrow> int (length (sy_workers y)) < cf_MaxInFlight (en_cfg E) \<Longrightarrow> now \<noteq> 0 \<Longrightarrow>
     processBegin E cx now h (sy_q y) = (r, q') \<Longrightarrow>
     ws = (case r of None \<Rightarrow> sy_workers y | Some (en, meta) \<Rightarrow> sy_workers y @ [(h, en, meta)]) \<Longrightarrow>
     seq_step E vw ok L y (y\<lparr>sy_q := q', sy_todo := hs, sy_workers := ws\<rparr>)"
| return: "sy_workers y = us @ (h, en, meta) # vs \<Longrightarrow> now \<noteq> 0 \<Longrightarrow> tessera_answer L (sy_q y) h res \<Longrightarrow>
     sent \<and> int (length (q_ch (sy_q y))) < cf_CommitChannelBuffer (en_cfg E) \<or> \<not> sent \<and> done \<noteq> (None :: ctx) \<Longrightarrow>
     processAppend E cx now clock sent h en meta res (sy_q y) = q' \<Longrightarrow>
     seq_step E vw ok L y (y\<lparr>sy_q := q', sy_workers := us @ vs\<rparr>)"
| recv: "\<not> q_stopped (sy_q y) \<Longrightarrow> committerRecv E P cx obs (sy_q y) = q' \<Longrightarrow> seq_step E vw ok L y (y\<lparr>sy_q := q'\<rparr>)"
| tick: "\<not> q_stopped (sy_q y) \<Longrightarrow> committerTick E P cx obs (sy_q y) = q' \<Longrightarrow> seq_step E vw ok L y (y\<lparr>sy_q := q'\<rparr>)"
| stop: "\<not> q_stopped (sy_q y) \<Longrightarrow> committerDone E P cx cx' obs (sy_q y) = q' \<Longrightarrow> seq_step E vw ok L y (y\<lparr>sy_q := q'\<rparr>)"
| others: "ok w' \<Longrightarrow> v_seq (vw w') \<subseteq>\<^sub>m v_seq (vw (q_wal (sy_q y))) \<Longrightarrow> seq_step E vw ok L y (y\<lparr>sy_q := (sy_q y)\<lparr>q_wal := w'\<rparr>\<rparr>)"
| boot: "sequencerBoot E flt ca (sy_q y) = Inr q' \<Longrightarrow> seq_step E vw ok L y \<lparr>sy_q = q', sy_todo = [], sy_workers = []\<rparr>"

definition seq_start :: "('w \<Rightarrow> 'r wal_view) \<Rightarrow> ('w \<Rightarrow> bool) \<Rightarrow> ('w, 'e, 'r) seqSys \<Rightarrow> bool" where
  "seq_start vw ok y \<longleftrightarrow>
     sy_todo y = [] \<and> sy_workers y = [] \<and> q_index (sy_q y) = [] \<and> q_heap (sy_q y) = [] \<and> q_pending (sy_q y) = []
     \<and> q_ch (sy_q y) = [] \<and> q_next (sy_q y) = 0 \<and> q_ghosts (sy_q y) = [] \<and> ok (q_wal (sy_q y))
     \<and> v_seq (vw (q_wal (sy_q y))) = Map.empty"

inductive seq_reach ::
  "('w, 'e, 'r) seqEnv \<Rightarrow> ('w \<Rightarrow> 'r wal_view) \<Rightarrow> ('w \<Rightarrow> bool) \<Rightarrow> (u64 \<Rightarrow> hash) \<Rightarrow> ('w, 'e, 'r) seqSys \<Rightarrow> bool"
  for E vw ok L where
  init: "seq_start vw ok y \<Longrightarrow> seq_reach E vw ok L y"
| more: "seq_reach E vw ok L y \<Longrightarrow> seq_step E vw ok L y y' \<Longrightarrow> seq_reach E vw ok L y'"

lemma start_inv: "seq_start vw ok y \<Longrightarrow> seq_inv vw ok L did (sy_q y)"
  by (auto simp: seq_start_def seq_inv_def queue_ok_def staged_def outward_def wal_parity_def index_ok_def index_inv_def
      heap_wf_def heap_upto_def intro!: exI [of _ 0])

context seq_wal
begin

lemma step_inv:
  assumes "seq_step E vw ok L y y'" and inv: "seq_inv vw ok L (en_logDID E) (sy_q y)" and E: "en_WAL E = W" "en_db E"
  shows "seq_inv vw ok L (en_logDID E) (sy_q y')"
  using assms(1)
proof cases
  case (drain X lag hs q')
  then show ?thesis using drainOnce_inv [OF inv, of E X lag] by simp
next
  case (enter h hs now cx r q' ws)
  then show ?thesis using processBegin_inv [OF inv E(1)] by simp
next
  case (return us h en meta vs now res sent dn cx clock q')
  then show ?thesis using processAppend_inv [OF inv E(1)] by auto
next
  case (recv P cx obs q')
  then show ?thesis using recv_inv [OF inv E] by auto
next
  case (tick P cx obs q')
  then show ?thesis using tick_inv [OF inv E] by auto
next
  case (stop P cx cx' obs q')
  then show ?thesis using done_inv [OF inv E] by auto
next
  case (others w')
  have "wal_parity vw ok L ((sy_q y)\<lparr>q_wal := w'\<rparr>)"
    using inv others(2,3) unfolding seq_inv_def outward_def wal_parity_def by (auto simp: map_le_def dom_def)
  then have "outward vw ok L (en_logDID E) ((sy_q y)\<lparr>q_wal := w'\<rparr>)" using inv by (simp add: seq_inv_def outward_def)
  then show ?thesis using seq_inv_same [OF inv] others(1) by (simp add: same_queue_def)
next
  case (boot flt ca q')
  then show ?thesis using boot_inv [OF inv E(2)] by simp
qed

lemma reach_inv:
  assumes "seq_reach E vw ok L y" "en_WAL E = W" "en_db E"
  shows "seq_inv vw ok L (en_logDID E) (sy_q y)"
  using assms(1) by induction (auto intro: start_inv step_inv [OF _ _ assms(2,3)])

end

subsection \<open>The WAL's committer provides the interface\<close>

sublocale wal_store \<subseteq> sq: seq_wal "committerSeqWAL B c" "\<lambda>d. view_of c (content d)" "committer_ok c content"
proof
  fix d d' x h n r now
  assume ok: "committer_ok c content d"
  then have wf: "wf_kv c (content d)" by (simp add: committer_ok_def)
  show "committer_ok c content d' \<and> (v_seq (view_of c (content d')) = v_seq (view_of c (content d)) \<or>
      v_seq (view_of c (content d')) = (v_seq (view_of c (content d)))(n \<mapsto> h))"
    if run: "qw_Sequence (committerSeqWAL B c) x h n d = (r, d')"
  proof -
    have run': "walSequence B c x h n d = (r, d')" using run by (simp add: committerSeqWAL_def)
    have "committer_ok c content d'" by (rule ok_step [OF wal_step.seq [OF run'] ok])
    moreover have "v_seq (view_of c (content d')) = v_seq (view_of c (content d)) \<or>
      v_seq (view_of c (content d')) = (v_seq (view_of c (content d)))(n \<mapsto> h)"
    proof (cases r)
      case (Inl e)
      then have "d' = d" using run' ctx_update_Inl unfolding walSequence_def by blast
      then show ?thesis by simp
    next
      case (Inr u)
      then show ?thesis using Sequence_refines [of x h n d u d'] run' wf by (auto simp: av_sequence_def)
    qed
    ultimately show ?thesis by blast
  qed
  show "committer_ok c content d' \<and> v_seq (view_of c (content d')) = v_seq (view_of c (content d))"
    if run: "qw_MarkManual (committerSeqWAL B c) x h d = (r, d')"
  proof -
    have run': "MarkManual B c x h d = (r, d')" using run by (simp add: committerSeqWAL_def)
    have "v_seq (view_of c (content d')) = v_seq (view_of c (content d))"
    proof (cases r)
      case (Inl e)
      then have "d' = d" using run' ctx_update_Inl unfolding MarkManual_def by blast
      then show ?thesis by simp
    next
      case (Inr u)
      then show ?thesis using MarkManual_refines [of x h d u d'] run' wf by (auto simp: av_meta_def)
    qed
    then show ?thesis using ok_step [OF wal_step.manual [OF run'] ok] by blast
  qed
  show "committer_ok c content d' \<and> v_seq (view_of c (content d')) = v_seq (view_of c (content d))"
    if now: "now \<noteq> 0" and run: "qw_MarkRetry (committerSeqWAL B c) x now h d = (r, d')"
  proof -
    have run': "MarkRetry B c x now h d = (r, d')" using run by (simp add: committerSeqWAL_def)
    have "v_seq (view_of c (content d')) = v_seq (view_of c (content d))"
    proof (cases r)
      case (Inl e)
      then have "d' = d" using run' ctx_update_Inl unfolding MarkRetry_def by blast
      then show ?thesis by simp
    next
      case (Inr u)
      then show ?thesis using MarkRetry_refines [of x now h d u d'] run' wf now by (auto simp: av_meta_def)
    qed
    then show ?thesis using ok_step [OF wal_step.retry [OF now run'] ok] by blast
  qed
qed

context wal_store
begin

lemmas pipeline_reach_inv = sq.reach_inv

end

lemma pipeline_inv:
  assumes "wal_store B content c" "seq_reach E (\<lambda>d. view_of c (content d)) (committer_ok c content) L y"
    "en_WAL E = committerSeqWAL B c" "en_db E"
  shows "seq_inv (\<lambda>d. view_of c (content d)) (committer_ok c content) L (en_logDID E) (sy_q y)"
  by (rule wal_store.pipeline_reach_inv [OF assms])

subsection \<open>A run\<close>

text \<open>One submitted entry goes through both stages and is committed at sequence number 0.\<close>

definition demo_sdk :: "(bytes, bytes) sdk" where
  "demo_sdk =
     \<lparr>sdk_Deserialize = Inr, sdk_Serialize = Inr, sdk_DomainPayload = (\<lambda>_. []), sdk_SignerDID = (\<lambda>_. ''did:a''),
      sdk_TargetRoot = (\<lambda>_. None), sdk_CosignatureOf = (\<lambda>_. None), sdk_SchemaRef = (\<lambda>_. None),
      sdk_DelegateDID = (\<lambda>_. None), sdk_EventTime = (\<lambda>_. 77), sdk_Signatures = (\<lambda>_. []),
      sdk_schemaIDOf = (\<lambda>_. None), sdk_kindOf = (\<lambda>_. None), sdk_entryKinds = [], sdk_IsCosignedAnchor = (\<lambda>_. False),
      sdk_anchorSource = (\<lambda>_. None), sdk_PREGrantSchemaID = ''pre'', sdk_EscrowSplitSchemaID = ''escrow'',
      sdk_ParsePREGrant = (\<lambda>_. Inl ''no grant''), sdk_ParseEscrowSplit = (\<lambda>_. Inl ''no split''), sdk_receipts = raw_codec\<rparr>"

definition demo_seqcfg :: SeqConfig where
  "demo_seqcfg =
     NewSequencer_cfg \<lparr>cf_PollInterval = 0, cf_MaxInFlight = 0, cf_MaxAttempts = 0, cf_BackoffBase = 0, cf_BackoffMax = 0,
       cf_MaxBuilderLag = 0, cf_MaxCommitterHeapSize = 0, cf_MaxEntriesPerCycle = 0, cf_CommitChannelBuffer = 0,
       cf_CommitMaxBatchSize = 1, cf_CommitMaxWait = 0\<rparr>"

definition demo_env :: "(memdb, bytes, bytes) seqEnv" where
  "demo_env =
     \<lparr>en_WAL = committerSeqWAL mem_badger raw_codec, en_sdk = demo_sdk, en_cfg = demo_seqcfg, en_logDID = ''did:log'',
      en_db = True, en_splitIDIndex = False, en_entryLookup = False, en_ghostEmitter = True, en_fatalCap = Some 1,
      en_registry = None, en_errString = (\<lambda>_. ''err'')\<rparr>"

definition demo_wal :: memdb where
  "demo_wal = snd (walFlushBatch mem_badger raw_codec demo_cfg 5 [demo_sub 11] [])"

definition demo_q :: "(memdb, bytes, bytes) sequencer" where
  "demo_q =
     \<lparr>q_wal = demo_wal, q_tick = 0, q_index = [], q_splits = [], q_heap = [], q_pending = [], q_next = 0, q_ch = [],
      q_timer = False, q_stopped = False, q_attempts = Map.empty, q_brkSeq = 0, q_brkErrFP = [], q_brkStreak = 0,
      q_brkTripped = False, q_fatal = [], q_ghosts = [], q_splitWrites = [], q_lookupWrites = [], q_cache = None, q_m = metrics0\<rparr>"

definition demo_X :: drainCtx where
  "demo_X = \<lparr>dx_start = None, dx_iter = (\<lambda>_. None), dx_fn = (\<lambda>_. None), dx_sem = (\<lambda>_. None)\<rparr>"

lemma demo_wal_list:
  "demo_wal = [(inflightKey 11, inflight_ts 5), (metaKey 11, encodeV1 demo_meta), (entryKey 11, [0xA0, 0xB1])]"
  by (simp add: demo_wal_def run_simps)

lemma distinct_singleton_list: "set xs = {x} \<Longrightarrow> distinct xs \<Longrightarrow> xs = [x]"
  by (cases xs; cases "tl xs") auto

lemma demo_wal_scan: "map fst (bg_scan mem_badger demo_wal [prefixInflight] [prefixInflight]) = [inflightKey 11]"
proof -
  let ?xs = "map fst (bg_scan mem_badger demo_wal [prefixInflight] [prefixInflight])"
  have "set ?xs = {inflightKey 11}"
    by (auto simp: mem_badger_def demo_wal_list dom_def inflightKey_def metaKey_def entryKey_def split: if_splits)
  moreover have "distinct ?xs" by (simp add: mem_badger_def comp_def mem_keys_def)
  ultimately show ?thesis by (metis distinct_singleton_list)
qed

lemma demo_wal_ok: "committer_ok raw_codec map_of demo_wal" "v_seq (view_of raw_codec (map_of demo_wal)) = Map.empty"
proof -
  have run: "walFlushBatch mem_badger raw_codec demo_cfg 5 [demo_sub 11] [] = (Inr (), demo_wal)"
    by (simp add: demo_wal_def run_simps)
  have "committer_ok raw_codec map_of ([] :: memdb)" by (simp add: committer_ok_def wal_inv_def view_of_def)
  moreover have "wal_step mem_badger raw_codec demo_cfg [] demo_wal" by (rule wal_step.submit [OF _ run]) simp
  ultimately show "committer_ok raw_codec map_of demo_wal" using memw.ok_step by blast
  show "v_seq (view_of raw_codec (map_of demo_wal)) = Map.empty"
    by (simp add: demo_wal_list view_of_def wal_keys)
qed

lemmas demo_defs = demo_env_def demo_seqcfg_def NewSequencer_cfg_def demo_X_def committerSeqWAL_def Let_def

lemma demo_cfg_fields:
  "cf_MaxInFlight (en_cfg demo_env) = 4" "cf_CommitChannelBuffer (en_cfg demo_env) = 16"
  "cf_CommitMaxBatchSize (en_cfg demo_env) = 1" "en_db demo_env" "en_ghostEmitter demo_env" "en_logDID demo_env = ''did:log''"
  "en_WAL demo_env = committerSeqWAL mem_badger raw_codec"
  by (simp_all add: demo_defs)

text \<open>The states of the run, up to counters.\<close>

definition demo_at :: "memdb \<Rightarrow> index_row list \<Rightarrow> u64 \<Rightarrow> (bytes, bytes) stagedEntry list \<Rightarrow> GhostLeafEvent list \<Rightarrow> (memdb, bytes, bytes) sequencer \<Rightarrow> bool" where
  "demo_at w t n ch gs q \<longleftrightarrow>
     q_wal q = w \<and> q_index q = t \<and> q_next q = n \<and> q_ch q = ch \<and> q_ghosts q = gs \<and> q_heap q = [] \<and> q_pending q = []
     \<and> q_cache q = None \<and> \<not> q_stopped q"

definition demo_tuple :: "u64 \<Rightarrow> (bytes, bytes) stagedEntry" where
  "demo_tuple n = liveTuple demo_env n 11 [0xA0, 0xB1] demo_meta None"

lemma demo_tuple_fields:
  "st_Seq (demo_tuple n) = n" "st_Hash (demo_tuple n) = 11" "\<not> st_Tombstone (demo_tuple n)" "\<not> st_HasSplitID (demo_tuple n)"
  "Status (st_Row (demo_tuple n)) = 0" "SequenceNumber (st_Row (demo_tuple n)) = n" "CanonicalHash (st_Row (demo_tuple n)) = 11"
  "row_check (row_of (st_Row (demo_tuple n))) = None"
  by (simp_all add: demo_tuple_def liveTuple_fields)
    (simp_all add: liveTuple_def buildLiveStagedEntry_def demo_meta_def row_check_def row_of_def demo_env_def demo_sdk_def Let_def)

lemma demo_drainOnce:
  "demo_at demo_wal t n ch gs q \<Longrightarrow> \<exists>q'. drainOnce demo_env demo_X None q = ([11], q') \<and> demo_at demo_wal t n ch gs q'"
  by (simp add: demo_at_def drainOnce_def demo_defs heapLen_def IterateInflight_def demo_wal_scan [simplified]
      drainCallback_def wal_keys)

lemma demo_begin:
  "demo_at demo_wal t n ch gs q \<Longrightarrow>
     \<exists>q'. processBegin demo_env (\<lambda>_. None) 9 11 q = (Some ([0xA0, 0xB1], demo_meta), q') \<and> demo_at demo_wal t n ch gs q'"
  by (simp add: demo_at_def processBegin_def demo_defs walAsk_def MetaState_def walRead_def demo_wal_list wal_keys
      demo_sdk_def ctx_check_def run_simps)

lemma demo_append:
  "demo_at w t n ch gs q \<Longrightarrow>
     demo_at w t n (ch @ [demo_tuple k]) gs (processAppend demo_env (\<lambda>_. None) 9 9 True 11 [0xA0, 0xB1] demo_meta (Inr k) q)"
  by (simp add: demo_at_def processAppend_def Let_def emitTuple_def dispatchCommitmentSchema_def demo_env_def demo_sdk_def
      demo_tuple_def)

lemma committerPop_single: "committerPop [e] = (e, [])"
  by (simp add: committerPop_def heap_pop_def swap_at_def) (subst heap_down.simps, simp)+

lemma committerPush_single: "committerPush e [] = [e]"
  by (simp add: committerPush_def heap_push_def) (subst heap_up.simps, simp)

lemma demo_drain:
  "q_heap q = [demo_tuple n] \<Longrightarrow> q_pending q = [] \<Longrightarrow> q_next q = n \<Longrightarrow>
     drainHeapInto E cx q = q\<lparr>q_heap := [], q_pending := [demo_tuple n]\<rparr>"
  by (subst drain_next [where e = "demo_tuple n" and ys = "[]"])
    (simp_all add: demo_tuple_fields committerPop_single drain_empty)

lemma demo_pg_fields: "pe_begin demo_pg = None" "pe_commit demo_pg = None"
  by (simp_all add: demo_pg_def)

text \<open>Receiving a tuple commits it at once: the batch size is 1.\<close>

lemma demo_recv:
  assumes q: "demo_at w t n [demo_tuple n] gs q"
    and ins: "InsertBatch demo_pg [st_Row (demo_tuple n)] t = Inr (res, t')"
    and post: "\<And>q1. demo_at w t' n [] gs (q1\<lparr>q_pending := []\<rparr>) \<Longrightarrow>
        demo_at w' t' n [] gs' ((postCommit demo_env (\<lambda>_. None) 9 [demo_tuple n] res q1)\<lparr>q_pending := []\<rparr>)"
  shows "demo_at w' t' (n + 1) [] gs' (committerRecv demo_env demo_pg (\<lambda>_. None) 9 q)"
proof -
  let ?q = "q\<lparr>q_ch := [], q_heap := [], q_pending := [demo_tuple n], q_timer := False\<rparr>"
  let ?q1 = "?q\<lparr>q_index := t', q_splits := q_splits q\<rparr>"
  let ?q2 = "postCommit demo_env (\<lambda>_. None) 9 [demo_tuple n] res ?q1"
  have eq: "committerRecv demo_env demo_pg (\<lambda>_. None) 9 q = flushPending demo_env demo_pg (\<lambda>_. None) 9 ?q"
    using q by (simp add: demo_at_def committerRecv_def Let_def committerPush_single demo_drain stopTimer_def
        demo_tuple_fields demo_cfg_fields)
  have "WithTransaction demo_pg (flushTx demo_pg [demo_tuple n]) (t, q_splits q) = (Inr res, (t', q_splits q))"
    by (simp add: WithTransaction_def flushTx_def ins demo_tuple_fields demo_pg_fields)
  then have run: "flushBatch demo_env demo_pg (\<lambda>_. None) 9 [demo_tuple n] ?q = (None, ?q2)"
    using q by (simp add: flushBatch_def demo_cfg_fields demo_at_def)
  have at: "demo_at w' t' n [] gs' (?q2\<lparr>q_pending := []\<rparr>)"
    using q by (intro post) (simp add: demo_at_def)
  then show ?thesis
    unfolding eq using run
    by (auto simp: flushPending_def Let_def demo_at_def resetIdenticalBatchBreaker_def)
qed

definition demo_wal1 :: memdb where
  "demo_wal1 = snd (walSequence mem_badger raw_codec None 11 0 demo_wal)"

lemma demo_wal1_list:
  "demo_wal1 = [(seqIndexKey 0, hash_bytes 11), (metaKey 11, encodeV1 (demo_meta\<lparr>State := StateSequenced, Sequence := 0\<rparr>)),
     (metaKey 11, encodeV1 demo_meta), (entryKey 11, [0xA0, 0xB1])]"
  by (simp add: demo_wal1_def demo_wal_list run_simps)

definition demo_t1 :: "index_row list" where "demo_t1 = [row_of (st_Row (demo_tuple 0))]"

lemma demo_commit:
  assumes "demo_at demo_wal [] 0 [demo_tuple 0] [] q"
  shows "demo_at demo_wal1 demo_t1 1 [] [] (committerRecv demo_env demo_pg (\<lambda>_. None) 9 q)"
proof -
  have ins: "InsertBatch demo_pg [st_Row (demo_tuple 0)] [] = Inr (\<lparr>Inserted = 1, SeqReplays = 0, HashCollisions = []\<rparr>, demo_t1)"
    by (simp add: InsertBatch_def demo_pg_def pg_run_def insertRow_def seq_taken_def demo_tuple_fields demo_t1_def)
  have "demo_at demo_wal1 demo_t1 (0 + 1) [] [] (committerRecv demo_env demo_pg (\<lambda>_. None) 9 q)"
    by (rule demo_recv [OF assms ins])
      (simp add: demo_at_def postCommit_def running_def applyPostCommitForOne_def demo_tuple_fields Let_def cacheWrite_def
        sidecarWrites_def walDo_def resetAttempts_def demo_cfg_fields committerSeqWAL_def demo_wal1_def split: option.splits prod.splits)
  then show ?thesis by simp
qed

definition demo_event :: GhostLeafEvent where
  "demo_event = \<lparr>GhostSeq = 1, CanonicalSeq = 0, GL_CanonicalHash = 11, GL_LogDID = ''did:log'', ObservedAtUnixNano = 9\<rparr>"

lemma demo_ghost_commit:
  assumes "demo_at demo_wal1 demo_t1 1 [demo_tuple 1] [] q"
  shows "\<exists>t. demo_at demo_wal1 t 2 [] [demo_event] (committerRecv demo_env demo_pg (\<lambda>_. None) 9 q)"
proof -
  let ?c = "\<lparr>AttemptedSeq = 1, HC_CanonicalHash = 11, ExistingSeq = 0\<rparr>"
  let ?res = "\<lparr>Inserted = 0, SeqReplays = 0, HashCollisions = [?c]\<rparr>"
  have ins: "InsertBatch demo_pg [st_Row (demo_tuple 1)] demo_t1 = Inr (?res, demo_t1 @ [ghost_row 5 ?c])"
    by (simp add: InsertBatch_def demo_pg_def pg_run_def insertRow_def seq_taken_def demo_tuple_fields demo_t1_def
        primarySelect_def lookup_row_def)
  have meta: "MetaState mem_badger raw_codec None demo_wal1 11 = Inr (demo_meta\<lparr>State := StateSequenced, Sequence := 0\<rparr>)"
    by (simp add: MetaState_def ctx_check_def demo_wal1_list wal_keys run_simps)
  have "demo_at demo_wal1 (demo_t1 @ [ghost_row 5 ?c]) (1 + 1) [] [demo_event] (committerRecv demo_env demo_pg (\<lambda>_. None) 9 q)"
    by (rule demo_recv [OF assms ins])
      (simp add: demo_at_def postCommit_def recoverCollision_def demo_tuple_fields committerStaleRecover_def walAsk_def
        demo_cfg_fields committerSeqWAL_def meta Let_def demo_event_def)
  then show ?thesis by auto
qed

abbreviation demo_reached :: "(memdb, bytes, bytes) seqSys \<Rightarrow> bool" where
  "demo_reached \<equiv> seq_reach demo_env (\<lambda>d. view_of raw_codec (map_of d)) (committer_ok raw_codec map_of) (\<lambda>_. 11)"

text \<open>One drain cycle: the entry goes to a worker, which blocks in Tessera.\<close>

lemma demo_cycle:
  assumes "demo_reached \<lparr>sy_q = q, sy_todo = [], sy_workers = []\<rparr>" "demo_at demo_wal t n ch gs q"
  shows "\<exists>q'. demo_reached \<lparr>sy_q = q', sy_todo = [], sy_workers = [(11, [0xA0, 0xB1], demo_meta)]\<rparr> \<and> demo_at demo_wal t n ch gs q'"
proof -
  let ?y0 = "\<lparr>sy_q = q, sy_todo = [], sy_workers = []\<rparr>"
  obtain q1 where q1: "drainOnce demo_env demo_X None q = ([11], q1)" "demo_at demo_wal t n ch gs q1"
    using demo_drainOnce [OF assms(2)] by blast
  let ?y1 = "\<lparr>sy_q = q1, sy_todo = [11], sy_workers = []\<rparr>"
  have 1: "demo_reached (?y0\<lparr>sy_q := q1, sy_todo := [11]\<rparr>)"
    by (rule seq_reach.more [OF assms(1) seq_step.drain [where X = demo_X and lag = None]]) (simp_all add: q1)
  obtain q2 where q2: "processBegin demo_env (\<lambda>_. None) 9 11 q1 = (Some ([0xA0, 0xB1], demo_meta), q2)" "demo_at demo_wal t n ch gs q2"
    using demo_begin [OF q1(2)] by blast
  have "demo_reached (?y1\<lparr>sy_q := q2, sy_todo := [], sy_workers := [(11, [0xA0, 0xB1], demo_meta)]\<rparr>)"
    by (rule seq_reach.more [OF _ seq_step.enter [where h = 11 and now = 9 and cx = "\<lambda>_. None" and r = "Some ([0xA0, 0xB1], demo_meta)"]])
      (use 1 q2(1) in \<open>simp_all add: demo_cfg_fields\<close>)
  then show ?thesis using q2(2) by auto
qed

text \<open>Tessera answers with leaf \<open>k\<close> and the tuple is sent.\<close>

lemma demo_answer:
  assumes "demo_reached \<lparr>sy_q = q, sy_todo = [], sy_workers = [(11, [0xA0, 0xB1], demo_meta)]\<rparr>"
    "demo_at w t n [] gs q" "unat k < 2 ^ 63"
  shows "\<exists>q'. demo_reached \<lparr>sy_q = q', sy_todo = [], sy_workers = []\<rparr> \<and> demo_at w t n [demo_tuple k] gs q'"
proof -
  let ?y = "\<lparr>sy_q = q, sy_todo = [], sy_workers = [(11, [0xA0, 0xB1], demo_meta)]\<rparr>"
  let ?q = "processAppend demo_env (\<lambda>_. None) 9 9 True 11 [0xA0, 0xB1] demo_meta (Inr k) q"
  have "tessera_answer (\<lambda>_. 11) q 11 (Inr k)" using assms(2,3) by (simp add: tessera_answer_def staged_def demo_at_def)
  then have "demo_reached (?y\<lparr>sy_q := ?q, sy_workers := [] @ []\<rparr>)"
    using assms(2) by (intro seq_reach.more [OF assms(1) seq_step.return [where us = "[]" and now = 9 and sent = True]])
      (simp_all add: demo_cfg_fields demo_at_def)
  then show ?thesis using demo_append [OF assms(2), of k] by auto
qed

lemma demo_committed:
  assumes "demo_reached \<lparr>sy_q = q, sy_todo = [], sy_workers = ws\<rparr>" "\<not> q_stopped q"
  shows "demo_reached \<lparr>sy_q = committerRecv demo_env demo_pg (\<lambda>_. None) 9 q, sy_todo = [], sy_workers = ws\<rparr>"
  using seq_reach.more [OF assms(1) seq_step.recv [where P = demo_pg and cx = "\<lambda>_. None" and obs = 9]] assms(2) by simp

lemma demo_first: "\<exists>q. demo_reached \<lparr>sy_q = q, sy_todo = [], sy_workers = []\<rparr> \<and> demo_at demo_wal [] 0 [demo_tuple 0] [] q"
proof -
  have "demo_reached \<lparr>sy_q = demo_q, sy_todo = [], sy_workers = []\<rparr>"
    by (rule seq_reach.init) (simp add: seq_start_def demo_q_def demo_wal_ok)
  moreover have "demo_at demo_wal [] 0 [] [] demo_q" by (simp add: demo_at_def demo_q_def)
  ultimately obtain q where "demo_reached \<lparr>sy_q = q, sy_todo = [], sy_workers = [(11, [0xA0, 0xB1], demo_meta)]\<rparr>"
    "demo_at demo_wal [] 0 [] [] q" using demo_cycle by blast
  from demo_answer [OF this, of 0] show ?thesis by simp
qed

lemma demo_pipeline: "\<exists>q. demo_reached \<lparr>sy_q = q, sy_todo = [], sy_workers = []\<rparr> \<and> demo_at demo_wal1 demo_t1 1 [] [] q"
proof -
  obtain q where q: "demo_reached \<lparr>sy_q = q, sy_todo = [], sy_workers = []\<rparr>" "demo_at demo_wal [] 0 [demo_tuple 0] [] q"
    using demo_first by blast
  have "\<not> q_stopped q" using q(2) by (simp add: demo_at_def)
  then show ?thesis using demo_committed [OF q(1)] demo_commit [OF q(2)] by blast
qed

text \<open>
  A second cycle starts before the commit, and Tessera, whose deduplication record was lost, answers
  with a second leaf for the same hash after it.
\<close>

lemma demo_pipeline_ghost:
  "\<exists>q t. demo_reached \<lparr>sy_q = q, sy_todo = [], sy_workers = []\<rparr> \<and> demo_at demo_wal1 t 2 [] [demo_event] q"
proof -
  obtain q1 where q1: "demo_reached \<lparr>sy_q = q1, sy_todo = [], sy_workers = []\<rparr>" "demo_at demo_wal [] 0 [demo_tuple 0] [] q1"
    using demo_first by blast
  obtain q2 where q2: "demo_reached \<lparr>sy_q = q2, sy_todo = [], sy_workers = [(11, [0xA0, 0xB1], demo_meta)]\<rparr>"
    "demo_at demo_wal [] 0 [demo_tuple 0] [] q2" using demo_cycle [OF q1] by blast
  have "\<not> q_stopped q2" using q2(2) by (simp add: demo_at_def)
  from demo_answer [OF demo_committed [OF q2(1) this] demo_commit [OF q2(2)], of 1] obtain q3 where
    q3: "demo_reached \<lparr>sy_q = q3, sy_todo = [], sy_workers = []\<rparr>" "demo_at demo_wal1 demo_t1 1 [demo_tuple 1] [] q3" by auto
  have "\<not> q_stopped q3" using q3(2) by (simp add: demo_at_def)
  then show ?thesis using demo_committed [OF q3(1)] demo_ghost_commit [OF q3(2)] by blast
qed

subsection \<open>Properties\<close>

text \<open>
  C1.  In every reachable state of the pipeline, over any interleaving of
  workers, committer, failing transactions, commits of unknown outcome and restarts, the entry index
  describes an initial segment of the Tessera log without a gap: it has exactly one row per sequence
  number below some \<open>n\<close>, at least all those the committer counts as committed; every row carries
  the hash of its leaf; and the one primary row of a hash is at the hash's first leaf.
\<close>

theorem seq_index_follows_log:
  assumes "wal_store B content c" and "en_WAL E = committerSeqWAL B c" and "en_db E"
    and "seq_reach E (\<lambda>d. view_of c (content d)) (committer_ok c content) L y"
  shows "\<exists>n. unat (q_next (sy_q y)) \<le> n \<and> n \<le> 2 ^ 63 \<and> c_seq ` set (q_index (sy_q y)) = {i. unat i < n}
    \<and> distinct (map c_seq (q_index (sy_q y)))
    \<and> (\<forall>r\<in>set (q_index (sy_q y)). c_hash r = L (c_seq r) \<and> (is_primary r \<longleftrightarrow> (\<forall>i < c_seq r. L i \<noteq> L (c_seq r))))"
proof -
  obtain n where t: "index_ok L (q_index (sy_q y)) n" "unat (q_next (sy_q y)) \<le> n"
    using pipeline_inv [OF assms(1,4,2,3)] by (auto simp: seq_inv_def)
  then have "is_primary r \<longleftrightarrow> (\<forall>i < c_seq r. L i \<noteq> L (c_seq r))" if "r \<in> set (q_index (sy_q y))" for r
    using index_ok_primary [OF t(1) that] by blast
  then show ?thesis using t by (intro exI [of _ n]) (auto simp: index_ok_def index_inv_def)
qed

theorem seq_index_follows_log_witness:
  "\<exists>q :: (memdb, bytes, bytes) sequencer. q_next q = 1 \<and> q_index q = [row_of (st_Row (demo_tuple 0))]
     \<and> (\<exists>n \<ge> 1. c_seq ` set (q_index q) = {i. unat i < n})"
proof -
  obtain q where q: "demo_reached \<lparr>sy_q = q, sy_todo = [], sy_workers = []\<rparr>" "q_next q = 1" "q_index q = [row_of (st_Row (demo_tuple 0))]"
    using demo_pipeline by (auto simp: demo_at_def demo_t1_def)
  then show ?thesis using seq_index_follows_log [OF mem_wal_store demo_cfg_fields(7,4) q(1)] by (intro exI [of _ q]) auto
qed

text \<open>
  C5.  In every reachable state, whatever the WAL's sequence index offers
  the shipper has a row in the entry index, at the same sequence number and with the same hash: no
  entry can be shipped under a number the index does not know.
\<close>

theorem seq_wal_index_parity:
  assumes "wal_store B content c" and "en_WAL E = committerSeqWAL B c" and "en_db E"
    and "seq_reach E (\<lambda>d. view_of c (content d)) (committer_ok c content) L y"
    and "v_seq (view_of c (content (q_wal (sy_q y)))) n = Some h"
  shows "\<exists>r\<in>set (q_index (sy_q y)). c_seq r = n \<and> c_hash r = h"
proof -
  have inv: "seq_inv (\<lambda>d. view_of c (content d)) (committer_ok c content) L (en_logDID E) (sy_q y)"
    by (rule pipeline_inv [OF assms(1,4,2,3)])
  then have "n \<in> c_seq ` set (q_index (sy_q y))" "h = L n" using assms(5) by (auto simp: seq_inv_def outward_def wal_parity_def)
  then show ?thesis using inv by (auto simp: seq_inv_def index_ok_def)
qed

theorem seq_wal_index_parity_witness:
  "\<exists>q :: (memdb, bytes, bytes) sequencer. v_seq (view_of raw_codec (map_of (q_wal q))) 0 = Some 11
     \<and> (\<exists>r\<in>set (q_index q). c_seq r = 0 \<and> c_hash r = 11)"
proof -
  obtain q where q: "demo_reached \<lparr>sy_q = q, sy_todo = [], sy_workers = []\<rparr>" "q_wal q = demo_wal1"
    using demo_pipeline by (auto simp: demo_at_def)
  have "v_seq (view_of raw_codec (map_of (q_wal q))) 0 = Some 11" by (simp add: q(2) demo_wal1_list view_of_def)
  then show ?thesis using seq_wal_index_parity [OF mem_wal_store demo_cfg_fields(7,4) q(1)] by (intro exI [of _ q]) simp
qed

text \<open>
  Every ghost event the committer ever emits names two leaves of one hash, the
  canonical one first, of this log.
\<close>

theorem seq_ghost_events:
  assumes "wal_store B content c" and "en_WAL E = committerSeqWAL B c" and "en_db E"
    and "seq_reach E (\<lambda>d. view_of c (content d)) (committer_ok c content) L y" and "g \<in> set (q_ghosts (sy_q y))"
  shows "CanonicalSeq g < GhostSeq g \<and> L (CanonicalSeq g) = GL_CanonicalHash g \<and> L (GhostSeq g) = GL_CanonicalHash g
    \<and> GL_LogDID g = en_logDID E"
  using pipeline_inv [OF assms(1,4,2,3)] assms(5) by (auto simp: seq_inv_def outward_def ghost_ok_def)

theorem seq_ghost_events_witness:
  "\<exists>q :: (memdb, bytes, bytes) sequencer. demo_event \<in> set (q_ghosts q) \<and> CanonicalSeq demo_event < GhostSeq demo_event"
proof -
  obtain q where q: "demo_reached \<lparr>sy_q = q, sy_todo = [], sy_workers = []\<rparr>" "q_ghosts q = [demo_event]"
    using demo_pipeline_ghost by (auto simp: demo_at_def)
  then show ?thesis using seq_ghost_events [OF mem_wal_store demo_cfg_fields(7,4) q(1), of demo_event] by (intro exI [of _ q]) simp
qed

end
