(* ===== verification/SeqProps.thy ===== *)
theory SeqProps
  imports SeqSpec
begin

section \<open>The sequencer: operations, retries, breaker and progress\<close>

text \<open>
  Properties of single operations of the sequencer: what a drain of the heap collects, when a flush
  is bound to succeed, when the identical-batch breaker trips, what stage 1 owes the committer after
  \<open>AppendLeaf\<close>, how failures are counted, and the one path on which the WAL and the entry index
  part: a stale tuple for a ghost leaf.
\<close>

subsection \<open>Draining\<close>

text \<open>
  C20.  Draining the heap collects into the batch exactly the contiguous run of
  sequence numbers that starts at the committed number, in order and without repetition; nothing at
  or above the committed number is lost but duplicates; and everything left in the heap lies beyond
  a gap.
\<close>

theorem seq_drain_contiguous:
  assumes "queue_ok L q" and "q' = drainHeapInto E cx q"
  shows "map (unat \<circ> st_Seq) (q_pending q') = [unat (q_next q)..<unat (q_next q) + length (q_pending q')]
    \<and> prefix (q_pending q) (q_pending q')
    \<and> st_Seq ` (set (q_heap q') \<union> set (q_pending q')) = {n \<in> st_Seq ` (set (q_heap q) \<union> set (q_pending q)). q_next q \<le> n}
    \<and> (\<forall>e\<in>set (q_heap q'). unat (q_next q) + length (q_pending q') < unat (st_Seq e))
    \<and> heap_wf st_Seq (q_heap q') \<and> q_next q' = q_next q \<and> q_index q' = q_index q"
proof -
  have *: "queue_ok L q' \<and> drained q q' \<and> True" unfolding assms(2) by (rule drain_ok [OF assms(1)]) simp_all
  then have "drained q q'" by blast
  then have "q_next q' = q_next q" by (simp add: drained_def)
  then show ?thesis using * queue_okD(1,2) [of L q'] by (simp add: drained_def)
qed

definition demo_queue :: "(memdb, bytes, bytes) sequencer" where
  "demo_queue = demo_q\<lparr>q_heap := [demo_tuple 0, demo_tuple 0]\<rparr>"

lemma demo_queue_ok: "queue_ok (\<lambda>_. 11) demo_queue"
  by (simp add: queue_ok_def demo_queue_def demo_q_def staged_def tuple_ok_def demo_tuple_fields heap_wf_def heap_upto_def
      nth_Cons split: nat.splits)

theorem seq_drain_contiguous_witness:
  "map (unat \<circ> st_Seq) (q_pending (drainHeapInto demo_env (\<lambda>_. None) demo_queue))
     = [0..<length (q_pending (drainHeapInto demo_env (\<lambda>_. None) demo_queue))]"
  using seq_drain_contiguous [OF demo_queue_ok refl, of demo_env "\<lambda>_. None"] by (simp add: demo_queue_def demo_q_def)

subsection \<open>The identical-batch breaker\<close>

text \<open>The breaker after a sequence of flushes: \<open>None\<close> is a success, a failure has its first number and text.\<close>

definition brk_after :: "('w, 'e, 'r) seqEnv \<Rightarrow> (u64 \<times> string) option list \<Rightarrow> ('w, 'e, 'r) sequencer \<Rightarrow> ('w, 'e, 'r) sequencer" where
  "brk_after E outs q =
     fold (\<lambda>out q. case out of None \<Rightarrow> resetIdenticalBatchBreaker q | Some (n, fp) \<Rightarrow> snd (checkIdenticalBatchBreaker E n fp q)) outs q"

definition trail :: "'a \<Rightarrow> 'a list \<Rightarrow> nat" where
  "trail x xs = length (takeWhile (\<lambda>y. y = x) (rev xs))"

lemma trail_simps [simp]: "trail x [] = 0" "trail x (xs @ [y]) = (if y = x then Suc (trail x xs) else 0)"
  by (simp_all add: trail_def)

lemma check_streak:
  "checkIdenticalBatchBreaker E n fp q = (b, q') \<Longrightarrow>
     q_brkSeq q' = n \<and> q_brkErrFP q' = fp
     \<and> q_brkStreak q' = Suc (if q_brkSeq q = n \<and> q_brkErrFP q = fp then q_brkStreak q else 0) \<and> (b \<longleftrightarrow> 3 \<le> q_brkStreak q')"
  by (auto simp: checkIdenticalBatchBreaker_def sendFatal_def Let_def identicalBatchBreakerThreshold_def
      split: if_splits option.splits)

lemma brk_after_streak:
  assumes "q_brkStreak q = 0"
  shows "(if q_brkSeq (brk_after E outs q) = n \<and> q_brkErrFP (brk_after E outs q) = fp then q_brkStreak (brk_after E outs q) else 0)
     = trail (Some (n, fp)) outs"
proof (induction outs arbitrary: n fp rule: rev_induct)
  case Nil
  then show ?case using assms by (simp add: brk_after_def)
next
  case (snoc out outs)
  let ?q = "brk_after E outs q"
  show ?case
  proof (cases out)
    case None
    have "q_brkStreak (resetIdenticalBatchBreaker ?q) = 0" by (simp add: resetIdenticalBatchBreaker_def)
    then show ?thesis using None by (simp add: brk_after_def)
  next
    case (Some p)
    obtain n' fp' where p: "p = (n', fp')" by fastforce
    obtain b q' where c: "checkIdenticalBatchBreaker E n' fp' ?q = (b, q')" by fastforce
    have "brk_after E (outs @ [out]) q = q'" using Some p c by (simp add: brk_after_def)
    then show ?thesis using check_streak [OF c] snoc [of n' fp'] Some p by auto
  qed
qed

definition breaker_signals :: "('w, 'e, 'r) sequencer \<Rightarrow> nat" where
  "breaker_signals q = length (filter (\<lambda>f. case f of FatalBreaker a b c \<Rightarrow> True | FatalInversion h \<Rightarrow> False) (q_fatal q))"

lemma brk_after_signals:
  assumes "breaker_signals q = 0" "\<not> q_brkTripped q"
  shows "breaker_signals (brk_after E outs q) \<le> (if q_brkTripped (brk_after E outs q) then 1 else 0)"
proof (induction outs rule: rev_induct)
  case Nil
  then show ?case using assms by (simp add: brk_after_def)
next
  case (snoc out outs)
  then show ?case
    by (auto simp: brk_after_def checkIdenticalBatchBreaker_def resetIdenticalBatchBreaker_def sendFatal_def Let_def
        breaker_signals_def split: option.splits if_splits prod.splits)
qed

text \<open>
  From a fresh start, whatever flushes succeeded or failed before, a failing
  flush trips the breaker exactly when the two flushes before it failed in the same way, on a batch
  with the same first sequence number; and the supervisor is signalled at most once.
\<close>

theorem seq_breaker_trips:
  assumes "q_brkStreak q = 0" and "\<not> q_brkTripped q" and "q_fatal q = []"
  shows "(fst (checkIdenticalBatchBreaker E n fp (brk_after E outs q))
            \<longleftrightarrow> 2 \<le> length (takeWhile (\<lambda>out. out = Some (n, fp)) (rev outs)))
    \<and> breaker_signals (brk_after E outs q) \<le> 1"
proof -
  obtain b q' where c: "checkIdenticalBatchBreaker E n fp (brk_after E outs q) = (b, q')" by fastforce
  have "b \<longleftrightarrow> 2 \<le> trail (Some (n, fp)) outs"
    using check_streak [OF c] brk_after_streak [OF assms(1), of E outs n fp] by auto
  moreover have "breaker_signals (brk_after E outs q) \<le> (if q_brkTripped (brk_after E outs q) then 1 else 0)"
    using assms by (intro brk_after_signals) (simp_all add: breaker_signals_def)
  ultimately show ?thesis using c by (auto simp: trail_def split: if_splits)
qed

theorem seq_breaker_trips_witness:
  "fst (checkIdenticalBatchBreaker demo_env 7 ''x'' (brk_after demo_env [Some (7, ''x''), None, Some (7, ''x''), Some (7, ''x'')] demo_q))
    \<and> \<not> fst (checkIdenticalBatchBreaker demo_env 7 ''x'' (brk_after demo_env [Some (7, ''x''), Some (7, ''x''), None, Some (7, ''x'')] demo_q))"
  using seq_breaker_trips [of demo_q demo_env 7 "''x''" "[Some (7, ''x''), None, Some (7, ''x''), Some (7, ''x'')]"]
    seq_breaker_trips [of demo_q demo_env 7 "''x''" "[Some (7, ''x''), Some (7, ''x''), None, Some (7, ''x'')]"]
  by (simp add: demo_q_def)

subsection \<open>Stage 1\<close>

text \<open>
  Once Tessera has assigned a sequence number, stage 1 emits exactly one tuple
  for it when the channel accepts it: under that number and hash, a tombstone exactly when the
  commitment schema cannot be dispatched, with a row the committer can insert; the WAL is not touched.
\<close>

theorem seq_stage1_emits:
  "\<exists>e m. processAppend E cx now clock True h en meta (Inr n) q = q\<lparr>q_m := m, q_ch := q_ch q @ [e]\<rparr>
     \<and> st_Seq e = n \<and> st_Hash e = h \<and> SequenceNumber (st_Row e) = n \<and> CanonicalHash (st_Row e) = h
     \<and> (st_Tombstone e \<longleftrightarrow> \<not> okE (dispatchCommitmentSchema E en))
     \<and> Status (st_Row e) = (if st_Tombstone e then StatusTombstone else StatusLive)"
proof (cases "dispatchCommitmentSchema E en")
  case (Inl err)
  then show ?thesis
    by (intro exI [of _ "tombstoneEntry clock n h (''dispatchCommitmentSchema: '' @ err)"]
        exI [of _ "(q_m q)\<lparr>m_tesseraInFlight := m_tesseraInFlight (q_m q) - 1\<rparr>"])
      (simp add: processAppend_def Let_def emitTombstone_def emitTuple_def tombstone_fields)
next
  case (Inr ex)
  then show ?thesis
    by (intro exI [of _ "liveTuple E n h en meta ex"] exI [of _ "(q_m q)\<lparr>m_tesseraInFlight := m_tesseraInFlight (q_m q) - 1\<rparr>"])
      (simp add: processAppend_def Let_def emitTuple_def liveTuple_fields)
qed

text \<open>Failures that count: everything but the end of the context and a closed appender.\<close>

definition genuine :: "entry_cause \<Rightarrow> bool" where
  "genuine cause \<longleftrightarrow> \<not> isContextCause cause \<and> cause \<noteq> CauseTessera ErrAppenderShutdown"

definition errors_after ::
  "('w, 'e, 'r) seqEnv \<Rightarrow> (nat \<Rightarrow> ctx) \<Rightarrow> u64 \<Rightarrow> hash \<Rightarrow> entry_cause list \<Rightarrow> ('w, 'e, 'r) sequencer \<Rightarrow> ('w, 'e, 'r) sequencer" where
  "errors_after E cx now h causes q = fold (handleEntryError E cx now h) causes q"

definition attempts_of :: "hash \<Rightarrow> ('w, 'e, 'r) sequencer \<Rightarrow> u32" where
  "attempts_of h q = (case q_attempts q h of None \<Rightarrow> 0 | Some k \<Rightarrow> k)"

lemma lifecycle_free:
  "\<not> genuine cause \<Longrightarrow>
     q_attempts (handleEntryError E cx now h cause q) = q_attempts q \<and> q_m (handleEntryError E cx now h cause q) = q_m q
     \<and> q_wal (handleEntryError E cx now h cause q) = q_wal q"
  by (auto simp: genuine_def handleEntryError_def sendFatal_def split: option.splits)

lemma genuine_counted:
  assumes "genuine cause" and "q' = handleEntryError E cx now h cause q"
  shows "attempts_of h q' = (if cf_MaxAttempts (en_cfg E) \<le> attempts_of h q + 1 then 0 else attempts_of h q + 1)"
    and "m_failures (q_m q') = m_failures (q_m q) + 1"
    and "m_manualCount (q_m q') = m_manualCount (q_m q) + (if cf_MaxAttempts (en_cfg E) \<le> attempts_of h q + 1 then 1 else 0)"
  using assms by (auto simp: genuine_def handleEntryError_def recordAttempt_def attempts_of_def Let_def walDo_def resetAttempts_def
      split: option.splits prod.splits)

lemma unat_u32_Suc: "Suc k < 2 ^ 32 \<Longrightarrow> unat (word_of_nat k + 1 :: u32) = Suc k"
  by (simp add: unat_word_ariths unat_of_nat mod_simps)

lemma errors_counted:
  assumes "attempts_of h q = 0" "length (filter genuine causes) < unat (cf_MaxAttempts (en_cfg E))"
  shows "attempts_of h (errors_after E cx now h causes q) = word_of_nat (length (filter genuine causes))
    \<and> m_manualCount (q_m (errors_after E cx now h causes q)) = m_manualCount (q_m q)
    \<and> m_failures (q_m (errors_after E cx now h causes q)) = m_failures (q_m q) + word_of_nat (length (filter genuine causes))"
  using assms(2)
proof (induction causes rule: rev_induct)
  case Nil
  then show ?case using assms(1) by (simp add: errors_after_def)
next
  case (snoc c cs)
  let ?q = "errors_after E cx now h cs q" and ?g = "length (filter genuine cs)"
  have step: "errors_after E cx now h (cs @ [c]) q = handleEntryError E cx now h c ?q" by (simp add: errors_after_def)
  have small: "?g < unat (cf_MaxAttempts (en_cfg E))" using snoc.prems by (simp split: if_splits)
  show ?case
  proof (cases "genuine c")
    case True
    then have g: "Suc ?g < unat (cf_MaxAttempts (en_cfg E))" using snoc.prems by simp
    then have "Suc ?g < 2 ^ 32" using unsigned_less [of "cf_MaxAttempts (en_cfg E)", where ?'a = nat] by simp
    then have "\<not> cf_MaxAttempts (en_cfg E) \<le> word_of_nat ?g + 1" using g unat_u32_Suc by (simp add: word_le_nat_alt)
    then show ?thesis
      using snoc.IH [OF small] True unfolding step by (simp add: genuine_counted [OF True refl] ac_simps)
  next
    case False
    have "attempts_of h (handleEntryError E cx now h c ?q) = attempts_of h ?q"
      using lifecycle_free [OF False, of E cx now h ?q] by (simp add: attempts_of_def)
    then show ?thesis using snoc.IH [OF small] lifecycle_free [OF False, of E cx now h ?q] False unfolding step by simp
  qed
qed

text \<open>
  An entry is handed to the operator after exactly \<open>MaxAttempts\<close> genuine
  failures, however many shutdowns and cancelled contexts come in between: below the budget no failure
  makes it manual, the failure that exhausts the budget does, and events of the process's lifecycle
  are not counted at all.
\<close>

theorem seq_retry_budget:
  assumes "q_attempts q h = None" and "length (filter genuine causes) < unat (cf_MaxAttempts (en_cfg E))"
    and "q' = errors_after E cx now h causes q" and "q'' = handleEntryError E cx now h cause q'"
  shows "m_manualCount (q_m q') = m_manualCount (q_m q)
    \<and> m_failures (q_m q') = m_failures (q_m q) + word_of_nat (length (filter genuine causes))
    \<and> m_manualCount (q_m q'') = m_manualCount (q_m q)
        + (if genuine cause \<and> Suc (length (filter genuine causes)) = unat (cf_MaxAttempts (en_cfg E)) then 1 else 0)"
proof -
  let ?g = "length (filter genuine causes)" and ?max = "cf_MaxAttempts (en_cfg E)"
  have 0: "attempts_of h q = 0" using assms(1) by (simp add: attempts_of_def)
  note c = errors_counted [OF 0 assms(2), of cx now, folded assms(3)]
  have "m_manualCount (q_m q'') = m_manualCount (q_m q') + (if genuine cause \<and> Suc ?g = unat ?max then 1 else 0)"
  proof (cases "genuine cause")
    case True
    have "?max \<le> word_of_nat ?g + 1 \<longleftrightarrow> Suc ?g = unat ?max"
    proof (cases "Suc ?g < 2 ^ 32")
      case True
      then show ?thesis using unat_u32_Suc [of ?g] assms(2) by (auto simp: word_le_nat_alt)
    next
      case False
      then show ?thesis using assms(2) unsigned_less [of ?max, where ?'a = nat] by simp
    qed
    then show ?thesis using genuine_counted(3) [OF True assms(4)] c True by simp
  next
    case False
    then show ?thesis using lifecycle_free [OF False, of E cx now h q'] assms(4) by simp
  qed
  then show ?thesis using c by simp
qed

theorem seq_retry_budget_witness:
  "m_manualCount (q_m (handleEntryError demo_env (\<lambda>_. None) 9 11 (CauseTessera (TessErr ''down''))
      (errors_after demo_env (\<lambda>_. None) 9 11
        (replicate 9 (CauseTessera (TessErr ''down'')) @ replicate 20 (CauseTessera ErrAppenderShutdown)) demo_q))) = 1"
proof -
  have g: "genuine (CauseTessera (TessErr ''down''))" "\<not> genuine (CauseTessera ErrAppenderShutdown)"
    by (simp_all add: genuine_def isContextCause_def)
  have m: "unat (cf_MaxAttempts (en_cfg demo_env)) = 10" "q_attempts demo_q 11 = None" "m_manualCount (q_m demo_q) = 0"
    by (simp_all add: demo_defs demo_q_def metrics0_def)
  show ?thesis
    using seq_retry_budget [of demo_q 11 "replicate 9 (CauseTessera (TessErr ''down'')) @ replicate 20 (CauseTessera ErrAppenderShutdown)"
        demo_env _ "\<lambda>_. None" 9 _ "CauseTessera (TessErr ''down'')", OF m(2) _ refl refl]
    by (simp add: g m filter_replicate)
qed

subsection \<open>A flush succeeds when the database does\<close>

lemma insertSplits_ok:
  "(\<And>n. pe_split P n = None) \<Longrightarrow> \<forall>e\<in>set es. st_Seq e \<in> c_seq ` set t \<Longrightarrow> \<exists>sp'. insertSplits P t col es sp = Inr sp'"
  by (induction P t col es sp rule: insertSplits.induct) auto

lemma insert_succeeds:
  assumes t: "index_ok L t n" and b: "batch_ok L m batch" and m: "m \<le> n" and calm: "pg_calm P"
    and ok: "\<forall>e\<in>set batch. row_check (row_of (st_Row e)) = None"
  shows "\<exists>res t'. InsertBatch P (map st_Row batch) t = Inr (res, t')"
proof -
  let ?rows = "map st_Row batch"
  have tup: "\<forall>e\<in>set batch. tuple_ok L e" and d: "distinct (map st_Hash batch)" using b by (simp_all add: batch_ok_def)
  note R = batch_rows [OF tup]
  have d': "distinct (map CanonicalHash ?rows)" using d R(2) by metis
  have "distinct (map unat (map st_Seq batch))" using b by (metis batch_ok_def distinct_upt list.map_comp)
  then have "distinct (map st_Seq batch)" by (auto simp: distinct_map dest: inj_on_imageI2)
  then have ds: "distinct (map SequenceNumber (new_rows t ?rows))"
    unfolding new_rows_def using R(1) distinct_map_filter [of SequenceNumber ?rows] by metis
  have fresh: "SequenceNumber r \<notin> c_seq ` set t" if r: "r \<in> set (new_rows t ?rows)" for r
  proof
    assume "SequenceNumber r \<in> c_seq ` set t"
    then obtain q where q: "q \<in> set t" "c_seq q = SequenceNumber r" by auto
    then have "L (SequenceNumber r) \<in> primary_hashes t" using t by (metis index_ok_def index_inv_def)
    moreover have "L (SequenceNumber r) = CanonicalHash r" using r tup by (auto simp: new_rows_def tuple_ok_def)
    ultimately show False using r by (simp add: new_rows_def)
  qed
  have "\<forall>r\<in>set (map (ghost_row (pe_now P)) (HashCollisions (batch_report t ?rows))). \<not> is_primary r \<and> row_check r = None" by simp
  from insertOnSeq_ghosts [OF this, of "t @ map row_of (new_rows t ?rows)"] obtain t' where
    "insertOnSeq (map (ghost_row (pe_now P)) (HashCollisions (batch_report t ?rows))) (t @ map row_of (new_rows t ?rows)) = Inr t'"
    by blast
  then have "InsertBatch P ?rows t = Inr (batch_report t ?rows, t')"
    using ok fresh by (intro InsertBatch_calm [OF calm d' R(3) _ ds]) auto
  then show ?thesis by blast
qed

definition cache_fine :: "('w, 'e, 'r) sequencer \<Rightarrow> bool" where
  "cache_fine q \<longleftrightarrow> \<not> q_stopped q \<and> (\<forall>ca. q_cache q = Some ca \<longrightarrow> cache_inv ca)"

lemma staleRecover_cache: "q_cache (committerStaleRecover E cx e s) = q_cache s"
  unfolding committerStaleRecover_def Let_def
  by (auto simp: walAsk_def walDo_def resetAttempts_def split: prod.splits sum.splits)

lemma recoverCollision_fine: "cache_fine q \<Longrightarrow> cache_fine (recoverCollision E cx obs batch c q)"
  by (auto simp: cache_fine_def recoverCollision_def Let_def staleRecover_cache staleRecover_frame split: option.splits)

lemma sidecar_cache: "q_cache (sidecarWrites E b e s) = q_cache s" "q_stopped (sidecarWrites E b e s) = q_stopped s"
  by (auto simp: sidecarWrites_def Let_def split: option.splits sum.splits)

lemma cacheWrite_fine:
  assumes "cache_fine q"
  shows "cache_fine (cacheWrite E b e q)"
proof (cases "q_cache q")
  case None
  then show ?thesis using assms by (auto simp: cacheWrite_def split: option.splits)
next
  case (Some ca)
  then have "cache_inv ca" using assms by (simp add: cache_fine_def)
  then have put: "\<exists>ca'. cachePut n (Some ewm) ca = Some ca' \<and> cache_inv ca'" for n ewm using cachePut_refines by blast
  show ?thesis
  proof (cases "\<exists>en canonical. st_Entry e = Some en \<and> b \<and> \<not> st_Tombstone e \<and> sdk_Serialize (en_sdk E) en = Inr canonical")
    case True
    then obtain en canonical where *: "st_Entry e = Some en" "b" "\<not> st_Tombstone e" "sdk_Serialize (en_sdk E) en = Inr canonical" by blast
    obtain ca' where "cachePut (st_Seq e)
        (Some \<lparr>CanonicalBytes = canonical, EWM_LogTime = LogTime (st_Row e),
               Position = \<lparr>LogDID = en_logDID E, PosSequence = st_Seq e\<rparr>, EWM_Web3Receipts = st_Web3Receipts e\<rparr>) ca = Some ca'"
      "cache_inv ca'" using put by blast
    then show ?thesis using assms Some * by (simp add: cacheWrite_def cache_fine_def)
  next
    case False
    then have "cacheWrite E b e q = q" using Some by (auto simp: cacheWrite_def split: option.splits sum.splits)
    then show ?thesis using assms by simp
  qed
qed

lemma postCommit1_fine:
  assumes "cache_fine q"
  shows "cache_fine (applyPostCommitForOne E cx b e q)"
proof -
  have "cache_fine (resetAttempts h (snd (walDo cx op q))\<lparr>q_m := m\<rparr>)" for h op m
    using assms by (auto simp: cache_fine_def resetAttempts_def walDo_def split: prod.splits)
  then show ?thesis
    by (auto simp: applyPostCommitForOne_def Let_def intro!: cacheWrite_fine) (simp add: cache_fine_def sidecar_cache)
qed

lemma postCommit_fine:
  assumes "cache_fine q"
  shows "cache_fine (postCommit E cx obs batch res q)"
proof -
  have "cache_fine (fold (recoverCollision E cx obs batch) (HashCollisions res) q)"
    by (rule fold_invariant [where Q = "\<lambda>_. True"]) (simp_all add: assms recoverCollision_fine)
  then show ?thesis unfolding postCommit_def Let_def
    by (rule fold_invariant [where Q = "\<lambda>_. True" and P = cache_fine, rotated]) (auto simp: running_def postCommit1_fine)
qed

lemma flushPending_committed:
  assumes "q_pending q \<noteq> []" "flushBatch E P cx obs (q_pending q) q = (None, q1)" "\<not> q_stopped q1"
  shows "q_next (flushPending E P cx obs q) = q_next q1 + word_of_nat (length (q_pending q))"
    "q_index (flushPending E P cx obs q) = q_index q1" "q_pending (flushPending E P cx obs q) = []"
  using assms by (simp_all add: flushPending_def Let_def resetIdenticalBatchBreaker_def)

text \<open>
  C21.  While the database answers, a flush makes progress: with the queues and the
  index in order, every row well formed and no failing statement, the whole batch is committed in one
  transaction, whatever part of it was committed before, the committed number advances past it and
  every sequence number of the batch has its row.
\<close>

theorem seq_flush_progress:
  assumes "queue_ok L q" and "index_ok L (q_index q) n" and "unat (q_next q) \<le> n" and "en_db E" and "cache_fine q"
    and "pg_calm P" and "pe_begin P = None" and "pe_commit P = None" and "\<And>k. pe_split P k = None"
    and "\<forall>e\<in>set (q_pending q). row_check (row_of (st_Row e)) = None"
    and "q' = flushPending E P cx obs q"
  shows "unat (q_next q') = unat (q_next q) + length (q_pending q) \<and> q_pending q' = []
    \<and> st_Seq ` set (q_pending q) \<subseteq> c_seq ` set (q_index q')"
proof (cases "q_pending q = []")
  case True
  then show ?thesis using assms(11) by (simp add: flushPending_def)
next
  case False
  let ?b = "q_pending q"
  note b = pending_batch_ok [OF assms(1)]
  obtain res t' where ins: "InsertBatch P (map st_Row ?b) (q_index q) = Inr (res, t')"
    using insert_succeeds [OF assms(2) b assms(3,6,10)] by blast
  have cover: "st_Seq ` set ?b \<subseteq> c_seq ` set t'"
    using insert_index_ok [OF assms(2) b assms(3) ins] batch_ok_seqs [OF b] by (auto simp: index_ok_def less_max_iff_disj)
  then obtain sp' where sp: "insertSplits P t' (HC_CanonicalHash ` set (HashCollisions res)) ?b (q_splits q) = Inr sp'"
    using insertSplits_ok [of P ?b t' _ "q_splits q", OF assms(9)] by blast
  let ?q1 = "postCommit E cx obs ?b res (q\<lparr>q_index := t', q_splits := sp'\<rparr>)"
  have run: "flushBatch E P cx obs ?b q = (None, ?q1)"
    using False assms(4,7,8) ins sp by (simp add: flushBatch_def WithTransaction_def flushTx_def)
  have "cache_fine ?q1" using assms(5) by (intro postCommit_fine) (simp add: cache_fine_def)
  then have "\<not> q_stopped ?q1" by (simp add: cache_fine_def)
  from flushPending_committed [OF False run this] show ?thesis
    using cover expected_unat [OF assms(1)] unfolding assms(11) by (simp add: same_queueD [OF postCommit_queue])
qed

definition demo_batch_q :: "(memdb, bytes, bytes) sequencer" where
  "demo_batch_q = demo_q\<lparr>q_pending := [demo_tuple 0]\<rparr>"

theorem seq_flush_progress_witness:
  "unat (q_next (flushPending demo_env demo_pg (\<lambda>_. None) 9 demo_batch_q)) = 1"
proof -
  have 1: "queue_ok (\<lambda>_. 11) demo_batch_q"
    by (simp add: queue_ok_def demo_batch_q_def demo_q_def staged_def tuple_ok_def demo_tuple_fields heap_wf_def heap_upto_def)
  have 2: "index_ok (\<lambda>_. 11) (q_index demo_batch_q) 0" "unat (q_next demo_batch_q) \<le> 0" "cache_fine demo_batch_q"
    by (simp_all add: index_ok_def index_inv_def demo_batch_q_def demo_q_def cache_fine_def)
  have 3: "pe_split demo_pg k = None" for k by (simp add: demo_pg_def)
  have 4: "\<forall>e\<in>set (q_pending demo_batch_q). row_check (row_of (st_Row e)) = None"
    by (simp add: demo_batch_q_def demo_q_def demo_tuple_fields)
  show ?thesis
    using seq_flush_progress [OF 1 2(1,2) demo_cfg_fields(4) 2(3) demo_calm demo_pg_fields 3 4 refl, of "\<lambda>_. None" 9]
    by (simp add: demo_batch_q_def demo_q_def)
qed

subsection \<open>A stale tuple for a ghost leaf\<close>

lemma stale_single:
  assumes "q_heap q = [e]" "q_pending q = []" "st_Seq e < q_next q"
  shows "drainHeapInto E cx q = committerStaleRecover E cx e (q\<lparr>q_heap := []\<rparr>)"
proof -
  have "drainHeapInto E cx q = drainHeapInto E cx (committerStaleRecover E cx e (q\<lparr>q_heap := []\<rparr>))"
    using assms by (subst drainHeapInto.simps) (simp add: Let_def committerPop_single)
  also have "\<dots> = committerStaleRecover E cx e (q\<lparr>q_heap := []\<rparr>)"
    by (rule drain_empty) (simp add: same_queueD [OF staleRecover_queue])
  finally show ?thesis .
qed

context wal_store
begin

lemma staleRecover_sequences:
  assumes fl: "faultless B" and E: "en_WAL E = committerSeqWAL B c" and ok: "committer_ok c content (q_wal q)"
    and m: "v_meta (view_of c (content (q_wal q))) (st_Hash e) = Some m" "State m = StatePending" and live: "\<not> st_Tombstone e"
  shows "v_seq (view_of c (content (q_wal (committerStaleRecover E (\<lambda>_. None) e q))))
    = (v_seq (view_of c (content (q_wal q))))(st_Seq e \<mapsto> st_Hash e)"
proof -
  have wf: "wf_kv c (content (q_wal q))" using ok by (simp add: committer_ok_def)
  have ms: "MetaState B c None (q_wal q) (st_Hash e) = Inr m"
    using readMeta_ok [OF fl wf m(1)] by (simp add: MetaState_def ctx_check_def)
  obtain d' where run: "walSequence B c None (st_Hash e) (st_Seq e) (q_wal q) = (Inr (), d')"
    and v: "view_of c (content d') = av_sequence (st_Hash e) (st_Seq e) m (view_of c (content (q_wal q)))"
    using Sequence_outcome [OF fl wf, of "st_Hash e" "st_Seq e"] m by auto
  have "q_wal (committerStaleRecover E (\<lambda>_. None) e q) = d'"
    using ms m(2) live run by (simp add: committerStaleRecover_def walAsk_def walDo_def resetAttempts_def E committerSeqWAL_def Let_def)
  then show ?thesis using v by (simp add: av_sequence_def)
qed

end

text \<open>
  C31.  A tuple below the committed number whose WAL entry is still pending is
  recovered under its own number, also when the index row at that number is a ghost row: the WAL then
  offers the shipper the ghost's number for a hash whose primary row is elsewhere, and not the
  primary's.  This is the situation after a crash between the commit of a colliding batch and its
  WAL updates, and what the commit path for collisions takes care to avoid.
\<close>

theorem seq_stale_ghost_number:
  assumes "wal_store B content c" and "faultless B" and "en_WAL E = committerSeqWAL B c"
    and "committer_ok c content (q_wal q)" and "v_meta (view_of c (content (q_wal q))) (st_Hash e) = Some m"
    and "State m = StatePending" and "\<not> st_Tombstone e" and "q_heap q = [e]" and "q_pending q = []" and "st_Seq e < q_next q"
    and "p \<in> set (q_index q)" and "is_primary p" and "c_hash p = st_Hash e"
    and "g \<in> set (q_index q)" and "\<not> is_primary g" and "c_seq g = st_Seq e" and "c_seq p \<noteq> c_seq g"
    and "v_seq (view_of c (content (q_wal q))) (c_seq p) = None" and "q' = drainHeapInto E (\<lambda>_. None) q"
  shows "v_seq (view_of c (content (q_wal q'))) (c_seq g) = Some (c_hash p)
    \<and> v_seq (view_of c (content (q_wal q'))) (c_seq p) = None"
proof -
  have "q_wal q' = q_wal (committerStaleRecover E (\<lambda>_. None) e (q\<lparr>q_heap := []\<rparr>))"
    unfolding assms(19) by (simp add: stale_single [OF assms(8-10)])
  then show ?thesis
    using wal_store.staleRecover_sequences [OF assms(1-3), of "q\<lparr>q_heap := []\<rparr>" e m] assms(4-7,13,16-18) by simp
qed

definition demo_crashed :: "(memdb, bytes, bytes) sequencer" where
  "demo_crashed = demo_q\<lparr>q_index := demo_t1 @ [ghost_row 5 \<lparr>AttemptedSeq = 1, HC_CanonicalHash = 11, ExistingSeq = 0\<rparr>],
     q_next := 2, q_heap := [demo_tuple 1]\<rparr>"

theorem seq_stale_ghost_number_witness:
  "v_seq (view_of raw_codec (map_of (q_wal (drainHeapInto demo_env (\<lambda>_. None) demo_crashed)))) 1 = Some 11
    \<and> v_seq (view_of raw_codec (map_of (q_wal (drainHeapInto demo_env (\<lambda>_. None) demo_crashed)))) 0 = None"
proof -
  let ?p = "row_of (st_Row (demo_tuple 0))"
  let ?g = "ghost_row 5 \<lparr>AttemptedSeq = 1, HC_CanonicalHash = 11, ExistingSeq = 0\<rparr>"
  have q: "q_wal demo_crashed = demo_wal" "q_heap demo_crashed = [demo_tuple 1]" "q_pending demo_crashed = []" "q_next demo_crashed = 2"
    "?p \<in> set (q_index demo_crashed)" "?g \<in> set (q_index demo_crashed)"
    by (simp_all add: demo_crashed_def demo_q_def demo_t1_def)
  have m: "v_meta (view_of raw_codec (map_of demo_wal)) 11 = Some demo_meta" "State demo_meta = StatePending"
    by (simp_all add: demo_wal_list view_of_def wal_keys run_simps)
  show ?thesis
    using seq_stale_ghost_number [OF mem_wal_store mem_faultless demo_cfg_fields(7), of demo_crashed "demo_tuple 1" demo_meta ?p ?g]
    by (simp add: q m demo_wal_ok demo_tuple_fields)
qed

end
