(* ===== verification/Cursor.thy ===== *)
theory Cursor
  imports EntryIndex
begin

section \<open>The builder's cursor over the entry index\<close>

text \<open>
  Models \<open>store/sequence_cursor.go\<close> (the row \<open>builder_cursor\<close> and the queries over
  \<open>entry_index\<close>) and \<open>builder/cursor_reader.go\<close> (the batch reader of the builder loop).
  The cursor is a signed \<open>BIGINT\<close>, kept as its bit pattern and compared with \<open>sint\<close>;
  \<open>-1\<close> says that nothing was processed.  The row is \<open>None\<close> when it is missing.
  \<open>cursor_env\<close> says which round trip fails; an auto-committed UPDATE that fails may have taken
  effect on the server, so its failure carries a flag.

  The lemmas show that a batch is exactly the live part of a gap-free run of rows that starts
  directly after the cursor, and that the cursor never passes a number without a row.
\<close>

subsection \<open>store.SequenceCursor\<close>

record CursorEntry =
  CE_Seq :: u64
  CE_Status :: EntryStatus

datatype cursor_error =
    CursorRead pg_error
  | CursorBatchSize int
  | CursorNext pg_error
  | CursorScan pg_error
  | CursorRows pg_error
  | CursorAdvance pg_error
  | CursorAffected nat
  | CursorLag pg_error
  | CursorTombstones pg_error
  | CursorRebuild pg_error
  | ReaderTombstones cursor_error

record cursor_env =
  cu_read :: "pg_error option"
  cu_next :: "pg_error option"
  cu_rows :: "pg_error option"
  cu_advance :: "pg_error option"
  cu_exec :: "(pg_error \<times> bool) option"

definition cursor_calm :: "cursor_env \<Rightarrow> bool" where
  "cursor_calm N \<longleftrightarrow> cu_read N = None \<and> cu_next N = None \<and> cu_rows N = None \<and> cu_advance N = None \<and> cu_exec N = None"

definition cursorRead :: "cursor_env \<Rightarrow> u64 option \<Rightarrow> cursor_error + u64" where
  "cursorRead N cur =
     mapE CursorRead (pg_run (cu_read N)
       (case cur of None \<Rightarrow> Inl (PgFault ''no rows in result set'') | Some s \<Rightarrow> Inr s))"

text \<open>\<open>WHERE sequence_number > $1 ORDER BY sequence_number ASC\<close>; a negative number does not scan into \<open>uint64\<close>.\<close>

definition rowsAfter :: "u64 \<Rightarrow> index_row list \<Rightarrow> index_row list" where
  "rowsAfter cursor t = sort_key (\<lambda>r. sint (c_seq r)) (filter (\<lambda>r. sint cursor < sint (c_seq r)) t)"

fun scanRows :: "index_row list \<Rightarrow> cursor_error + CursorEntry list" where
  "scanRows [] = Inr []"
| "scanRows (r # rs) =
     (if sint (c_seq r) < 0 then Inl (CursorScan (PgFault ''cannot scan into uint64''))
      else bindE (scanRows rs) (\<lambda>out. Inr (\<lparr>CE_Seq = c_seq r, CE_Status = c_status r\<rparr> # out)))"

definition cursorNext :: "cursor_env \<Rightarrow> index_row list \<Rightarrow> u64 \<Rightarrow> int \<Rightarrow> cursor_error + CursorEntry list" where
  "cursorNext N t cursor batchSize =
     (if batchSize \<le> 0 then Inl (CursorBatchSize batchSize)
      else
        bindE (mapE CursorNext (pg_run (cu_next N) (Inr ()))) (\<lambda>_.
        bindE (scanRows (take (nat batchSize) (rowsAfter cursor t))) (\<lambda>out.
        bindE (mapE CursorRows (pg_run (cu_rows N) (Inr ()))) (\<lambda>_. Inr out))))"

text \<open>The driver refuses an argument beyond \<open>math.MaxInt64\<close>.\<close>

definition bigint_arg :: "u64 \<Rightarrow> pg_error + u64" where
  "bigint_arg s = (if sint s < 0 then Inl (PgFault ''unable to encode'') else Inr s)"

definition AdvanceTx :: "cursor_env \<Rightarrow> u64 \<Rightarrow> u64 option \<Rightarrow> cursor_error + u64 option" where
  "AdvanceTx N newCursor cur =
     bindE (mapE CursorAdvance (pg_run (cu_advance N) (bigint_arg newCursor))) (\<lambda>s.
       if cur = None then Inl (CursorAffected 0) else Inr (Some s))"

definition Lag :: "cursor_env \<Rightarrow> index_row list \<Rightarrow> u64 option \<Rightarrow> cursor_error + int" where
  "Lag N t cur =
     bindE (mapE CursorLag (pg_run (cu_read N)
       (case cur of
          None \<Rightarrow> Inl (PgFault ''no rows in result set'')
        | Some s \<Rightarrow>
            let lag = (if t = [] then 0 else Max (set (map (\<lambda>r. sint (c_seq r)) t))) - sint s in
            if lag < - (2 ^ 63) \<or> 2 ^ 63 \<le> lag then Inl (PgFault ''bigint out of range'') else Inr lag)))
     (\<lambda>lag. Inr (if lag < 0 then 0 else lag))"

text \<open>An UPDATE of its own: the outcome and the row it leaves.\<close>

definition autoUpdate ::
  "(pg_error \<times> bool) option \<Rightarrow> u64 \<Rightarrow> (u64 \<Rightarrow> bool) \<Rightarrow> u64 option \<Rightarrow> (pg_error + nat) \<times> u64 option" where
  "autoUpdate flt new guard cur =
     (case bigint_arg new of
        Inl e \<Rightarrow> (Inl e, cur)
      | Inr s \<Rightarrow>
          let hit = (case cur of None \<Rightarrow> False | Some c \<Rightarrow> guard c);
              cur' = (if hit then Some s else cur) in
          (case flt of
             Some (e, done) \<Rightarrow> (Inl e, if done then cur' else cur)
           | None \<Rightarrow> (Inr (if hit then 1 else 0), cur')))"

definition AdvancePastTombstones :: "cursor_env \<Rightarrow> u64 \<Rightarrow> u64 option \<Rightarrow> (cursor_error + unit) \<times> u64 option" where
  "AdvancePastTombstones N newCursor cur =
     (case autoUpdate (cu_exec N) newCursor (\<lambda>c. sint c < sint newCursor) cur of
        (Inl e, cur') \<Rightarrow> (Inl (CursorTombstones e), cur')
      | (Inr _, cur') \<Rightarrow> (Inr (), cur'))"

definition AdvanceForRebuild :: "cursor_env \<Rightarrow> u64 \<Rightarrow> u64 option \<Rightarrow> (cursor_error + unit) \<times> u64 option" where
  "AdvanceForRebuild N newCursor cur =
     (case autoUpdate (cu_exec N) newCursor (\<lambda>c. True) cur of
        (Inl e, cur') \<Rightarrow> (Inl (CursorRebuild e), cur')
      | (Inr n, cur') \<Rightarrow> (if n \<noteq> 1 then Inl (CursorAffected n) else Inr (), cur'))"

subsection \<open>builder.CursorReader\<close>

record CursorReader =
  cr_current :: u64
  cr_initFromDB :: bool
  cr_pendingAdvanceTo :: u64
  cr_pendingAdvanceSet :: bool

definition NewCursorReader :: CursorReader where
  "NewCursorReader = \<lparr>cr_current = 0, cr_initFromDB = False, cr_pendingAdvanceTo = 0, cr_pendingAdvanceSet = False\<rparr>"

text \<open>The walk over \<open>entries[i].Seq != entries[i-1].Seq+1\<close>.\<close>

fun contiguousPrefix :: "u64 \<Rightarrow> CursorEntry list \<Rightarrow> CursorEntry list" where
  "contiguousPrefix prev [] = []"
| "contiguousPrefix prev (e # es) =
     (if CE_Seq e \<noteq> prev + 1 then [] else e # contiguousPrefix (CE_Seq e) es)"

definition liveSeqs :: "CursorEntry list \<Rightarrow> u64 list" where
  "liveSeqs es = map CE_Seq (filter (\<lambda>e. CE_Status e = StatusLive) es)"

definition BeginBatch ::
  "cursor_env \<Rightarrow> int \<Rightarrow> index_row list \<Rightarrow> u64 option \<Rightarrow> CursorReader
   \<Rightarrow> (cursor_error + u64 list) \<times> u64 option \<times> CursorReader" where
  "BeginBatch N batchSize t cur r =
     (case cursorRead N cur of
        Inl e \<Rightarrow> (Inl e, cur, r)
      | Inr seq \<Rightarrow>
          let r1 = r\<lparr>cr_current := seq, cr_initFromDB := True\<rparr> in
          (case cursorNext N t seq batchSize of
             Inl e \<Rightarrow> (Inl e, cur, r1)
           | Inr [] \<Rightarrow> (Inr [], cur, r1)
           | Inr (e0 # es) \<Rightarrow>
               if CE_Seq e0 \<noteq> seq + 1 then (Inr [], cur, r1)
               else
                 let contiguous = e0 # contiguousPrefix (CE_Seq e0) es;
                     live = liveSeqs contiguous;
                     advanceTo = CE_Seq (last contiguous) in
                 if live = [] then
                   (case AdvancePastTombstones N advanceTo cur of
                      (Inl e, cur') \<Rightarrow> (Inl (ReaderTombstones e), cur', r1)
                    | (Inr _, cur') \<Rightarrow> (Inr [], cur', r1))
                 else (Inr live, cur, r1\<lparr>cr_pendingAdvanceTo := advanceTo, cr_pendingAdvanceSet := True\<rparr>)))"

definition CommitBatch ::
  "cursor_env \<Rightarrow> u64 list \<Rightarrow> u64 option \<Rightarrow> CursorReader \<Rightarrow> (cursor_error + u64 option) \<times> CursorReader" where
  "CommitBatch N seqs cur r =
     (if \<not> cr_pendingAdvanceSet r then
        (case seqs of
           [] \<Rightarrow> (Inr cur, r)
         | s # ss \<Rightarrow> (AdvanceTx N (fold (\<lambda>x m. if m < x then x else m) ss s) cur, r))
      else
        (AdvanceTx N (cr_pendingAdvanceTo r) cur,
         r\<lparr>cr_pendingAdvanceTo := 0, cr_pendingAdvanceSet := False\<rparr>))"

definition RecoverOnStartup :: "int" where "RecoverOnStartup = 0"

subsection \<open>Positions\<close>

text \<open>
  The position of a cursor is the number of log indices it has passed: \<open>0\<close> for the sentinel.
\<close>

definition cursor_ok :: "u64 \<Rightarrow> bool" where "cursor_ok c \<longleftrightarrow> - 1 \<le> sint c"

definition passed :: "u64 \<Rightarrow> nat" where "passed c = unat (c + 1)"

lemma unat_m1: "unat (- 1 :: u64) = 2 ^ 64 - 1"
  by (simp add: unsigned_minus_1_eq_mask mask_eq_exp_minus_1)

lemma sint_ge_m1:
  assumes "- 1 \<le> sint (c :: u64)"
  shows "c = - 1 \<or> unat c < 2 ^ 63"
proof (rule ccontr)
  assume n: "\<not> ?thesis"
  define m where "m = unat c"
  have "m < 2 ^ 64" unfolding m_def using unsigned_less [of c, where ?'a = nat] by simp
  moreover have "m \<noteq> 2 ^ 64 - 1" unfolding m_def using n by (metis unat_m1 word_unat_eq_iff)
  moreover have "\<not> m < 2 ^ 63" using n by (simp add: m_def)
  ultimately have m: "2 ^ 63 \<le> int m" "int m < 2 ^ 64 - 1" by simp_all
  have "signed_take_bit 63 (int m) = signed_take_bit 63 (int m - 2 ^ 64)"
    by (simp add: signed_take_bit_eq_iff_take_bit_eq take_bit_eq_mod flip: minus_mod_self2 [of "int m" "2 ^ 64"])
  also have "\<dots> = int m - 2 ^ 64" using m by (intro signed_take_bit_int_eq_self) auto
  finally have "sint c = int m - 2 ^ 64" unfolding m_def sint_uint by simp
  with assms m show False by linarith
qed

lemma passed_m1 [simp]: "passed (- 1) = 0"
  by (simp add: passed_def)

lemma passed_small: "unat c < 2 ^ 63 \<Longrightarrow> passed c = Suc (unat c)"
  unfolding passed_def by (rule unat_inc) (auto simp: unat_m1)

lemma cursor_okD: "cursor_ok c \<Longrightarrow> (c = - 1 \<and> passed c = 0) \<or> (unat c < 2 ^ 63 \<and> passed c = Suc (unat c))"
  using sint_ge_m1 [of c] passed_small [of c] by (auto simp: cursor_ok_def)

lemma cursor_ok_m1 [simp]: "cursor_ok (- 1)"
  by (simp add: cursor_ok_def)

lemma cursor_ok_small: "unat c < 2 ^ 63 \<Longrightarrow> cursor_ok c"
  using sint_u64_small [of c] by (simp only: cursor_ok_def)
lemma after_iff:
  assumes "cursor_ok c"
  shows "sint c < sint (s :: u64) \<longleftrightarrow> passed c \<le> unat s \<and> unat s < 2 ^ 63"
proof (cases "- 1 \<le> sint s \<and> s \<noteq> - 1")
  case True
  define x y where "x = unat s" and "y = unat c"
  from True have "unat s < 2 ^ 63" using sint_ge_m1 by blast
  then have s: "sint s = int x" "x < 2 ^ 63" by (simp_all add: sint_u64_small x_def del: of_nat_unat)
  have "c = - 1 \<and> passed c = 0 \<or> sint c = int y \<and> passed c = Suc y"
    using cursor_okD [OF assms] by (auto simp: sint_u64_small y_def simp del: of_nat_unat)
  with s show ?thesis by (auto simp: x_def [symmetric])
next
  case False
  have "\<not> unat s < 2 ^ 63" using False by (auto simp: sint_u64_small unat_m1 simp del: of_nat_unat)
  moreover have "sint s \<le> - 1" using False by auto
  ultimately show ?thesis using assms by (auto simp: cursor_ok_def)
qed

subsection \<open>What a batch is\<close>

lemma scanRows_ok:
  "(\<forall>r\<in>set rs. 0 \<le> sint (c_seq r)) \<Longrightarrow>
   scanRows rs = Inr (map (\<lambda>r. \<lparr>CE_Seq = c_seq r, CE_Status = c_status r\<rparr>) rs)"
  by (induction rs) (auto simp: bindE_def)

lemma scanRows_Inr: "scanRows rs = Inr es \<Longrightarrow> es = map (\<lambda>r. \<lparr>CE_Seq = c_seq r, CE_Status = c_status r\<rparr>) rs"
  by (induction rs arbitrary: es) (auto simp: bindE_eq_Inr split: if_splits)

lemma set_rowsAfter [simp]: "set (rowsAfter c t) = {r \<in> set t. sint c < sint (c_seq r)}"
  by (auto simp: rowsAfter_def)

lemma cursorNext_Inr:
  assumes "cursorNext N t c b = Inr es"
  shows "es = map (\<lambda>r. \<lparr>CE_Seq = c_seq r, CE_Status = c_status r\<rparr>) (take (nat b) (rowsAfter c t))" "0 < b"
  using assms by (auto simp: cursorNext_def bindE_eq_Inr scanRows_Inr split: if_splits)

lemma contiguousPrefix_prefix: "prefix (contiguousPrefix p es) es"
  by (induction p es rule: contiguousPrefix.induct) auto

lemma contiguousPrefix_seqs:
  "map CE_Seq (contiguousPrefix p es) = map (\<lambda>i. p + 1 + word_of_nat i) [0..<length (contiguousPrefix p es)]"
proof (induction p es rule: contiguousPrefix.induct)
  case (2 p e es)
  show ?case
  proof (cases "CE_Seq e = p + 1")
    case True
    let ?n = "length (contiguousPrefix (CE_Seq e) es)"
    have "[0..<Suc ?n] = 0 # map Suc [0..<?n]" by (simp add: map_Suc_upt upt_conv_Cons del: upt_Suc)
    then show ?thesis using 2 True by (simp add: comp_def ac_simps del: upt_Suc)
  qed simp
qed simp

text \<open>
  The run a batch covers: \<open>n\<close> consecutive rows directly after the cursor.
\<close>

definition covers :: "index_row list \<Rightarrow> u64 \<Rightarrow> CursorEntry list \<Rightarrow> bool" where
  "covers t c es \<longleftrightarrow>
     map (unat \<circ> CE_Seq) es = [passed c..<passed c + length es] \<and> passed c + length es \<le> 2 ^ 63
     \<and> (\<forall>e\<in>set es. \<exists>r\<in>set t. CE_Seq e = c_seq r \<and> CE_Status e = c_status r)"

definition live_from :: "index_row list \<Rightarrow> nat \<Rightarrow> nat \<Rightarrow> u64 list" where
  "live_from t a b = map word_of_nat (filter (\<lambda>i. \<exists>r\<in>set t. unat (c_seq r) = i \<and> c_status r = StatusLive) [a..<b])"

lemma run_values:
  assumes "\<And>i. i < n \<Longrightarrow> unat (c + 1 + word_of_nat i :: u64) < 2 ^ 63" "i < n"
  shows "unat (c + 1 + word_of_nat i) = passed c + i"
  using assms(2)
proof (induction i)
  case (Suc i)
  then have i: "unat (c + 1 + word_of_nat i) = passed c + i" by simp
  have "c + 1 + word_of_nat i \<noteq> - 1"
  proof
    assume "c + 1 + word_of_nat i = - 1"
    then have "unat (c + 1 + word_of_nat i) = 2 ^ 64 - 1" by (simp only: unat_m1)
    with assms(1) [of i] Suc.prems show False by simp
  qed
  then have "unat (c + 1 + word_of_nat i + 1) = Suc (passed c + i)" using i unat_inc by metis
  moreover have "c + 1 + word_of_nat i + 1 = c + 1 + word_of_nat (Suc i)" by simp
  ultimately show ?case by (simp del: of_nat_Suc)
qed (simp add: passed_def)

lemma contiguous_covers:
  assumes "cursor_ok c" "cursorNext N t c b = Inr (e0 # es)" "CE_Seq e0 = c + 1"
  shows "covers t c (e0 # contiguousPrefix (CE_Seq e0) es)"
proof -
  define p where "p = contiguousPrefix c (e0 # es)"
  have p: "p = e0 # contiguousPrefix (CE_Seq e0) es" using assms(3) by (simp add: p_def)
  have seqs: "map CE_Seq p = map (\<lambda>i. c + 1 + word_of_nat i) [0..<length p]" unfolding p_def by (rule contiguousPrefix_seqs)
  have "set p \<subseteq> set (e0 # es)" unfolding p_def by (rule set_mono_prefix [OF contiguousPrefix_prefix])
  also have "set (e0 # es) \<subseteq> (\<lambda>r. \<lparr>CE_Seq = c_seq r, CE_Status = c_status r\<rparr>) ` set (rowsAfter c t)"
    unfolding cursorNext_Inr(1) [OF assms(2)] by (simp only: set_map) (rule image_mono [OF set_take_subset])
  finally have sub: "set p \<subseteq> (\<lambda>r. \<lparr>CE_Seq = c_seq r, CE_Status = c_status r\<rparr>) ` {r \<in> set t. sint c < sint (c_seq r)}"
    by (simp only: set_rowsAfter)
  have rows: "\<exists>r\<in>set t. CE_Seq e = c_seq r \<and> CE_Status e = c_status r \<and> sint c < sint (c_seq r)" if "e \<in> set p" for e
    using subsetD [OF sub that] by auto
  have at: "unat (c + 1 + word_of_nat i) < 2 ^ 63" if i: "i < length p" for i
  proof -
    have "CE_Seq (p ! i) = map CE_Seq p ! i" using i by simp
    also have "\<dots> = c + 1 + word_of_nat i" unfolding seqs using i by simp
    finally have "CE_Seq (p ! i) = c + 1 + word_of_nat i" .
    moreover obtain r where "r \<in> set t" "CE_Seq (p ! i) = c_seq r" "sint c < sint (c_seq r)" using rows [OF nth_mem [OF i]] by blast
    ultimately show ?thesis using after_iff [OF assms(1), of "c_seq r"] by simp
  qed
  note val = run_values [of "length p" c, OF at]
  have "map (unat \<circ> CE_Seq) p = map unat (map CE_Seq p)" by simp
  also have "\<dots> = map (\<lambda>i. passed c + i) [0..<length p]" unfolding seqs using val by simp
  also have "\<dots> = [passed c..<passed c + length p]" using map_add_upt [of "passed c" "length p"] by (simp add: add.commute)
  finally have m: "map (unat \<circ> CE_Seq) p = [passed c..<passed c + length p]" .
  have "passed c + length p \<le> 2 ^ 63"
    using val [of "length p - 1"] at [of "length p - 1"] p by auto
  with m rows show ?thesis unfolding covers_def p by blast
qed

lemma covers_last:
  assumes "covers t c es" "es \<noteq> []"
  shows "unat (CE_Seq (last es)) = passed c + length es - 1" "passed (CE_Seq (last es)) = passed c + length es"
    "cursor_ok (CE_Seq (last es))" "0 \<le> sint (CE_Seq (last es))"
proof -
  have "(unat \<circ> CE_Seq) (last es) = last [passed c..<passed c + length es]"
    using assms by (metis covers_def last_map)
  then show 1: "unat (CE_Seq (last es)) = passed c + length es - 1" using assms(2) by simp
  have "unat (CE_Seq (last es)) < 2 ^ 63" unfolding 1 using assms by (cases es) (auto simp: covers_def)
  then show "passed (CE_Seq (last es)) = passed c + length es" "cursor_ok (CE_Seq (last es))" "0 \<le> sint (CE_Seq (last es))"
    using assms(2) by (auto simp: passed_small 1 cursor_ok_small sint_u64_small simp del: of_nat_unat)
qed

lemma covers_live:
  assumes "covers t c es" "distinct (map c_seq t)"
  shows "liveSeqs es = live_from t (passed c) (passed c + length es)"
proof -
  let ?live = "\<lambda>i. \<exists>r\<in>set t. unat (c_seq r) = i \<and> c_status r = StatusLive"
  have st: "CE_Status e = StatusLive \<longleftrightarrow> ?live (unat (CE_Seq e))" if e: "e \<in> set es" for e
  proof -
    obtain r where r: "r \<in> set t" "CE_Seq e = c_seq r" "CE_Status e = c_status r" using assms(1) e by (auto simp: covers_def)
    have "r' = r" if r': "r' \<in> set t" "unat (c_seq r') = unat (CE_Seq e)" for r'
    proof -
      have "c_seq r' = c_seq r" using r'(2) unfolding r(2) by (simp only: word_unat_eq_iff)
      then show ?thesis by (rule distinct_map_eq [OF assms(2) r'(1) r(1)])
    qed
    with r show ?thesis by metis
  qed
  have "liveSeqs es = map word_of_nat (map (unat \<circ> CE_Seq) (filter (\<lambda>e. CE_Status e = StatusLive) es))"
    by (simp add: liveSeqs_def)
  also have "map (unat \<circ> CE_Seq) (filter (\<lambda>e. CE_Status e = StatusLive) es) = filter ?live (map (unat \<circ> CE_Seq) es)"
    unfolding filter_map comp_def using st by (intro arg_cong2 [where f = map] filter_cong refl) blast
  finally show ?thesis using assms(1) by (simp add: covers_def live_from_def)
qed

subsection \<open>The contract of a batch reader\<close>

text \<open>
  A reader moves from one cursor to another over a run of rows.  \<open>skips\<close>: nothing on the way
  is live.  \<open>advances\<close>: the live numbers on the way are exactly those handed out.
\<close>

definition run_of :: "index_row list \<Rightarrow> nat \<Rightarrow> nat \<Rightarrow> bool" where
  "run_of t a b \<longleftrightarrow> {a..<b} \<subseteq> (\<lambda>r. unat (c_seq r)) ` set t"

definition advances :: "index_row list \<Rightarrow> u64 \<Rightarrow> u64 \<Rightarrow> u64 list \<Rightarrow> bool" where
  "advances t c e L \<longleftrightarrow>
     cursor_ok e \<and> passed c \<le> passed e \<and> run_of t (passed c) (passed e) \<and> L = live_from t (passed c) (passed e)"

abbreviation skips :: "index_row list \<Rightarrow> u64 \<Rightarrow> u64 \<Rightarrow> bool" where
  "skips t c e \<equiv> advances t c e []"

locale batch_reader =
  fixes begin_batch :: "'n \<Rightarrow> int \<Rightarrow> index_row list \<Rightarrow> u64 option \<Rightarrow> 'r \<Rightarrow> ('x + u64 list) \<times> u64 option \<times> 'r"
    and commit_batch :: "'n \<Rightarrow> u64 list \<Rightarrow> u64 option \<Rightarrow> 'r \<Rightarrow> ('x + u64 option) \<times> 'r"
  assumes begin_skips:
      "cursor_ok c \<Longrightarrow> distinct (map c_seq t) \<Longrightarrow> begin_batch N b t (Some c) r = (res, cur', r')
       \<Longrightarrow> \<exists>d. cur' = Some d \<and> skips t c d"
    and commit_advances:
      "cursor_ok c \<Longrightarrow> distinct (map c_seq t) \<Longrightarrow> begin_batch N b t (Some c) r = (Inr L, Some d, r') \<Longrightarrow> L \<noteq> []
       \<Longrightarrow> commit_batch N L (Some d) r' = (Inr cur', r'') \<Longrightarrow> \<exists>e. cur' = Some e \<and> advances t d e L"

lemma live_from_Nil [simp]: "live_from t a a = []"
  by (simp add: live_from_def)

lemma advances_refl: "cursor_ok c \<Longrightarrow> skips t c c"
  by (simp add: advances_def run_of_def)

lemma live_from_append: "a \<le> b \<Longrightarrow> b \<le> c \<Longrightarrow> live_from t a b @ live_from t b c = live_from t a c"
  unfolding live_from_def using upt_add_eq_append [of a b "c - b"] by simp

lemma advances_trans: "advances t c d K \<Longrightarrow> advances t d e L \<Longrightarrow> advances t c e (K @ L)"
proof -
  assume a: "advances t c d K" "advances t d e L"
  have "{passed c..<passed e} \<subseteq> {passed c..<passed d} \<union> {passed d..<passed e}" by auto
  with a show ?thesis by (auto simp: advances_def run_of_def live_from_append)
qed

lemma covers_advances:
  assumes "covers t c es" "es \<noteq> []" "distinct (map c_seq t)"
  shows "advances t c (CE_Seq (last es)) (liveSeqs es)"
proof -
  have "{passed c..<passed c + length es} = (unat \<circ> CE_Seq) ` set es"
    using assms(1) by (metis covers_def set_map set_upt)
  also have "\<dots> \<subseteq> (\<lambda>r. unat (c_seq r)) ` set t"
  proof
    fix i assume "i \<in> (unat \<circ> CE_Seq) ` set es"
    then obtain e where e: "e \<in> set es" "i = unat (CE_Seq e)" by auto
    then obtain r where "r \<in> set t" "CE_Seq e = c_seq r" using assms(1) by (auto simp: covers_def)
    with e show "i \<in> (\<lambda>r. unat (c_seq r)) ` set t" by auto
  qed
  finally show ?thesis using covers_last [OF assms(1,2)] covers_live [OF assms(1,3)]
    by (simp add: advances_def run_of_def)
qed

lemma BeginBatch_cases:
  assumes "cursor_ok c" "distinct (map c_seq t)" "BeginBatch N b t (Some c) r = (res, cur', r')"
  obtains (idle) "cur' = Some c" "\<And>L. res = Inr L \<Longrightarrow> L = []"
  | (tombstones) e where "skips t c e" "cur' = Some e" "\<And>L. res = Inr L \<Longrightarrow> L = []"
  | (live) e L where "advances t c e L" "0 \<le> sint e" "L \<noteq> []" "res = Inr L" "cur' = Some c"
      "cr_pendingAdvanceSet r'" "cr_pendingAdvanceTo r' = e"
proof (cases "\<exists>e0 es. cursorNext N t c b = Inr (e0 # es) \<and> CE_Seq e0 = c + 1 \<and> cursorRead N (Some c) = Inr c")
  case False
  have "cursorRead N (Some c) = Inr s \<Longrightarrow> s = c" for s
    by (auto simp: cursorRead_def pg_run_def split: option.splits)
  with False assms(3) show ?thesis
    by (intro idle) (auto simp: BeginBatch_def Let_def split: sum.splits list.splits if_splits)
next
  case True
  then obtain e0 es where n: "cursorNext N t c b = Inr (e0 # es)" and e0: "CE_Seq e0 = c + 1" and rd: "cursorRead N (Some c) = Inr c"
    by blast
  define p where "p = e0 # contiguousPrefix (CE_Seq e0) es"
  have cov: "covers t c p" unfolding p_def by (rule contiguous_covers [OF assms(1) n e0])
  have ne: "p \<noteq> []" by (simp add: p_def)
  note adv = covers_advances [OF cov ne assms(2)] and lst = covers_last [OF cov ne]
  have eq: "BeginBatch N b t (Some c) r =
      (let r1 = r\<lparr>cr_current := c, cr_initFromDB := True\<rparr>; e = CE_Seq (last p) in
       if liveSeqs p = [] then
         (case AdvancePastTombstones N e (Some c) of
            (Inl x, cur') \<Rightarrow> (Inl (ReaderTombstones x), cur', r1) | (Inr _, cur') \<Rightarrow> (Inr [], cur', r1))
       else (Inr (liveSeqs p), Some c, r1\<lparr>cr_pendingAdvanceTo := e, cr_pendingAdvanceSet := True\<rparr>))"
    unfolding p_def by (simp add: BeginBatch_def rd n e0 Let_def)
  show ?thesis
  proof (cases "liveSeqs p = []")
    case False
    then have "(res, cur', r') = (Inr (liveSeqs p), Some c, r\<lparr>cr_current := c, cr_initFromDB := True,
        cr_pendingAdvanceTo := CE_Seq (last p), cr_pendingAdvanceSet := True\<rparr>)"
      using assms(3) unfolding eq by (simp add: Let_def)
    then show ?thesis using live [OF adv lst(4) False] by simp
  next
    case True
    have "sint c < sint (CE_Seq (last p))"
      using after_iff [OF assms(1), of "CE_Seq (last p)"] lst(1) cov by (auto simp: covers_def p_def)
    then have au: "autoUpdate (cu_exec N) (CE_Seq (last p)) (\<lambda>x. sint x < sint (CE_Seq (last p))) (Some c) =
        (case cu_exec N of Some (e, done) \<Rightarrow> (Inl e, if done then Some (CE_Seq (last p)) else Some c)
         | None \<Rightarrow> (Inr 1, Some (CE_Seq (last p))))"
      using lst(4) by (simp add: autoUpdate_def bigint_arg_def Let_def)
    have "(cur' = Some c \<or> cur' = Some (CE_Seq (last p))) \<and> (\<forall>L. res = Inr L \<longrightarrow> L = [])"
      using assms(3) True unfolding eq
      by (auto simp: Let_def AdvancePastTombstones_def au split: option.splits if_splits)
    then show ?thesis using idle tombstones [of "CE_Seq (last p)"] adv True by auto
  qed
qed

interpretation cr: batch_reader BeginBatch CommitBatch
proof (unfold_locales, goal_cases)
  case (1 c t N b r res cur' r')
  then show ?case using advances_refl [OF 1(1)] by (cases rule: BeginBatch_cases [OF 1]) auto
next
  case (2 c t N b r L d r' cur' r'')
  from 2(1,2,3) show ?case
  proof (cases rule: BeginBatch_cases)
    case (live e L')
    then show ?thesis using 2(5)
      by (auto simp: CommitBatch_def AdvanceTx_def bigint_arg_def bindE_eq_Inr pg_run_def split: option.splits if_splits)
  qed (use 2(4) in auto)
qed

subsection \<open>A gap-free index is read to its end\<close>

definition dense :: "index_row list \<Rightarrow> nat \<Rightarrow> bool" where
  "dense t n \<longleftrightarrow> distinct (map c_seq t) \<and> c_seq ` set t = {i. unat i < n} \<and> n \<le> 2 ^ 63"

lemma rowsAfter_dense:
  assumes "cursor_ok c" "dense t n"
  shows "map (unat \<circ> c_seq) (rowsAfter c t) = [passed c..<n]"
proof (rule sorted_distinct_set_unique)
  let ?R = "rowsAfter c t"
  have small: "int (unat (c_seq r)) = sint (c_seq r)" if "r \<in> set ?R" for r
    using that after_iff [OF assms(1), of "c_seq r"] by (simp add: sint_u64_small del: of_nat_unat)
  have "sorted (map (\<lambda>r. sint (c_seq r)) ?R)" by (simp add: rowsAfter_def)
  also have "map (\<lambda>r. sint (c_seq r)) ?R = map int (map (unat \<circ> c_seq) ?R)" using small by simp
  finally show "sorted (map (unat \<circ> c_seq) ?R)" by (simp add: sorted_iff_nth_mono del: of_nat_unat)
  have "distinct (map c_seq (rowsAfter c t))" using assms(2)
    by (auto simp: rowsAfter_def dense_def distinct_map inj_on_def)
  then show "distinct (map (unat \<circ> c_seq) ?R)"
    unfolding map_map [symmetric] distinct_map [of unat] using inj_on_subset [OF inj_unat subset_UNIV] by blast
  have "set (map (unat \<circ> c_seq) ?R) = unat ` {s \<in> c_seq ` set t. sint c < sint s}" by auto
  also have "\<dots> = unat ` {s :: u64. passed c \<le> unat s \<and> unat s < n}"
    using assms(2) after_iff [OF assms(1)] by (intro arg_cong [where f = "image unat"]) (auto simp: dense_def)
  also have "\<dots> = {passed c..<n}"
  proof -
    have "i \<in> unat ` {s :: u64. passed c \<le> unat s \<and> unat s < n}" if "i \<in> {passed c..<n}" for i
      using that assms(2) unat_u64_of_nat [of i] by (intro image_eqI [of _ _ "word_of_nat i"]) (auto simp: dense_def)
    then show ?thesis by auto
  qed
  finally show "set (map (unat \<circ> c_seq) ?R) = set [passed c..<n]" by simp
qed auto

lemma contiguousPrefix_full:
  assumes "map (unat \<circ> CE_Seq) es = [passed p..<passed p + length es]" "passed p + length es \<le> 2 ^ 63"
  shows "contiguousPrefix p es = es"
  using assms
proof (induction es arbitrary: p)
  case (Cons e es)
  have e: "unat (CE_Seq e) = passed p" "map (unat \<circ> CE_Seq) es = [Suc (passed p)..<passed p + length (e # es)]"
    using Cons.prems(1) by (simp_all add: upt_conv_Cons comp_def del: upt_Suc)
  then have "CE_Seq e = p + 1" by (simp add: passed_def word_unat_eq_iff)
  moreover have "passed (CE_Seq e) = Suc (passed p)" using e(1) Cons.prems(2) by (subst passed_small) auto
  ultimately show ?case using Cons.IH [of "CE_Seq e"] e(2) Cons.prems(2) by (simp add: comp_def del: upt_Suc)
qed simp

lemma BeginBatch_dense:
  assumes "cursor_ok c" "dense t n" "cursor_calm N" "0 < b"
  defines "m \<equiv> min n (passed c + nat b)"
  shows "passed c < n \<Longrightarrow> BeginBatch N b t (Some c) r =
      (let r1 = r\<lparr>cr_current := c, cr_initFromDB := True\<rparr>; L = live_from t (passed c) m in
       if L = [] then (Inr [], Some (word_of_nat (m - 1)), r1)
       else (Inr L, Some c, r1\<lparr>cr_pendingAdvanceTo := word_of_nat (m - 1), cr_pendingAdvanceSet := True\<rparr>))"
    and "n \<le> passed c \<Longrightarrow> BeginBatch N b t (Some c) r = (Inr [], Some c, r\<lparr>cr_current := c, cr_initFromDB := True\<rparr>)"
proof -
  define es where "es = map (\<lambda>r. \<lparr>CE_Seq = c_seq r, CE_Status = c_status r\<rparr>) (take (nat b) (rowsAfter c t))"
  have rd: "cursorRead N (Some c) = Inr c" using assms(3) by (simp add: cursorRead_def cursor_calm_def pg_run_def)
  have "\<forall>r\<in>set (take (nat b) (rowsAfter c t)). 0 \<le> sint (c_seq r)"
    using assms(1) by (auto simp: cursor_ok_def dest!: in_set_takeD)
  then have nx: "cursorNext N t c b = Inr es"
    using assms(3,4) by (simp add: cursorNext_def cursor_calm_def pg_run_def scanRows_ok es_def)
  have "map (unat \<circ> CE_Seq) es = take (nat b) (map (unat \<circ> c_seq) (rowsAfter c t))" by (simp add: es_def take_map comp_def)
  then have seqs: "map (unat \<circ> CE_Seq) es = [passed c..<m]" unfolding rowsAfter_dense [OF assms(1,2)]
    by (simp add: take_upt m_def min_def)
  then have len: "length es = m - passed c" by (metis length_map length_upt)
  show "BeginBatch N b t (Some c) r = (Inr [], Some c, r\<lparr>cr_current := c, cr_initFromDB := True\<rparr>)" if "n \<le> passed c"
    using len that by (simp add: BeginBatch_def rd nx m_def Let_def)
  assume k: "passed c < n"
  then have m: "passed c < m" "m \<le> 2 ^ 63" using assms(2,4) by (auto simp: m_def dense_def)
  then obtain e0 es' where e: "es = e0 # es'" using len by (cases es) auto
  have full: "contiguousPrefix c es = es" using m len seqs by (intro contiguousPrefix_full) auto
  then have e0: "CE_Seq e0 = c + 1" "contiguousPrefix (CE_Seq e0) es' = es'" by (auto simp: e split: if_splits)
  have cov: "covers t c es" using contiguous_covers [OF assms(1) nx [unfolded e] e0(1)] e0(2) e by simp
  have "liveSeqs es = live_from t (passed c) m" using covers_live [OF cov] assms(2) len m by (simp add: dense_def)
  moreover have lst: "CE_Seq (last es) = word_of_nat (m - 1)"
  proof -
    have "unat (CE_Seq (last es)) = m - 1" using covers_last(1) [OF cov] e len m by auto
    moreover have "CE_Seq (last es) = word_of_nat (unat (CE_Seq (last es)))" by simp
    ultimately show ?thesis by metis
  qed
  moreover have "AdvancePastTombstones N (word_of_nat (m - 1)) (Some c) = (Inr (), Some (word_of_nat (m - 1)))"
  proof -
    have "sint c < sint (CE_Seq (last es))"
      using after_iff [OF assms(1), of "CE_Seq (last es)"] covers_last(1) [OF cov] e len m by auto
    moreover have "0 \<le> sint (CE_Seq (last es))" using covers_last(4) [OF cov] e by simp
    ultimately show ?thesis using assms(3)
      by (simp add: lst AdvancePastTombstones_def autoUpdate_def bigint_arg_def cursor_calm_def)
  qed
  ultimately show "BeginBatch N b t (Some c) r =
      (let r1 = r\<lparr>cr_current := c, cr_initFromDB := True\<rparr>; L = live_from t (passed c) m in
       if L = [] then (Inr [], Some (word_of_nat (m - 1)), r1)
       else (Inr L, Some c, r1\<lparr>cr_pendingAdvanceTo := word_of_nat (m - 1), cr_pendingAdvanceSet := True\<rparr>))"
    using e0 by (simp add: BeginBatch_def rd nx e Let_def)
qed

end
