(* ===== verification/SmtState.thy ===== *)
theory SmtState
  imports EntryIndex StoreCodec "HOL-Library.AList"
begin

section \<open>The builder's tables: leaves, root, tile frontier, delta buffer\<close>

text \<open>
  Models \<open>store/smt_state.go\<close> (the leaf table), \<open>store/smt_root_state.go\<close> (the root
  row and its compare-and-swap), \<open>store/tile_frontier.go\<close> (the durable tile clock) and
  \<open>builder/delta_buffer.go\<close> (the tip histories).  A table is the association list of its rows
  by primary key, a singleton row an \<open>option\<close>.  Functions that run inside the caller's
  transaction return the new table or an error; the transaction decides whether it lasts.

  \<open>DeltaWindowBuffer\<close> is a type of the SDK: its operations are the record \<open>delta_sdk\<close>.
\<close>

subsection \<open>PostgresLeafStore\<close>

record SMTLeaf =
  lf_Key :: hash
  lf_OriginTip :: LogPosition
  lf_AuthorityTip :: LogPosition

type_synonym leaf_table = "(hash \<times> bytes \<times> bytes) list"

datatype smt_error =
    LeafGetErr pg_error
  | LeafDecode codec_error
  | LeafListErr pg_error
  | LeafSetErr pg_error
  | LeafBatchErr nat pg_error
  | LeafDeleteErr pg_error
  | LeafCountErr pg_error
  | RootReadErr pg_error
  | RootLength nat
  | RootSetErr pg_error
  | ErrRootCASMismatch
  | FrontierReadErr pg_error
  | FrontierLength nat
  | FrontierAdvanceErr u64 pg_error

definition leafColumns :: "SMTLeaf \<Rightarrow> bytes \<times> bytes" where
  "leafColumns l = (SerializeLogPosition (lf_OriginTip l), SerializeLogPosition (lf_AuthorityTip l))"

definition decodeLeaf :: "hash \<Rightarrow> bytes \<times> bytes \<Rightarrow> smt_error + SMTLeaf" where
  "decodeLeaf k c =
     bindE (mapE LeafDecode (DeserializeLogPosition (fst c))) (\<lambda>origin.
     bindE (mapE LeafDecode (DeserializeLogPosition (snd c))) (\<lambda>auth.
       Inr \<lparr>lf_Key = k, lf_OriginTip = origin, lf_AuthorityTip = auth\<rparr>))"

definition leafGet :: "pg_error option \<Rightarrow> leaf_table \<Rightarrow> hash \<Rightarrow> smt_error + SMTLeaf option" where
  "leafGet flt tab key =
     bindE (mapE LeafGetErr (pg_run flt (Inr (map_of tab key)))) (\<lambda>row.
       case row of None \<Rightarrow> Inr None | Some c \<Rightarrow> bindE (decodeLeaf key c) (\<lambda>l. Inr (Some l)))"

fun decodeLeaves :: "leaf_table \<Rightarrow> smt_error + SMTLeaf list" where
  "decodeLeaves [] = Inr []"
| "decodeLeaves ((k, c) # rows) = bindE (decodeLeaf k c) (\<lambda>l. bindE (decodeLeaves rows) (\<lambda>ls. Inr (l # ls)))"

definition ListAll :: "pg_error option \<Rightarrow> leaf_table \<Rightarrow> smt_error + SMTLeaf list" where
  "ListAll flt tab = bindE (mapE LeafListErr (pg_run flt (Inr tab))) decodeLeaves"

definition leafUpsert :: "SMTLeaf \<Rightarrow> leaf_table \<Rightarrow> leaf_table" where
  "leafUpsert l = AList.update (lf_Key l) (leafColumns l)"

definition leafSetTx :: "pg_error option \<Rightarrow> SMTLeaf \<Rightarrow> leaf_table \<Rightarrow> smt_error + leaf_table" where
  "leafSetTx flt l tab = mapE LeafSetErr (pg_run flt (Inr (leafUpsert l tab)))"

text \<open>
  One INSERT over all rows: Postgres rejects a statement that would update a row twice.
\<close>

definition SetBatchTx :: "pg_error option \<Rightarrow> SMTLeaf list \<Rightarrow> leaf_table \<Rightarrow> smt_error + (nat \<times> leaf_table)" where
  "SetBatchTx flt ls tab =
     (if ls = [] then Inr (0, tab)
      else mapE (LeafBatchErr (length ls)) (pg_run flt
             (if distinct (map lf_Key ls) then Inr (length ls, fold leafUpsert ls tab)
              else Inl (PgFault ''ON CONFLICT DO UPDATE command cannot affect row a second time''))))"

text \<open>
  A pipelined batch runs as one implicit transaction: the first failing statement undoes it.  Only the
  result of the first statement is read, the error of \<open>Close\<close> is dropped.
\<close>

definition SetBatch :: "(nat \<times> pg_error) option \<Rightarrow> SMTLeaf list \<Rightarrow> leaf_table \<Rightarrow> (smt_error + unit) \<times> leaf_table" where
  "SetBatch flt ls tab =
     (if ls = [] then (Inr (), tab)
      else (case flt of
              None \<Rightarrow> (Inr (), fold leafUpsert ls tab)
            | Some (i, e) \<Rightarrow>
                if length ls \<le> i then (Inr (), fold leafUpsert ls tab)
                else (if i = 0 then Inl (LeafSetErr e) else Inr (), tab)))"

definition leafDelete :: "pg_error option \<Rightarrow> hash \<Rightarrow> leaf_table \<Rightarrow> smt_error + leaf_table" where
  "leafDelete flt key tab = mapE LeafDeleteErr (pg_run flt (Inr (AList.delete key tab)))"

definition leafCount :: "pg_error option \<Rightarrow> leaf_table \<Rightarrow> smt_error + nat" where
  "leafCount flt tab = mapE LeafCountErr (pg_run flt (Inr (length tab)))"

subsection \<open>SMTRootStateStore and PgTileFrontier\<close>

record SMTRootState =
  CurrentRoot :: hash
  CommittedThroughSeq :: u64

record root_row =
  rr_root :: bytes
  rr_seq :: u64

definition TreeSizeForCommittedSeq :: "u64 \<Rightarrow> u64" where "TreeSizeForCommittedSeq s = s + 1"

definition TreeSize :: "SMTRootState \<Rightarrow> u64" where "TreeSize s = TreeSizeForCommittedSeq (CommittedThroughSeq s)"

definition rootRead :: "pg_error option \<Rightarrow> root_row option \<Rightarrow> smt_error + SMTRootState" where
  "rootRead flt row =
     bindE (mapE RootReadErr (pg_run flt
       (case row of None \<Rightarrow> Inl (PgFault ''no rows in result set'') | Some r \<Rightarrow> Inr r))) (\<lambda>r.
       if length (rr_root r) \<noteq> 32 then Inl (RootLength (length (rr_root r)))
       else Inr \<lparr>CurrentRoot = un_hash (rr_root r), CommittedThroughSeq = rr_seq r\<rparr>)"

definition rootSetTx :: "pg_error option \<Rightarrow> hash \<Rightarrow> u64 \<Rightarrow> root_row option \<Rightarrow> smt_error + root_row option" where
  "rootSetTx flt root s row =
     mapE RootSetErr (pg_run flt (Inr (map_option (\<lambda>_. \<lparr>rr_root = hash_bytes root, rr_seq = s\<rparr>) row)))"

definition SetTxCAS ::
  "pg_error option \<Rightarrow> hash \<Rightarrow> u64 \<Rightarrow> hash \<Rightarrow> u64 \<Rightarrow> root_row option \<Rightarrow> smt_error + root_row option" where
  "SetTxCAS flt root s priorRoot priorSeq row =
     bindE (mapE RootSetErr (pg_run flt (Inr ()))) (\<lambda>_.
       case row of
         None \<Rightarrow> Inl ErrRootCASMismatch
       | Some r \<Rightarrow>
           if rr_seq r = priorSeq \<and> rr_root r = hash_bytes priorRoot
           then Inr (Some \<lparr>rr_root = hash_bytes root, rr_seq = s\<rparr>)
           else Inl ErrRootCASMismatch)"

definition ReadFrontier :: "pg_error option \<Rightarrow> root_row option \<Rightarrow> smt_error + (u64 \<times> hash)" where
  "ReadFrontier flt row =
     bindE (mapE FrontierReadErr (pg_run flt
       (case row of None \<Rightarrow> Inl (PgFault ''no rows in result set'') | Some r \<Rightarrow> Inr r))) (\<lambda>r.
       if length (rr_root r) \<noteq> 32 then Inl (FrontierLength (length (rr_root r)))
       else Inr (rr_seq r, un_hash (rr_root r)))"

text \<open>An UPDATE of its own; when it fails it may still have taken effect.\<close>

definition AdvanceFrontier ::
  "(pg_error \<times> bool) option \<Rightarrow> u64 \<Rightarrow> hash \<Rightarrow> root_row option \<Rightarrow> (smt_error + unit) \<times> root_row option" where
  "AdvanceFrontier flt s root row =
     (let row' = map_option (\<lambda>r. if sint (rr_seq r) \<le> sint s then \<lparr>rr_root = hash_bytes root, rr_seq = s\<rparr> else r) row in
      case flt of
        None \<Rightarrow> (Inr (), row')
      | Some (e, done) \<Rightarrow> (Inl (FrontierAdvanceErr s e), if done then row' else row))"

definition ReadCommit :: "pg_error option \<Rightarrow> root_row option \<Rightarrow> smt_error + (u64 \<times> hash)" where
  "ReadCommit flt row = bindE (rootRead flt row) (\<lambda>st. Inr (CommittedThroughSeq st, CurrentRoot st))"

subsection \<open>DeltaBufferStore\<close>

definition tipBytes :: "LogPosition \<Rightarrow> bytes" where
  "tipBytes tip =
     be16 (word_of_nat (length (string_bytes (LogDID tip)))) @ string_bytes (LogDID tip) @ be64 (PosSequence tip)"

definition serializeTipHistory :: "LogPosition list \<Rightarrow> bytes" where
  "serializeTipHistory tips = be16 (word_of_nat (length tips)) @ concat (map tipBytes tips)"

datatype tip_error = TipTooShort | TipTruncated nat | TipTruncatedDID nat

fun tipLoop :: "bytes \<Rightarrow> nat \<Rightarrow> nat \<Rightarrow> nat \<Rightarrow> tip_error + LogPosition list" where
  "tipLoop data pos i 0 = Inr []"
| "tipLoop data pos i (Suc n) =
     (if pos + 2 > length data then Inl (TipTruncated i)
      else
        let didLen = unat (un16 (bslice data pos (pos + 2))); p = pos + 2 in
        if p + didLen + 8 > length data then Inl (TipTruncatedDID i)
        else
          bindE (tipLoop data (p + didLen + 8) (i + 1) n) (\<lambda>tips.
            Inr (\<lparr>LogDID = bytes_string (bslice data p (p + didLen)),
                  PosSequence = un64 (bslice data (p + didLen) (p + didLen + 8))\<rparr> # tips)))"

definition deserializeTipHistory :: "bytes \<Rightarrow> tip_error + LogPosition list" where
  "deserializeTipHistory data =
     (if length data < 2 then Inl TipTooShort
      else tipLoop data 2 0 (unat (un16 (bslice data 0 2))))"

record 'b delta_sdk =
  ds_New :: "int \<Rightarrow> 'b"
  ds_AllKeys :: "'b \<Rightarrow> hash list"
  ds_History :: "'b \<Rightarrow> hash \<Rightarrow> LogPosition list"
  ds_SetHistory :: "hash \<Rightarrow> LogPosition list \<Rightarrow> 'b \<Rightarrow> 'b"

type_synonym delta_table = "(bytes \<times> bytes) list"

datatype delta_error = DeltaLoadErr pg_error | DeltaRowsErr pg_error | DeltaDeleteErr hash pg_error | DeltaUpsertErr hash pg_error

definition NewDeltaBufferStore :: "int \<Rightarrow> int" where
  "NewDeltaBufferStore windowSize = (if windowSize < 1 then 10 else windowSize)"

fun deltaSave ::
  "'b delta_sdk \<Rightarrow> int \<Rightarrow> (hash \<Rightarrow> pg_error option) \<Rightarrow> 'b \<Rightarrow> hash list \<Rightarrow> delta_table \<Rightarrow> delta_error + delta_table" where
  "deltaSave K w flt buf [] tab = Inr tab"
| "deltaSave K w flt buf (key # keys) tab =
     (let tips = ds_History K buf key in
      if tips = [] then
        bindE (mapE (DeltaDeleteErr key) (pg_run (flt key) (Inr (AList.delete (hash_bytes key) tab)))) (deltaSave K w flt buf keys)
      else
        let trimmed = (if int (length tips) > w then drop (length tips - nat w) tips else tips) in
        bindE (mapE (DeltaUpsertErr key) (pg_run (flt key)
                 (Inr (AList.update (hash_bytes key) (serializeTipHistory trimmed) tab)))) (deltaSave K w flt buf keys))"

definition deltaSaveTx ::
  "'b delta_sdk \<Rightarrow> int \<Rightarrow> (hash \<Rightarrow> pg_error option) \<Rightarrow> 'b \<Rightarrow> delta_table \<Rightarrow> delta_error + delta_table" where
  "deltaSaveTx K w flt buf tab = deltaSave K w flt buf (ds_AllKeys K buf) tab"

fun deltaRows :: "'b delta_sdk \<Rightarrow> delta_table \<Rightarrow> 'b \<Rightarrow> 'b" where
  "deltaRows K [] buf = buf"
| "deltaRows K ((keyBytes, histBytes) # rows) buf =
     (if length keyBytes \<noteq> 32 then deltaRows K rows buf
      else (case deserializeTipHistory histBytes of
              Inl _ \<Rightarrow> deltaRows K rows buf
            | Inr tips \<Rightarrow> deltaRows K rows (ds_SetHistory K (un_hash keyBytes) tips buf)))"

definition deltaLoad ::
  "'b delta_sdk \<Rightarrow> int \<Rightarrow> pg_error option \<Rightarrow> pg_error option \<Rightarrow> delta_table \<Rightarrow> (delta_error + unit) \<times> 'b" where
  "deltaLoad K w flt rowsErr tab =
     (let buf = ds_New K w in
      case flt of
        Some e \<Rightarrow> (Inl (DeltaLoadErr e), buf)
      | None \<Rightarrow>
          (case rowsErr of
             Some e \<Rightarrow> (Inl (DeltaRowsErr e), deltaRows K tab buf)
           | None \<Rightarrow> (Inr (), deltaRows K tab buf)))"

text \<open>The boot wiring: a buffer that cannot be loaded is replaced by an empty one.\<close>

definition bootBuffer :: "'b delta_sdk \<Rightarrow> int \<Rightarrow> pg_error option \<Rightarrow> pg_error option \<Rightarrow> delta_table \<Rightarrow> 'b" where
  "bootBuffer K deltaWindow flt rowsErr tab =
     (case deltaLoad K (NewDeltaBufferStore deltaWindow) flt rowsErr tab of
        (Inr _, buf) \<Rightarrow> buf
      | (Inl _, _) \<Rightarrow> ds_New K deltaWindow)"

subsection \<open>Leaf rows\<close>

lemma map_of_upserts:
  "map_of (fold leafUpsert ls tab) k =
     (case find (\<lambda>l. lf_Key l = k) (rev ls) of Some l \<Rightarrow> Some (leafColumns l) | None \<Rightarrow> map_of tab k)"
proof (induction ls rule: rev_induct)
  case (snoc l ls)
  then show ?case by (simp add: leafUpsert_def update_conv')
qed simp

lemma distinct_upserts: "distinct (map fst tab) \<Longrightarrow> distinct (map fst (fold leafUpsert ls tab))"
  by (induction ls arbitrary: tab) (simp_all add: leafUpsert_def distinct_update)

subsection \<open>Tip histories\<close>

definition tips_fit :: "LogPosition list \<Rightarrow> bool" where
  "tips_fit tips \<longleftrightarrow> length tips \<le> 65535 \<and> (\<forall>p\<in>set tips. length (LogDID p) \<le> 65535)"

lemma tipLoop_append:
  assumes "\<forall>p\<in>set tips. length (LogDID p) \<le> 65535"
  shows "tipLoop (pre @ concat (map tipBytes tips) @ suf) (length pre) i (length tips) = Inr tips"
  using assms
proof (induction tips arbitrary: pre i)
  case (Cons p tips)
  define n where "n = length (LogDID p)"
  let ?did = "string_bytes (LogDID p)"
  let ?rest = "concat (map tipBytes tips) @ suf"
  let ?l = "word_of_nat n :: u16"
  define d where "d = pre @ be16 ?l @ ?did @ be64 (PosSequence p) @ ?rest"
  have d: "pre @ concat (map tipBytes (p # tips)) @ suf = d" by (simp add: d_def tipBytes_def n_def)
  have ul: "unat ?l = n" using Cons.prems by (simp add: n_def unat_of_nat)
  have len: "length d = length pre + 2 + n + 8 + length ?rest" by (simp add: d_def n_def)
  have s0: "bslice d (length pre) (length pre + 2) = be16 ?l" unfolding d_def by (rule bslice_mid) simp_all
  have s1: "bslice d (length pre + 2) (length pre + 2 + n) = ?did"
    using bslice_mid [of "pre @ be16 ?l" "length pre + 2" ?did "length pre + 2 + n" "be64 (PosSequence p) @ ?rest"]
    by (simp add: d_def n_def)
  have s2: "bslice d (length pre + 2 + n) (length pre + 2 + n + 8) = be64 (PosSequence p)"
    using bslice_mid [of "pre @ be16 ?l @ ?did" "length pre + 2 + n" "be64 (PosSequence p)" "length pre + 2 + n + 8" ?rest]
    by (simp add: d_def n_def)
  have "tipLoop d (length pre + 2 + n + 8) (i + 1) (length tips) = Inr tips"
    using Cons.IH [of "pre @ be16 ?l @ ?did @ be64 (PosSequence p)" "i + 1"] Cons.prems
    by (simp add: d_def n_def ac_simps)
  then show ?case unfolding d using len
    by (simp only: length_Cons tipLoop.simps Let_def s0 un_be ul s1 s2) simp
qed simp

lemma tip_history_inverse:
  assumes "tips_fit tips"
  shows "deserializeTipHistory (serializeTipHistory tips) = Inr tips"
proof -
  have "tipLoop (serializeTipHistory tips) 2 0 (length tips) = Inr tips"
    using tipLoop_append [of tips "be16 (word_of_nat (length tips))" "[]" 0] assms
    by (simp add: serializeTipHistory_def tips_fit_def)
  moreover have "bslice (serializeTipHistory tips) 0 2 = be16 (word_of_nat (length tips))"
    by (simp add: serializeTipHistory_def bslice_head)
  ultimately show ?thesis using assms
    by (simp add: deserializeTipHistory_def serializeTipHistory_def tips_fit_def unat_of_nat)
qed

subsection \<open>Saving and loading the buffer\<close>

definition window :: "int \<Rightarrow> 'a list \<Rightarrow> 'a list" where
  "window w tips = drop (length tips - nat w) tips"

text \<open>
  What the store relies on: a set history is the history of that key and of no other, as long as it
  fits the window; a new buffer is empty.  \<open>I\<close> singles out the buffers of window \<open>w\<close>.
\<close>

definition delta_lawful :: "'b delta_sdk \<Rightarrow> int \<Rightarrow> ('b \<Rightarrow> bool) \<Rightarrow> bool" where
  "delta_lawful K w I \<longleftrightarrow>
     I (ds_New K w) \<and> (\<forall>k. ds_History K (ds_New K w) k = [])
     \<and> (\<forall>b k h. I b \<longrightarrow> I (ds_SetHistory K k h b)
          \<and> (int (length h) \<le> w \<longrightarrow> ds_History K (ds_SetHistory K k h b) k = h)
          \<and> (\<forall>k'. k' \<noteq> k \<longrightarrow> ds_History K (ds_SetHistory K k h b) k' = ds_History K b k'))"

lemma window_eq: "0 \<le> w \<Longrightarrow> (if int (length tips) > w then drop (length tips - nat w) tips else tips) = window w tips"
  by (simp add: window_def)

lemma deltaSave_rows:
  assumes "deltaSave K w flt buf keys tab = Inr tab'" "distinct (map fst tab)" "0 \<le> w" "distinct keys"
  shows "distinct (map fst tab') \<and> (\<forall>k. map_of tab' (hash_bytes k) =
      (if k \<in> set keys then
         (if ds_History K buf k = [] then None else Some (serializeTipHistory (window w (ds_History K buf k))))
       else map_of tab (hash_bytes k)))"
  using assms
proof (induction keys arbitrary: tab)
  case (Cons key keys)
  define row where "row = serializeTipHistory (window w (ds_History K buf key))"
  define tab1 where "tab1 = (if ds_History K buf key = [] then AList.delete (hash_bytes key) tab
      else AList.update (hash_bytes key) row tab)"
  have "deltaSave K w flt buf keys tab1 = Inr tab'" using Cons.prems(1,3)
    by (auto simp: tab1_def row_def Let_def bindE_eq_Inr pg_run_def window_eq split: option.splits if_splits)
  moreover have "distinct (map fst tab1)" using Cons.prems(2)
    by (simp add: tab1_def distinct_update distinct_delete)
  moreover have "map_of tab1 (hash_bytes k) =
      (if k = key then if ds_History K buf key = [] then None else Some row else map_of tab (hash_bytes k))" for k
    by (simp add: tab1_def delete_conv' update_conv')
  ultimately show ?case using Cons.IH [of tab1] Cons.prems(3,4) by (auto simp: row_def)
qed simp

text \<open>What a save without a fault writes: one row per key, deleted when the history is empty.\<close>

definition saveRow :: "'b delta_sdk \<Rightarrow> int \<Rightarrow> 'b \<Rightarrow> hash \<Rightarrow> delta_table \<Rightarrow> delta_table" where
  "saveRow K w buf k tab =
     (if ds_History K buf k = [] then AList.delete (hash_bytes k) tab
      else AList.update (hash_bytes k) (serializeTipHistory (window w (ds_History K buf k))) tab)"

lemma deltaSave_fold:
  assumes "deltaSave K w flt buf keys tab = Inr tab'" "0 \<le> w"
  shows "tab' = fold (saveRow K w buf) keys tab"
  using assms
proof (induction keys arbitrary: tab)
  case (Cons key keys)
  have "deltaSave K w flt buf keys (saveRow K w buf key tab) = Inr tab'" using Cons.prems
    by (auto simp: saveRow_def Let_def bindE_eq_Inr pg_run_def window_eq split: option.splits if_splits)
  with Cons show ?case by simp
qed simp

lemma deltaRows_history:
  assumes "delta_lawful K w I" "I buf" "distinct (map fst tab)"
    and "case map_of tab (hash_bytes k) of None \<Rightarrow> h = ds_History K buf k
      | Some row \<Rightarrow> deserializeTipHistory row = Inr h \<and> int (length h) \<le> w"
  shows "ds_History K (deltaRows K tab buf) k = h"
  using assms(2-)
proof (induction tab arbitrary: buf)
  case (Cons kv tab)
  obtain kb row where kv: "kv = (kb, row)" by force
  show ?case
  proof (cases "kb = hash_bytes k")
    case True
    then have row: "deserializeTipHistory row = Inr h" "int (length h) \<le> w" using Cons.prems(3) kv by simp_all
    have "map_of tab (hash_bytes k) = None" using Cons.prems(2) kv True by (simp add: map_of_eq_None_iff)
    moreover have "ds_History K (ds_SetHistory K k h buf) k = h" "I (ds_SetHistory K k h buf)"
      using assms(1) Cons.prems(1) row(2) by (auto simp: delta_lawful_def)
    ultimately show ?thesis using Cons.IH [of "ds_SetHistory K k h buf"] Cons.prems(2) kv True row by simp
  next
    case False
    have frame: "I (ds_SetHistory K (un_hash kb) t buf) \<and> ds_History K (ds_SetHistory K (un_hash kb) t buf) k = ds_History K buf k"
      if "length kb = 32" for t
    proof -
      have "k \<noteq> un_hash kb" using False be_un(2) [OF that] by auto
      then show ?thesis using assms(1) Cons.prems(1) by (simp add: delta_lawful_def)
    qed
    have m: "map_of (kv # tab) (hash_bytes k) = map_of tab (hash_bytes k)" using False kv by simp
    show ?thesis
    proof (cases "length kb = 32 \<and> (\<exists>t. deserializeTipHistory row = Inr t)")
      case True
      then obtain t where "length kb = 32" "deserializeTipHistory row = Inr t" by blast
      then show ?thesis using Cons.IH [of "ds_SetHistory K (un_hash kb) t buf"] Cons.prems(2,3) frame [of t]
        unfolding m by (auto simp: kv split: option.splits)
    next
      case False
      then show ?thesis using Cons.IH [of buf] Cons.prems unfolding m by (auto simp: kv split: sum.splits)
    qed
  qed
qed simp

subsection \<open>Properties\<close>

text \<open>
  The batch write reads the answer to its first statement only: a failure of any later one undoes the
  whole batch and is reported as success.
\<close>

lemma SetBatch_drops_error:
  assumes "0 < i" "i < length ls"
  shows "SetBatch (Some (i, e)) ls tab = (Inr (), tab)"
  using assms by (auto simp: SetBatch_def)

text \<open>
  C34.  What the builder commits of its delta window is what a restarted builder
  loads: for every leaf of the saved buffer the loaded history is the last \<open>w\<close> tips of the saved
  one, in order, and for every leaf known neither to the buffer nor to the table it is empty.
\<close>

theorem delta_buffer_restart:
  assumes "delta_lawful K w I" and "1 \<le> w" and "w \<le> 65535"
    and "distinct (ds_AllKeys K buf)" and "distinct (map fst tab)"
    and "\<forall>k. \<forall>p\<in>set (ds_History K buf k). length (LogDID p) \<le> 65535"
    and "deltaSaveTx K w flt buf tab = Inr tab'"
  shows "\<exists>buf'. deltaLoad K w None None tab' = (Inr (), buf')
    \<and> (\<forall>k\<in>set (ds_AllKeys K buf). ds_History K buf' k = window w (ds_History K buf k))
    \<and> (\<forall>k. k \<notin> set (ds_AllKeys K buf) \<and> map_of tab (hash_bytes k) = None \<longrightarrow> ds_History K buf' k = [])"
proof -
  note rows = deltaSave_rows [OF assms(7) [unfolded deltaSaveTx_def] assms(5) _ assms(4)]
  have new: "I (ds_New K w)" "ds_History K (ds_New K w) k = []" for k using assms(1) by (simp_all add: delta_lawful_def)
  have fit: "deserializeTipHistory (serializeTipHistory (window w (ds_History K buf k))) = Inr (window w (ds_History K buf k))
      \<and> int (length (window w (ds_History K buf k))) \<le> w" for k
  proof -
    have len: "int (length (window w (ds_History K buf k))) \<le> w" using assms(2) by (simp add: window_def)
    then have "tips_fit (window w (ds_History K buf k))" using assms(3,6)
      by (auto simp: tips_fit_def window_def dest!: in_set_dropD)
    then show ?thesis using len tip_history_inverse by blast
  qed
  have "ds_History K (deltaRows K tab' (ds_New K w)) k = window w (ds_History K buf k)" if "k \<in> set (ds_AllKeys K buf)" for k
    using that rows assms(2) fit new
    by (intro deltaRows_history [OF assms(1)]) (auto simp: window_def split: option.splits)
  moreover have "ds_History K (deltaRows K tab' (ds_New K w)) k = []"
    if "k \<notin> set (ds_AllKeys K buf)" "map_of tab (hash_bytes k) = None" for k
    using that rows assms(2) new by (intro deltaRows_history [OF assms(1)]) (auto split: option.splits)
  ultimately show ?thesis by (simp add: deltaLoad_def)
qed

definition demo_delta :: "(hash \<times> LogPosition list) list delta_sdk" where
  "demo_delta =
     \<lparr>ds_New = \<lambda>w. [], ds_AllKeys = map fst,
      ds_History = \<lambda>b k. (case map_of b k of None \<Rightarrow> [] | Some h \<Rightarrow> h), ds_SetHistory = AList.update\<rparr>"

lemma demo_delta_lawful: "delta_lawful demo_delta w (\<lambda>b. True)"
  by (simp add: delta_lawful_def demo_delta_def update_conv')

lemma demo_delta_fields:
  "ds_AllKeys demo_delta b = map fst b" "ds_History demo_delta b k = (case map_of b k of None \<Rightarrow> [] | Some h \<Rightarrow> h)"
  by (simp_all add: demo_delta_def)

definition demo_tips :: "(hash \<times> LogPosition list) list" where
  "demo_tips = [(7, [\<lparr>LogDID = ''a'', PosSequence = 1\<rparr>, \<lparr>LogDID = ''a'', PosSequence = 4\<rparr>, \<lparr>LogDID = ''b'', PosSequence = 9\<rparr>])]"

theorem delta_buffer_restart_witness:
  "\<exists>tab buf'. deltaSaveTx demo_delta 2 (\<lambda>_. None) demo_tips [] = Inr tab
     \<and> deltaLoad demo_delta 2 None None tab = (Inr (), buf')
     \<and> ds_History demo_delta buf' 7 = [\<lparr>LogDID = ''a'', PosSequence = 4\<rparr>, \<lparr>LogDID = ''b'', PosSequence = 9\<rparr>]"
proof -
  obtain tab where tab: "deltaSaveTx demo_delta 2 (\<lambda>_. None) demo_tips [] = Inr tab"
    by (simp add: deltaSaveTx_def demo_delta_fields demo_tips_def Let_def pg_run_def)
  have h: "\<forall>k. \<forall>p\<in>set (ds_History demo_delta demo_tips k). length (LogDID p) \<le> 65535"
    by (auto simp: demo_delta_fields demo_tips_def split: if_splits)
  have k: "distinct (ds_AllKeys demo_delta demo_tips)" by (simp add: demo_delta_fields demo_tips_def)
  obtain buf' where "deltaLoad demo_delta 2 None None tab = (Inr (), buf')"
    "\<forall>k\<in>set (ds_AllKeys demo_delta demo_tips). ds_History demo_delta buf' k = window 2 (ds_History demo_delta demo_tips k)"
    using delta_buffer_restart [OF demo_delta_lawful _ _ k _ h tab] by auto
  moreover have "window 2 (ds_History demo_delta demo_tips 7) = [\<lparr>LogDID = ''a'', PosSequence = 4\<rparr>, \<lparr>LogDID = ''b'', PosSequence = 9\<rparr>]"
    by (simp add: demo_delta_fields demo_tips_def window_def)
  ultimately show ?thesis using tab by (auto simp: demo_delta_fields demo_tips_def)
qed

end
