(* ===== verification/Publisher.thy ===== *)
theory Publisher
  imports SmtState
begin

section \<open>Derivation commitments\<close>

text \<open>
  Models \<open>builder/commitment_publisher.go\<close> and \<open>CommitmentStore.Insert\<close> and
  \<open>QueryBySequence\<close> of \<open>store/derivation_commitments.go\<close>.  The record holds the
  publisher's memory and the three places it writes to: the content store (the mutation blobs, by
  content identifier), the entries handed to \<open>submitFn\<close> and the table
  \<open>derivation_commitments\<close>.  The SDK's \<open>GenerateBatchCommitment\<close>, its blob codec, the
  content identifier and the entry constructor are parameters; times are nanoseconds.
\<close>

record LeafMutation =
  mu_LeafKey :: hash
  mu_NewOriginTip :: LogPosition
  mu_NewAuthorityTip :: LogPosition

record Commitment =
  cm_PostSMTRoot :: hash
  cm_Mutations :: "LeafMutation list"
  cm_MutationCount :: u32

record CommitmentRow =
  RangeStartSeq :: u64
  RangeEndSeq :: u64
  PriorSMTRoot :: hash
  PostSMTRoot :: hash
  MutationsCID :: string
  MutationCount :: u32
  CreatedAt :: int

record publisher =
  cp_IntervalEntries :: int
  cp_IntervalTime :: int
  cp_lastPublish :: int
  cp_entriesSince :: int
  cp_blobs :: "(string \<times> bytes) list"
  cp_submitted :: "string list"
  cp_rows :: "CommitmentRow list"

definition NewCommitmentPublisher :: "int \<Rightarrow> int \<Rightarrow> int \<Rightarrow> publisher" where
  "NewCommitmentPublisher entries time now =
     \<lparr>cp_IntervalEntries = (if entries \<le> 0 then 1000 else entries),
      cp_IntervalTime = (if time \<le> 0 then 3600 * 10 ^ 9 else time),
      cp_lastPublish = now, cp_entriesSince = 0, cp_blobs = [], cp_submitted = [], cp_rows = []\<rparr>"

record pub_env =
  pu_now :: int
  pu_Generate :: "LogPosition \<Rightarrow> LogPosition \<Rightarrow> hash \<Rightarrow> LeafMutation list \<Rightarrow> hash \<Rightarrow> Commitment"
  pu_Marshal :: "LeafMutation list \<Rightarrow> string + bytes"
  pu_Compute :: "bytes \<Rightarrow> string"
  pu_contentStore :: bool
  pu_Push :: "string option"
  pu_Pin :: "string option"
  pu_jsonRef :: "string option"
  pu_NewEntry :: "string option"
  pu_submitFn :: bool
  pu_submit :: "string option"
  pu_commitStore :: bool
  pu_Insert :: "pg_error option"

text \<open>A failed submission is logged and the row is written all the same.\<close>

definition publish ::
  "pub_env \<Rightarrow> LogPosition \<Rightarrow> LogPosition \<Rightarrow> hash \<Rightarrow> LeafMutation list \<Rightarrow> hash \<Rightarrow> publisher \<Rightarrow> publisher" where
  "publish U rangeStart rangeEnd priorRoot muts newRoot p =
     (let commitment = pu_Generate U rangeStart rangeEnd priorRoot muts newRoot in
      if \<not> pu_contentStore U then p
      else
        (case pu_Marshal U (cm_Mutations commitment) of
           Inl _ \<Rightarrow> p
         | Inr blob \<Rightarrow>
             let cid = pu_Compute U blob in
             if pu_Push U \<noteq> None then p
             else
               let p1 = p\<lparr>cp_blobs := cp_blobs p @ [(cid, blob)]\<rparr> in
               if pu_jsonRef U \<noteq> None then p1
               else if pu_NewEntry U \<noteq> None then p1
               else
                 let p2 = (if pu_submitFn U \<and> pu_submit U = None then p1\<lparr>cp_submitted := cp_submitted p1 @ [cid]\<rparr> else p1) in
                 if pu_commitStore U \<and> pu_Insert U = None then
                   p2\<lparr>cp_rows := cp_rows p2 @
                     [\<lparr>RangeStartSeq = PosSequence rangeStart, RangeEndSeq = PosSequence rangeEnd, PriorSMTRoot = priorRoot,
                       PostSMTRoot = cm_PostSMTRoot commitment, MutationsCID = cid,
                       MutationCount = cm_MutationCount commitment, CreatedAt = pu_now U\<rparr>]\<rparr>
                 else p2))"

definition MaybePublish ::
  "pub_env \<Rightarrow> int \<Rightarrow> LogPosition \<Rightarrow> LogPosition \<Rightarrow> hash \<Rightarrow> LeafMutation list \<Rightarrow> hash \<Rightarrow> publisher \<Rightarrow> publisher" where
  "MaybePublish U batchSize rangeStart rangeEnd priorRoot muts newRoot p =
     (let since = cp_entriesSince p + batchSize;
          should = since \<ge> cp_IntervalEntries p \<or> pu_now U - cp_lastPublish p \<ge> cp_IntervalTime p;
          p1 = (if should then p\<lparr>cp_entriesSince := 0, cp_lastPublish := pu_now U\<rparr> else p\<lparr>cp_entriesSince := since\<rparr>) in
      if \<not> should \<or> muts = [] then p1
      else publish U rangeStart rangeEnd priorRoot muts newRoot p1)"

definition ForcePublish ::
  "pub_env \<Rightarrow> LogPosition \<Rightarrow> LogPosition \<Rightarrow> hash \<Rightarrow> LeafMutation list \<Rightarrow> hash \<Rightarrow> publisher \<Rightarrow> publisher" where
  "ForcePublish U rangeStart rangeEnd priorRoot muts newRoot p =
     (if muts = [] then p
      else publish U rangeStart rangeEnd priorRoot muts newRoot (p\<lparr>cp_entriesSince := 0, cp_lastPublish := pu_now U\<rparr>))"

text \<open>\<open>WHERE range_start_seq <= $1 AND range_end_seq >= $1 ORDER BY created_at DESC LIMIT 1\<close>\<close>

definition QueryBySequence :: "pg_error option \<Rightarrow> CommitmentRow list \<Rightarrow> u64 \<Rightarrow> pg_error + CommitmentRow option" where
  "QueryBySequence flt rows s =
     pg_run flt
       (if sint s < 0 then Inl (PgFault ''unable to encode'')
        else
          (case sort_key (\<lambda>r. - CreatedAt r)
                  (filter (\<lambda>r. sint (RangeStartSeq r) \<le> sint s \<and> sint s \<le> sint (RangeEndSeq r)) rows) of
             [] \<Rightarrow> Inr None
           | r # _ \<Rightarrow> Inr (Some r)))"

subsection \<open>References never dangle\<close>

text \<open>
  Every identifier on the log or in the table names a blob the content store acknowledged.
\<close>

definition refs_stored :: "publisher \<Rightarrow> bool" where
  "refs_stored p \<longleftrightarrow> set (cp_submitted p) \<union> MutationsCID ` set (cp_rows p) \<subseteq> fst ` set (cp_blobs p)"

lemma publish_refs: "refs_stored p \<Longrightarrow> refs_stored (publish U a b r muts n p)"
  by (auto simp: refs_stored_def publish_def Let_def split: sum.splits)

lemma refs_stored_clock [simp]:
  "refs_stored (p\<lparr>cp_entriesSince := x, cp_lastPublish := y\<rparr>) = refs_stored p"
  "refs_stored (p\<lparr>cp_entriesSince := x\<rparr>) = refs_stored p"
  by (simp_all add: refs_stored_def)

lemma MaybePublish_refs: "refs_stored p \<Longrightarrow> refs_stored (MaybePublish U k a b r muts n p)"
  by (simp add: MaybePublish_def Let_def publish_refs)

lemma ForcePublish_refs: "refs_stored p \<Longrightarrow> refs_stored (ForcePublish U a b r muts n p)"
  by (simp add: ForcePublish_def publish_refs)

text \<open>
  A batch without mutations that falls due resets the interval and publishes nothing.
\<close>

lemma MaybePublish_empty_resets:
  assumes "cp_IntervalEntries p \<le> cp_entriesSince p + k"
  shows "MaybePublish U k a b r [] n p = p\<lparr>cp_entriesSince := 0, cp_lastPublish := pu_now U\<rparr>"
  using assms by (simp add: MaybePublish_def Let_def)

end
