(* ===== verification/TailStore.thy ===== *)
theory TailStore
  imports Prelude "HOL-Library.AList"
begin

section \<open>The node tail\<close>

text \<open>
  Models \<open>store/tailed_node_store.go\<close>: the nodes committed since the last durable tile, in front
  of a read-through to the tiles.  The tail is the association list of its map.  The SDK's nodes are a
  type parameter: \<open>H\<close> is \<open>smt.HashNode\<close>, \<open>kids\<close> the type assertion to
  \<open>*smt.BranchNode\<close> with its two hashes, \<open>eh\<close> is \<open>smt.EmptyHash\<close>; \<open>tiles\<close>
  is what the durable read-through resolves by hash: tile tops only when the node index is off, interiors
  too when it is on.  The diagnostic eviction shadow is part of the record; the
  miss probe only logs.

  The recursive \<open>visit\<close> closure is rendered with its pending calls as a list.  The lemmas show
  that it computes the nodes reachable over tail nodes, and that the two prunes keep every node a tree
  still needs resolvable.
\<close>

record 'n TailedNodeStore =
  tn_tail :: "(hash \<times> 'n) list"
  tn_committedRoot :: hash
  tn_traceEvict :: bool
  tn_evicted :: "(hash \<times> 'n) list"

definition NewTailedNodeStore :: "bool \<Rightarrow> 'n TailedNodeStore" where
  "NewTailedNodeStore trace = \<lparr>tn_tail = [], tn_committedRoot = 0, tn_traceEvict = trace, tn_evicted = []\<rparr>"

definition tailGet :: "hash \<Rightarrow> (hash \<rightharpoonup> 'n) \<Rightarrow> 'n TailedNodeStore \<Rightarrow> hash \<rightharpoonup> 'n" where
  "tailGet eh tiles s h =
     (if h = eh then None
      else (case map_of (tn_tail s) h of
              Some n \<Rightarrow> Some n
            | None \<Rightarrow>
                (case (if tn_traceEvict s then map_of (tn_evicted s) h else None) of
                   Some n \<Rightarrow> Some n
                 | None \<Rightarrow> tiles h)))"

definition tailPut :: "('n \<Rightarrow> hash) \<Rightarrow> 'n \<Rightarrow> 'n TailedNodeStore \<Rightarrow> hash \<times> 'n TailedNodeStore" where
  "tailPut H n s = (H n, s\<lparr>tn_tail := AList.update (H n) n (tn_tail s)\<rparr>)"

definition PutBatch :: "('n \<Rightarrow> hash) \<Rightarrow> 'n list \<Rightarrow> 'n TailedNodeStore \<Rightarrow> 'n TailedNodeStore" where
  "PutBatch H ns s = s\<lparr>tn_tail := fold (\<lambda>n. AList.update (H n) n) ns (tn_tail s)\<rparr>"

definition PutBatchCommitted :: "('n \<Rightarrow> hash) \<Rightarrow> 'n list \<Rightarrow> hash \<Rightarrow> 'n TailedNodeStore \<Rightarrow> 'n TailedNodeStore" where
  "PutBatchCommitted H ns root s = (PutBatch H ns s)\<lparr>tn_committedRoot := root\<rparr>"

text \<open>\<open>visit\<close>: the first list holds the calls still to be made, the second what was seen.\<close>

function visits :: "('n \<Rightarrow> (hash \<times> hash) option) \<Rightarrow> hash \<Rightarrow> (hash \<times> 'n) list \<Rightarrow> hash list \<Rightarrow> hash list \<Rightarrow> hash list" where
  "visits kids eh tail [] seen = seen"
| "visits kids eh tail (h # todo) seen =
     (if h = eh \<or> h \<in> set seen then visits kids eh tail todo seen
      else (case map_of tail h of
              None \<Rightarrow> visits kids eh tail todo seen
            | Some n \<Rightarrow>
                (case kids n of
                   None \<Rightarrow> visits kids eh tail todo (h # seen)
                 | Some (l, r) \<Rightarrow> visits kids eh tail (l # r # todo) (h # seen))))"
  by pat_completeness auto
termination
proof (relation "measures [\<lambda>(kids, eh, tail, todo, seen). card (fst ` set tail - set seen), \<lambda>(kids, eh, tail, todo, seen). length todo]")
  fix kids :: "'n \<Rightarrow> (hash \<times> hash) option" and eh tail h todo seen n l r
  assume "\<not> (h = eh \<or> h \<in> set seen)" "map_of tail h = Some n"
  then have "h \<in> fst ` set tail - set seen" by (force dest: map_of_SomeD)
  then have "card (fst ` set tail - set (h # seen)) < card (fst ` set tail - set seen)"
    by (intro psubset_card_mono) auto
  then show "((kids, eh, tail, todo, h # seen), kids, eh, tail, h # todo, seen)
      \<in> measures [\<lambda>(kids, eh, tail, todo, seen). card (fst ` set tail - set seen), \<lambda>(kids, eh, tail, todo, seen). length todo]"
    "((kids, eh, tail, l # r # todo, h # seen), kids, eh, tail, h # todo, seen)
      \<in> measures [\<lambda>(kids, eh, tail, todo, seen). card (fst ` set tail - set seen), \<lambda>(kids, eh, tail, todo, seen). length todo]"
    by simp_all
qed auto

definition reachableInTail :: "('n \<Rightarrow> (hash \<times> hash) option) \<Rightarrow> hash \<Rightarrow> (hash \<times> 'n) list \<Rightarrow> hash \<Rightarrow> hash list" where
  "reachableInTail kids eh tail root = visits kids eh tail [root] []"

definition evict :: "(hash \<Rightarrow> bool) \<Rightarrow> 'n TailedNodeStore \<Rightarrow> 'n TailedNodeStore" where
  "evict gone s =
     s\<lparr>tn_tail := filter (\<lambda>(h, n). \<not> gone h) (tn_tail s),
       tn_evicted := (if tn_traceEvict s then filter (\<lambda>(h, n). gone h) (tn_tail s) @ tn_evicted s else tn_evicted s)\<rparr>"

definition PruneOrphans :: "('n \<Rightarrow> (hash \<times> hash) option) \<Rightarrow> hash \<Rightarrow> 'n TailedNodeStore \<Rightarrow> nat \<times> 'n TailedNodeStore" where
  "PruneOrphans kids eh s =
     (if tn_committedRoot s = 0 \<or> tn_committedRoot s = eh then (0, s)
      else
        let reachable = reachableInTail kids eh (tn_tail s) (tn_committedRoot s);
            s' = evict (\<lambda>h. h \<notin> set reachable) s in
        (length (tn_tail s) - length (tn_tail s'), s'))"

definition PruneTiled :: "(hash \<Rightarrow> string + bool) \<Rightarrow> 'n TailedNodeStore \<Rightarrow> 'n TailedNodeStore" where
  "PruneTiled exists s = evict (\<lambda>h. exists h = Inr True) s"

text \<open>
  The audit's durability check reads the tiles by hash; an error counts as not durable.  The sample is
  some violating hash.
\<close>

definition TailGCAudit ::
  "('n \<Rightarrow> (hash \<times> hash) option) \<Rightarrow> hash \<Rightarrow> (hash \<Rightarrow> string + 'n option) \<Rightarrow> hash \<Rightarrow> hash list \<Rightarrow> 'n TailedNodeStore \<Rightarrow> nat \<times> nat \<times> hash" where
  "TailGCAudit kids eh tilesGet committedRoot publishedRoots s =
     (let committedReach = reachableInTail kids eh (tn_tail s) committedRoot;
          cand = remdups (filter (\<lambda>h. h \<notin> set committedReach) (concat (map (reachableInTail kids eh (tn_tail s)) publishedRoots)));
          bad = filter (\<lambda>h. case tilesGet h of Inr (Some _) \<Rightarrow> False | _ \<Rightarrow> True) cand in
      (length cand, length bad, if bad = [] then 0 else last bad))"

definition TailLen :: "'n TailedNodeStore \<Rightarrow> nat" where "TailLen s = length (tn_tail s)"

subsection \<open>Reachability over the tail\<close>

inductive tail_path :: "('n \<Rightarrow> (hash \<times> hash) option) \<Rightarrow> hash \<Rightarrow> (hash \<rightharpoonup> 'n) \<Rightarrow> hash \<Rightarrow> hash \<Rightarrow> bool"
  for kids eh V where
  tail_here: "h \<noteq> eh \<Longrightarrow> V h = Some n \<Longrightarrow> tail_path kids eh V h h"
| tail_child: "tail_path kids eh V root h \<Longrightarrow> V h = Some n \<Longrightarrow> kids n = Some (l, r) \<Longrightarrow> c \<in> {l, r} \<Longrightarrow> c \<noteq> eh \<Longrightarrow> V c = Some m
    \<Longrightarrow> tail_path kids eh V root c"

lemma tail_path_node: "tail_path kids eh V root h \<Longrightarrow> h \<noteq> eh \<and> (\<exists>n. V h = Some n)"
  by (induction rule: tail_path.induct) auto

lemma tail_path_root: "tail_path kids eh V root h \<Longrightarrow> root \<noteq> eh \<and> (\<exists>n. V root = Some n)"
  by (induction rule: tail_path.induct) auto

lemma tail_path_trans: "tail_path kids eh V h k \<Longrightarrow> tail_path kids eh V root h \<Longrightarrow> tail_path kids eh V root k"
  by (induction rule: tail_path.induct) (auto intro: tail_path.intros)

lemma visits_sound:
  "h \<in> set (visits kids eh tail todo seen) \<Longrightarrow> h \<in> set seen \<or> (\<exists>r\<in>set todo. tail_path kids eh (map_of tail) r h)"
proof (induction kids eh tail todo seen rule: visits.induct)
  case (2 kids eh tail k todo seen)
  show ?case
  proof (cases "k = eh \<or> k \<in> set seen \<or> map_of tail k = None")
    case True
    then show ?thesis using 2 by (auto split: if_splits)
  next
    case False
    then obtain n where n: "map_of tail k = Some n" "k \<noteq> eh" "k \<notin> set seen" by auto
    then have here: "tail_path kids eh (map_of tail) k k" by (auto intro: tail_here)
    show ?thesis
    proof (cases "kids n")
      case None
      then show ?thesis using 2(3) [OF _ n(1) None] 2(5) n here by auto
    next
      case (Some lr)
      obtain l r where lr: "lr = (l, r)" by force
      have child: "tail_path kids eh (map_of tail) k h" if p: "tail_path kids eh (map_of tail) c h" "c \<in> {l, r}" for c
      proof -
        obtain m where "c \<noteq> eh" "map_of tail c = Some m" using tail_path_root [OF p(1)] by blast
        then have "tail_path kids eh (map_of tail) k c" using tail_child [OF here n(1)] Some lr p(2) by blast
        then show ?thesis by (rule tail_path_trans [OF p(1)])
      qed
      have "h \<in> set (k # seen) \<or> (\<exists>x\<in>set (l # r # todo). tail_path kids eh (map_of tail) x h)"
        using 2(4) [OF _ n(1) Some lr [symmetric]] 2(5) n Some lr by auto
      then show ?thesis using here child by auto
    qed
  qed
qed simp

definition child_of :: "('n \<Rightarrow> (hash \<times> hash) option) \<Rightarrow> hash \<Rightarrow> (hash \<rightharpoonup> 'n) \<Rightarrow> hash \<Rightarrow> hash \<Rightarrow> bool" where
  "child_of kids eh V h c \<longleftrightarrow> (\<exists>n l r m. V h = Some n \<and> kids n = Some (l, r) \<and> c \<in> {l, r} \<and> c \<noteq> eh \<and> V c = Some m)"

lemma child_ofD: "child_of kids eh V h c \<Longrightarrow> c \<noteq> eh \<and> V c \<noteq> None"
  by (auto simp: child_of_def)

lemma tail_path_step: "tail_path kids eh V root h \<Longrightarrow> child_of kids eh V h c \<Longrightarrow> tail_path kids eh V root c"
  unfolding child_of_def by (blast intro: tail_child)

lemma visits_complete:
  assumes "\<forall>h\<in>set seen. \<forall>c. child_of kids eh (map_of tail) h c \<longrightarrow> c \<in> set seen \<union> set todo"
  shows "set seen \<subseteq> set (visits kids eh tail todo seen)
    \<and> (\<forall>h\<in>set todo. h \<noteq> eh \<longrightarrow> map_of tail h \<noteq> None \<longrightarrow> h \<in> set (visits kids eh tail todo seen))
    \<and> (\<forall>h\<in>set (visits kids eh tail todo seen). \<forall>c. child_of kids eh (map_of tail) h c \<longrightarrow> c \<in> set (visits kids eh tail todo seen))"
  using assms
proof (induction kids eh tail todo seen rule: visits.induct)
  case (2 kids eh tail k todo seen)
  show ?case
  proof (cases "k = eh \<or> k \<in> set seen \<or> map_of tail k = None")
    case True
    then have "\<forall>h\<in>set seen. \<forall>c. child_of kids eh (map_of tail) h c \<longrightarrow> c \<in> set seen \<union> set todo"
      using 2(5) child_ofD [of kids eh "map_of tail"] by fastforce
    with True 2(1,2) show ?thesis by (auto split: if_splits)
  next
    case False
    then obtain n where n: "map_of tail k = Some n" "\<not> (k = eh \<or> k \<in> set seen)" by auto
    show ?thesis
    proof (cases "kids n")
      case None
      have "\<forall>h\<in>set (k # seen). \<forall>c. child_of kids eh (map_of tail) h c \<longrightarrow> c \<in> set (k # seen) \<union> set todo"
        using 2(5) n None by (auto simp: child_of_def)
      from 2(3) [OF n(2,1) None this] show ?thesis using n None by auto
    next
      case (Some lr)
      obtain l r where lr: "lr = (l, r)" by force
      have "\<forall>h\<in>set (k # seen). \<forall>c. child_of kids eh (map_of tail) h c \<longrightarrow> c \<in> set (k # seen) \<union> set (l # r # todo)"
        using 2(5) n Some lr by (auto simp: child_of_def)
      from 2(4) [OF n(2,1) Some lr [symmetric] this] show ?thesis using n Some lr by auto
    qed
  qed
qed simp

lemma reachableInTail_iff: "h \<in> set (reachableInTail kids eh tail root) \<longleftrightarrow> tail_path kids eh (map_of tail) root h"
proof
  show "h \<in> set (reachableInTail kids eh tail root) \<Longrightarrow> tail_path kids eh (map_of tail) root h"
    using visits_sound [of h kids eh tail "[root]" "[]"] by (simp add: reachableInTail_def)
  note full = visits_complete [of "[]" kids eh tail "[root]", folded reachableInTail_def]
  show "tail_path kids eh (map_of tail) root h \<Longrightarrow> h \<in> set (reachableInTail kids eh tail root)"
  proof (induction rule: tail_path.induct)
    case (tail_here root n)
    then show ?case using visits_complete [of "[]" kids eh tail "[root]"] by (simp add: reachableInTail_def)
  next
    case (tail_child root h n l r c m)
    then have "child_of kids eh (map_of tail) h c" by (auto simp: child_of_def)
    then show ?case using visits_complete [of "[]" kids eh tail "[root]"] tail_child.IH by (simp add: reachableInTail_def)
  qed
qed

subsection \<open>What the prunes keep\<close>

text \<open>
  Content addressing: tail, shadow and tiles agree on a hash they both hold.  Tiles hold whole
  subtrees: a durable branch has durable children.
\<close>

definition content_ok :: "(hash \<rightharpoonup> 'n) \<Rightarrow> 'n TailedNodeStore \<Rightarrow> bool" where
  "content_ok tiles s \<longleftrightarrow>
     (\<forall>h n m. map_of (tn_tail s) h = Some n \<longrightarrow> tiles h = Some m \<longrightarrow> n = m)
     \<and> (\<forall>h n m. map_of (tn_tail s) h = Some n \<longrightarrow> map_of (tn_evicted s) h = Some m \<longrightarrow> n = m)
     \<and> (\<forall>h n m. map_of (tn_evicted s) h = Some n \<longrightarrow> tiles h = Some m \<longrightarrow> n = m)"

definition tiles_closed :: "('n \<Rightarrow> (hash \<times> hash) option) \<Rightarrow> hash \<Rightarrow> (hash \<rightharpoonup> 'n) \<Rightarrow> bool" where
  "tiles_closed kids eh tiles \<longleftrightarrow>
     (\<forall>h n l r. tiles h = Some n \<longrightarrow> kids n = Some (l, r) \<longrightarrow> (\<forall>c\<in>{l, r}. c = eh \<or> tiles c \<noteq> None))"

lemma map_of_filter_key: "map_of (filter (\<lambda>(h, n). P h) xs) k = (if P k then map_of xs k else None)"
  by (induction xs) auto

lemma evict_get:
  assumes "content_ok tiles s" "gone h \<Longrightarrow> map_of (tn_tail s) h \<noteq> None \<Longrightarrow> tiles h \<noteq> None"
  shows "tailGet eh tiles (evict gone s) h = tailGet eh tiles s h"
  using assms by (auto simp: tailGet_def evict_def content_ok_def map_of_filter_key map_add_def split: option.splits)

lemma evict_frame [simp]:
  "tn_committedRoot (evict gone s) = tn_committedRoot s" "tn_traceEvict (evict gone s) = tn_traceEvict s"
  by (simp_all add: evict_def)

lemma evict_content:
  assumes "content_ok tiles s" "\<not> tn_traceEvict s"
  shows "content_ok tiles (evict gone s)"
proof -
  have t: "tn_tail (evict gone s) = filter (\<lambda>(h, n). \<not> gone h) (tn_tail s)" "tn_evicted (evict gone s) = tn_evicted s"
    using assms(2) by (simp_all add: evict_def)
  show ?thesis using assms(1) unfolding content_ok_def t map_of_filter_key by (auto split: if_splits)
qed

lemma path_covered:
  assumes "content_ok tiles s" "tiles_closed kids eh tiles" "\<not> tn_traceEvict s"
    "tail_path kids eh (tailGet eh tiles s) root h"
  shows "tail_path kids eh (map_of (tn_tail s)) root h \<or> tiles h \<noteq> None"
  using assms(4)
proof (induction rule: tail_path.induct)
  case (tail_here root n)
  then show ?case using assms(3) by (auto simp: tailGet_def split: option.splits intro: tail_path.tail_here)
next
  case (tail_child root h n l r c m)
  have vh: "map_of (tn_tail s) h = Some n \<or> tiles h = Some n"
    using tail_child.hyps(2) assms(3) by (auto simp: tailGet_def split: option.splits if_splits)
  have vc: "map_of (tn_tail s) c = Some m \<or> tiles c = Some m"
    using tail_child.hyps(6) assms(3) by (auto simp: tailGet_def split: option.splits if_splits)
  show ?case
  proof (cases "tiles h = None")
    case True
    then have h: "map_of (tn_tail s) h = Some n" "tail_path kids eh (map_of (tn_tail s)) root h" using vh tail_child.IH by auto
    have "child_of kids eh (map_of (tn_tail s)) h c" if "map_of (tn_tail s) c = Some m"
      using h(1) that tail_child.hyps(3,4,5) by (auto simp: child_of_def)
    then show ?thesis using vc tail_path_step [OF h(2)] by auto
  next
    case False
    then have "tiles h = Some n" using vh assms(1) by (fastforce simp: content_ok_def)
    then have "c = eh \<or> tiles c \<noteq> None" using assms(2) tail_child.hyps(3,4) by (auto simp: tiles_closed_def)
    then show ?thesis using tail_child.hyps(5) by simp
  qed
qed

lemma PruneOrphans_get:
  assumes "content_ok tiles s" "tiles_closed kids eh tiles" "\<not> tn_traceEvict s"
    "tail_path kids eh (tailGet eh tiles s) (tn_committedRoot s) h"
  shows "tailGet eh tiles (snd (PruneOrphans kids eh s)) h = tailGet eh tiles s h"
proof -
  have "h \<in> set (reachableInTail kids eh (tn_tail s) (tn_committedRoot s)) \<or> tiles h \<noteq> None"
    using path_covered [OF assms] by (simp add: reachableInTail_iff)
  then have "tailGet eh tiles (evict (\<lambda>h. h \<notin> set (reachableInTail kids eh (tn_tail s) (tn_committedRoot s))) s) h = tailGet eh tiles s h"
    by (intro evict_get [OF assms(1)]) auto
  then show ?thesis by (simp add: PruneOrphans_def Let_def)
qed

lemma PruneTiled_get:
  assumes "content_ok tiles s" "\<forall>h. exists h = Inr True \<longrightarrow> tiles h \<noteq> None"
  shows "tailGet eh tiles (PruneTiled exists s) h = tailGet eh tiles s h"
  using assms(2) by (auto simp: PruneTiled_def intro!: evict_get [OF assms(1)])

lemma remdups_filter_Nil: "length (filter P (remdups xs)) = 0 \<Longrightarrow> x \<in> set xs \<Longrightarrow> \<not> P x"
  by (metis filter_empty_conv length_0_conv set_remdups)

subsection \<open>Properties\<close>

text \<open>
  C18.  The two evictions of a checkpoint cycle, first of what the oracle
  confirms as durable and then of what the committed root no longer reaches, leave every node of the
  committed tree readable with the same content.  The hypotheses: the durable store resolves nodes by
  hash, interiors included, which is so with the node index on (\<open>LEDGER_NODE_INDEX\<close>, the default;
  without it a tile interior cannot be fetched by its hash); what it resolves is closed under
  children; the oracle confirms only nodes it resolves; tail and tiles agree on every
  hash they share; and the eviction trace is off.
\<close>

theorem tail_prune_keeps_tree:
  assumes "content_ok tiles s" and "tiles_closed kids eh tiles" and "\<not> tn_traceEvict s"
    and "\<forall>h. exists h = Inr True \<longrightarrow> tiles h \<noteq> None"
    and "tail_path kids eh (tailGet eh tiles s) (tn_committedRoot s) h"
  shows "tailGet eh tiles (snd (PruneOrphans kids eh (PruneTiled exists s))) h = tailGet eh tiles s h"
proof -
  have same: "tailGet eh tiles (PruneTiled exists s) = tailGet eh tiles s"
    using PruneTiled_get [OF assms(1,4)] by (rule ext)
  have "content_ok tiles (PruneTiled exists s)" "\<not> tn_traceEvict (PruneTiled exists s)"
    "tn_committedRoot (PruneTiled exists s) = tn_committedRoot s"
    using evict_content [OF assms(1,3)] assms(3) by (simp_all add: PruneTiled_def)
  then show ?thesis using PruneOrphans_get [OF _ assms(2), of "PruneTiled exists s" h] assms(5) same by simp
qed

definition demo_tail :: "(hash \<times> hash) option TailedNodeStore" where
  "demo_tail = \<lparr>tn_tail = [(1, Some (2, 3)), (2, None), (3, None), (9, None)], tn_committedRoot = 1, tn_traceEvict = False, tn_evicted = []\<rparr>"

definition demo_tiles :: "hash \<rightharpoonup> (hash \<times> hash) option" where
  "demo_tiles = [3 \<mapsto> None]"

lemma demo_tail_ok: "content_ok demo_tiles demo_tail" "tiles_closed id 0 demo_tiles" "\<not> tn_traceEvict demo_tail"
  by (auto simp: content_ok_def tiles_closed_def demo_tail_def demo_tiles_def split: if_splits)

lemma demo_tail_path: "tail_path id 0 (tailGet 0 demo_tiles demo_tail) (tn_committedRoot demo_tail) 3"
proof -
  have "tail_path id 0 (tailGet 0 demo_tiles demo_tail) 1 1"
    by (rule tail_here [of _ _ _ "Some (2, 3)"]) (simp_all add: tailGet_def demo_tail_def)
  then have "tail_path id 0 (tailGet 0 demo_tiles demo_tail) 1 3"
    by (rule tail_child [of _ _ _ _ _ "Some (2, 3)" 2 3 _ None]) (simp_all add: tailGet_def demo_tail_def)
  then show ?thesis by (simp add: demo_tail_def)
qed

theorem tail_prune_keeps_tree_witness:
  "tn_tail (snd (PruneOrphans id 0 (PruneTiled (\<lambda>h. Inr (h = 3)) demo_tail))) = [(1, Some (2, 3)), (2, None)]
   \<and> tailGet 0 demo_tiles (snd (PruneOrphans id 0 (PruneTiled (\<lambda>h. Inr (h = 3)) demo_tail))) 3 = Some None"
proof -
  have "\<forall>h. (Inr (h = 3) :: string + bool) = Inr True \<longrightarrow> demo_tiles h \<noteq> None" by (simp add: demo_tiles_def)
  from tail_prune_keeps_tree [OF demo_tail_ok this demo_tail_path]
  have "tailGet 0 demo_tiles (snd (PruneOrphans id 0 (PruneTiled (\<lambda>h. Inr (h = 3)) demo_tail))) 3 = Some None"
    by (simp add: tailGet_def demo_tail_def)
  moreover have "tn_tail (snd (PruneOrphans id 0 (PruneTiled (\<lambda>h. Inr (h = 3)) demo_tail))) = [(1, Some (2, 3)), (2, None)]"
    by (simp add: PruneOrphans_def PruneTiled_def evict_def demo_tail_def reachableInTail_def Let_def)
  ultimately show ?thesis by blast
qed

text \<open>
  When the audit of a committed root reports no violation, evicting
  the orphans strands no published root: every tail node a published root reached over the tail is
  still readable afterwards.
\<close>

theorem tail_audit_licenses_prune:
  assumes "TailGCAudit kids eh tilesGet (tn_committedRoot s) published s = (cand, 0, sample)"
    and "\<forall>h n. tilesGet h = Inr (Some n) \<longrightarrow> tiles h \<noteq> None" and "\<not> tn_traceEvict s"
    and "p \<in> set published" and "tail_path kids eh (map_of (tn_tail s)) p h"
  shows "tailGet eh tiles (snd (PruneOrphans kids eh s)) h \<noteq> None"
proof -
  let ?R = "reachableInTail kids eh (tn_tail s) (tn_committedRoot s)"
  have inT: "h \<noteq> eh" "map_of (tn_tail s) h \<noteq> None" using tail_path_node [OF assms(5)] by auto
  have "tiles h \<noteq> None" if "h \<notin> set ?R"
  proof -
    have "h \<in> set (filter (\<lambda>h. h \<notin> set ?R) (concat (map (reachableInTail kids eh (tn_tail s)) published)))"
      using assms(4,5) that by (auto simp: reachableInTail_iff)
    then have "\<not> (case tilesGet h of Inr (Some _) \<Rightarrow> False | _ \<Rightarrow> True)"
      using assms(1) unfolding TailGCAudit_def Let_def by (intro remdups_filter_Nil) auto
    then show ?thesis using assms(2) by (auto split: sum.splits option.splits)
  qed
  then show ?thesis using inT assms(3)
    by (auto simp: PruneOrphans_def Let_def tailGet_def evict_def map_of_filter_key split: option.splits)
qed

theorem tail_audit_licenses_prune_witness:
  "tailGet 0 demo_tiles (snd (PruneOrphans id 0 demo_tail)) 2 \<noteq> None"
proof -
  let ?get = "\<lambda>h. Inr (demo_tiles h) :: string + (hash \<times> hash) option option"
  have audit: "TailGCAudit id 0 ?get (tn_committedRoot demo_tail) [2] demo_tail = (0, 0, 0)"
    by (simp add: TailGCAudit_def Let_def demo_tail_def reachableInTail_def)
  have "tail_path id 0 (map_of (tn_tail demo_tail)) 2 2"
    by (rule tail_here [of _ _ _ None]) (simp_all add: demo_tail_def)
  with tail_audit_licenses_prune [OF audit, of demo_tiles 2 2] show ?thesis by (simp add: demo_tail_def)
qed

end
