(* ===== verification/Builder.thy ===== *)
theory Builder
  imports Cursor Publisher RecentCache TailStore
begin

section \<open>The builder loop: from the entry index to the sparse Merkle tree\<close>

text \<open>
  Models \<open>builder/loop.go\<close>: \<open>clampBatchSize\<close>, \<open>tileLagExceeded\<close>,
  \<open>coalesceLeafMutations\<close>, one builder cycle (\<open>processBatch\<close>) and the turn of
  \<open>Run\<close> around it.  \<open>builder_db\<close> holds the four tables of the atomic commit,
  \<open>builder\<close> the loop's memory, \<open>cycle_env\<close> what every round trip of one cycle answers.
  The SDK (\<open>ProcessBatch\<close>, \<open>envelope.Deserialize\<close>, \<open>EntryIdentity\<close>,
  \<open>smt.HashNode\<close>), the entry fetcher and the Merkle appender are interfaces of the source and
  parameters here; the fetcher's answers may differ from call to call, its first argument is the time.  \<open>ProcessBatch\<close> reads the prior root, the leaf rows, the node store and the
  delta buffer; it runs on overlays, so its only effect is its result, to which the overlay's node
  mutations belong (all of them, and those reachable from the new root).

  The body of the commit transaction acts on a copy of the tables; the transaction decides whether
  the copy lasts.  The reader's memory changes even when the transaction rolls back.  A commit whose
  acknowledgement is lost leaves the tables changed and reports an error.
\<close>

subsection \<open>Configuration\<close>

definition defaultBatchSize :: int where "defaultBatchSize = 1000"
definition MaxBatchSize :: int where "MaxBatchSize = 1024"

definition clampBatchSize :: "int \<Rightarrow> int" where
  "clampBatchSize n = (if n \<le> 0 then defaultBatchSize else if n > MaxBatchSize then MaxBatchSize else n)"

definition tileLagExceeded :: "u64 \<Rightarrow> u64 \<Rightarrow> u64 \<Rightarrow> bool" where
  "tileLagExceeded committedSeq frontierSeq maxLag \<longleftrightarrow>
     maxLag > 0 \<and> committedSeq > frontierSeq \<and> committedSeq - frontierSeq > maxLag"

subsection \<open>Coalescing a batch's leaf mutations\<close>

definition leafOf :: "LeafMutation \<Rightarrow> SMTLeaf" where
  "leafOf m = \<lparr>lf_Key = mu_LeafKey m, lf_OriginTip = mu_NewOriginTip m, lf_AuthorityTip = mu_NewAuthorityTip m\<rparr>"

fun coalesceInto :: "LeafMutation list \<Rightarrow> SMTLeaf list \<Rightarrow> (hash \<rightharpoonup> nat) \<Rightarrow> SMTLeaf list" where
  "coalesceInto [] leaves idx = leaves"
| "coalesceInto (m # ms) leaves idx =
     (case idx (mu_LeafKey m) of
        Some i \<Rightarrow> coalesceInto ms (leaves[i := leafOf m]) idx
      | None \<Rightarrow> coalesceInto ms (leaves @ [leafOf m]) (idx(mu_LeafKey m \<mapsto> length leaves)))"

definition coalesceLeafMutations :: "LeafMutation list \<Rightarrow> SMTLeaf list" where
  "coalesceLeafMutations muts = coalesceInto muts [] Map.empty"

subsection \<open>State and environment\<close>

record ('b, 'n) BatchResult =
  br_Mutations :: "LeafMutation list"
  br_NewRoot :: hash
  br_UpdatedBuffer :: "'b option"
  br_PathFailureReasons :: "string option list"
  br_allNodes :: "'n list"
  br_reachableNodes :: "'n list"

datatype append_error = AppenderShutdown | AppendFailed string

record ('e, 'r, 'b, 'n) builder_cfg =
  bc_LogDID :: string
  bc_BatchSize :: int
  bc_PollInterval :: int
  bc_rootStore :: bool
  bc_tileFrontier :: bool
  bc_maxTileLag :: u64
  bc_merkle :: bool
  bc_bufferStore :: bool
  bc_window :: int
  bc_commitAllNodes :: bool
  bc_delta :: "'b delta_sdk"
  bc_Fetch :: "nat \<Rightarrow> LogPosition \<Rightarrow> fetch_error + 'r EntryWithMetadata option"
  bc_Deserialize :: "bytes \<Rightarrow> string + 'e"
  bc_EntryIdentity :: "'e \<Rightarrow> string + hash"
  bc_HashNode :: "'n \<Rightarrow> hash"
  bc_EmptyHash :: hash
  bc_ProcessBatch :: "hash \<Rightarrow> (hash \<rightharpoonup> bytes \<times> bytes) \<Rightarrow> (hash \<rightharpoonup> 'n) \<Rightarrow> ('e \<times> LogPosition) list \<Rightarrow> 'b
                        \<Rightarrow> string + ('b, 'n) BatchResult"

record builder_db =
  db_cursor :: "u64 option"
  db_leaves :: leaf_table
  db_root :: "root_row option"
  db_delta :: delta_table

record ('b, 'n) builder =
  bl_reader :: CursorReader
  bl_tree :: hash
  bl_buffer :: 'b
  bl_nodes :: "'n TailedNodeStore"
  bl_pub :: "publisher option"
  bl_leafFailures :: int
  bl_totalBatches :: int
  bl_totalEntries :: int
  bl_totalErrors :: int
  bl_consecutiveErr :: u32

datatype 'x tx_error = TxBegin pg_error | TxBody 'x | TxBodyRollback 'x pg_error | TxCommit pg_error

datatype commit_error = SetLeaves smt_error | SetRoot smt_error | SaveBuffer delta_error | CommitCursor cursor_error

datatype builder_error =
    ReadRootErr smt_error
  | PriorRootErr string
  | BuilderCtx ctx_error
  | DequeueErr "cursor_error tx_error"
  | FetchErr u64 "fetch_error option"
  | DeserializeErr u64 string
  | ProcessBatchErr string
  | EntryIdentityErr u64 string
  | AppendLeafErr u64 append_error
  | AtomicCommitErr "commit_error tx_error"

text \<open>
  What the interfaces answer in one cycle.  \<open>cy_isCtx\<close> says of which errors of the cycle a context
  error is the cause (\<open>errors.Is\<close> looks through the wrapping of a driver error).
\<close>

record 'n cycle_env =
  cy_ctxDequeue :: ctx
  cy_ctxFetch :: ctx
  cy_ctxCommit :: ctx
  cy_rootRead :: "pg_error option"
  cy_treeRoot :: "string option"
  cy_frontier :: "smt_error + (u64 \<times> hash)"
  cy_dequeue :: pg_env
  cy_cursor :: cursor_env
  cy_fetchAt :: nat
  cy_tiles :: "hash \<rightharpoonup> 'n"
  cy_AppendLeaf :: "hash \<Rightarrow> append_error + u64"
  cy_commit :: pg_env
  cy_leaves :: "pg_error option"
  cy_cas :: "pg_error option"
  cy_delta :: "hash \<Rightarrow> pg_error option"
  cy_pub :: pub_env
  cy_isCtx :: "builder_error \<Rightarrow> bool"

text \<open>\<open>WithTransaction\<close>: the outcome of a body that was run, and the state that lasts.\<close>

definition endTx :: "pg_env \<Rightarrow> 'x + 'a \<Rightarrow> 'd \<Rightarrow> ('a \<Rightarrow> 'd) \<Rightarrow> ('x tx_error + 'a) \<times> 'd" where
  "endTx P res d new =
     (case res of
        Inl e \<Rightarrow> ((case pe_rollback P of None \<Rightarrow> Inl (TxBody e) | Some r \<Rightarrow> Inl (TxBodyRollback e r)), d)
      | Inr a \<Rightarrow>
          (case pe_commit P of
             None \<Rightarrow> (Inr a, new a)
           | Some (e, durable) \<Rightarrow> (Inl (TxCommit e), if durable then new a else d)))"

subsection \<open>The steps of a cycle\<close>

text \<open>The prior root, the sequence of the compare-and-swap, and whether the max-lag gate holds the cursor.\<close>

definition readPrior ::
  "('e, 'r, 'b, 'n) builder_cfg \<Rightarrow> 'n cycle_env \<Rightarrow> builder_db \<Rightarrow> ('b, 'n) builder \<Rightarrow> builder_error + (hash \<times> u64 \<times> bool)" where
  "readPrior C cy d s =
     (if bc_rootStore C then
        bindE (mapE ReadRootErr (rootRead (cy_rootRead cy) (db_root d))) (\<lambda>st.
          let held = (if bc_tileFrontier C \<and> bc_maxTileLag C > 0 then
                        (case cy_frontier cy of
                           Inl _ \<Rightarrow> False
                         | Inr (fSeq, _) \<Rightarrow> tileLagExceeded (CommittedThroughSeq st) fSeq (bc_maxTileLag C))
                      else False) in
          Inr (CurrentRoot st, CommittedThroughSeq st, held))
      else
        (case cy_treeRoot cy of Some e \<Rightarrow> Inl (PriorRootErr e) | None \<Rightarrow> Inr (bl_tree s, 0, False)))"

definition dequeue ::
  "('e, 'r, 'b, 'n) builder_cfg \<Rightarrow> 'n cycle_env \<Rightarrow> index_row list \<Rightarrow> builder_db \<Rightarrow> ('b, 'n) builder
   \<Rightarrow> (builder_error + u64 list) \<times> builder_db \<times> ('b, 'n) builder" where
  "dequeue C cy t d s =
     (case pe_begin (cy_dequeue cy) of
        Some e \<Rightarrow> (Inl (DequeueErr (TxBegin e)), d, s)
      | None \<Rightarrow>
          (case BeginBatch (cy_cursor cy) (bc_BatchSize C) t (db_cursor d) (bl_reader s) of
             (res, cur, rd) \<Rightarrow>
               (mapE DequeueErr (fst (endTx (cy_dequeue cy) res () (\<lambda>_. ()))),
                d\<lparr>db_cursor := cur\<rparr>, s\<lparr>bl_reader := rd\<rparr>)))"

fun fetchAll ::
  "('e, 'r, 'b, 'n) builder_cfg \<Rightarrow> nat \<Rightarrow> u64 list \<Rightarrow> builder_error + 'r EntryWithMetadata list" where
  "fetchAll C k [] = Inr []"
| "fetchAll C k (s # ss) =
     (case bc_Fetch C k \<lparr>LogDID = bc_LogDID C, PosSequence = s\<rparr> of
        Inl e \<Rightarrow> Inl (FetchErr s (Some e))
      | Inr None \<Rightarrow> Inl (FetchErr s None)
      | Inr (Some m) \<Rightarrow> bindE (fetchAll C k ss) (\<lambda>ms. Inr (m # ms)))"

fun deserializeAll ::
  "('e, 'r, 'b, 'n) builder_cfg \<Rightarrow> (u64 \<times> 'r EntryWithMetadata) list \<Rightarrow> builder_error + ('e \<times> LogPosition) list" where
  "deserializeAll C [] = Inr []"
| "deserializeAll C ((s, m) # ms) =
     bindE (mapE (DeserializeErr s) (bc_Deserialize C (CanonicalBytes m))) (\<lambda>e.
     bindE (deserializeAll C ms) (\<lambda>es. Inr ((e, Position m) # es)))"

text \<open>Step 5: the identities in order; the list is what Tessera was sent before the loop ended.\<close>

fun appendAll ::
  "('e, 'r, 'b, 'n) builder_cfg \<Rightarrow> 'n cycle_env \<Rightarrow> ('e \<times> LogPosition) list \<Rightarrow> (builder_error + unit) \<times> hash list" where
  "appendAll C cy [] = (Inr (), [])"
| "appendAll C cy ((e, p) # es) =
     (case bc_EntryIdentity C e of
        Inl x \<Rightarrow> (Inl (EntryIdentityErr (PosSequence p) x), [])
      | Inr h \<Rightarrow>
          (case cy_AppendLeaf cy h of
             Inl x \<Rightarrow> (Inl (AppendLeafErr (PosSequence p) x), [h])
           | Inr _ \<Rightarrow> (case appendAll C cy es of (res, sent) \<Rightarrow> (res, h # sent))))"

definition maxSeq :: "u64 list \<Rightarrow> u64" where
  "maxSeq seqs = fold (\<lambda>s m. if s > m then s else m) seqs 0"

definition failedCount :: "string option list \<Rightarrow> nat \<Rightarrow> nat" where
  "failedCount reasons n = length (filter (\<lambda>r. r \<noteq> None) (take n reasons))"

text \<open>Step 8, the body of the transaction.\<close>

definition commitBody ::
  "('e, 'r, 'b, 'n) builder_cfg \<Rightarrow> 'n cycle_env \<Rightarrow> u64 list \<Rightarrow> hash \<Rightarrow> u64 \<Rightarrow> ('b, 'n) BatchResult
   \<Rightarrow> builder_db \<Rightarrow> CursorReader \<Rightarrow> (commit_error + builder_db) \<times> CursorReader" where
  "commitBody C cy seqs priorRoot priorSeq res d rd =
     (case SetBatchTx (cy_leaves cy) (coalesceLeafMutations (br_Mutations res)) (db_leaves d) of
        Inl e \<Rightarrow> (Inl (SetLeaves e), rd)
      | Inr (_, leaves) \<Rightarrow>
          (case (if bc_rootStore C then SetTxCAS (cy_cas cy) (br_NewRoot res) (maxSeq seqs) priorRoot priorSeq (db_root d)
                 else Inr (db_root d)) of
             Inl e \<Rightarrow> (Inl (SetRoot e), rd)
           | Inr root \<Rightarrow>
               (case (case (bc_bufferStore C, br_UpdatedBuffer res) of
                        (True, Some b) \<Rightarrow> deltaSaveTx (bc_delta C) (bc_window C) (cy_delta cy) b (db_delta d)
                      | _ \<Rightarrow> Inr (db_delta d)) of
                  Inl e \<Rightarrow> (Inl (SaveBuffer e), rd)
                | Inr delta \<Rightarrow>
                    (case CommitBatch (cy_cursor cy) seqs (db_cursor d) rd of
                       (Inl e, rd') \<Rightarrow> (Inl (CommitCursor e), rd')
                     | (Inr cur, rd') \<Rightarrow>
                         (Inr \<lparr>db_cursor = cur, db_leaves = leaves, db_root = root, db_delta = delta\<rparr>, rd')))))"

definition commitStep ::
  "('e, 'r, 'b, 'n) builder_cfg \<Rightarrow> 'n cycle_env \<Rightarrow> u64 list \<Rightarrow> LogPosition list \<Rightarrow> hash \<Rightarrow> u64 \<Rightarrow> ('b, 'n) BatchResult
   \<Rightarrow> builder_db \<Rightarrow> ('b, 'n) builder \<Rightarrow> (builder_error + nat) \<times> builder_db \<times> ('b, 'n) builder" where
  "commitStep C cy seqs positions priorRoot priorSeq res d s =
     (case pe_begin (cy_commit cy) of
        Some e \<Rightarrow> (Inl (AtomicCommitErr (TxBegin e)), d, s)
      | None \<Rightarrow>
          (case commitBody C cy seqs priorRoot priorSeq res d (bl_reader s) of
             (body, rd) \<Rightarrow>
               (case endTx (cy_commit cy) body d id of
                  (Inl e, d') \<Rightarrow> (Inl (AtomicCommitErr e), d', s\<lparr>bl_reader := rd\<rparr>)
                | (Inr _, d') \<Rightarrow>
                    (Inr (length seqs), d',
                     s\<lparr>bl_reader := rd, bl_tree := br_NewRoot res,
                       bl_nodes := PutBatchCommitted (bc_HashNode C)
                                     (if bc_commitAllNodes C then br_allNodes res else br_reachableNodes res)
                                     (br_NewRoot res) (bl_nodes s),
                       bl_pub := (case bl_pub s of
                                    None \<Rightarrow> None
                                  | Some p \<Rightarrow>
                                      Some (if positions = [] then p
                                            else MaybePublish (cy_pub cy) (int (length seqs)) (hd positions) (last positions)
                                                   priorRoot (br_Mutations res) (br_NewRoot res) p)),
                       bl_buffer := (case br_UpdatedBuffer res of None \<Rightarrow> bl_buffer s | Some b \<Rightarrow> b)\<rparr>))))"

text \<open>Steps 2 to 8 on the dequeued numbers; the third component is what Tessera was sent.\<close>

definition processSeqs ::
  "('e, 'r, 'b, 'n) builder_cfg \<Rightarrow> 'n cycle_env \<Rightarrow> hash \<Rightarrow> u64 \<Rightarrow> u64 list \<Rightarrow> builder_db \<Rightarrow> ('b, 'n) builder
   \<Rightarrow> (builder_error + nat) \<times> builder_db \<times> ('b, 'n) builder \<times> hash list" where
  "processSeqs C cy priorRoot priorSeq seqs d s =
     (case cy_ctxFetch cy of Some e \<Rightarrow> (Inl (BuilderCtx e), d, s, []) | None \<Rightarrow>
     (case fetchAll C (cy_fetchAt cy) seqs of Inl e \<Rightarrow> (Inl e, d, s, []) | Inr metas \<Rightarrow>
     (case deserializeAll C (zip seqs metas) of Inl e \<Rightarrow> (Inl e, d, s, []) | Inr entries \<Rightarrow>
     (case bc_ProcessBatch C priorRoot (map_of (db_leaves d)) (tailGet (bc_EmptyHash C) (cy_tiles cy) (bl_nodes s)) entries (bl_buffer s) of
        Inl e \<Rightarrow> (Inl (ProcessBatchErr e), d, s, [])
      | Inr res \<Rightarrow>
          let s1 = s\<lparr>bl_leafFailures := bl_leafFailures s + int (failedCount (br_PathFailureReasons res) (length seqs))\<rparr> in
          (case (if bc_merkle C then appendAll C cy entries else (Inr (), [])) of
             (Inl e, sent) \<Rightarrow> (Inl e, d, s1, sent)
           | (Inr _, sent) \<Rightarrow>
               (case cy_ctxCommit cy of
                  Some e \<Rightarrow> (Inl (BuilderCtx e), d, s1, sent)
                | None \<Rightarrow>
                    (case commitStep C cy seqs (map snd entries) priorRoot priorSeq res d s1 of
                       (out, d', s') \<Rightarrow> (out, d', s', sent))))))))"

definition processBatch ::
  "('e, 'r, 'b, 'n) builder_cfg \<Rightarrow> 'n cycle_env \<Rightarrow> index_row list \<Rightarrow> builder_db \<Rightarrow> ('b, 'n) builder
   \<Rightarrow> (builder_error + nat) \<times> builder_db \<times> ('b, 'n) builder \<times> hash list" where
  "processBatch C cy t d s =
     (case readPrior C cy d s of
        Inl e \<Rightarrow> (Inl e, d, s, [])
      | Inr (priorRoot, priorSeq, held) \<Rightarrow>
          if held then (Inr 0, d, s, [])
          else
            (case cy_ctxDequeue cy of
               Some e \<Rightarrow> (Inl (BuilderCtx e), d, s, [])
             | None \<Rightarrow>
                 (case dequeue C cy t d s of
                    (Inl e, d1, s1) \<Rightarrow> (Inl e, d1, s1, [])
                  | (Inr [], d1, s1) \<Rightarrow> (Inr 0, d1, s1, [])
                  | (Inr seqs, d1, s1) \<Rightarrow> processSeqs C cy priorRoot priorSeq seqs d1 s1)))"

subsection \<open>Run\<close>

datatype loop_next = LoopStop | LoopAgain | LoopPoll | LoopBackoff int

definition builderStops :: "(builder_error \<Rightarrow> bool) \<Rightarrow> builder_error \<Rightarrow> bool" where
  "builderStops isCtx e = (case e of BuilderCtx _ \<Rightarrow> True | AppendLeafErr _ AppenderShutdown \<Rightarrow> True | _ \<Rightarrow> isCtx e)"

definition runTurn ::
  "('e, 'r, 'b, 'n) builder_cfg \<Rightarrow> ctx \<Rightarrow> 'n cycle_env \<Rightarrow> index_row list \<Rightarrow> builder_db \<Rightarrow> ('b, 'n) builder
   \<Rightarrow> loop_next \<times> builder_db \<times> ('b, 'n) builder \<times> hash list" where
  "runTurn C ctx cy t d s =
     (if ctx \<noteq> None then (LoopStop, d, s, [])
      else
        (case processBatch C cy t d s of
           (Inl e, d', s', sent) \<Rightarrow>
             if builderStops (cy_isCtx cy) e then (LoopStop, d', s', sent)
             else
               let n = bl_consecutiveErr s' + 1 in
               (LoopBackoff (bc_PollInterval C * min (sint n) 10), d',
                s'\<lparr>bl_totalErrors := bl_totalErrors s' + 1, bl_consecutiveErr := n\<rparr>, sent)
         | (Inr n, d', s', sent) \<Rightarrow>
             if n > 0 then
               (LoopAgain, d', s'\<lparr>bl_consecutiveErr := 0, bl_totalBatches := bl_totalBatches s' + 1,
                                  bl_totalEntries := bl_totalEntries s' + int n\<rparr>, sent)
             else (LoopPoll, d', s'\<lparr>bl_consecutiveErr := 0\<rparr>, sent)))"

end
