(* ===== verification/BuilderSpec.thy ===== *)
theory BuilderSpec
  imports Builder
begin

section \<open>The builder follows the log\<close>

text \<open>
  The specification is a chain of batches: each is the SDK's \<open>ProcessBatch\<close> applied to the
  entries of consecutive live numbers, on the root and the leaves of the chain so far.  The theory
  shows that coalescing loses no write and never presents a key twice, that whatever fails in a cycle
  the tables either stay, skip rows that are not live, or move by one batch of the chain, and that a
  cycle in which nothing fails moves by a full batch.
\<close>

subsection \<open>Coalescing\<close>

definition last_write :: "SMTLeaf list \<Rightarrow> hash \<rightharpoonup> bytes \<times> bytes" where
  "last_write ls = map_of (rev (map (\<lambda>l. (lf_Key l, leafColumns l)) ls))"

lemma last_write_Nil [simp]: "last_write [] = Map.empty"
  by (simp add: last_write_def)

lemma last_write_snoc: "last_write (ls @ [l]) = (last_write ls)(lf_Key l \<mapsto> leafColumns l)"
  by (simp add: last_write_def)

lemma last_write_append: "last_write (xs @ ys) = last_write xs ++ last_write ys"
  by (simp add: last_write_def)

lemma dom_last_write: "dom (last_write ls) = lf_Key ` set ls"
  by (simp add: last_write_def dom_map_of_conv_image_fst image_image)

lemma upserts_last_write: "map_of (fold leafUpsert ls tab) = map_of tab ++ last_write ls"
proof (induction ls rule: rev_induct)
  case (snoc l ls)
  then show ?case by (auto simp: last_write_snoc leafUpsert_def update_conv' map_add_def fun_eq_iff)
qed simp

lemma last_write_distinct:
  "distinct (map lf_Key ls) \<Longrightarrow> last_write ls = map_of (map (\<lambda>l. (lf_Key l, leafColumns l)) ls)"
proof (induction ls)
  case (Cons l ls)
  have "last_write (l # ls) = last_write [l] ++ last_write ls" using last_write_append [of "[l]" ls] by simp
  moreover have "lf_Key l \<notin> dom (last_write ls)" using Cons.prems by (simp add: dom_last_write)
  ultimately show ?case using Cons
    by (auto simp: fun_eq_iff map_add_def last_write_def split: option.splits)
qed simp

lemma last_write_update:
  assumes "distinct (map lf_Key ls)" "i < length ls" "lf_Key (ls ! i) = lf_Key l"
  shows "last_write (ls[i := l]) = last_write (ls @ [l])"
proof -
  have keys: "map lf_Key (ls[i := l]) = map lf_Key ls"
    using assms(2,3) by (simp add: map_update) (metis list_update_id nth_map)
  define ps where "ps = map (\<lambda>x. (lf_Key x, leafColumns x)) ls"
  have "map_of (ps[i := (lf_Key l, leafColumns l)]) = (map_of ps)(lf_Key l \<mapsto> leafColumns l)"
    using assms unfolding ps_def
  proof (induction ls arbitrary: i)
    case (Cons x xs)
    show ?case
    proof (cases i)
      case 0
      then show ?thesis using Cons.prems(3) by (auto simp: fun_eq_iff)
    next
      case (Suc j)
      then have "lf_Key l \<in> lf_Key ` set xs" using Cons.prems(2,3) by (metis Suc_less_eq image_eqI length_Cons nth_Cons_Suc nth_mem)
      then have "lf_Key x \<noteq> lf_Key l" using Cons.prems(1) by auto
      moreover have "map_of ((map (\<lambda>x. (lf_Key x, leafColumns x)) xs)[j := (lf_Key l, leafColumns l)])
          = (map_of (map (\<lambda>x. (lf_Key x, leafColumns x)) xs))(lf_Key l \<mapsto> leafColumns l)"
        using Cons.IH [of j] Cons.prems Suc by (simp del: fun_upd_apply)
      ultimately show ?thesis using Suc by (auto simp: fun_eq_iff)
    qed
  qed simp
  then show ?thesis
    using assms(1) keys by (simp add: last_write_distinct last_write_snoc ps_def map_update)
qed

definition idx_ok :: "SMTLeaf list \<Rightarrow> (hash \<rightharpoonup> nat) \<Rightarrow> bool" where
  "idx_ok ls idx \<longleftrightarrow> distinct (map lf_Key ls) \<and> (\<forall>k i. idx k = Some i \<longrightarrow> i < length ls \<and> lf_Key (ls ! i) = k)
     \<and> (\<forall>l\<in>set ls. idx (lf_Key l) \<noteq> None)"

lemma idx_ok_update:
  assumes "idx_ok ls idx" "idx (lf_Key l) = Some i"
  shows "idx_ok (ls[i := l]) idx"
proof -
  have i: "i < length ls" "lf_Key (ls ! i) = lf_Key l" using assms by (auto simp: idx_ok_def)
  have "map lf_Key (ls[i := l]) = map lf_Key ls" using i by (simp add: map_update) (metis list_update_id nth_map)
  moreover have "lf_Key (ls[i := l] ! j) = lf_Key (ls ! j)" for j using i by (cases "j = i") auto
  moreover have "idx (lf_Key x) \<noteq> None" if "x \<in> set (ls[i := l])" for x
    using that assms set_update_subset_insert [of ls i l] by (auto simp: idx_ok_def)
  ultimately show ?thesis using assms(1) by (simp add: idx_ok_def)
qed

lemma idx_ok_snoc:
  assumes "idx_ok ls idx" "idx (lf_Key l) = None"
  shows "idx_ok (ls @ [l]) (idx(lf_Key l \<mapsto> length ls))"
  using assms by (auto simp: idx_ok_def nth_append less_Suc_eq)

lemma leafOf_Key [simp]: "lf_Key (leafOf m) = mu_LeafKey m"
  by (simp add: leafOf_def)

lemma coalesceInto_ok:
  "idx_ok ls idx \<Longrightarrow> distinct (map lf_Key (coalesceInto ms ls idx))
     \<and> last_write (coalesceInto ms ls idx) = last_write (ls @ map leafOf ms)"
proof (induction ms ls idx rule: coalesceInto.induct)
  case (1 ls idx)
  then show ?case by (simp add: idx_ok_def)
next
  case (2 m ms ls idx)
  show ?case
  proof (cases "idx (mu_LeafKey m)")
    case None
    have "idx_ok (ls @ [leafOf m]) (idx(mu_LeafKey m \<mapsto> length ls))" using idx_ok_snoc [OF 2(3), of "leafOf m"] None by simp
    from 2(1) [OF None this] show ?thesis by (simp add: None del: fun_upd_apply)
  next
    case (Some i)
    then have "last_write (ls[i := leafOf m]) = last_write (ls @ [leafOf m])"
      using 2(3) by (intro last_write_update) (auto simp: idx_ok_def)
    then have "last_write (ls[i := leafOf m] @ map leafOf ms) = last_write ((ls @ [leafOf m]) @ map leafOf ms)"
      by (simp only: last_write_append)
    then show ?thesis using 2(2) [OF Some] idx_ok_update [OF 2(3), of "leafOf m" i] Some by simp
  qed
qed

lemma coalesce_distinct: "distinct (map lf_Key (coalesceLeafMutations muts))"
  and coalesce_last_write: "last_write (coalesceLeafMutations muts) = last_write (map leafOf muts)"
  using coalesceInto_ok [of "[]" Map.empty muts] by (simp_all add: coalesceLeafMutations_def idx_ok_def)

text \<open>The rows stand in the order in which their keys are first mutated.\<close>

definition first_order :: "'a list \<Rightarrow> 'a list" where
  "first_order ks = rev (remdups (rev ks))"

lemma first_order_snoc: "first_order (ks @ [k]) = (if k \<in> set ks then first_order ks else first_order ks @ [k])"
  by (simp add: first_order_def)

lemma coalesceInto_keys:
  assumes "idx_ok ls idx" "map lf_Key ls = first_order ks"
  shows "map lf_Key (coalesceInto ms ls idx) = first_order (ks @ map mu_LeafKey ms)"
  using assms
proof (induction ms ls idx arbitrary: ks rule: coalesceInto.induct)
  case (2 m ms ls idx)
  have keys: "set ks = lf_Key ` set ls" using arg_cong [OF 2(4), of set] by (simp add: first_order_def)
  show ?case
  proof (cases "idx (mu_LeafKey m)")
    case None
    then have "mu_LeafKey m \<notin> set ks" using 2(3) keys by (auto simp: idx_ok_def)
    then have "map lf_Key (ls @ [leafOf m]) = first_order (ks @ [mu_LeafKey m])" using 2(4) by (simp add: first_order_snoc)
    moreover have "idx_ok (ls @ [leafOf m]) (idx(mu_LeafKey m \<mapsto> length ls))" using idx_ok_snoc [OF 2(3), of "leafOf m"] None by simp
    ultimately have "map lf_Key (coalesceInto ms (ls @ [leafOf m]) (idx(mu_LeafKey m \<mapsto> length ls)))
        = first_order ((ks @ [mu_LeafKey m]) @ map mu_LeafKey ms)" using 2(1) [OF None] by blast
    then show ?thesis using None by (simp del: fun_upd_apply)
  next
    case (Some i)
    then have i: "i < length ls" "lf_Key (ls ! i) = mu_LeafKey m" using 2(3) by (auto simp: idx_ok_def)
    then have "mu_LeafKey m \<in> set ks" using keys by (metis image_eqI nth_mem)
    moreover have "map lf_Key (ls[i := leafOf m]) = map lf_Key ls"
      using i by (simp add: map_update) (metis list_update_id nth_map)
    ultimately have "map lf_Key (ls[i := leafOf m]) = first_order (ks @ [mu_LeafKey m])" using 2(4) by (simp add: first_order_snoc)
    then show ?thesis using 2(2) [OF Some idx_ok_update [OF 2(3)]] Some by simp
  qed
qed simp

lemma coalesce_keys: "map lf_Key (coalesceLeafMutations muts) = first_order (map mu_LeafKey muts)"
  using coalesceInto_keys [of "[]" Map.empty "[]" muts] by (simp add: coalesceLeafMutations_def idx_ok_def first_order_def)

lemma SetBatchTx_coalesced:
  "SetBatchTx None (coalesceLeafMutations muts) tab =
     Inr (length (coalesceLeafMutations muts), fold leafUpsert (coalesceLeafMutations muts) tab)"
  by (simp add: SetBatchTx_def pg_run_def coalesce_distinct)

text \<open>
  C33.  A batch that writes a leaf several times is committed in one
  statement that Postgres accepts: the coalesced rows carry every key once, in the order in which the
  keys are first mutated, and the table afterwards equals the table after writing all mutations one by
  one in order.
\<close>

theorem coalesce_last_write_wins:
  "\<exists>tab'. SetBatchTx None (coalesceLeafMutations muts) tab = Inr (length (coalesceLeafMutations muts), tab')
     \<and> map_of tab' = map_of (fold leafUpsert (map leafOf muts) tab)
     \<and> length (coalesceLeafMutations muts) = card (mu_LeafKey ` set muts)
     \<and> map lf_Key (coalesceLeafMutations muts) = first_order (map mu_LeafKey muts)"
proof -
  let ?ls = "coalesceLeafMutations muts"
  have "lf_Key ` set ?ls = lf_Key ` set (map leafOf muts)"
    unfolding dom_last_write [symmetric] coalesce_last_write by (rule refl)
  then have "lf_Key ` set ?ls = mu_LeafKey ` set muts" by (simp add: image_image)
  then have "length ?ls = card (mu_LeafKey ` set muts)"
    using coalesce_distinct [of muts] by (metis distinct_card length_map set_map)
  then show ?thesis by (simp add: SetBatchTx_coalesced upserts_last_write coalesce_last_write coalesce_keys)
qed

subsection \<open>The chain of batches\<close>

definition posOf :: "('e, 'r, 'b, 'n) builder_cfg \<Rightarrow> u64 \<Rightarrow> LogPosition" where
  "posOf C s = \<lparr>LogDID = bc_LogDID C, PosSequence = s\<rparr>"

text \<open>
  \<open>wire s\<close> are the canonical bytes of the log's entry \<open>s\<close>.  A fetch that succeeds returns
  them: the log is append-only.
\<close>

definition log_faithful :: "(u64 \<Rightarrow> bytes) \<Rightarrow> ('e, 'r, 'b, 'n) builder_cfg \<Rightarrow> bool" where
  "log_faithful wire C \<longleftrightarrow>
     (\<forall>k s m. bc_Fetch C k (posOf C s) = Inr (Some m) \<longrightarrow> CanonicalBytes m = wire s \<and> Position m = posOf C s)"

definition entries_of :: "(u64 \<Rightarrow> bytes) \<Rightarrow> ('e, 'r, 'b, 'n) builder_cfg \<Rightarrow> u64 list \<Rightarrow> ('e \<times> LogPosition) list \<Rightarrow> bool" where
  "entries_of wire C ss es \<longleftrightarrow> list_all2 (\<lambda>s e. bc_Deserialize C (wire s) = Inr (fst e) \<and> snd e = posOf C s) ss es"

text \<open>
  What a batch is run on and what it leaves.  The tables are the root, the leaves and the rows of the
  delta window; the memory is the delta buffer and the node tail.  A restart loads the buffer from the
  rows (or starts cold when they cannot be read) and recovers some tail; the checkpoint loop prunes the
  tail; a batch whose commit is acknowledged hands buffer and nodes to the memory, one whose
  acknowledgement is lost leaves the memory as it was.
\<close>

definition boots :: "('e, 'r, 'b, 'n) builder_cfg \<Rightarrow> delta_table \<Rightarrow> 'b \<Rightarrow> bool" where
  "boots C dt b \<longleftrightarrow>
     (\<exists>win flt rowsErr. bc_window C = NewDeltaBufferStore win \<and> b = bootBuffer (bc_delta C) win flt rowsErr dt)"

definition pruned :: "('e, 'r, 'b, 'n) builder_cfg \<Rightarrow> 'n TailedNodeStore \<Rightarrow> 'n TailedNodeStore \<Rightarrow> bool" where
  "pruned C ns ns' \<longleftrightarrow>
     (\<exists>exists. ns' = PruneTiled exists ns) \<or> (\<exists>kids. ns' = snd (PruneOrphans kids (bc_EmptyHash C) ns))"

definition saved :: "('e, 'r, 'b, 'n) builder_cfg \<Rightarrow> ('b, 'n) BatchResult \<Rightarrow> delta_table \<Rightarrow> delta_table" where
  "saved C res dt =
     (case br_UpdatedBuffer res of
        Some b \<Rightarrow> if bc_bufferStore C then fold (saveRow (bc_delta C) (bc_window C) b) (ds_AllKeys (bc_delta C) b) dt else dt
      | None \<Rightarrow> dt)"

definition handed ::
  "('e, 'r, 'b, 'n) builder_cfg \<Rightarrow> ('b, 'n) BatchResult \<Rightarrow> bool \<Rightarrow> 'b \<times> 'n TailedNodeStore \<Rightarrow> 'b \<times> 'n TailedNodeStore" where
  "handed C res acked m =
     (if acked then
        (case br_UpdatedBuffer res of None \<Rightarrow> fst m | Some b \<Rightarrow> b,
         PutBatchCommitted (bc_HashNode C) (if bc_commitAllNodes C then br_allNodes res else br_reachableNodes res)
           (br_NewRoot res) (snd m))
      else m)"

inductive smt_chain ::
  "(u64 \<Rightarrow> bytes) \<Rightarrow> ('e, 'r, 'b, 'n) builder_cfg \<Rightarrow> hash \<Rightarrow> u64 list list \<Rightarrow> hash \<Rightarrow> (hash \<rightharpoonup> bytes \<times> bytes) \<Rightarrow> u64
   \<Rightarrow> delta_table \<Rightarrow> 'b \<times> 'n TailedNodeStore \<Rightarrow> bool"
  for wire C R0 where
  chain_start: "boots C [] b \<Longrightarrow> smt_chain wire C R0 [] R0 Map.empty 0 [] (b, ns)"
| chain_restart: "smt_chain wire C R0 Bs R lv q dt m \<Longrightarrow> boots C dt b \<Longrightarrow> smt_chain wire C R0 Bs R lv q dt (b, ns)"
| chain_prune: "smt_chain wire C R0 Bs R lv q dt (b, ns) \<Longrightarrow> pruned C ns ns' \<Longrightarrow> smt_chain wire C R0 Bs R lv q dt (b, ns')"
| chain_batch: "smt_chain wire C R0 Bs R lv q dt (b, ns) \<Longrightarrow> B \<noteq> [] \<Longrightarrow> entries_of wire C B es
    \<Longrightarrow> bc_ProcessBatch C R lv (tailGet (bc_EmptyHash C) tiles ns) es b = Inr res
    \<Longrightarrow> smt_chain wire C R0 (Bs @ [B]) (br_NewRoot res) (lv ++ last_write (map leafOf (br_Mutations res))) (maxSeq B)
          (saved C res dt) (handed C res acked (b, ns))"

lemma chain_window: "smt_chain wire C R0 Bs R lv q dt m \<Longrightarrow> 1 \<le> bc_window C"
  by (induction rule: smt_chain.induct) (auto simp: boots_def NewDeltaBufferStore_def)

lemma fetchAll_faithful:
  assumes "log_faithful wire C" "fetchAll C k ss = Inr ms"
  shows "list_all2 (\<lambda>s m. CanonicalBytes m = wire s \<and> Position m = posOf C s) ss ms"
  using assms(2)
proof (induction ss arbitrary: ms)
  case (Cons s ss)
  then show ?case using assms(1)
    by (auto simp: log_faithful_def posOf_def bindE_eq_Inr split: sum.splits option.splits)
qed simp

lemma deserializeAll_entries:
  assumes "list_all2 (\<lambda>s m. CanonicalBytes m = wire s \<and> Position m = posOf C s) ss ms"
    "deserializeAll C (zip ss ms) = Inr es"
  shows "entries_of wire C ss es"
  using assms
proof (induction ss ms arbitrary: es rule: list_all2_induct)
  case (Cons s ss m ms)
  then show ?case by (auto simp: entries_of_def bindE_eq_Inr)
qed (simp add: entries_of_def)

subsection \<open>One cycle\<close>

definition tables_at :: "builder_db \<Rightarrow> hash \<Rightarrow> (hash \<rightharpoonup> bytes \<times> bytes) \<Rightarrow> u64 \<Rightarrow> bool" where
  "tables_at d R lv q \<longleftrightarrow> db_root d = Some \<lparr>rr_root = hash_bytes R, rr_seq = q\<rparr> \<and> map_of (db_leaves d) = lv"

definition mem_of :: "('b, 'n) builder \<Rightarrow> 'b \<times> 'n TailedNodeStore" where
  "mem_of s = (bl_buffer s, bl_nodes s)"

lemma mem_of_frame [simp]:
  "mem_of (s\<lparr>bl_reader := rd\<rparr>) = mem_of s" "mem_of (s\<lparr>bl_leafFailures := i\<rparr>) = mem_of s"
  "mem_of (s\<lparr>bl_totalErrors := i\<rparr>) = mem_of s" "mem_of (s\<lparr>bl_consecutiveErr := n\<rparr>) = mem_of s"
  "mem_of (s\<lparr>bl_totalBatches := i\<rparr>) = mem_of s" "mem_of (s\<lparr>bl_totalEntries := i\<rparr>) = mem_of s"
  by (simp_all add: mem_of_def)

lemma commitBody_Inr:
  assumes "commitBody C cy seqs R q res d rd = (Inr d', rd')" "bc_rootStore C"
  shows "tables_at d R (map_of (db_leaves d)) q"
    "tables_at d' (br_NewRoot res) (map_of (db_leaves d) ++ last_write (map leafOf (br_Mutations res))) (maxSeq seqs)"
    "CommitBatch (cy_cursor cy) seqs (db_cursor d) rd = (Inr (db_cursor d'), rd')"
    "0 \<le> bc_window C \<Longrightarrow> db_delta d' = saved C res (db_delta d)"
proof -
  obtain k leaves where l: "SetBatchTx (cy_leaves cy) (coalesceLeafMutations (br_Mutations res)) (db_leaves d) = Inr (k, leaves)"
    using assms(1) by (auto simp: commitBody_def split: sum.splits)
  have "map_of leaves = map_of (fold leafUpsert (coalesceLeafMutations (br_Mutations res)) (db_leaves d))"
    using l by (auto simp: SetBatchTx_def pg_run_def split: if_splits option.splits)
  then have lv: "map_of leaves = map_of (db_leaves d) ++ last_write (map leafOf (br_Mutations res))"
    by (simp add: upserts_last_write coalesce_last_write)
  obtain root where r: "SetTxCAS (cy_cas cy) (br_NewRoot res) (maxSeq seqs) R q (db_root d) = Inr root"
    using assms l by (auto simp: commitBody_def split: sum.splits)
  then have root: "db_root d = Some \<lparr>rr_root = hash_bytes R, rr_seq = q\<rparr>"
    "root = Some \<lparr>rr_root = hash_bytes (br_NewRoot res), rr_seq = maxSeq seqs\<rparr>"
    by (auto simp: SetTxCAS_def bindE_eq_Inr split: option.splits if_splits)
  show "tables_at d R (map_of (db_leaves d)) q" using root(1) by (simp add: tables_at_def)
  show "tables_at d' (br_NewRoot res) (map_of (db_leaves d) ++ last_write (map leafOf (br_Mutations res))) (maxSeq seqs)"
    "CommitBatch (cy_cursor cy) seqs (db_cursor d) rd = (Inr (db_cursor d'), rd')"
    using assms l r root(2) lv by (auto simp: commitBody_def tables_at_def split: sum.splits prod.splits)
  show "db_delta d' = saved C res (db_delta d)" if w: "0 \<le> bc_window C"
  proof (cases "br_UpdatedBuffer res")
    case None
    then show ?thesis using assms l r by (auto simp: commitBody_def saved_def split: sum.splits prod.splits bool.splits)
  next
    case (Some b)
    show ?thesis
    proof (cases "bc_bufferStore C")
      case True
      have "deltaSaveTx (bc_delta C) (bc_window C) (cy_delta cy) b (db_delta d) = Inr (db_delta d')"
        using assms l r Some True by (auto simp: commitBody_def split: sum.splits prod.splits)
      from deltaSave_fold [OF this [unfolded deltaSaveTx_def] w] show ?thesis using Some True by (simp add: saved_def)
    next
      case False
      then show ?thesis using assms l r Some by (auto simp: commitBody_def saved_def split: sum.splits prod.splits)
    qed
  qed
qed

lemma endTx_state: "endTx P res d new = (out, d') \<Longrightarrow> d' = d \<or> (\<exists>a. res = Inr a \<and> d' = new a)"
  by (auto simp: endTx_def split: sum.splits option.splits prod.splits)

lemma commitStep_cases:
  assumes "commitStep C cy seqs ps R q res d s = (out, d', s')"
  obtains "d' = d" "mem_of s' = mem_of s"
  | acked rd' where "commitBody C cy seqs R q res d (bl_reader s) = (Inr d', rd')" "mem_of s' = handed C res acked (mem_of s)"
proof -
  obtain body rd where b: "commitBody C cy seqs R q res d (bl_reader s) = (body, rd)" by force
  show ?thesis
  proof (cases "pe_begin (cy_commit cy)")
    case None
    obtain o1 d1 where e: "endTx (cy_commit cy) body d id = (o1, d1)" by force
    show ?thesis
    proof (cases o1)
      case (Inl x)
      then have s: "d' = d1" "mem_of s' = mem_of s" using assms None b e by (auto simp: commitStep_def)
      then show ?thesis using endTx_state [OF e] that(1) that(2) [of rd False] b by (auto simp: handed_def)
    next
      case (Inr n)
      then have "body = Inr d1" using e by (auto simp: endTx_def split: sum.splits option.splits if_splits)
      moreover have "d' = d1" "mem_of s' = handed C res True (mem_of s)"
        using assms None b e Inr by (auto simp: commitStep_def mem_of_def handed_def split: option.splits)
      ultimately show ?thesis using that(2) b by blast
    qed
  next
    case (Some e)
    then show ?thesis using assms that(1) by (auto simp: commitStep_def)
  qed
qed

lemma dequeue_tables:
  assumes "dequeue C cy t d s = (res, d', s')" "db_cursor d = Some c" "cursor_ok c" "distinct (map c_seq t)"
  obtains e where "d' = d\<lparr>db_cursor := Some e\<rparr>" "skips t c e" "mem_of s' = mem_of s"
    "\<And>L. res = Inr L \<Longrightarrow> L \<noteq> [] \<Longrightarrow> BeginBatch (cy_cursor cy) (bc_BatchSize C) t (Some c) (bl_reader s) = (Inr L, Some e, bl_reader s')"
proof (cases "pe_begin (cy_dequeue cy)")
  case None
  obtain r cur rd where b: "BeginBatch (cy_cursor cy) (bc_BatchSize C) t (Some c) (bl_reader s) = (r, cur, rd)"
    by (metis prod_cases3)
  obtain e where e: "cur = Some e" "skips t c e" using cr.begin_skips [OF assms(3,4) b] by blast
  have "L \<noteq> [] \<Longrightarrow> r = Inr L" if "res = Inr L" for L
    using assms(1,2) that None by (auto simp: dequeue_def b endTx_def split: sum.splits option.splits)
  with that [of e] e assms(1,2) None b show ?thesis by (auto simp: dequeue_def)
next
  case (Some x)
  then show ?thesis using that [of c] assms advances_refl [OF assms(3)] by (auto simp: dequeue_def)
qed

lemma readPrior_tables:
  "bc_rootStore C \<Longrightarrow> tables_at d R lv q \<Longrightarrow> readPrior C cy d s = Inr (p, pq, held) \<Longrightarrow> p = R \<and> pq = q"
  by (auto simp: readPrior_def tables_at_def bindE_eq_Inr rootRead_def pg_run_def Let_def split: option.splits if_splits)

lemma processSeqs_tables:
  assumes "processSeqs C cy R q seqs d s = (out, d', s', sent)" "bc_rootStore C" "log_faithful wire C" "1 \<le> bc_window C"
  obtains "d' = d" "mem_of s' = mem_of s"
  | es res acked rd' where "entries_of wire C seqs es"
      "bc_ProcessBatch C R (map_of (db_leaves d)) (tailGet (bc_EmptyHash C) (cy_tiles cy) (bl_nodes s)) es (bl_buffer s) = Inr res"
      "tables_at d' (br_NewRoot res) (map_of (db_leaves d) ++ last_write (map leafOf (br_Mutations res))) (maxSeq seqs)"
      "db_delta d' = saved C res (db_delta d)" "mem_of s' = handed C res acked (mem_of s)"
      "CommitBatch (cy_cursor cy) seqs (db_cursor d) (bl_reader s) = (Inr (db_cursor d'), rd')"
proof (cases "d' = d \<and> mem_of s' = mem_of s")
  case False
  obtain ms where ms: "fetchAll C (cy_fetchAt cy) seqs = Inr ms"
    using assms(1) False by (auto simp: processSeqs_def split: option.splits sum.splits)
  obtain es where es: "deserializeAll C (zip seqs ms) = Inr es"
    using assms(1) False ms by (auto simp: processSeqs_def split: option.splits sum.splits)
  obtain res where res: "bc_ProcessBatch C R (map_of (db_leaves d)) (tailGet (bc_EmptyHash C) (cy_tiles cy) (bl_nodes s)) es (bl_buffer s) = Inr res"
    using assms(1) False ms es by (auto simp: processSeqs_def split: option.splits sum.splits)
  define s1 where "s1 = s\<lparr>bl_leafFailures := bl_leafFailures s + int (failedCount (br_PathFailureReasons res) (length seqs))\<rparr>"
  have s1: "mem_of s1 = mem_of s" "bl_reader s1 = bl_reader s" by (simp_all add: s1_def)
  have "commitStep C cy seqs (map snd es) R q res d s1 = (out, d', s')"
    using assms(1) False ms es res s1(1)
    by (auto simp: processSeqs_def s1_def Let_def split: option.splits sum.splits prod.splits if_splits)
  then show ?thesis
  proof (cases rule: commitStep_cases)
    case (2 acked rd')
    note body = commitBody_Inr [OF 2(1) assms(2)]
    show ?thesis
      using that(2) [OF deserializeAll_entries [OF fetchAll_faithful [OF assms(3) ms] es] res body(2)] body(3,4) 2(2) assms(4) s1
      by simp
  qed (use False s1 in simp)
qed (rule that(1); simp)

lemma processBatch_tables:
  assumes "processBatch C cy t d s = (out, d', s', sent)" "bc_rootStore C" "log_faithful wire C" "1 \<le> bc_window C"
    "tables_at d R lv q" "db_cursor d = Some c" "cursor_ok c" "distinct (map c_seq t)"
  obtains (skip) e where "d' = d\<lparr>db_cursor := Some e\<rparr>" "skips t c e" "mem_of s' = mem_of s"
  | (batch) e L es tiles res acked where "db_cursor d' = Some e" "advances t c e L" "L \<noteq> []" "entries_of wire C L es"
      "bc_ProcessBatch C R lv (tailGet (bc_EmptyHash C) tiles (bl_nodes s)) es (bl_buffer s) = Inr res"
      "tables_at d' (br_NewRoot res) (lv ++ last_write (map leafOf (br_Mutations res))) (maxSeq L)"
      "db_delta d' = saved C res (db_delta d)" "mem_of s' = handed C res acked (mem_of s)"
proof -
  have lv: "map_of (db_leaves d) = lv" using assms(5) by (simp add: tables_at_def)
  have stay: thesis if "d' = d" "mem_of s' = mem_of s" using skip [of c] that assms(6,7) advances_refl by auto
  show thesis
  proof (cases "\<exists>h. readPrior C cy d s = Inr (R, q, h) \<and> \<not> h \<and> cy_ctxDequeue cy = None")
    case False
    have "readPrior C cy d s = Inr (p, pq, h) \<Longrightarrow> p = R \<and> pq = q" for p pq h by (rule readPrior_tables [OF assms(2,5)])
    then have "d' = d" "mem_of s' = mem_of s" using assms(1) False
      by (auto simp: processBatch_def split: sum.splits prod.splits option.splits if_splits)
    then show thesis by (rule stay)
  next
    case True
    obtain r d1 s1 where dq: "dequeue C cy t d s = (r, d1, s1)" by (metis prod_cases3)
    obtain e where e: "d1 = d\<lparr>db_cursor := Some e\<rparr>" "skips t c e" "mem_of s1 = mem_of s"
      "\<And>L. r = Inr L \<Longrightarrow> L \<noteq> [] \<Longrightarrow> BeginBatch (cy_cursor cy) (bc_BatchSize C) t (Some c) (bl_reader s) = (Inr L, Some e, bl_reader s1)"
      using dequeue_tables [OF dq assms(6,7,8)] by blast
    show thesis
    proof (cases "\<exists>L. r = Inr L \<and> L \<noteq> []")
      case False
      then have "d' = d1" "s' = s1" using assms(1) True dq by (auto simp: processBatch_def split: sum.splits list.splits)
      then show thesis using skip e by simp
    next
      case rL: True
      then obtain L where L: "r = Inr L" "L \<noteq> []" by blast
      have "processSeqs C cy R q L d1 s1 = (out, d', s', sent)"
        using assms(1) True dq L by (auto simp: processBatch_def split: list.splits)
      from this assms(2,3,4) show thesis
      proof (cases rule: processSeqs_tables)
        case (2 es res acked rd')
        have "CommitBatch (cy_cursor cy) L (Some e) (bl_reader s1) = (Inr (db_cursor d'), rd')" using 2(6) e(1) by simp
        then obtain e' where "db_cursor d' = Some e'" "advances t e e' L"
          using cr.commit_advances [OF assms(7,8) e(4) [OF L] L(2)] by blast
        then show thesis
          using batch [of e' L es "cy_tiles cy" res acked] advances_trans [OF e(2)] 2 L(2) e(1,3) lv
          by (auto simp: mem_of_def)
      qed (use skip e in simp)
    qed
  qed
qed

subsection \<open>Reachable states\<close>

text \<open>
  The sequencer appends rows, the loop takes turns in which anything may fail, the checkpoint loop
  prunes the node tail, and a restart replaces the loop's memory: the buffer is the one the boot wiring
  loads, the rest may be anything.
\<close>

record ('b, 'n) build_sys =
  bs_db :: builder_db
  bs_index :: "index_row list"
  bs_loop :: "('b, 'n) builder"

definition fresh_db :: "hash \<Rightarrow> builder_db" where
  "fresh_db R0 = \<lparr>db_cursor = Some (- 1), db_leaves = [], db_root = Some \<lparr>rr_root = hash_bytes R0, rr_seq = 0\<rparr>, db_delta = []\<rparr>"

inductive build_reach ::
  "(u64 \<Rightarrow> bytes) \<Rightarrow> ('e, 'r, 'b, 'n) builder_cfg \<Rightarrow> hash \<Rightarrow> ('b, 'n) build_sys \<Rightarrow> bool"
  for wire C R0 where
  build_start: "boots C [] (bl_buffer s) \<Longrightarrow> build_reach wire C R0 \<lparr>bs_db = fresh_db R0, bs_index = [], bs_loop = s\<rparr>"
| build_rows: "build_reach wire C R0 y \<Longrightarrow> distinct (map c_seq (bs_index y @ new))
    \<Longrightarrow> build_reach wire C R0 (y\<lparr>bs_index := bs_index y @ new\<rparr>)"
| build_turn: "build_reach wire C R0 y
    \<Longrightarrow> runTurn C ctx cy (bs_index y) (bs_db y) (bs_loop y) = (nxt, d', s', sent)
    \<Longrightarrow> build_reach wire C R0 (y\<lparr>bs_db := d', bs_loop := s'\<rparr>)"
| build_prune: "build_reach wire C R0 y \<Longrightarrow> pruned C (bl_nodes (bs_loop y)) ns
    \<Longrightarrow> build_reach wire C R0 (y\<lparr>bs_loop := (bs_loop y)\<lparr>bl_nodes := ns\<rparr>\<rparr>)"
| build_restart: "build_reach wire C R0 y \<Longrightarrow> boots C (db_delta (bs_db y)) (bl_buffer s)
    \<Longrightarrow> build_reach wire C R0 (y\<lparr>bs_loop := s\<rparr>)"

definition follows ::
  "(u64 \<Rightarrow> bytes) \<Rightarrow> ('e, 'r, 'b, 'n) builder_cfg \<Rightarrow> hash \<Rightarrow> index_row list \<Rightarrow> builder_db \<Rightarrow> 'b \<times> 'n TailedNodeStore \<Rightarrow> bool" where
  "follows wire C R0 t d m \<longleftrightarrow>
     (\<exists>c Bs R lv q. db_cursor d = Some c \<and> cursor_ok c \<and> run_of t 0 (passed c)
        \<and> concat Bs = live_from t 0 (passed c) \<and> smt_chain wire C R0 Bs R lv q (db_delta d) m \<and> tables_at d R lv q)"

lemma followsE:
  assumes "follows wire C R0 t d m"
  obtains c Bs R lv q where "db_cursor d = Some c" "cursor_ok c" "run_of t 0 (passed c)"
    "concat Bs = live_from t 0 (passed c)" "smt_chain wire C R0 Bs R lv q (db_delta d) m" "tables_at d R lv q"
  using assms by (auto simp: follows_def)

lemma follows_mem:
  assumes "follows wire C R0 t d m" "\<And>Bs R lv q. smt_chain wire C R0 Bs R lv q (db_delta d) m \<Longrightarrow> smt_chain wire C R0 Bs R lv q (db_delta d) m'"
  shows "follows wire C R0 t d m'"
  using assms unfolding follows_def by blast

lemma live_from_grow:
  assumes "run_of t a b" "distinct (map c_seq (t @ new))"
  shows "live_from (t @ new) a b = live_from t a b"
proof -
  have "(\<exists>r\<in>set (t @ new). unat (c_seq r) = i \<and> c_status r = StatusLive) \<longleftrightarrow> (\<exists>r\<in>set t. unat (c_seq r) = i \<and> c_status r = StatusLive)"
    if i: "i \<in> set [a..<b]" for i
  proof -
    obtain r0 where r0: "r0 \<in> set t" "unat (c_seq r0) = i" using assms(1) i by (auto simp: run_of_def)
    have r0': "r0 \<in> set (t @ new)" using r0(1) by simp
    have only: "r = r0" if r: "r \<in> set (t @ new)" "unat (c_seq r) = i" for r
    proof -
      have "c_seq r = c_seq r0" using r(2) r0(2) by (simp only: word_unat_eq_iff)
      then show ?thesis by (rule distinct_map_eq [OF assms(2) r(1) r0'])
    qed
    have "(\<exists>r\<in>set (t @ new). unat (c_seq r) = i \<and> c_status r = StatusLive) \<longleftrightarrow> c_status r0 = StatusLive"
      using only r0(2) r0' by blast
    moreover have "(\<exists>r\<in>set t. unat (c_seq r) = i \<and> c_status r = StatusLive) \<longleftrightarrow> c_status r0 = StatusLive"
      using only r0 by (metis Un_iff set_append)
    ultimately show ?thesis by (rule trans [OF _ sym])
  qed
  then show ?thesis unfolding live_from_def by (intro arg_cong [where f = "map word_of_nat"] filter_cong refl)
qed

lemma follows_rows:
  assumes "follows wire C R0 t d m" "distinct (map c_seq (t @ new))"
  shows "follows wire C R0 (t @ new) d m"
proof -
  have "run_of (t @ new) 0 b" if "run_of t 0 b" for b using that by (auto simp: run_of_def)
  then show ?thesis using assms live_from_grow [of t 0 _ new] unfolding follows_def by metis
qed

lemma follows_advance:
  assumes "run_of t 0 (passed c)" "advances t c e L"
  shows "run_of t 0 (passed e)" "live_from t 0 (passed e) = live_from t 0 (passed c) @ L"
proof -
  have "{0..<passed e} = {0..<passed c} \<union> {passed c..<passed e}" using assms(2) by (auto simp: advances_def)
  then show "run_of t 0 (passed e)" using assms by (auto simp: advances_def run_of_def)
  show "live_from t 0 (passed e) = live_from t 0 (passed c) @ L"
    using assms(2) live_from_append [of 0 "passed c" "passed e" t] by (simp add: advances_def)
qed

lemma follows_cycle:
  assumes "follows wire C R0 t d (mem_of s)" "processBatch C cy t d s = (out, d', s', sent)" "bc_rootStore C" "log_faithful wire C"
    "distinct (map c_seq t)"
  shows "follows wire C R0 t d' (mem_of s')"
proof -
  obtain c Bs R lv q where f: "db_cursor d = Some c" "cursor_ok c" "run_of t 0 (passed c)"
    "concat Bs = live_from t 0 (passed c)" "smt_chain wire C R0 Bs R lv q (db_delta d) (mem_of s)" "tables_at d R lv q"
    by (rule followsE [OF assms(1)])
  from assms(2,3,4) chain_window [OF f(5)] f(6,1,2) assms(5) show ?thesis
  proof (cases rule: processBatch_tables)
    case (skip e)
    have d': "db_cursor d' = Some e" "db_delta d' = db_delta d" "tables_at d' R lv q" using f(6) skip(1) by (simp_all add: tables_at_def)
    moreover have "concat Bs = live_from t 0 (passed e)" using f(4) follows_advance(2) [OF f(3) skip(2)] by simp
    moreover have "cursor_ok e" using skip(2) by (simp add: advances_def)
    ultimately show ?thesis using follows_advance(1) [OF f(3) skip(2)] f(5) skip(3) unfolding follows_def d'(2) by metis
  next
    case (batch e L es tiles res acked)
    have "concat (Bs @ [L]) = live_from t 0 (passed e)" using f(4) follows_advance(2) [OF f(3) batch(2)] by simp
    moreover have "cursor_ok e" using batch(2) by (simp add: advances_def)
    moreover have "smt_chain wire C R0 (Bs @ [L]) (br_NewRoot res) (lv ++ last_write (map leafOf (br_Mutations res))) (maxSeq L)
        (db_delta d') (mem_of s')"
      using chain_batch [OF f(5) [unfolded mem_of_def] batch(3,4,5), of acked] batch(7,8) by (simp add: mem_of_def)
    ultimately show ?thesis
      using follows_advance(1) [OF f(3) batch(2)] batch(1,6) unfolding follows_def by blast
  qed
qed

lemma runTurn_cycle:
  assumes "runTurn C ctx cy t d s = (nxt, d', s', sent)"
  shows "(d' = d \<and> s' = s) \<or> (\<exists>out s1. processBatch C cy t d s = (out, d', s1, sent) \<and> mem_of s' = mem_of s1)"
  using assms by (auto simp: runTurn_def Let_def split: if_splits prod.splits sum.splits)

lemma build_follows:
  assumes "build_reach wire C R0 y" "bc_rootStore C" "log_faithful wire C"
  shows "distinct (map c_seq (bs_index y)) \<and> follows wire C R0 (bs_index y) (bs_db y) (mem_of (bs_loop y))"
  using assms(1)
proof induction
  case (build_start s)
  have "follows wire C R0 [] (fresh_db R0) (mem_of s)" unfolding follows_def
    using chain_start [OF build_start, of wire R0 "bl_nodes s"]
    by (intro exI [of _ "- 1"] exI [of _ "[]"] exI [of _ R0] exI [of _ Map.empty] exI [of _ 0])
      (auto simp: fresh_db_def run_of_def tables_at_def mem_of_def)
  then show ?case by simp
next
  case (build_rows y new)
  then have "follows wire C R0 (bs_index y @ new) (bs_db y) (mem_of (bs_loop y))" by (intro follows_rows) simp_all
  with build_rows show ?case by simp
next
  case (build_turn y ctx cy nxt d' s' sent)
  from runTurn_cycle [OF build_turn(2)] show ?case
  proof (elim disjE exE conjE)
    fix out s1 assume "processBatch C cy (bs_index y) (bs_db y) (bs_loop y) = (out, d', s1, sent)" "mem_of s' = mem_of s1"
    then show ?thesis using follows_cycle [OF _ _ assms(2,3)] build_turn.IH by auto
  qed (use build_turn.IH in simp)
next
  case (build_prune y ns)
  have "follows wire C R0 (bs_index y) (bs_db y) (bl_buffer (bs_loop y), ns)"
    using follows_mem [OF conjunct2 [OF build_prune.IH, unfolded mem_of_def] chain_prune [OF _ build_prune(2)]] .
  then show ?case using build_prune.IH by (simp add: mem_of_def)
next
  case (build_restart y s)
  have "follows wire C R0 (bs_index y) (bs_db y) (mem_of s)"
    unfolding mem_of_def using follows_mem [OF conjunct2 [OF build_restart.IH] chain_restart [OF _ build_restart(2)]] .
  then show ?case using build_restart.IH by simp
qed

end
