(* ===== verification/BuilderProps.thy ===== *)
theory BuilderProps
  imports BuilderSpec
begin

section \<open>Properties of the builder loop\<close>

text \<open>
  The claims about the builder: the tables follow the log, a quiet system catches up, and what a lost
  commit acknowledgement leaves behind.  Their witnesses run a small builder whose SDK writes one leaf
  per entry.
\<close>

subsection \<open>Committed numbers\<close>

lemma fold_max_sorted: "sorted (m # ss) \<Longrightarrow> fold (\<lambda>s m. if s > m then s else m) ss (m :: u64) = last (m # ss)"
proof (induction ss arbitrary: m)
  case (Cons s ss)
  then show ?case by (cases "m < s") auto
qed simp

lemma maxSeq_sorted: "sorted ss \<Longrightarrow> ss \<noteq> [] \<Longrightarrow> maxSeq ss = last ss"
  using fold_max_sorted [of 0 ss] by (simp add: maxSeq_def)

lemma sorted_live_from:
  assumes "b \<le> 2 ^ 63"
  shows "sorted (live_from t a b)"
proof -
  have "sorted (map (word_of_nat :: nat \<Rightarrow> u64) [a..<b])"
  proof (rule sorted_iff_nth_mono_less [THEN iffD2], intro allI impI)
    fix i j assume "i < j" "j < length (map (word_of_nat :: nat \<Rightarrow> u64) [a..<b])"
    then have "a + i < 2 ^ 64" "a + j < 2 ^ 64" "a + i \<le> a + j" "j < b - a" "i < b - a" using assms by auto
    then show "map (word_of_nat :: nat \<Rightarrow> u64) [a..<b] ! i \<le> map word_of_nat [a..<b] ! j"
      by (simp add: word_le_nat_alt unat_u64_of_nat del: of_nat_add)
  qed
  then show ?thesis unfolding live_from_def
    by (metis (no_types, lifting) filter_map sorted_wrt_filter sorted_map sorted_wrt_map_mono)
qed

lemma chain_seq:
  assumes "smt_chain wire C R0 Bs R lv q dt m" "sorted (concat Bs)"
  shows "[] \<notin> set Bs \<and> q = (if Bs = [] then 0 else last (concat Bs))"
  using assms
proof (induction rule: smt_chain.induct)
  case (chain_batch Bs R lv q dt b ns B es tiles res acked)
  have "sorted B" using chain_batch.prems by (simp add: sorted_append)
  then show ?case using chain_batch maxSeq_sorted [of B] by (auto simp: sorted_append)
qed simp_all

lemma chain_committed:
  assumes "cursor_ok c" "concat Bs = live_from t 0 (passed c)" "smt_chain wire C R0 Bs R lv q dt m"
  shows "[] \<notin> set Bs" "q = (if Bs = [] then 0 else last (concat Bs))" "unat q \<le> passed c - 1"
proof -
  have p: "passed c \<le> 2 ^ 63" using cursor_okD [OF assms(1)] by auto
  then have "sorted (concat Bs)" using sorted_live_from assms(2) by metis
  note q = chain_seq [OF assms(3) this]
  from q show "[] \<notin> set Bs" "q = (if Bs = [] then 0 else last (concat Bs))" by blast+
  show "unat q \<le> passed c - 1"
  proof (cases "Bs = []")
    case False
    then have ne: "concat Bs \<noteq> []" using q by (metis concat_eq_Nil_conv last_in_set)
    then have "q \<in> set (live_from t 0 (passed c))" using q False assms(2) by (metis last_in_set)
    then obtain i where "q = word_of_nat i" "i < passed c" by (auto simp: live_from_def)
    moreover from this have "unat q = i" using p by (simp add: unat_u64_of_nat)
    ultimately show ?thesis by simp
  qed (use q in simp)
qed

subsection \<open>A cycle in which nothing fails\<close>

definition cycle_calm :: "'n cycle_env \<Rightarrow> bool" where
  "cycle_calm cy \<longleftrightarrow>
     cy_ctxDequeue cy = None \<and> cy_ctxFetch cy = None \<and> cy_ctxCommit cy = None \<and> cy_rootRead cy = None
     \<and> pe_begin (cy_dequeue cy) = None \<and> pe_commit (cy_dequeue cy) = None \<and> cursor_calm (cy_cursor cy)
     \<and> pe_begin (cy_commit cy) = None \<and> pe_commit (cy_commit cy) = None
     \<and> cy_leaves cy = None \<and> cy_cas cy = None \<and> cy_delta cy = (\<lambda>_. None)"

text \<open>
  \<open>answers\<close>: the fetcher returns the log's live entries, they deserialise, Tessera takes their
  identities, and the SDK processes batches of the log on the present tables and memory.
  \<open>gate_open\<close>: the tile frontier is near enough to the end of the index that the lag gate never holds
  the cursor (an unreadable frontier does not hold it either).
\<close>

definition answers ::
  "(u64 \<Rightarrow> bytes) \<Rightarrow> ('e, 'r, 'b, 'n) builder_cfg \<Rightarrow> 'n cycle_env \<Rightarrow> index_row list \<Rightarrow> builder_db \<Rightarrow> ('b, 'n) builder \<Rightarrow> bool" where
  "answers wire C cy t d s \<longleftrightarrow>
     (\<forall>r\<in>set t. c_status r = StatusLive \<longrightarrow>
        (\<exists>m. bc_Fetch C (cy_fetchAt cy) (posOf C (c_seq r)) = Inr (Some m))
        \<and> (\<exists>e h i. bc_Deserialize C (wire (c_seq r)) = Inr e \<and> bc_EntryIdentity C e = Inr h \<and> cy_AppendLeaf cy h = Inr i))
     \<and> (\<forall>R lv q L es. tables_at d R lv q \<longrightarrow> entries_of wire C L es \<longrightarrow>
          (\<exists>res. bc_ProcessBatch C R lv (tailGet (bc_EmptyHash C) (cy_tiles cy) (bl_nodes s)) es (bl_buffer s) = Inr res))"

definition gate_open :: "('e, 'r, 'b, 'n) builder_cfg \<Rightarrow> 'n cycle_env \<Rightarrow> nat \<Rightarrow> bool" where
  "gate_open C cy n \<longleftrightarrow>
     (bc_tileFrontier C \<and> bc_maxTileLag C > 0 \<longrightarrow>
        (case cy_frontier cy of Inl _ \<Rightarrow> True | Inr (f, _) \<Rightarrow> n \<le> Suc (unat f + unat (bc_maxTileLag C))))"

definition live_rows :: "index_row list \<Rightarrow> u64 set" where
  "live_rows t = c_seq ` {r \<in> set t. c_status r = StatusLive}"

lemma live_from_rows: "set (live_from t a b) \<subseteq> live_rows t"
proof
  fix x assume "x \<in> set (live_from t a b)"
  then obtain r where "r \<in> set t" "x = word_of_nat (unat (c_seq r))" "c_status r = StatusLive" by (auto simp: live_from_def)
  then show "x \<in> live_rows t" by (auto simp: live_rows_def)
qed

lemma answersD:
  assumes "answers wire C cy t d s"
  shows "x \<in> live_rows t \<Longrightarrow> \<exists>m. bc_Fetch C (cy_fetchAt cy) (posOf C x) = Inr (Some m)"
    "x \<in> live_rows t \<Longrightarrow> \<exists>e h i. bc_Deserialize C (wire x) = Inr e \<and> bc_EntryIdentity C e = Inr h \<and> cy_AppendLeaf cy h = Inr i"
    "tables_at d R lv q \<Longrightarrow> entries_of wire C L es \<Longrightarrow>
      \<exists>res. bc_ProcessBatch C R lv (tailGet (bc_EmptyHash C) (cy_tiles cy) (bl_nodes s)) es (bl_buffer s) = Inr res"
  using assms unfolding answers_def live_rows_def by blast+

lemma fetchAll_total:
  assumes "answers wire C cy t d s"
  shows "set ss \<subseteq> live_rows t \<Longrightarrow> \<exists>ms. fetchAll C (cy_fetchAt cy) ss = Inr ms"
proof (induction ss)
  case (Cons x ss)
  then obtain m where "bc_Fetch C (cy_fetchAt cy) (posOf C x) = Inr (Some m)"
    using answersD(1) [OF assms, of x] by auto
  with Cons show ?case by (auto simp: posOf_def)
qed simp

lemma deserializeAll_total:
  assumes "answers wire C cy t d s" "list_all2 (\<lambda>x m. CanonicalBytes m = wire x \<and> Position m = posOf C x) ss ms"
    "set ss \<subseteq> live_rows t"
  shows "\<exists>es. deserializeAll C (zip ss ms) = Inr es"
  using assms(2,3)
proof (induction ss ms rule: list_all2_induct)
  case (Cons x ss m ms)
  then obtain e where "bc_Deserialize C (wire x) = Inr e" using answersD(2) [OF assms(1), of x] by auto
  with Cons show ?case by auto
qed simp

lemma appendAll_total:
  assumes "answers wire C cy t d s" "entries_of wire C ss es" "set ss \<subseteq> live_rows t"
  shows "fst (appendAll C cy es) = Inr ()"
  using assms(2,3) unfolding entries_of_def
proof (induction ss es rule: list_all2_induct)
  case (Cons x ss e es)
  then obtain h i where "bc_EntryIdentity C (fst e) = Inr h" "cy_AppendLeaf cy h = Inr i"
    using answersD(2) [OF assms(1), of x] by auto
  with Cons show ?case by (cases e) (auto split: prod.splits)
qed simp

lemma deltaSave_total: "\<exists>tab'. deltaSave K w (\<lambda>_. None) buf keys tab = Inr tab'"
  by (induction keys arbitrary: tab) (auto simp: Let_def pg_run_def)

lemma calm_commit:
  assumes "cycle_calm cy" "bc_rootStore C" "tables_at d R lv q" "db_cursor d = Some c"
    "cr_pendingAdvanceSet rd" "cr_pendingAdvanceTo rd = e" "0 \<le> sint e"
  obtains d' rd' where "commitBody C cy seqs R q res d rd = (Inr d', rd')" "db_cursor d' = Some e"
proof -
  have cas: "SetTxCAS (cy_cas cy) (br_NewRoot res) (maxSeq seqs) R q (db_root d) =
      Inr (Some \<lparr>rr_root = hash_bytes (br_NewRoot res), rr_seq = maxSeq seqs\<rparr>)"
    using assms(1,3) by (simp add: SetTxCAS_def cycle_calm_def pg_run_def tables_at_def)
  obtain delta where delta: "(case (bc_bufferStore C, br_UpdatedBuffer res) of
      (True, Some b) \<Rightarrow> deltaSaveTx (bc_delta C) (bc_window C) (cy_delta cy) b (db_delta d) | _ \<Rightarrow> Inr (db_delta d)) = Inr delta"
  proof (cases "bc_bufferStore C \<and> br_UpdatedBuffer res \<noteq> None")
    case True
    then obtain b where "br_UpdatedBuffer res = Some b" by blast
    moreover obtain tab where "deltaSave (bc_delta C) (bc_window C) (\<lambda>_. None) b (ds_AllKeys (bc_delta C) b) (db_delta d) = Inr tab"
      using deltaSave_total [of "bc_delta C" "bc_window C" b] by blast
    ultimately show thesis using that True assms(1) by (simp add: deltaSaveTx_def cycle_calm_def)
  next
    case False
    then show thesis using that by (cases "bc_bufferStore C"; cases "br_UpdatedBuffer res") auto
  qed
  have "CommitBatch (cy_cursor cy) seqs (db_cursor d) rd =
      (Inr (Some e), rd\<lparr>cr_pendingAdvanceTo := 0, cr_pendingAdvanceSet := False\<rparr>)"
    using assms by (simp add: CommitBatch_def AdvanceTx_def bigint_arg_def cycle_calm_def cursor_calm_def pg_run_def)
  then show ?thesis using that cas delta assms(1,2)
    by (auto simp: commitBody_def SetBatchTx_coalesced cycle_calm_def)
qed

lemma calm_seqs:
  assumes "cycle_calm cy" "answers wire C cy t d s" "bc_rootStore C" "log_faithful wire C" "tables_at d R lv q" "db_cursor d = Some c"
    "cr_pendingAdvanceSet rd" "cr_pendingAdvanceTo rd = e" "0 \<le> sint e" "set seqs \<subseteq> live_rows t"
  shows "\<exists>d' s' sent. processSeqs C cy R q seqs d (s\<lparr>bl_reader := rd\<rparr>) = (Inr (length seqs), d', s', sent) \<and> db_cursor d' = Some e"
proof -
  obtain ms where ms: "fetchAll C (cy_fetchAt cy) seqs = Inr ms" using fetchAll_total [OF assms(2,10)] by blast
  note wires = fetchAll_faithful [OF assms(4) ms]
  obtain es where es: "deserializeAll C (zip seqs ms) = Inr es" using deserializeAll_total [OF assms(2) wires assms(10)] by blast
  note entries = deserializeAll_entries [OF wires es]
  have lv: "map_of (db_leaves d) = lv" using assms(5) by (simp add: tables_at_def)
  obtain res where res: "bc_ProcessBatch C R lv (tailGet (bc_EmptyHash C) (cy_tiles cy) (bl_nodes s)) es (bl_buffer s) = Inr res"
    using answersD(3) [OF assms(2,5) entries] by blast
  obtain sent where ap: "(if bc_merkle C then appendAll C cy es else (Inr (), [])) = (Inr (), sent)"
  proof (cases "bc_merkle C")
    case True
    then show thesis using that [of "snd (appendAll C cy es)"] appendAll_total [OF assms(2) entries assms(10)] by (simp add: prod_eq_iff)
  qed (use that in auto)
  obtain d' rd' where cb: "commitBody C cy seqs R q res d rd = (Inr d', rd')" "db_cursor d' = Some e"
    using calm_commit [OF assms(1,3,5,6,7,8,9)] by metis
  have "\<exists>s'. processSeqs C cy R q seqs d (s\<lparr>bl_reader := rd\<rparr>) = (Inr (length seqs), d', s', sent)"
    using assms(1) ms es res ap cb(1) lv
    by (simp add: processSeqs_def commitStep_def cycle_calm_def endTx_def Let_def)
  then show ?thesis using cb(2) by blast
qed

lemma passed_of_nat: "0 < m \<Longrightarrow> m \<le> 2 ^ 63 \<Longrightarrow> passed (word_of_nat (m - 1)) = m \<and> cursor_ok (word_of_nat (m - 1)) \<and> 0 \<le> sint (word_of_nat (m - 1) :: u64)"
proof -
  assume m: "0 < m" "m \<le> 2 ^ 63"
  define k where "k = m - 1"
  have "unat (word_of_nat k :: u64) = k" using m by (intro unat_u64_of_nat) (simp add: k_def)
  moreover have "k < 2 ^ 63" "Suc k = m" using m by (auto simp: k_def)
  ultimately have "passed (word_of_nat k) = m \<and> cursor_ok (word_of_nat k) \<and> 0 \<le> sint (word_of_nat k :: u64)"
    by (simp add: passed_small cursor_ok_small sint_u64_small del: of_nat_unat)
  then show ?thesis by (simp only: k_def)
qed

text \<open>On a gap-free index of \<open>n\<close> rows the tables follow the log and the cursor has passed \<open>k\<close> of them.\<close>

definition ready ::
  "(u64 \<Rightarrow> bytes) \<Rightarrow> ('e, 'r, 'b, 'n) builder_cfg \<Rightarrow> hash \<Rightarrow> index_row list \<Rightarrow> nat \<Rightarrow> nat \<Rightarrow> builder_db \<Rightarrow> ('b, 'n) builder \<Rightarrow> bool" where
  "ready wire C R0 t n k d s \<longleftrightarrow>
     dense t n \<and> follows wire C R0 t d (mem_of s) \<and> (\<exists>c. db_cursor d = Some c \<and> passed c = k)"

lemma ready_le:
  assumes "ready wire C R0 t n k d s"
  shows "k \<le> n"
proof (cases k)
  case (Suc j)
  have "run_of t 0 k" using assms by (auto simp: ready_def follows_def)
  then have "j \<in> (\<lambda>r. unat (c_seq r)) ` set t" using Suc by (auto simp: run_of_def)
  then have "j < n" using assms by (auto simp: ready_def dense_def)
  then show ?thesis using Suc by simp
qed simp

lemma gate_not_held:
  assumes "gate_open C cy n" "bc_rootStore C" "tables_at d R lv q" "unat q \<le> n - 1" "cy_rootRead cy = None"
  shows "readPrior C cy d s = Inr (R, q, False)"
proof -
  have "\<not> tileLagExceeded q f (bc_maxTileLag C)" if "bc_tileFrontier C" "bc_maxTileLag C > 0" "cy_frontier cy = Inr (f, h)" for f h
  proof -
    have "n \<le> Suc (unat f + unat (bc_maxTileLag C))" using assms(1) that by (simp add: gate_open_def)
    then have "unat q - unat f \<le> unat (bc_maxTileLag C)" using assms(4) by simp
    then show ?thesis by (simp add: tileLagExceeded_def word_less_nat_alt unat_sub_if_size word_size)
  qed
  then show ?thesis using assms(2,3,5)
    by (auto simp: readPrior_def rootRead_def pg_run_def tables_at_def Let_def split: sum.splits)
qed

lemma calm_cycle:
  assumes "cycle_calm cy" "gate_open C cy n" "answers wire C cy t d s" "bc_rootStore C" "log_faithful wire C" "0 < bc_BatchSize C"
    "ready wire C R0 t n k d s"
  obtains j d' s' sent where "processBatch C cy t d s = (Inr j, d', s', sent)"
    "ready wire C R0 t n (min n (k + nat (bc_BatchSize C))) d' s'"
proof -
  have rd: "dense t n" "follows wire C R0 t d (mem_of s)" "\<And>c. db_cursor d = Some c \<Longrightarrow> passed c = k"
    using assms(7) by (auto simp: ready_def)
  obtain c Bs R lv q where f: "db_cursor d = Some c" "cursor_ok c" "run_of t 0 (passed c)" "concat Bs = live_from t 0 (passed c)"
    "smt_chain wire C R0 Bs R lv q (db_delta d) (mem_of s)" "tables_at d R lv q" by (rule followsE [OF rd(2)])
  note d = rd(1) f(1,2,4,5,6) rd(3) [OF f(1)]
  have kn: "k \<le> n" by (rule ready_le [OF assms(7)])
  let ?m = "min n (k + nat (bc_BatchSize C))"
  have calm: "cursor_calm (cy_cursor cy)" "cy_ctxDequeue cy = None" "pe_commit (cy_dequeue cy) = None" "cy_rootRead cy = None"
    using assms(1) by (simp_all add: cycle_calm_def)
  have "unat q \<le> n - 1" using chain_committed(3) [OF d(3,4,5)] kn d(7) by simp
  note prior = gate_not_held [OF assms(2,4) d(6) this calm(4), of s]
  note bb = BeginBatch_dense [OF d(3,1) calm(1) assms(6), unfolded d(7)]
  have dq: "dequeue C cy t d s = (mapE DequeueErr (fst (endTx (cy_dequeue cy) res () (\<lambda>_. ()))), d\<lparr>db_cursor := cur\<rparr>, s\<lparr>bl_reader := rd\<rparr>)"
    if "BeginBatch (cy_cursor cy) (bc_BatchSize C) t (Some c) (bl_reader s) = (res, cur, rd)" for res cur rd
    using assms(1) that d(2) by (simp add: dequeue_def cycle_calm_def)
  have "\<exists>j d' s' sent c'. processBatch C cy t d s = (Inr j, d', s', sent) \<and> db_cursor d' = Some c' \<and> passed c' = ?m"
  proof -
    consider "n \<le> k" | "k < n" "live_from t k ?m = []" | "k < n" "live_from t k ?m \<noteq> []" by linarith
    then show ?thesis
    proof cases
      case 1
      then have "?m = k" using kn by simp
      moreover have "processBatch C cy t d s = (Inr 0, d, s\<lparr>bl_reader := (bl_reader s)\<lparr>cr_current := c, cr_initFromDB := True\<rparr>\<rparr>, [])"
        using dq [OF bb(2) [OF 1]] prior calm d(2) by (simp add: processBatch_def endTx_def)
      ultimately show ?thesis using d(2,7) by metis
    next
      case 2
      have m: "0 < ?m" "?m \<le> 2 ^ 63" using 2(1) assms(6) d(1) by (auto simp: dense_def)
      have "processBatch C cy t d s = (Inr 0, d\<lparr>db_cursor := Some (word_of_nat (?m - 1))\<rparr>,
          s\<lparr>bl_reader := (bl_reader s)\<lparr>cr_current := c, cr_initFromDB := True\<rparr>\<rparr>, [])"
        using dq [OF bb(1) [OF 2(1), unfolded Let_def 2(2) if_P [OF refl]]] prior calm by (simp add: processBatch_def endTx_def)
      then show ?thesis using passed_of_nat [OF m] by (auto simp del: of_nat_diff)
    next
      case 3
      have m: "0 < ?m" "?m \<le> 2 ^ 63" using 3(1) assms(6) d(1) by (auto simp: dense_def)
      define e where "e = (word_of_nat (?m - 1) :: u64)"
      note e = passed_of_nat [OF m, folded e_def]
      define rd where "rd = (bl_reader s)\<lparr>cr_current := c, cr_initFromDB := True, cr_pendingAdvanceTo := e, cr_pendingAdvanceSet := True\<rparr>"
      let ?L = "live_from t k ?m" and ?s = "s\<lparr>bl_reader := rd\<rparr>"
      have "BeginBatch (cy_cursor cy) (bc_BatchSize C) t (Some c) (bl_reader s) = (Inr ?L, Some c, rd)"
        using bb(1) [OF 3(1), folded e_def] 3(2) by (simp add: rd_def)
      from dq [OF this] have dq': "dequeue C cy t d s = (Inr ?L, d, ?s)" using calm d(2) by (simp add: endTx_def)
      obtain d' s' sent where p: "processSeqs C cy R q ?L d ?s = (Inr (length ?L), d', s', sent)" "db_cursor d' = Some e"
        using calm_seqs [OF assms(1,3,4,5) d(6,2), of rd e ?L] e live_from_rows by (auto simp: rd_def)
      obtain x xs where L: "?L = x # xs" using 3(2) by (cases ?L) auto
      have "processBatch C cy t d s = (Inr (length ?L), d', s', sent)"
        using prior calm(2) dq' p(1) unfolding L by (simp add: processBatch_def)
      then show ?thesis using p(2) e by blast
    qed
  qed
  then obtain j d' s' sent c' where r: "processBatch C cy t d s = (Inr j, d', s', sent)" "db_cursor d' = Some c'" "passed c' = ?m" by blast
  have "follows wire C R0 t d (mem_of s)" "distinct (map c_seq t)" using assms(7) by (auto simp: ready_def dense_def)
  from follows_cycle [OF this(1) r(1) assms(4,5) this(2)] show ?thesis using that r d(1) by (auto simp: ready_def)
qed

fun runTurns ::
  "('e, 'r, 'b, 'n) builder_cfg \<Rightarrow> 'n cycle_env list \<Rightarrow> index_row list \<Rightarrow> builder_db \<Rightarrow> ('b, 'n) builder \<Rightarrow> builder_db \<times> ('b, 'n) builder" where
  "runTurns C [] t d s = (d, s)"
| "runTurns C (cy # cys) t d s = (case runTurn C None cy t d s of (_, d', s', _) \<Rightarrow> runTurns C cys t d' s')"

text \<open>A run in which every call of every turn answers and the lag gate stays open.\<close>

fun calm_run ::
  "(u64 \<Rightarrow> bytes) \<Rightarrow> ('e, 'r, 'b, 'n) builder_cfg \<Rightarrow> nat \<Rightarrow> 'n cycle_env list \<Rightarrow> index_row list \<Rightarrow> builder_db \<Rightarrow> ('b, 'n) builder \<Rightarrow> bool" where
  "calm_run wire C n [] t d s \<longleftrightarrow> True"
| "calm_run wire C n (cy # cys) t d s \<longleftrightarrow>
     cycle_calm cy \<and> gate_open C cy n \<and> answers wire C cy t d s
     \<and> (case runTurn C None cy t d s of (_, d', s', _) \<Rightarrow> calm_run wire C n cys t d' s')"

lemma calm_turn:
  assumes "cycle_calm cy" "gate_open C cy n" "answers wire C cy t d s" "bc_rootStore C" "log_faithful wire C" "0 < bc_BatchSize C"
    "ready wire C R0 t n k d s"
  obtains nxt d' s' sent where "runTurn C None cy t d s = (nxt, d', s', sent)"
    "ready wire C R0 t n (min n (k + nat (bc_BatchSize C))) d' s'"
proof -
  obtain j d' s' sent where "processBatch C cy t d s = (Inr j, d', s', sent)"
    "ready wire C R0 t n (min n (k + nat (bc_BatchSize C))) d' s'"
    using calm_cycle [OF assms] by metis
  then show ?thesis using that by (cases "0 < j") (auto simp: runTurn_def ready_def)
qed

lemma calm_turns:
  assumes "bc_rootStore C" "log_faithful wire C" "0 < bc_BatchSize C"
    "calm_run wire C n cys t d s" "ready wire C R0 t n k d s" "runTurns C cys t d s = (d', s')"
  shows "ready wire C R0 t n (min n (k + length cys * nat (bc_BatchSize C))) d' s'"
  using assms(4-6)
proof (induction cys arbitrary: k d s)
  case Nil
  then show ?case using ready_le [OF Nil(2)] by (simp add: min_absorb2)
next
  case (Cons cy cys)
  obtain nxt d1 s1 sent where r: "runTurn C None cy t d s = (nxt, d1, s1, sent)"
    "ready wire C R0 t n (min n (k + nat (bc_BatchSize C))) d1 s1"
    using Cons.prems(1) by (elim calm_turn [OF _ _ _ assms(1-3) Cons.prems(2), of cy, rotated 3]) auto
  have "min n (min n (k + nat (bc_BatchSize C)) + length cys * nat (bc_BatchSize C)) = min n (k + length (cy # cys) * nat (bc_BatchSize C))"
    by (simp add: min_def)
  then show ?case using Cons.IH [OF _ r(2)] Cons.prems r(1) by simp
qed

subsection \<open>Lost acknowledgements\<close>

lemma commitStep_lost_ack:
  assumes "commitStep C cy seqs ps R q res d s = (Inl (AtomicCommitErr (TxCommit e)), d', s')" "bc_rootStore C"
    "pe_commit (cy_commit cy) = Some (e, True)"
  shows "\<exists>rd. s' = s\<lparr>bl_reader := rd\<rparr>"
    "\<exists>lv. tables_at d' (br_NewRoot res) lv (maxSeq seqs)"
proof -
  obtain body rd where b: "commitBody C cy seqs R q res d (bl_reader s) = (body, rd)" by force
  have "body = Inr d'" using assms(1,3)
    by (auto simp: commitStep_def b endTx_def split: option.splits sum.splits prod.splits)
  then show "\<exists>lv. tables_at d' (br_NewRoot res) lv (maxSeq seqs)" using commitBody_Inr(2) [OF _ assms(2)] b by blast
  show "\<exists>rd. s' = s\<lparr>bl_reader := rd\<rparr>" using assms(1,3)
    by (auto simp: commitStep_def b endTx_def split: option.splits sum.splits prod.splits)
qed

subsection \<open>A small builder\<close>

definition demo_row :: "u64 \<Rightarrow> byte \<Rightarrow> index_row" where
  "demo_row s st = \<lparr>c_seq = s, c_hash = ucast s, c_logTime = 0, c_signer = ''x'', c_targetRoot = None, c_cosigOf = None,
     c_schemaRef = None, c_delegate = None, c_status = st, c_web3 = None, c_source = None, c_kind = None\<rparr>"

definition demo_rows :: "index_row list" where
  "demo_rows = [demo_row 0 StatusLive, demo_row 1 StatusTombstone]"

definition demo_pg_env :: "(pg_error \<times> bool) option \<Rightarrow> pg_env" where
  "demo_pg_env cm = \<lparr>pe_begin = None, pe_insert = None, pe_returning = None, pe_lookup = None, pe_lookup_rows = None,
     pe_ghost = None, pe_split = \<lambda>_. None, pe_rollback = None, pe_commit = cm, pe_now = 0\<rparr>"

definition demo_cursor_env :: cursor_env where
  "demo_cursor_env = \<lparr>cu_read = None, cu_next = None, cu_rows = None, cu_advance = None, cu_exec = None\<rparr>"

definition demo_pub_env :: pub_env where
  "demo_pub_env = \<lparr>pu_now = 0, pu_Generate = \<lambda>_ _ _ ms r. \<lparr>cm_PostSMTRoot = r, cm_Mutations = ms, cm_MutationCount = 0\<rparr>,
     pu_Marshal = \<lambda>_. Inr [], pu_Compute = \<lambda>_. ''c'', pu_contentStore = False, pu_Push = None, pu_Pin = None, pu_jsonRef = None,
     pu_NewEntry = None, pu_submitFn = False, pu_submit = None, pu_commitStore = False, pu_Insert = None\<rparr>"

definition demo_cycle :: "(pg_error \<times> bool) option \<Rightarrow> bytes cycle_env" where
  "demo_cycle cm = \<lparr>cy_ctxDequeue = None, cy_ctxFetch = None, cy_ctxCommit = None, cy_rootRead = None, cy_treeRoot = None,
     cy_frontier = Inr (0, 0), cy_dequeue = demo_pg_env None, cy_cursor = demo_cursor_env, cy_fetchAt = 0, cy_tiles = Map.empty,
     cy_AppendLeaf = \<lambda>_. Inr 0, cy_commit = demo_pg_env cm, cy_leaves = None, cy_cas = None, cy_delta = \<lambda>_. None, cy_pub = demo_pub_env, cy_isCtx = \<lambda>_. False\<rparr>"

definition demo_result :: "hash \<Rightarrow> ('b, 'n) BatchResult" where
  "demo_result r = \<lparr>br_Mutations = [], br_NewRoot = r, br_UpdatedBuffer = None, br_PathFailureReasons = [], br_allNodes = [], br_reachableNodes = []\<rparr>"

definition demo_builder :: "bool \<Rightarrow> (bytes, bytes, (hash \<times> LogPosition list) list, bytes) builder_cfg" where
  "demo_builder fr = \<lparr>bc_LogDID = ''d'', bc_BatchSize = clampBatchSize 1, bc_PollInterval = 100, bc_rootStore = True, bc_tileFrontier = fr,
     bc_maxTileLag = 0, bc_merkle = True, bc_bufferStore = True, bc_window = 10, bc_commitAllNodes = False, bc_delta = demo_delta,
     bc_Fetch = \<lambda>_ p. Inr (Some \<lparr>CanonicalBytes = [], EWM_LogTime = 0, Position = p, EWM_Web3Receipts = []\<rparr>),
     bc_Deserialize = Inr, bc_EntryIdentity = \<lambda>e. Inr (un_hash e), bc_HashNode = un_hash, bc_EmptyHash = 0,
     bc_ProcessBatch = \<lambda>R lv ns es b. Inr ((demo_result (R + word_of_nat (length es)))\<lparr>
        br_Mutations := map (\<lambda>e. \<lparr>mu_LeafKey = 5, mu_NewOriginTip = snd e, mu_NewAuthorityTip = snd e\<rparr>) es\<rparr>)\<rparr>"

definition demo_loop :: "((hash \<times> LogPosition list) list, bytes) builder" where
  "demo_loop = \<lparr>bl_reader = NewCursorReader, bl_tree = 9, bl_buffer = [], bl_nodes = NewTailedNodeStore False, bl_pub = None,
     bl_leafFailures = 0, bl_totalBatches = 0, bl_totalEntries = 0, bl_totalErrors = 0, bl_consecutiveErr = 0\<rparr>"

lemma demo_builder_fields:
  "bc_rootStore (demo_builder fr)" "bc_tileFrontier (demo_builder fr) = fr" "bc_BatchSize (demo_builder fr) = clampBatchSize 1"
  "bc_bufferStore (demo_builder fr)"
  by (simp_all add: demo_builder_def)

lemma demo_batch_size: "0 < bc_BatchSize (demo_builder fr)" "nat (bc_BatchSize (demo_builder fr)) = 1"
  by (simp_all add: demo_builder_fields clampBatchSize_def MaxBatchSize_def)

lemma demo_faithful: "log_faithful (\<lambda>_. []) (demo_builder fr)"
  by (simp add: log_faithful_def demo_builder_def posOf_def)

lemma demo_boots: "boots (demo_builder fr) [] (bl_buffer demo_loop)"
  unfolding boots_def
  by (intro exI [of _ 10] exI [of _ None])
    (simp add: demo_builder_def demo_loop_def NewDeltaBufferStore_def bootBuffer_def deltaLoad_def demo_delta_def Let_def)

lemma demo_cycle_calm: "cycle_calm (demo_cycle None)"
  by (simp add: cycle_calm_def demo_cycle_def demo_pg_env_def cursor_calm_def demo_cursor_env_def)

lemma demo_answers: "answers (\<lambda>_. []) (demo_builder fr) (demo_cycle cm) t d s"
  by (simp add: answers_def demo_builder_def demo_cycle_def)

lemma demo_gate: "gate_open (demo_builder fr) (demo_cycle cm) 2"
  by (simp add: gate_open_def demo_builder_def demo_cycle_def)

lemma demo_calm_run: "\<forall>cy\<in>set cys. cy = demo_cycle None \<Longrightarrow> calm_run (\<lambda>_. []) (demo_builder fr) 2 cys t d s"
proof (induction cys arbitrary: d s)
  case (Cons cy cys)
  then show ?case using demo_cycle_calm demo_answers demo_gate by (auto split: prod.splits)
qed simp

lemma demo_live: "live_from demo_rows 0 2 = [0]"
  by (simp add: live_from_def demo_rows_def demo_row_def upt_rec [of 0 2] upt_rec [of 1 2])

lemma demo_dense: "dense demo_rows 2"
proof -
  have "i = 0 \<or> i = 1" if "unat (i :: u64) < 2" for i
    using that less_2_cases [of "unat i"] by (auto simp: word_unat_eq_iff)
  then show ?thesis by (auto simp: dense_def demo_rows_def demo_row_def)
qed

abbreviation demo_sys :: "((hash \<times> LogPosition list) list, bytes) build_sys" where
  "demo_sys \<equiv> \<lparr>bs_db = fresh_db 9, bs_index = demo_rows, bs_loop = demo_loop\<rparr>"

lemma demo_start: "build_reach (\<lambda>_. []) (demo_builder fr) 9 demo_sys"
  using build_rows [OF build_start [OF demo_boots, of "\<lambda>_. []" fr 9], of demo_rows] demo_dense by (simp add: dense_def)

lemma demo_ready: "ready (\<lambda>_. []) (demo_builder fr) 9 demo_rows 2 0 (fresh_db 9) demo_loop"
  using build_follows [OF demo_start demo_builder_fields(1) demo_faithful, of fr] demo_dense
  by (auto simp: ready_def fresh_db_def)

lemma build_turns:
  assumes "build_reach wire C R0 y" "runTurns C cys (bs_index y) (bs_db y) (bs_loop y) = (d', s')"
  shows "build_reach wire C R0 (y\<lparr>bs_db := d', bs_loop := s'\<rparr>)"
  using assms
proof (induction cys arbitrary: y)
  case Nil
  then show ?case by (cases y) auto
next
  case (Cons cy cys)
  obtain nxt d1 s1 sent where r: "runTurn C None cy (bs_index y) (bs_db y) (bs_loop y) = (nxt, d1, s1, sent)" by (metis prod_cases4)
  from Cons.IH [OF build_turn [OF Cons.prems(1) r]] Cons.prems(2) r show ?case by simp
qed

lemma demo_build:
  "\<exists>y. build_reach (\<lambda>_. []) (demo_builder fr) 9 y \<and> bs_index y = demo_rows
     \<and> ready (\<lambda>_. []) (demo_builder fr) 9 demo_rows 2 2 (bs_db y) (bs_loop y)"
proof -
  let ?cys = "[demo_cycle None, demo_cycle None]"
  obtain d' s' where r: "runTurns (demo_builder fr) ?cys demo_rows (fresh_db 9) demo_loop = (d', s')" by force
  have "calm_run (\<lambda>_. []) (demo_builder fr) 2 ?cys demo_rows (fresh_db 9) demo_loop" by (rule demo_calm_run) simp
  from calm_turns [OF demo_builder_fields(1) demo_faithful demo_batch_size(1) this demo_ready r]
  have "ready (\<lambda>_. []) (demo_builder fr) 9 demo_rows 2 2 d' s'" by (simp add: demo_batch_size(2) numeral_2_eq_2)
  moreover have "build_reach (\<lambda>_. []) (demo_builder fr) 9 (demo_sys\<lparr>bs_db := d', bs_loop := s'\<rparr>)"
    by (rule build_turns [OF demo_start, where cys = ?cys]) (use r in simp)
  ultimately show ?thesis by (intro exI conjI) auto
qed

subsection \<open>Properties\<close>

text \<open>
  C2.  In every reachable state, whatever failed in between (any query, any
  commit with a known or unknown outcome, restarts, prunes of the node tail), the builder's four tables
  are those of a chain of batches in which every live entry below the cursor was processed exactly once
  and in order.  Every batch of the chain is \<open>ProcessBatch\<close> on the root and the leaves the chain
  had persisted and on the buffer and the node tail the loop then held in memory; root, leaves and the rows of
  the delta window are what the batches wrote one after the other, every number below the cursor has a
  row, and the committed sequence is the last live number.  The memory of the loop is the one the chain
  describes: after a batch whose acknowledgement was lost it is the memory from before that batch, until a restart
  loads the buffer from the rows.
\<close>

theorem builder_follows_log:
  assumes "build_reach wire C R0 y" and "bc_rootStore C" and "log_faithful wire C"
  shows "\<exists>c Bs R lv q. db_cursor (bs_db y) = Some c \<and> cursor_ok c
    \<and> {0..<passed c} \<subseteq> (\<lambda>r. unat (c_seq r)) ` set (bs_index y)
    \<and> concat Bs = live_from (bs_index y) 0 (passed c) \<and> [] \<notin> set Bs
    \<and> smt_chain wire C R0 Bs R lv q (db_delta (bs_db y)) (bl_buffer (bs_loop y), bl_nodes (bs_loop y))
    \<and> db_root (bs_db y) = Some \<lparr>rr_root = hash_bytes R, rr_seq = q\<rparr> \<and> map_of (db_leaves (bs_db y)) = lv
    \<and> q = (if Bs = [] then 0 else last (concat Bs))"
proof -
  have "follows wire C R0 (bs_index y) (bs_db y) (mem_of (bs_loop y))" using build_follows [OF assms] by blast
  then obtain c Bs R lv q where f: "db_cursor (bs_db y) = Some c" "cursor_ok c" "run_of (bs_index y) 0 (passed c)"
    "concat Bs = live_from (bs_index y) 0 (passed c)" "smt_chain wire C R0 Bs R lv q (db_delta (bs_db y)) (mem_of (bs_loop y))"
    "tables_at (bs_db y) R lv q" by (rule followsE)
  from chain_committed(1,2) [OF f(2,4,5)] f show ?thesis unfolding tables_at_def run_of_def mem_of_def by blast
qed

theorem builder_follows_log_witness:
  "\<exists>(y :: ((hash \<times> LogPosition list) list, bytes) build_sys) Bs R lv.
     bs_index y = demo_rows \<and> concat Bs = [0]
     \<and> smt_chain (\<lambda>_. []) (demo_builder True) 9 Bs R lv 0 (db_delta (bs_db y)) (bl_buffer (bs_loop y), bl_nodes (bs_loop y))
     \<and> db_root (bs_db y) = Some \<lparr>rr_root = hash_bytes R, rr_seq = 0\<rparr>"
proof -
  obtain y where y: "build_reach (\<lambda>_. []) (demo_builder True) 9 y" "bs_index y = demo_rows"
    "ready (\<lambda>_. []) (demo_builder True) 9 demo_rows 2 2 (bs_db y) (bs_loop y)" using demo_build by blast
  obtain c Bs R lv q where c: "db_cursor (bs_db y) = Some c" "concat Bs = live_from demo_rows 0 (passed c)"
    "smt_chain (\<lambda>_. []) (demo_builder True) 9 Bs R lv q (db_delta (bs_db y)) (bl_buffer (bs_loop y), bl_nodes (bs_loop y))"
    "db_root (bs_db y) = Some \<lparr>rr_root = hash_bytes R, rr_seq = q\<rparr>" "q = (if Bs = [] then 0 else last (concat Bs))"
    using builder_follows_log [OF y(1) demo_builder_fields(1) demo_faithful] y(2) by auto
  have "passed c = 2" using y(3) c(1) by (auto simp: ready_def)
  then have B: "concat Bs = [0]" using c(2) demo_live by simp
  then have "q = 0" using c(5) by auto
  with B c y(2) show ?thesis by auto
qed



text \<open>
  C32.  When the server commits a batch but the acknowledgement is lost,
  the new root is persisted while the loop keeps its old tree, delta buffer and node tail.  If neither the
  tail nor the tiles held the new root's node before, the next cycle starts from a root its node store cannot
  resolve; only a restart, which rebuilds the tail from the leaves, repairs it.
\<close>

theorem builder_lost_ack_strands_nodes:
  assumes "commitStep C cy seqs ps R q res d s = (Inl (AtomicCommitErr (TxCommit e)), d', s')" and "bc_rootStore C"
    and "pe_commit (cy_commit cy) = Some (e, True)" and "tailGet eh tiles (bl_nodes s) (br_NewRoot res) = None"
  shows "rootRead None (db_root d') = Inr \<lparr>CurrentRoot = br_NewRoot res, CommittedThroughSeq = maxSeq seqs\<rparr>
    \<and> tailGet eh tiles (bl_nodes s') (br_NewRoot res) = None \<and> bl_tree s' = bl_tree s \<and> bl_buffer s' = bl_buffer s"
proof -
  obtain rd where "s' = s\<lparr>bl_reader := rd\<rparr>" using commitStep_lost_ack(1) [OF assms(1,2,3)] by blast
  moreover obtain lv where "tables_at d' (br_NewRoot res) lv (maxSeq seqs)" using commitStep_lost_ack(2) [OF assms(1,2,3)] by blast
  ultimately show ?thesis using assms(4) by (simp add: tables_at_def rootRead_def pg_run_def)
qed

theorem builder_lost_ack_strands_nodes_witness:
  "\<exists>d' s'. commitStep (demo_builder False) (demo_cycle (Some (PgFault [], True))) [0] [] 9 0
       (demo_result 7) (fresh_db 9) demo_loop = (Inl (AtomicCommitErr (TxCommit (PgFault []))), d', s')
     \<and> rootRead None (db_root d') = Inr \<lparr>CurrentRoot = 7, CommittedThroughSeq = 0\<rparr>
     \<and> tailGet 0 Map.empty (bl_nodes s') 7 = None"
proof -
  let ?cy = "demo_cycle (Some (PgFault [], True)) :: bytes cycle_env"
  have "\<exists>d' s'. commitStep (demo_builder False) ?cy [0] [] 9 0 (demo_result 7) (fresh_db 9) demo_loop
      = (Inl (AtomicCommitErr (TxCommit (PgFault []))), d', s')"
    by (simp add: commitStep_def commitBody_def demo_cycle_def demo_result_def SetBatchTx_def coalesceLeafMutations_def demo_builder_fields
        SetTxCAS_def pg_run_def fresh_db_def CommitBatch_def demo_loop_def NewCursorReader_def AdvanceTx_def bigint_arg_def
        demo_cursor_env_def endTx_def demo_pg_env_def)
  then obtain d' s' where c: "commitStep (demo_builder False) ?cy [0] [] 9 0 (demo_result 7) (fresh_db 9) demo_loop
      = (Inl (AtomicCommitErr (TxCommit (PgFault []))), d', s')" by blast
  have "pe_commit (cy_commit ?cy) = Some (PgFault [], True)" by (simp add: demo_cycle_def demo_pg_env_def)
  moreover have "tailGet 0 Map.empty (bl_nodes demo_loop) (br_NewRoot (demo_result 7 :: ((hash \<times> LogPosition list) list, bytes) BatchResult)) = None"
    by (simp add: tailGet_def NewTailedNodeStore_def demo_loop_def)
  moreover have "br_NewRoot (demo_result 7 :: ((hash \<times> LogPosition list) list, bytes) BatchResult) = 7" "maxSeq [0] = 0"
    by (simp_all add: demo_result_def maxSeq_def)
  ultimately show ?thesis using builder_lost_ack_strands_nodes [OF c demo_builder_fields(1)] c by auto
qed

end
