(* ===== verification/TileEmitter.thy ===== *)
theory TileEmitter
  imports TailStore
begin

section \<open>Making a root's tiles durable\<close>

text \<open>
  Models \<open>store/tile_emitter.go\<close>.  The tile store is the association list of its objects; what
  its calls answer is \<open>emit_env\<close>: \<open>Exists\<close> may fail or answer anything, \<open>Put\<close> may
  fail.  The SDK's tile builders, its codec and the node hash are parameters.  \<open>tree_tiles\<close>
  stands for the identifiers of all tiles of a root.  What the emitter relies on is \<open>tile_contract\<close>:
  the incremental builder is complete only for a correct dirty set and an oracle without false positives.
  The fetch-after-write probe only logs.
\<close>

type_synonym tile_store = "(hash \<times> bytes) list"

record ('n, 't) tile_sdk =
  ti_HashNode :: "'n \<Rightarrow> hash"
  ti_Nodes :: "'t \<Rightarrow> 'n list"
  ti_Encode :: "'t \<Rightarrow> string + bytes"
  ti_BuildTiles :: "(hash \<rightharpoonup> 'n) \<Rightarrow> hash \<Rightarrow> string + (hash \<times> 't) list"
  ti_BuildDirtyTiles :: "(hash \<rightharpoonup> 'n) \<Rightarrow> (hash \<times> 'n) list \<Rightarrow> hash \<Rightarrow> hash \<Rightarrow> (hash \<Rightarrow> bool) \<Rightarrow> string + (hash \<times> 't) list"

record 'n emit_env =
  em_tailed :: bool
  em_nodes :: "hash \<rightharpoonup> 'n"
  em_tiled :: "hash \<rightharpoonup> 'n"
  em_Exists :: "tile_store \<Rightarrow> hash \<Rightarrow> string + bool"
  em_Put :: "hash \<Rightarrow> string option"
  em_index :: bool
  em_PutNodes :: "string option"

datatype emit_error = BuildErr string | EncodeErr hash string | PutErr hash string | IndexErr nat string

definition known :: "'n emit_env \<Rightarrow> tile_store \<Rightarrow> hash \<Rightarrow> bool" where
  "known E st i \<longleftrightarrow> em_Exists E st i = Inr True"

definition tailReadThrough :: "hash \<Rightarrow> (hash \<times> 'n) list \<Rightarrow> (hash \<rightharpoonup> 'n) \<Rightarrow> hash \<rightharpoonup> 'n" where
  "tailReadThrough eh tail tiled h =
     (if h = eh then None else (case map_of tail h of Some n \<Rightarrow> Some n | None \<Rightarrow> tiled h))"

definition buildTiles ::
  "('n, 't) tile_sdk \<Rightarrow> 'n emit_env \<Rightarrow> hash \<Rightarrow> 'n TailedNodeStore \<Rightarrow> tile_store \<Rightarrow> hash \<Rightarrow> hash \<Rightarrow> emit_error + (hash \<times> 't) list" where
  "buildTiles K E eh s st fromRoot committedRoot =
     mapE BuildErr
       (if \<not> em_tailed E then ti_BuildTiles K (em_nodes E) committedRoot
        else ti_BuildDirtyTiles K (tailReadThrough eh (tn_tail s) (em_tiled E)) (tn_tail s) committedRoot fromRoot (known E st))"

fun emitLoop ::
  "('n, 't) tile_sdk \<Rightarrow> 'n emit_env \<Rightarrow> (hash \<times> 't) list \<Rightarrow> tile_store \<Rightarrow> (emit_error + unit) \<times> tile_store" where
  "emitLoop K E [] st = (Inr (), st)"
| "emitLoop K E ((i, tile) # rest) st =
     (if em_Exists E st i = Inr True then emitLoop K E rest st
      else (case ti_Encode K tile of
              Inl e \<Rightarrow> (Inl (EncodeErr i e), st)
            | Inr enc \<Rightarrow>
                (case em_Put E i of
                   Some e \<Rightarrow> (Inl (PutErr i e), st)
                 | None \<Rightarrow> emitLoop K E rest (AList.update i enc st))))"

definition tileHashes :: "('n, 't) tile_sdk \<Rightarrow> (hash \<times> 't) list \<Rightarrow> hash list" where
  "tileHashes K ts = concat (map (\<lambda>(i, tile). map (ti_HashNode K) (ti_Nodes K tile)) ts)"

definition indexEntries :: "('n, 't) tile_sdk \<Rightarrow> (hash \<times> 't) list \<Rightarrow> (hash \<times> hash) list" where
  "indexEntries K ts =
     concat (map (\<lambda>(tp, tile). map (\<lambda>n. (ti_HashNode K n, tp)) (filter (\<lambda>n. ti_HashNode K n \<noteq> tp) (ti_Nodes K tile))) ts)"

definition EmitDurable ::
  "('n, 't) tile_sdk \<Rightarrow> 'n emit_env \<Rightarrow> hash \<Rightarrow> hash \<Rightarrow> hash \<Rightarrow> 'n TailedNodeStore \<Rightarrow> tile_store \<Rightarrow> (hash \<times> hash) list
   \<Rightarrow> (emit_error + hash list) \<times> tile_store \<times> (hash \<times> hash) list" where
  "EmitDurable K E eh fromRoot committedRoot s st idx =
     (if committedRoot = eh then (Inr [], st, idx)
      else
        (case buildTiles K E eh s st fromRoot committedRoot of
           Inl e \<Rightarrow> (Inl e, st, idx)
         | Inr tileSet \<Rightarrow>
             (case emitLoop K E tileSet st of
                (Inl e, st') \<Rightarrow> (Inl e, st', idx)
              | (Inr _, st') \<Rightarrow>
                  let entries = (if em_index E then indexEntries K tileSet else []) in
                  if entries \<noteq> [] \<and> em_PutNodes E \<noteq> None
                  then (Inl (IndexErr (length entries) (the (em_PutNodes E))), st', idx)
                  else (Inr (tileHashes K tileSet), st', idx @ entries))))"

subsection \<open>Durability\<close>

definition exists_sound :: "'n emit_env \<Rightarrow> bool" where
  "exists_sound E \<longleftrightarrow> (\<forall>st i. em_Exists E st i = Inr True \<longrightarrow> i \<in> fst ` set st)"

text \<open>
  The retention condition that makes a set of node hashes the right \<open>dirty\<close> argument for a root:
  a tile of the root whose top is not in the set is durable, and so is every tile below it.  The contract
  of the SDK's builders: a tile's top is itself the root of a tree of tiles; the full walk returns
  every tile of its root; and the incremental walk, given a correct dirty set and a \<open>known\<close> oracle
  that reports durable tiles only, returns every tile of its root that is not durable.  With a wrong dirty
  set it promises nothing.
\<close>

definition dirty_for :: "(hash \<Rightarrow> hash set) \<Rightarrow> hash set \<Rightarrow> hash set \<Rightarrow> hash \<Rightarrow> bool" where
  "dirty_for tree_tiles durable dirty r \<longleftrightarrow> (\<forall>i \<in> tree_tiles r. i \<in> dirty \<or> tree_tiles i \<subseteq> durable)"

definition tile_contract :: "('n, 't) tile_sdk \<Rightarrow> hash \<Rightarrow> (hash \<Rightarrow> hash set) \<Rightarrow> bool" where
  "tile_contract K eh tree_tiles \<longleftrightarrow>
     tree_tiles eh = {}
     \<and> (\<forall>r. \<forall>i \<in> tree_tiles r. i \<in> tree_tiles i \<and> tree_tiles i \<subseteq> tree_tiles r)
     \<and> (\<forall>ns r ts. ti_BuildTiles K ns r = Inr ts \<longrightarrow> tree_tiles r \<subseteq> fst ` set ts)
     \<and> (\<forall>ns tail r r0 kn ts durable. ti_BuildDirtyTiles K ns tail r r0 kn = Inr ts \<longrightarrow> {i. kn i} \<subseteq> durable
          \<longrightarrow> dirty_for tree_tiles durable (fst ` set tail) r \<longrightarrow> tree_tiles r \<subseteq> fst ` set ts \<union> durable)"

lemma dirty_for_mono: "dirty_for T S d r \<Longrightarrow> S \<subseteq> S' \<Longrightarrow> d \<subseteq> d' \<Longrightarrow> dirty_for T S' d' r"
  unfolding dirty_for_def by blast

lemma tile_contractD:
  assumes "tile_contract K eh T"
  shows "T eh = {}" "i \<in> T r \<Longrightarrow> i \<in> T i" "i \<in> T r \<Longrightarrow> T i \<subseteq> T r" "ti_BuildTiles K ns r = Inr ts \<Longrightarrow> T r \<subseteq> fst ` set ts"
    "ti_BuildDirtyTiles K ns tail r r0 kn = Inr ts \<Longrightarrow> {i. kn i} \<subseteq> S \<Longrightarrow> dirty_for T S (fst ` set tail) r \<Longrightarrow> T r \<subseteq> fst ` set ts \<union> S"
  using assms unfolding tile_contract_def by - (elim conjE, simp)+

lemma dirty_for_durable: "tile_contract K eh T \<Longrightarrow> T r \<subseteq> S \<Longrightarrow> dirty_for T S d r"
  unfolding dirty_for_def using tile_contractD(3) by (blast intro: order_trans)

lemma keys_update: "fst ` set (AList.update k v xs) = insert k (fst ` set xs)"
  using dom_map_of_conv_image_fst [of "AList.update k v xs"] dom_map_of_conv_image_fst [of xs]
  by (simp add: update_conv' dom_fun_upd del: dom_map_of_conv_image_fst)

lemma emitLoop_grows: "emitLoop K E ts st = (r, st') \<Longrightarrow> fst ` set st \<subseteq> fst ` set st'"
proof (induction K E ts st rule: emitLoop.induct)
  case (2 K E i tile rest st)
  show ?case
  proof (cases "em_Exists E st i = Inr True")
    case True
    then show ?thesis using 2(1) 2(3) by simp
  next
    case False
    show ?thesis
    proof (cases "\<exists>enc. ti_Encode K tile = Inr enc \<and> em_Put E i = None")
      case True
      then obtain enc where enc: "ti_Encode K tile = Inr enc" "em_Put E i = None" by blast
      then have "emitLoop K E rest (AList.update i enc st) = (r, st')" using 2(3) False by simp
      from 2(2) [OF False enc this] show ?thesis by (simp add: keys_update)
    qed (use 2(3) False in \<open>auto split: sum.splits option.splits\<close>)
  qed
qed simp

lemma emitLoop_all:
  assumes "emitLoop K E ts st = (Inr u, st')" "exists_sound E"
  shows "fst ` set ts \<subseteq> fst ` set st'"
  using assms
proof (induction K E ts st rule: emitLoop.induct)
  case (2 K E i tile rest st)
  show ?case
  proof (cases "em_Exists E st i = Inr True")
    case True
    then have rec: "emitLoop K E rest st = (Inr u, st')" using 2(3) by simp
    have "i \<in> fst ` set st" using True 2(4) by (simp add: exists_sound_def)
    then have "i \<in> fst ` set st'" using emitLoop_grows [OF rec] by (rule subsetD [rotated])
    then show ?thesis using 2(1) [OF True rec 2(4)] by simp
  next
    case False
    obtain enc where enc: "ti_Encode K tile = Inr enc" "em_Put E i = None" using 2(3) False
      by (auto split: sum.splits option.splits)
    have rec: "emitLoop K E rest (AList.update i enc st) = (Inr u, st')" using 2(3) False enc by simp
    then have "i \<in> fst ` set st'" using emitLoop_grows [OF rec] by (auto simp: keys_update)
    then show ?thesis using 2(2) [OF False enc rec 2(4)] by simp
  qed
qed simp

lemma EmitDurable_store:
  "EmitDurable K E eh r0 r s st idx = (out, st', idx') \<Longrightarrow> fst ` set st \<subseteq> fst ` set st'"
  by (auto simp: EmitDurable_def Let_def split: if_splits sum.splits prod.splits dest!: emitLoop_grows)

lemma buildTiles_complete:
  assumes "buildTiles K E eh s st r0 r = Inr ts" "exists_sound E" "tile_contract K eh T"
    and "em_tailed E \<Longrightarrow> dirty_for T (fst ` set st) (fst ` set (tn_tail s)) r"
  shows "T r \<subseteq> fst ` set ts \<union> fst ` set st"
proof (cases "em_tailed E")
  case True
  then have run: "ti_BuildDirtyTiles K (tailReadThrough eh (tn_tail s) (em_tiled E)) (tn_tail s) r r0 (known E st) = Inr ts"
    using assms(1) by (simp add: buildTiles_def)
  have "{i. known E st i} \<subseteq> fst ` set st" using assms(2) by (auto simp: known_def exists_sound_def)
  from tile_contractD(5) [OF assms(3) run this assms(4) [OF True]] show ?thesis .
next
  case False
  then have "ti_BuildTiles K (em_nodes E) r = Inr ts" using assms(1) by (simp add: buildTiles_def)
  then have "T r \<subseteq> fst ` set ts" by (rule tile_contractD(4) [OF assms(3)])
  then show ?thesis by blast
qed

lemma EmitDurable_durable:
  assumes "EmitDurable K E eh r0 r s st idx = (Inr hs, st', idx')" "exists_sound E" "tile_contract K eh T"
    and "em_tailed E \<Longrightarrow> dirty_for T (fst ` set st) (fst ` set (tn_tail s)) r"
  shows "T r \<subseteq> fst ` set st'"
proof (cases "r = eh")
  case False
  obtain ts where ts: "buildTiles K E eh s st r0 r = Inr ts" using assms(1) False
    by (auto simp: EmitDurable_def split: sum.splits)
  obtain u where lp: "emitLoop K E ts st = (Inr u, st')" using assms(1) False ts
    by (auto simp: EmitDurable_def Let_def split: sum.splits prod.splits if_splits)
  show ?thesis using buildTiles_complete [OF ts assms(2-4)] emitLoop_all [OF lp assms(2)] emitLoop_grows [OF lp] by blast
qed (simp add: tile_contractD(1) [OF assms(3)])

end
