(* ===== verification/TreeHeads.thy ===== *)
theory TreeHeads
  imports Prelude
begin

section \<open>Tree heads and their signatures\<close>

text \<open>
  Models \<open>store/tree_heads.go\<close>.  The two tables are lists of rows with the primary keys of
  migration 0001; \<open>created_at\<close> is left out.  A failing statement reports an error and carries a flag
  that says whether it took effect.  \<open>quorum\<close> is the correlated count of the queries: at least so
  many distinct signers of the row's size and hash algorithm.  The size columns are \<open>bigint\<close>:
  a size of \<open>2 ^ 63\<close> or more, which the driver refuses, is one of the failing statements.
\<close>

record TreeHead =
  th_TreeSize :: u64
  th_RootHash :: hash
  th_SMTRoot :: hash
  th_ReceiptRoot :: hash

record head_row =
  hr_head :: TreeHead
  hr_algo :: u16

record sig_row =
  sr_size :: u64
  sr_algo :: u16
  sr_signer :: string
  sr_sigAlgo :: u16
  sr_signature :: bytes

record head_tables =
  ht_heads :: "head_row list"
  ht_sigs :: "sig_row list"
  ht_cached :: "(head_row \<times> sig_row list) option"

datatype head_error = HeadFault string

type_synonym write_fault = "(string \<times> bool) option"

subsection \<open>Writes\<close>

definition Invalidate :: "head_tables \<Rightarrow> head_tables" where "Invalidate T = T\<lparr>ht_cached := None\<rparr>"

definition InsertHead :: "write_fault \<Rightarrow> TreeHead \<Rightarrow> u16 \<Rightarrow> head_tables \<Rightarrow> (head_error + unit) \<times> head_tables" where
  "InsertHead flt h algo T =
     (let T' = (if \<exists>r \<in> set (ht_heads T). th_TreeSize (hr_head r) = th_TreeSize h \<and> hr_algo r = algo then T
                else T\<lparr>ht_heads := ht_heads T @ [\<lparr>hr_head = h, hr_algo = algo\<rparr>]\<rparr>) in
      case flt of
        None \<Rightarrow> (Inr (), T')
      | Some (e, applied) \<Rightarrow> (Inl (HeadFault e), if applied then T' else T))"

text \<open>A signature row needs its head row (foreign key).\<close>

definition InsertSig :: "write_fault \<Rightarrow> sig_row \<Rightarrow> head_tables \<Rightarrow> (head_error + unit) \<times> head_tables" where
  "InsertSig flt s T =
     (if \<exists>r \<in> set (ht_sigs T). sr_size r = sr_size s \<and> sr_algo r = sr_algo s \<and> sr_signer r = sr_signer s \<and> sr_sigAlgo r = sr_sigAlgo s
      then (case flt of
              None \<Rightarrow> (Inr (), if ht_cached T = None \<or> th_TreeSize (hr_head (fst (the (ht_cached T)))) \<le> sr_size s then Invalidate T else T)
            | Some (e, _) \<Rightarrow> (Inl (HeadFault e), T))
      else if \<not> (\<exists>r \<in> set (ht_heads T). th_TreeSize (hr_head r) = sr_size s \<and> hr_algo r = sr_algo s)
      then (Inl (HeadFault ''foreign key violation''), T)
      else
        let T' = T\<lparr>ht_sigs := ht_sigs T @ [s]\<rparr> in
        (case flt of
           None \<Rightarrow> (Inr (), if ht_cached T = None \<or> th_TreeSize (hr_head (fst (the (ht_cached T)))) \<le> sr_size s then Invalidate T' else T')
         | Some (e, applied) \<Rightarrow> (Inl (HeadFault e), if applied then T' else T)))"

subsection \<open>Queries\<close>

definition sigsOf :: "head_tables \<Rightarrow> u64 \<Rightarrow> u16 \<Rightarrow> sig_row list" where
  "sigsOf T sz algo = filter (\<lambda>s. sr_size s = sz \<and> sr_algo s = algo) (ht_sigs T)"

definition fetchSigs :: "string option \<Rightarrow> u64 \<Rightarrow> u16 \<Rightarrow> head_tables \<Rightarrow> head_error + sig_row list" where
  "fetchSigs flt sz algo T =
     (case flt of
        Some e \<Rightarrow> Inl (HeadFault e)
      | None \<Rightarrow> Inr (sort_key (\<lambda>s. - sint (sr_sigAlgo s)) (sort_key (\<lambda>s. map of_char (sr_signer s) :: nat list) (sigsOf T sz algo))))"

definition signers :: "head_tables \<Rightarrow> head_row \<Rightarrow> nat" where
  "signers T r = length (remdups (map sr_signer (sigsOf T (th_TreeSize (hr_head r)) (hr_algo r))))"

definition cosignedRows :: "int \<Rightarrow> head_tables \<Rightarrow> head_row list" where
  "cosignedRows minSigs T = filter (\<lambda>r. minSigs \<le> int (signers T r)) (ht_heads T)"

text \<open>\<open>ORDER BY tree_size DESC, hash_algo DESC LIMIT 1\<close>, and its ascending form.\<close>

definition maxRow :: "head_row list \<Rightarrow> head_row option" where
  "maxRow rs = (if rs = [] then None else Some (last (sort_key (\<lambda>r. th_TreeSize (hr_head r)) (sort_key (\<lambda>r. sint (hr_algo r)) rs))))"

definition minRow :: "head_row list \<Rightarrow> head_row option" where
  "minRow rs = (if rs = [] then None else Some (hd (sort_key (\<lambda>r. th_TreeSize (hr_head r)) (sort_key (\<lambda>r. sint (hr_algo r)) rs))))"

definition withSigs :: "string option \<Rightarrow> head_tables \<Rightarrow> head_row option \<Rightarrow> head_error + (head_row \<times> sig_row list) option" where
  "withSigs flt T ro =
     (case ro of
        None \<Rightarrow> Inr None
      | Some r \<Rightarrow> bindE (fetchSigs flt (th_TreeSize (hr_head r)) (hr_algo r) T) (\<lambda>sigs. Inr (Some (r, sigs))))"

definition fetchLatest :: "string option \<Rightarrow> string option \<Rightarrow> head_tables \<Rightarrow> head_error + (head_row \<times> sig_row list) option" where
  "fetchLatest flt flt2 T = (case flt of Some e \<Rightarrow> Inl (HeadFault e) | None \<Rightarrow> withSigs flt2 T (maxRow (ht_heads T)))"

definition Latest :: "string option \<Rightarrow> string option \<Rightarrow> head_tables \<Rightarrow> (head_error + (head_row \<times> sig_row list) option) \<times> head_tables" where
  "Latest flt flt2 T =
     (case ht_cached T of
        Some c \<Rightarrow> (Inr (Some c), T)
      | None \<Rightarrow>
          (case fetchLatest flt flt2 T of
             Inl e \<Rightarrow> (Inl e, T)
           | Inr None \<Rightarrow> (Inr None, T)
           | Inr (Some c) \<Rightarrow> (Inr (Some c), T\<lparr>ht_cached := Some c\<rparr>)))"

definition LatestCosigned :: "string option \<Rightarrow> string option \<Rightarrow> int \<Rightarrow> head_tables \<Rightarrow> head_error + (head_row \<times> sig_row list) option" where
  "LatestCosigned flt flt2 minSigs T = (case flt of Some e \<Rightarrow> Inl (HeadFault e) | None \<Rightarrow> withSigs flt2 T (maxRow (cosignedRows minSigs T)))"

definition GetBySize :: "string option \<Rightarrow> string option \<Rightarrow> u64 \<Rightarrow> head_tables \<Rightarrow> head_error + (head_row \<times> sig_row list) option" where
  "GetBySize flt flt2 sz T =
     (case flt of
        Some e \<Rightarrow> Inl (HeadFault e)
      | None \<Rightarrow> withSigs flt2 T (minRow (filter (\<lambda>r. th_TreeSize (hr_head r) = sz) (ht_heads T))))"

definition CosignedSizeAtOrAbove :: "string option \<Rightarrow> u64 \<Rightarrow> int \<Rightarrow> head_tables \<Rightarrow> head_error + u64 option" where
  "CosignedSizeAtOrAbove flt minSize minSigs T =
     (case flt of
        Some e \<Rightarrow> Inl (HeadFault e)
      | None \<Rightarrow> Inr (map_option (\<lambda>r. th_TreeSize (hr_head r)) (minRow (filter (\<lambda>r. minSize \<le> th_TreeSize (hr_head r)) (cosignedRows minSigs T)))))"

definition CosignedSizeBelow :: "string option \<Rightarrow> u64 \<Rightarrow> int \<Rightarrow> head_tables \<Rightarrow> head_error + u64 option" where
  "CosignedSizeBelow flt sz minSigs T =
     (case flt of
        Some e \<Rightarrow> Inl (HeadFault e)
      | None \<Rightarrow> Inr (map_option (\<lambda>r. th_TreeSize (hr_head r)) (maxRow (filter (\<lambda>r. th_TreeSize (hr_head r) < sz) (cosignedRows minSigs T)))))"

subsection \<open>Cosigned sizes\<close>

definition cosigned :: "int \<Rightarrow> head_tables \<Rightarrow> u64 set" where
  "cosigned K T = (\<lambda>r. th_TreeSize (hr_head r)) ` set (cosignedRows K T)"

lemma sorted_last_max: "sorted (map f xs) \<Longrightarrow> x \<in> set xs \<Longrightarrow> f x \<le> f (last xs)"
  by (induction xs) auto

lemma sorted_hd_min: "sorted (map f xs) \<Longrightarrow> x \<in> set xs \<Longrightarrow> f (hd xs) \<le> f x"
  by (cases xs) auto

lemma maxRow_None [simp]: "maxRow rs = None \<longleftrightarrow> rs = []" by (simp add: maxRow_def)

lemma minRow_None [simp]: "minRow rs = None \<longleftrightarrow> rs = []" by (simp add: minRow_def)

lemma maxRow_Some:
  assumes "maxRow rs = Some r"
  shows "r \<in> set rs" "x \<in> set rs \<Longrightarrow> th_TreeSize (hr_head x) \<le> th_TreeSize (hr_head r)"
proof -
  let ?s = "sort_key (\<lambda>r. th_TreeSize (hr_head r)) (sort_key (\<lambda>r. sint (hr_algo r)) rs)"
  have ne: "rs \<noteq> []" and r: "r = last ?s" using assms by (auto simp: maxRow_def split: if_splits)
  have "?s \<noteq> []" using ne by (metis length_0_conv length_sort)
  then show "r \<in> set rs" using r last_in_set [of ?s] by simp
  show "x \<in> set rs \<Longrightarrow> th_TreeSize (hr_head x) \<le> th_TreeSize (hr_head r)"
    using sorted_last_max [of "\<lambda>r. th_TreeSize (hr_head r)" ?s x] by (simp add: r)
qed

lemma minRow_Some:
  assumes "minRow rs = Some r"
  shows "r \<in> set rs" "x \<in> set rs \<Longrightarrow> th_TreeSize (hr_head r) \<le> th_TreeSize (hr_head x)"
proof -
  let ?s = "sort_key (\<lambda>r. th_TreeSize (hr_head r)) (sort_key (\<lambda>r. sint (hr_algo r)) rs)"
  have ne: "rs \<noteq> []" and r: "r = hd ?s" using assms by (auto simp: minRow_def split: if_splits)
  have "?s \<noteq> []" using ne by (metis length_0_conv length_sort)
  then show "r \<in> set rs" using r hd_in_set [of ?s] by simp
  show "x \<in> set rs \<Longrightarrow> th_TreeSize (hr_head r) \<le> th_TreeSize (hr_head x)"
    using sorted_hd_min [of "\<lambda>r. th_TreeSize (hr_head r)" ?s x] by (simp add: r)
qed

text \<open>The two size queries return the neighbours among the cosigned sizes.\<close>

lemma CosignedSizeBelow_spec:
  "CosignedSizeBelow None sz K T = Inr (if {s \<in> cosigned K T. s < sz} = {} then None else Some (Max {s \<in> cosigned K T. s < sz}))"
proof (cases "maxRow (filter (\<lambda>r. th_TreeSize (hr_head r) < sz) (cosignedRows K T))")
  case None
  then have "{s \<in> cosigned K T. s < sz} = {}" by (auto simp: cosigned_def filter_empty_conv)
  then show ?thesis using None by (simp add: CosignedSizeBelow_def)
next
  case (Some r)
  note m = maxRow_Some [OF Some]
  have "Max {s \<in> cosigned K T. s < sz} = th_TreeSize (hr_head r)"
    by (rule Max_eqI) (use m in \<open>auto simp: cosigned_def\<close>)
  moreover have "th_TreeSize (hr_head r) \<in> {s \<in> cosigned K T. s < sz}" using m(1) by (auto simp: cosigned_def)
  ultimately show ?thesis using Some by (auto simp: CosignedSizeBelow_def)
qed

lemma CosignedSizeAtOrAbove_spec:
  "CosignedSizeAtOrAbove None sz K T = Inr (if {s \<in> cosigned K T. sz \<le> s} = {} then None else Some (Min {s \<in> cosigned K T. sz \<le> s}))"
proof (cases "minRow (filter (\<lambda>r. sz \<le> th_TreeSize (hr_head r)) (cosignedRows K T))")
  case None
  then have "{s \<in> cosigned K T. sz \<le> s} = {}" by (auto simp: cosigned_def filter_empty_conv)
  then show ?thesis using None by (simp add: CosignedSizeAtOrAbove_def)
next
  case (Some r)
  note m = minRow_Some [OF Some]
  have "Min {s \<in> cosigned K T. sz \<le> s} = th_TreeSize (hr_head r)"
    by (rule Min_eqI) (use m in \<open>auto simp: cosigned_def\<close>)
  moreover have "th_TreeSize (hr_head r) \<in> {s \<in> cosigned K T. sz \<le> s}" using m(1) by (auto simp: cosigned_def)
  ultimately show ?thesis using Some by (auto simp: CosignedSizeAtOrAbove_def)
qed

end
