(* ===== verification/HeadSync.thy ===== *)
theory HeadSync
  imports TreeHeads
begin

section \<open>Collecting cosignatures\<close>

text \<open>
  Models \<open>witnessclient/head_sync.go\<close>.  The SDK's collector, the JSON encoding of a signature and
  its scheme tag are parameters; \<open>CollectionResult\<close> has the signatures and, per endpoint, the error
  of its request.  The endpoint resolver, the HTTP clients and the gossip publisher are represented by the
  list of endpoints.
\<close>

record HeadSync =
  hs_collector :: bool
  hs_endpoints :: "string list"

record 'w CollectionResult =
  co_Signatures :: "'w list"
  co_PerEndpoint :: "string option list"

datatype cosign_error =
    ErrNoCosigner
  | ErrInvalidPayload string
  | CollectFailed string
  | PersistHead head_error
  | EncodeSig string string
  | PersistSig string head_error

record 'w sync_env =
  se_Collect :: "TreeHead \<Rightarrow> cosign_error + 'w CollectionResult"
  se_head :: write_fault
  se_sig :: "nat \<Rightarrow> write_fault"
  se_Marshal :: "'w \<Rightarrow> string + bytes"
  se_SchemeTag :: "'w \<Rightarrow> byte"

datatype sync_error = QuorumKNotPositive | EmptyLogDID | NoResolver | ResolveErr string | NoEndpoints | NoHTTPClient | ClientErr string string | CollectorErr string

text \<open>The endpoints of the on-log resolver; an error or an empty answer is refused.\<close>

definition resolveEffectiveEndpoints :: "(string \<Rightarrow> string + string list) option \<Rightarrow> string \<Rightarrow> sync_error + string list" where
  "resolveEffectiveEndpoints resolver logDID =
     (case resolver of
        None \<Rightarrow> Inl NoResolver
      | Some f \<Rightarrow> bindE (mapE ResolveErr (f logDID)) (\<lambda>urls. if urls = [] then Inl NoEndpoints else Inr urls))"

fun newClients :: "(string \<Rightarrow> string option) \<Rightarrow> string list \<Rightarrow> sync_error + unit" where
  "newClients client [] = Inr ()"
| "newClients client (ep # eps) = (case client ep of Some e \<Rightarrow> Inl (ClientErr ep e) | None \<Rightarrow> newClients client eps)"

definition NewHeadSync ::
  "int \<Rightarrow> (string \<Rightarrow> string + string list) option \<Rightarrow> string \<Rightarrow> bool \<Rightarrow> (string \<Rightarrow> string option) \<Rightarrow> (nat \<Rightarrow> int \<Rightarrow> string option)
   \<Rightarrow> sync_error + HeadSync" where
  "NewHeadSync quorumK resolver logDID httpClient client collector =
     (if quorumK \<le> 0 then Inl QuorumKNotPositive
      else if resolver \<noteq> None \<and> logDID = [] then Inl EmptyLogDID
      else
        bindE (resolveEffectiveEndpoints resolver logDID) (\<lambda>eps.
          if \<not> httpClient then Inl NoHTTPClient
          else
            bindE (newClients client eps) (\<lambda>_.
              case collector (length eps) quorumK of
                Some e \<Rightarrow> Inl (CollectorErr e)
              | None \<Rightarrow> Inr \<lparr>hs_collector = True, hs_endpoints = eps\<rparr>)))"

subsection \<open>Persistence\<close>

fun contributing :: "string list \<Rightarrow> nat \<Rightarrow> string option list \<Rightarrow> nat \<Rightarrow> string list \<Rightarrow> string list" where
  "contributing eps n [] i acc = acc"
| "contributing eps n (e # es) i acc =
     (let acc' = (if e = None \<and> i < length eps then acc @ [eps ! i] else acc) in
      if n \<le> length acc' then acc' else contributing eps n es (i + 1) acc')"

fun decimal :: "nat \<Rightarrow> string" where
  "decimal n = (if n < 10 then [char_of (48 + n)] else decimal (n div 10) @ [char_of (48 + n mod 10)])"

declare decimal.simps [simp del]

definition signerLabel :: "string list \<Rightarrow> nat \<Rightarrow> string" where
  "signerLabel contrib i = (if i < length contrib then contrib ! i else ''witness:'' @ decimal i)"

definition hashAlgo :: u16 where "hashAlgo = 1"

fun persistLoop :: "'w sync_env \<Rightarrow> TreeHead \<Rightarrow> string list \<Rightarrow> nat \<Rightarrow> 'w list \<Rightarrow> head_tables \<Rightarrow> (cosign_error + unit) \<times> head_tables" where
  "persistLoop E h contrib i [] T = (Inr (), T)"
| "persistLoop E h contrib i (w # ws) T =
     (case se_Marshal E w of
        Inl e \<Rightarrow> (Inl (EncodeSig (signerLabel contrib i) e), T)
      | Inr raw \<Rightarrow>
          (case InsertSig (se_sig E i)
                  \<lparr>sr_size = th_TreeSize h, sr_algo = hashAlgo, sr_signer = signerLabel contrib i, sr_sigAlgo = ucast (se_SchemeTag E w), sr_signature = raw\<rparr> T of
             (Inl e, T') \<Rightarrow> (Inl (PersistSig (signerLabel contrib i) e), T')
           | (Inr _, T') \<Rightarrow> persistLoop E h contrib (i + 1) ws T'))"

definition persistSignatures :: "HeadSync \<Rightarrow> 'w sync_env \<Rightarrow> TreeHead \<Rightarrow> 'w CollectionResult \<Rightarrow> head_tables \<Rightarrow> (cosign_error + unit) \<times> head_tables" where
  "persistSignatures hs E h res T =
     persistLoop E h (contributing (hs_endpoints hs) (length (co_Signatures res)) (co_PerEndpoint res) 0 []) 0 (co_Signatures res) T"

definition RequestCosignatures :: "HeadSync option \<Rightarrow> 'w sync_env \<Rightarrow> TreeHead \<Rightarrow> head_tables \<Rightarrow> (cosign_error + 'w list) \<times> head_tables" where
  "RequestCosignatures hso E h T =
     (case hso of
        None \<Rightarrow> (Inl ErrNoCosigner, T)
      | Some hs \<Rightarrow>
          if \<not> hs_collector hs then (Inl ErrNoCosigner, T)
          else
            (case se_Collect E h of
               Inl e \<Rightarrow> (Inl e, T)
             | Inr res \<Rightarrow>
                 (case InsertHead (se_head E) h hashAlgo T of
                    (Inl e, T1) \<Rightarrow> (Inl (PersistHead e), T1)
                  | (Inr _, T1) \<Rightarrow>
                      (case persistSignatures hs E h res T1 of
                         (Inl e, T2) \<Rightarrow> (Inl e, T2)
                       | (Inr _, T2) \<Rightarrow> (Inr (co_Signatures res), Invalidate T2)))))"

subsection \<open>What a request leaves behind\<close>

text \<open>
  The contract the checkpoint loop and the receipt handler rely on: at most the row of this head is added,
  and only when its size has none; no size but the head's becomes cosigned; a success makes it cosigned.
\<close>

definition lawful_cosigner :: "int \<Rightarrow> (TreeHead \<Rightarrow> head_tables \<Rightarrow> (cosign_error + 'x) \<times> head_tables) \<Rightarrow> bool" where
  "lawful_cosigner K f \<longleftrightarrow> (\<forall>h T out T'. f h T = (out, T') \<longrightarrow>
     set (ht_heads T) \<subseteq> set (ht_heads T')
     \<and> (\<forall>r \<in> set (ht_heads T'). r \<in> set (ht_heads T) \<or>
          r = \<lparr>hr_head = h, hr_algo = hashAlgo\<rparr> \<and> (\<forall>r0 \<in> set (ht_heads T). th_TreeSize (hr_head r0) = th_TreeSize h \<longrightarrow> hr_algo r0 \<noteq> hashAlgo))
     \<and> cosigned K T \<subseteq> cosigned K T' \<and> cosigned K T' \<subseteq> insert (th_TreeSize h) (cosigned K T)
     \<and> (okE out \<longrightarrow> th_TreeSize h \<in> cosigned K T'))"

text \<open>Tables grow by the head row of \<open>h\<close> and by signatures of its size.\<close>

definition extends :: "TreeHead \<Rightarrow> head_tables \<Rightarrow> head_tables \<Rightarrow> bool" where
  "extends h T T' \<longleftrightarrow>
     (ht_heads T' = ht_heads T \<or>
      ht_heads T' = ht_heads T @ [\<lparr>hr_head = h, hr_algo = hashAlgo\<rparr>]
      \<and> (\<forall>r0 \<in> set (ht_heads T). th_TreeSize (hr_head r0) = th_TreeSize h \<longrightarrow> hr_algo r0 \<noteq> hashAlgo))
     \<and> (\<exists>ss. ht_sigs T' = ht_sigs T @ ss \<and> (\<forall>s \<in> set ss. sr_size s = th_TreeSize h \<and> sr_algo s = hashAlgo))"

lemma InsertHead_extends:
  assumes "InsertHead flt h hashAlgo T = (out, T')"
  shows "extends h T T'" "ht_sigs T' = ht_sigs T"
    "okE out \<Longrightarrow> \<exists>r \<in> set (ht_heads T'). th_TreeSize (hr_head r) = th_TreeSize h \<and> hr_algo r = hashAlgo"
  using assms by (auto simp: InsertHead_def extends_def Let_def split: if_splits option.splits)

lemma InsertSig_extends:
  assumes "InsertSig flt s T = (out, T')"
  shows "ht_heads T' = ht_heads T" "ht_sigs T' = ht_sigs T \<or> ht_sigs T' = ht_sigs T @ [s]"
    "okE out \<Longrightarrow> \<exists>r \<in> set (ht_sigs T'). sr_size r = sr_size s \<and> sr_algo r = sr_algo s \<and> sr_signer r = sr_signer s"
  using assms by (auto simp: InsertSig_def Invalidate_def Let_def split: if_splits option.splits)

definition signed_by :: "TreeHead \<Rightarrow> head_tables \<Rightarrow> string \<Rightarrow> bool" where
  "signed_by h T x \<longleftrightarrow> (\<exists>r \<in> set (ht_sigs T). sr_size r = th_TreeSize h \<and> sr_algo r = hashAlgo \<and> sr_signer r = x)"

lemma persistLoop_extends:
  "persistLoop E h contrib i ws T = (out, T') \<Longrightarrow> ht_heads T' = ht_heads T
    \<and> (\<exists>ss. ht_sigs T' = ht_sigs T @ ss \<and> (\<forall>s \<in> set ss. sr_size s = th_TreeSize h \<and> sr_algo s = hashAlgo))
    \<and> (okE out \<longrightarrow> (\<forall>j < length ws. signed_by h T' (signerLabel contrib (i + j))))"
proof (induction ws arbitrary: i T)
  case (Cons w ws)
  show ?case
  proof (cases "se_Marshal E w")
    case (Inl e)
    then show ?thesis using Cons.prems by auto
  next
    case (Inr raw)
    let ?s = "\<lparr>sr_size = th_TreeSize h, sr_algo = hashAlgo, sr_signer = signerLabel contrib i, sr_sigAlgo = ucast (se_SchemeTag E w), sr_signature = raw\<rparr>"
    obtain o1 T1 where ins: "InsertSig (se_sig E i) ?s T = (o1, T1)" by force
    note i1 = InsertSig_extends [OF ins]
    then obtain s1 where s1: "ht_sigs T1 = ht_sigs T @ s1" "\<forall>s \<in> set s1. sr_size s = th_TreeSize h \<and> sr_algo s = hashAlgo" by fastforce
    show ?thesis
    proof (cases o1)
      case (Inl e)
      then show ?thesis using Cons.prems Inr ins i1(1) s1 by auto
    next
      case (Inr u)
      then have rec: "persistLoop E h contrib (i + 1) ws T1 = (out, T')" using Cons.prems \<open>se_Marshal E w = Inr raw\<close> ins by simp
      from Cons.IH [OF rec] obtain s2 where ih: "ht_heads T' = ht_heads T1" "ht_sigs T' = ht_sigs T1 @ s2"
        "\<forall>s \<in> set s2. sr_size s = th_TreeSize h \<and> sr_algo s = hashAlgo"
        and later: "okE out \<Longrightarrow> j < length ws \<Longrightarrow> signed_by h T' (signerLabel contrib (i + 1 + j))" for j by blast
      have "signed_by h T' (signerLabel contrib i)" using i1(3) Inr ih(2) by (auto simp: signed_by_def)
      then have "okE out \<longrightarrow> (\<forall>j < length (w # ws). signed_by h T' (signerLabel contrib (i + j)))"
        using later by (auto simp: less_Suc_eq_0_disj)
      moreover have "ht_sigs T' = ht_sigs T @ s1 @ s2" "\<forall>s \<in> set (s1 @ s2). sr_size s = th_TreeSize h \<and> sr_algo s = hashAlgo"
        using ih s1 by auto
      ultimately show ?thesis using ih(1) i1(1) by (intro conjI exI [of _ "s1 @ s2"]) auto
    qed
  qed
qed simp

lemma Request_extends:
  assumes "RequestCosignatures hso E h T = (out, T')"
  shows "extends h T T'"
proof (cases "\<exists>hs res. hso = Some hs \<and> hs_collector hs \<and> se_Collect E h = Inr res")
  case False
  then have "T' = T" using assms by (auto simp: RequestCosignatures_def split: option.splits if_splits sum.splits)
  then show ?thesis by (simp add: extends_def)
next
  case True
  then obtain hs res where hs: "hso = Some hs" "hs_collector hs" "se_Collect E h = Inr res" by blast
  obtain o1 T1 where ih: "InsertHead (se_head E) h hashAlgo T = (o1, T1)" by force
  note i1 = InsertHead_extends [OF ih]
  show ?thesis
  proof (cases o1)
    case (Inl e)
    then show ?thesis using assms hs ih i1(1) by (simp add: RequestCosignatures_def)
  next
    case (Inr u)
    obtain o2 T2 where ps: "persistSignatures hs E h res T1 = (o2, T2)" by force
    have T': "ht_heads T' = ht_heads T2" "ht_sigs T' = ht_sigs T2"
      using assms hs ih Inr ps by (auto simp: RequestCosignatures_def Invalidate_def split: sum.splits)
    show ?thesis using persistLoop_extends [OF ps [unfolded persistSignatures_def]] i1(1,2) T' unfolding extends_def by auto
  qed
qed

lemma signers_card: "signers T r = card (sr_signer ` {s \<in> set (ht_sigs T). sr_size s = th_TreeSize (hr_head r) \<and> sr_algo s = hr_algo r})"
  by (simp add: signers_def sigsOf_def length_remdups_card_conv)

lemma cosigned_iff: "x \<in> cosigned K T \<longleftrightarrow> (\<exists>r \<in> set (ht_heads T). th_TreeSize (hr_head r) = x \<and> K \<le> int (signers T r))"
  by (auto simp: cosigned_def cosignedRows_def)

lemma extends_cosigned:
  assumes "extends h T T'"
  shows "cosigned K T \<subseteq> cosigned K T'" "cosigned K T' \<subseteq> insert (th_TreeSize h) (cosigned K T)"
proof -
  obtain ss where ss: "ht_sigs T' = ht_sigs T @ ss" "\<forall>s \<in> set ss. sr_size s = th_TreeSize h \<and> sr_algo s = hashAlgo"
    using assms by (auto simp: extends_def)
  have sub: "set (ht_heads T) \<subseteq> set (ht_heads T')" using assms by (auto simp: extends_def)
  have mono: "signers T r \<le> signers T' r" for r
    unfolding signers_card by (rule card_mono) (use ss in auto)
  have other: "signers T' r = signers T r" if "th_TreeSize (hr_head r) \<noteq> th_TreeSize h" for r
    using that ss by (simp add: signers_card) (metis (mono_tags, lifting) UnE)
  show "cosigned K T \<subseteq> cosigned K T'" using sub mono unfolding cosigned_iff subset_iff by (meson dual_order.trans of_nat_mono subsetD sub)
  show "cosigned K T' \<subseteq> insert (th_TreeSize h) (cosigned K T)"
  proof
    fix x assume "x \<in> cosigned K T'"
    then obtain r where r: "r \<in> set (ht_heads T')" "th_TreeSize (hr_head r) = x" "K \<le> int (signers T' r)" by (auto simp: cosigned_iff)
    show "x \<in> insert (th_TreeSize h) (cosigned K T)"
    proof (cases "x = th_TreeSize h")
      case False
      then have "r \<in> set (ht_heads T)" using r assms by (auto simp: extends_def)
      then show ?thesis using r other [of r] False by (auto simp: cosigned_iff)
    qed simp
  qed
qed

lemma contributing_eq:
  "\<lbrakk>length acc < n; i + length es \<le> length eps\<rbrakk>
    \<Longrightarrow> contributing eps n es i acc = take n (acc @ map snd (filter (\<lambda>(e, x). e = None) (zip es (drop i eps))))"
proof (induction es arbitrary: i acc)
  case (Cons e es)
  have dr: "drop i eps = eps ! i # drop (Suc i) eps" using Cons.prems by (simp add: Cons_nth_drop_Suc)
  have rec: "length acc' < n \<Longrightarrow> contributing eps n es (i + 1) acc' = take n (acc' @ map snd (filter (\<lambda>(e, x). e = None) (zip es (drop (i + 1) eps))))" for acc'
    using Cons.IH [of acc' "i + 1"] Cons.prems(2) by simp
  show ?case
  proof (cases "e = None \<and> length acc + 1 = n")
    case True
    then have "n - length acc = Suc 0" by auto
    then show ?thesis using True Cons.prems by (simp add: dr)
  next
    case False
    have "n - length acc = Suc (n - Suc (length acc))" using Cons.prems by simp
    then show ?thesis using False Cons.prems rec by (cases e) (auto simp: dr)
  qed
qed simp

text \<open>
  What is expected of the SDK and of the deployment: a successful collection has at least \<open>K\<close>
  signatures and as many endpoints without error; no two endpoints are the same.
\<close>

definition sync_ok :: "int \<Rightarrow> HeadSync \<Rightarrow> 'w sync_env \<Rightarrow> bool" where
  "sync_ok K hs E \<longleftrightarrow> distinct (hs_endpoints hs) \<and> (\<forall>h res. se_Collect E h = Inr res \<longrightarrow>
     K \<le> int (length (co_Signatures res)) \<and> length (co_PerEndpoint res) = length (hs_endpoints hs)
     \<and> length (co_Signatures res) \<le> length (filter (\<lambda>e. e = None) (co_PerEndpoint res)))"

lemma contributing_distinct:
  assumes "distinct eps" "length es = length eps" "0 < n" "n \<le> length (filter (\<lambda>e. e = None) es)"
  shows "distinct (contributing eps n es 0 []) \<and> length (contributing eps n es 0 []) = n"
proof -
  let ?z = "filter (\<lambda>(e, x). e = None) (zip es eps)"
  have c: "contributing eps n es 0 [] = take n (map snd ?z)" using contributing_eq [of "[]" n 0 es eps] assms(2,3) by simp
  have "distinct (map snd (zip es eps))" using assms(1,2) by simp
  then have "distinct (map snd ?z)" by (rule distinct_map_filter)
  moreover have "length ?z = length (filter (\<lambda>e. e = None) es)"
  proof -
    have "map fst ?z = filter (\<lambda>e. e = None) (map fst (zip es eps))" by (simp add: filter_map o_def case_prod_unfold)
    then show ?thesis using assms(2) by (metis length_map map_fst_zip)
  qed
  ultimately show ?thesis using c assms(4) by simp
qed

lemma Request_success:
  assumes "RequestCosignatures (Some hs) E h T = (Inr ws, T')" "sync_ok K hs E" "0 < K"
  shows "th_TreeSize h \<in> cosigned K T'"
proof -
  obtain res T1 T2 where hs: "hs_collector hs" "se_Collect E h = Inr res" and ih: "InsertHead (se_head E) h hashAlgo T = (Inr (), T1)"
    and ps: "persistSignatures hs E h res T1 = (Inr (), T2)" and T': "ht_heads T' = ht_heads T2" "ht_sigs T' = ht_sigs T2"
    using assms(1) by (auto simp: RequestCosignatures_def Invalidate_def split: if_splits sum.splits prod.splits)
  let ?n = "length (co_Signatures res)"
  let ?c = "contributing (hs_endpoints hs) ?n (co_PerEndpoint res) 0 []"
  have col: "distinct (hs_endpoints hs)" "K \<le> int ?n" "length (co_PerEndpoint res) = length (hs_endpoints hs)"
    "?n \<le> length (filter (\<lambda>e. e = None) (co_PerEndpoint res))" using assms(2) hs(2) by (auto simp: sync_ok_def)
  have "0 < ?n" using col(2) assms(3) by linarith
  then have c: "distinct ?c" "length ?c = ?n" using contributing_distinct [OF col(1,3) _ col(4)] by blast+
  note pl = persistLoop_extends [OF ps [unfolded persistSignatures_def]]
  have "signed_by h T2 (?c ! j)" if "j < ?n" for j using pl that c(2) by (simp add: signerLabel_def)
  then have "\<forall>x \<in> set ?c. signed_by h T' x" using c(2) by (auto simp: in_set_conv_nth signed_by_def T'(2))
  then have "set ?c \<subseteq> sr_signer ` {s \<in> set (ht_sigs T'). sr_size s = th_TreeSize h \<and> sr_algo s = hashAlgo}"
    unfolding signed_by_def by fastforce
  then have "card (set ?c) \<le> card (sr_signer ` {s \<in> set (ht_sigs T'). sr_size s = th_TreeSize h \<and> sr_algo s = hashAlgo})"
    by (intro card_mono) auto
  then have "?n \<le> card (sr_signer ` {s \<in> set (ht_sigs T'). sr_size s = th_TreeSize h \<and> sr_algo s = hashAlgo})"
    by (simp only: distinct_card [OF c(1)] c(2))
  moreover obtain r where "r \<in> set (ht_heads T')" "th_TreeSize (hr_head r) = th_TreeSize h" "hr_algo r = hashAlgo"
    using InsertHead_extends(3) [OF ih] pl T'(1) by auto
  ultimately show ?thesis using col(2) by (auto simp: cosigned_iff signers_card)
qed

lemma Request_lawful:
  assumes "\<And>hs. hso = Some hs \<Longrightarrow> sync_ok K hs E" "0 < K"
  shows "lawful_cosigner K (RequestCosignatures hso E)"
  unfolding lawful_cosigner_def
proof (intro allI impI)
  fix h T out T' assume run: "RequestCosignatures hso E h T = (out, T')"
  note ex = Request_extends [OF run]
  have "okE out \<longrightarrow> th_TreeSize h \<in> cosigned K T'"
  proof
    assume "okE out"
    then obtain ws where "out = Inr ws" by (cases out) auto
    moreover from this obtain hs where "hso = Some hs" using run by (cases hso) (auto simp: RequestCosignatures_def)
    ultimately show "th_TreeSize h \<in> cosigned K T'" using Request_success [of hs E h T ws T' K] run assms by simp
  qed
  then show "set (ht_heads T) \<subseteq> set (ht_heads T')
     \<and> (\<forall>r \<in> set (ht_heads T'). r \<in> set (ht_heads T) \<or>
          r = \<lparr>hr_head = h, hr_algo = hashAlgo\<rparr> \<and> (\<forall>r0 \<in> set (ht_heads T). th_TreeSize (hr_head r0) = th_TreeSize h \<longrightarrow> hr_algo r0 \<noteq> hashAlgo))
     \<and> cosigned K T \<subseteq> cosigned K T' \<and> cosigned K T' \<subseteq> insert (th_TreeSize h) (cosigned K T)
     \<and> (okE out \<longrightarrow> th_TreeSize h \<in> cosigned K T')"
    using extends_cosigned [OF ex, of K] ex by (auto simp: extends_def)
qed

text \<open>The interface the checkpoint loop calls: it only uses the number of signatures.\<close>

definition WitnessCosigner :: "HeadSync option \<Rightarrow> 'w sync_env \<Rightarrow> TreeHead \<Rightarrow> head_tables \<Rightarrow> (cosign_error + nat) \<times> head_tables" where
  "WitnessCosigner hso E h T =
     (case RequestCosignatures hso E h T of (Inl e, T') \<Rightarrow> (Inl e, T') | (Inr ws, T') \<Rightarrow> (Inr (length ws), T'))"

lemma WitnessCosigner_lawful:
  assumes "\<And>hs. hso = Some hs \<Longrightarrow> sync_ok K hs E" "0 < K"
  shows "lawful_cosigner K (WitnessCosigner hso E)"
  unfolding lawful_cosigner_def
proof (intro allI impI)
  fix h T out T' assume "WitnessCosigner hso E h T = (out, T')"
  then obtain out0 where run: "RequestCosignatures hso E h T = (out0, T')" "okE out = okE out0"
    by (auto simp: WitnessCosigner_def split: prod.splits sum.splits)
  show "set (ht_heads T) \<subseteq> set (ht_heads T')
     \<and> (\<forall>r \<in> set (ht_heads T'). r \<in> set (ht_heads T) \<or>
          r = \<lparr>hr_head = h, hr_algo = hashAlgo\<rparr> \<and> (\<forall>r0 \<in> set (ht_heads T). th_TreeSize (hr_head r0) = th_TreeSize h \<longrightarrow> hr_algo r0 \<noteq> hashAlgo))
     \<and> cosigned K T \<subseteq> cosigned K T' \<and> cosigned K T' \<subseteq> insert (th_TreeSize h) (cosigned K T)
     \<and> (okE out \<longrightarrow> th_TreeSize h \<in> cosigned K T')"
    using Request_lawful [of hso K E, OF assms] run unfolding lawful_cosigner_def by simp
qed

end
