(* ===== verification/Checkpoint.thy ===== *)
theory Checkpoint
  imports SmtState TileEmitter HeadSync
begin

section \<open>The checkpoint loop\<close>

text \<open>
  Models \<open>builder/checkpoint_loop.go\<close>: one cycle (\<open>CheckpointOnce\<close>) with
  \<open>buildPublishableHead\<close>, \<open>receiptRootForCheckpoint\<close>, the holds, the tail evictions and
  the lag gauges, and the sampling of committed entries for trace links.  \<open>ckpt\<close> is the loop's
  memory, \<open>ck_world\<close> what it reads and writes: the commit row (the builder's), the tile frontier,
  the tile store and node index, the node tail, the tables of tree heads, the receipt
  archive (covering size, first and last number) and the published heads, the latest last.
  \<open>ck_env\<close> says what the interfaces answer in one cycle; the witness cosigner writes the tables
  (\<open>HeadSync.WitnessCosigner\<close>).  Spans and log lines are left out.
\<close>

subsection \<open>State\<close>

datatype rooter_error = ErrTilesNotDurable | RootFault string

datatype ck_error =
    CkReadCommit smt_error
  | CkReadFrontier smt_error
  | CkIntegratedSize string
  | CkAdvanceFrontier smt_error
  | CkRootAtSize u64 rooter_error
  | CkReceiptRoot u64 u64 string
  | CkUnpublishable u64 string
  | CkCosignerRefused string
  | CkArchive u64 string
  | CkPublish u64 string

datatype ck_outcome = CkSkip | CkHold string | CkNoCosigner | CkPublished

record ck_cfg =
  kc_receipts :: bool
  kc_archiver :: bool
  kc_tail :: bool
  kc_audit :: bool
  kc_pruneOrphans :: bool

record 'n ck_env =
  ce_commit :: "pg_error option"
  ce_frontier :: "pg_error option"
  ce_integrated :: "string + u64"
  ce_emit :: "'n emit_env"
  ce_advance :: "(pg_error \<times> bool) option"
  ce_tilesGet :: "hash \<Rightarrow> string + 'n option"
  ce_RootAtSize :: "u64 \<Rightarrow> rooter_error + hash"
  ce_ReceiptRoot :: "u64 \<Rightarrow> u64 \<Rightarrow> string + hash"
  ce_Validate :: "TreeHead \<Rightarrow> string option"
  ce_Cosign :: "TreeHead \<Rightarrow> head_tables \<Rightarrow> (cosign_error + nat) \<times> head_tables"
  ce_Archive :: "string option"
  ce_Publish :: "(string \<times> bool) option"

record ('n, 't) ck_sdk =
  ks_tile :: "('n, 't) tile_sdk"
  ks_kids :: "'n \<Rightarrow> (hash \<times> hash) option"
  ks_EmptyHash :: hash

record ckpt =
  ck_lastPublishedSize :: u64
  ck_lastHoldReason :: string
  ck_metricCommitted :: u64
  ck_metricPublished :: u64
  ck_metricFrontierLag :: u64
  ck_recentPublishedRoots :: "hash list"
  ck_orphansDropped :: u64
  ck_auditViolations :: u64
  ck_quorumFailures :: nat

record 'n ck_world =
  cw_commit :: "root_row option"
  cw_frontier :: "root_row option"
  cw_tiles :: tile_store
  cw_index :: "(hash \<times> hash) list"
  cw_nodes :: "'n TailedNodeStore"
  cw_tables :: head_tables
  cw_archive :: "(u64 \<times> u64 \<times> u64) list"
  cw_published :: "TreeHead list"

definition NewCheckpointLoop :: ckpt where
  "NewCheckpointLoop =
     \<lparr>ck_lastPublishedSize = 0, ck_lastHoldReason = [], ck_metricCommitted = 0, ck_metricPublished = 0, ck_metricFrontierLag = 0,
      ck_recentPublishedRoots = [], ck_orphansDropped = 0, ck_auditViolations = 0, ck_quorumFailures = 0\<rparr>"

definition maxRecentPublishedRoots :: nat where "maxRecentPublishedRoots = 64"

definition HorizonLag :: "ckpt \<Rightarrow> u64" where
  "HorizonLag l = (if ck_metricCommitted l \<le> ck_metricPublished l then 0 else ck_metricCommitted l - ck_metricPublished l)"

definition FrontierLag :: "ckpt \<Rightarrow> u64" where "FrontierLag l = ck_metricFrontierLag l"

subsection \<open>Trace links\<close>

definition maxCheckpointLinks :: u64 where "maxCheckpointLinks = 16"

definition linkSeq :: "u64 \<Rightarrow> u64 \<Rightarrow> u64 \<Rightarrow> u64 \<Rightarrow> u64" where
  "linkSeq fromSeq span n i = (if n > 1 then fromSeq + ((span - 1) * i) div (n - 1) else fromSeq)"

text \<open>The numbers whose trace context is read, each once.\<close>

definition linkSeqs :: "u64 \<Rightarrow> u64 \<Rightarrow> u64 list" where
  "linkSeqs fromSeq toSeq =
     (if toSeq < fromSeq then []
      else
        let span = toSeq - fromSeq + 1;
            n = (if span > maxCheckpointLinks then maxCheckpointLinks else span) in
        rev (remdups (rev (map (\<lambda>i. linkSeq fromSeq span n (word_of_nat i)) [0..<unat n]))))"

definition gatherCommittedTraceparents :: "(u64 \<Rightarrow> string + string) option \<Rightarrow> u64 \<Rightarrow> u64 \<Rightarrow> string list" where
  "gatherCommittedTraceparents reader fromSeq toSeq =
     (case reader of
        None \<Rightarrow> []
      | Some rd \<Rightarrow> concat (map (\<lambda>s. case rd s of Inl _ \<Rightarrow> [] | Inr tp \<Rightarrow> if tp = [] then [] else [tp]) (linkSeqs fromSeq toSeq)))"

subsection \<open>One cycle\<close>

definition ckHold :: "string \<Rightarrow> ckpt \<Rightarrow> ckpt" where
  "ckHold reason l = (if reason = ck_lastHoldReason l then l else l\<lparr>ck_lastHoldReason := reason\<rparr>)"

definition receiptRootForCheckpoint :: "ck_cfg \<Rightarrow> 'n ck_env \<Rightarrow> ckpt \<Rightarrow> u64 \<Rightarrow> string + hash" where
  "receiptRootForCheckpoint cfg E l cSeq =
     (if \<not> kc_receipts cfg then Inr 0
      else if ck_lastPublishedSize l > cSeq then Inr 0
      else ce_ReceiptRoot E (ck_lastPublishedSize l) cSeq)"

definition buildPublishableHead :: "ck_cfg \<Rightarrow> 'n ck_env \<Rightarrow> ckpt \<Rightarrow> u64 \<Rightarrow> u64 \<Rightarrow> hash \<Rightarrow> ck_error + TreeHead" where
  "buildPublishableHead cfg E l treeSize cSeq cRoot =
     bindE (mapE (CkRootAtSize treeSize) (ce_RootAtSize E treeSize)) (\<lambda>rootHash.
     bindE (mapE (CkReceiptRoot (ck_lastPublishedSize l) cSeq) (receiptRootForCheckpoint cfg E l cSeq)) (\<lambda>receiptRoot.
       let head = \<lparr>th_TreeSize = treeSize, th_RootHash = rootHash, th_SMTRoot = cRoot, th_ReceiptRoot = receiptRoot\<rparr> in
       (case ce_Validate E head of Some e \<Rightarrow> Inl (CkUnpublishable treeSize e) | None \<Rightarrow> Inr head)))"

text \<open>Steps 5a to 5b: evictions and the audit.\<close>

definition ckTail ::
  "('n, 't) ck_sdk \<Rightarrow> ck_cfg \<Rightarrow> 'n ck_env \<Rightarrow> hash \<Rightarrow> hash list \<Rightarrow> ckpt \<Rightarrow> 'n TailedNodeStore \<Rightarrow> ckpt \<times> 'n TailedNodeStore" where
  "ckTail K cfg E cRoot durable l s =
     (let s1 = (if kc_tail cfg \<and> durable \<noteq> [] then PruneTiled (\<lambda>h. Inr (h \<in> set durable)) s else s);
          l1 = (if kc_audit cfg \<and> kc_tail cfg \<and> ck_recentPublishedRoots l \<noteq> [] then
                  (case TailGCAudit (ks_kids K) (ks_EmptyHash K) (ce_tilesGet E) cRoot (ck_recentPublishedRoots l) s1 of
                     (_, viol, _) \<Rightarrow> l\<lparr>ck_auditViolations := ck_auditViolations l + word_of_nat viol\<rparr>)
                else l) in
      if kc_pruneOrphans cfg \<and> kc_tail cfg then
        (case PruneOrphans (ks_kids K) (ks_EmptyHash K) s1 of
           (dropped, s2) \<Rightarrow> (l1\<lparr>ck_orphansDropped := ck_orphansDropped l1 + word_of_nat dropped\<rparr>, s2))
      else (l1, s1))"

text \<open>
  Steps 8 and 9: cosign, archive, publish.  A publication that fails may have taken effect all the same
  (the flag of \<open>ce_Publish\<close>).
\<close>

definition ckPublish ::
  "ck_cfg \<Rightarrow> 'n ck_env \<Rightarrow> TreeHead \<Rightarrow> u64 \<Rightarrow> ckpt \<Rightarrow> 'n ck_world \<Rightarrow> (ck_error + ck_outcome) \<times> ckpt \<times> 'n ck_world" where
  "ckPublish cfg E head cSeq l w =
     (case ce_Cosign E head (cw_tables w) of
        (Inl ErrNoCosigner, T) \<Rightarrow> (Inr CkNoCosigner, l, w\<lparr>cw_tables := T\<rparr>)
      | (Inl (ErrInvalidPayload e), T) \<Rightarrow> (Inl (CkCosignerRefused e), l, w\<lparr>cw_tables := T\<rparr>)
      | (Inl _, T) \<Rightarrow>
          (Inr (CkHold ''witness_quorum_unavailable''),
           ckHold ''witness_quorum_unavailable'' (l\<lparr>ck_quorumFailures := ck_quorumFailures l + 1\<rparr>), w\<lparr>cw_tables := T\<rparr>)
      | (Inr _, T) \<Rightarrow>
          let treeSize = th_TreeSize head;
              w1 = w\<lparr>cw_tables := T\<rparr>;
              due = kc_archiver cfg \<and> ck_lastPublishedSize l \<le> cSeq in
          if due \<and> ce_Archive E \<noteq> None then (Inl (CkArchive treeSize (the (ce_Archive E))), l, w1)
          else
            let w2 = (if due then w1\<lparr>cw_archive := cw_archive w1 @ [(treeSize, ck_lastPublishedSize l, cSeq)]\<rparr> else w1) in
            (case ce_Publish E of
               Some (e, took) \<Rightarrow> (Inl (CkPublish treeSize e), l, if took then w2\<lparr>cw_published := cw_published w2 @ [head]\<rparr> else w2)
             | None \<Rightarrow>
                 (Inr CkPublished,
                  l\<lparr>ck_lastPublishedSize := treeSize, ck_metricPublished := treeSize,
                    ck_recentPublishedRoots :=
                      (if kc_audit cfg then
                         let rs = ck_recentPublishedRoots l @ [th_SMTRoot head] in drop (length rs - maxRecentPublishedRoots) rs
                       else ck_recentPublishedRoots l),
                    ck_lastHoldReason := []\<rparr>,
                  w2\<lparr>cw_published := cw_published w2 @ [head]\<rparr>)))"

text \<open>Steps 5 to 9, after the tiles of the committed root became durable.\<close>

definition ckFinish ::
  "('n, 't) ck_sdk \<Rightarrow> ck_cfg \<Rightarrow> 'n ck_env \<Rightarrow> u64 \<Rightarrow> hash \<Rightarrow> hash list \<Rightarrow> ckpt \<Rightarrow> 'n ck_world
   \<Rightarrow> (ck_error + ck_outcome) \<times> ckpt \<times> 'n ck_world" where
  "ckFinish K cfg E cSeq cRoot durable l w =
     (case AdvanceFrontier (ce_advance E) cSeq cRoot (cw_frontier w) of
        (Inl e, fr) \<Rightarrow> (Inl (CkAdvanceFrontier e), l, w\<lparr>cw_frontier := fr\<rparr>)
      | (Inr _, fr) \<Rightarrow>
          (case ckTail K cfg E cRoot durable l (cw_nodes w) of
             (l1, nodes) \<Rightarrow>
               let w1 = w\<lparr>cw_frontier := fr, cw_nodes := nodes\<rparr> in
               (case buildPublishableHead cfg E l1 (TreeSizeForCommittedSeq cSeq) cSeq cRoot of
                  Inl (CkRootAtSize _ ErrTilesNotDurable) \<Rightarrow>
                    (Inr (CkHold ''merkle_root_not_durable''), ckHold ''merkle_root_not_durable'' l1, w1)
                | Inl e \<Rightarrow> (Inl e, l1, w1)
                | Inr head \<Rightarrow> ckPublish cfg E head cSeq l1 w1)))"

definition CheckpointOnce ::
  "('n, 't) ck_sdk \<Rightarrow> ck_cfg \<Rightarrow> 'n ck_env \<Rightarrow> ckpt \<Rightarrow> 'n ck_world \<Rightarrow> (ck_error + ck_outcome) \<times> ckpt \<times> 'n ck_world" where
  "CheckpointOnce K cfg E l w =
     (case ReadCommit (ce_commit E) (cw_commit w) of
        Inl e \<Rightarrow> (Inl (CkReadCommit e), l, w)
      | Inr (cSeq, cRoot) \<Rightarrow>
          let treeSize = TreeSizeForCommittedSeq cSeq;
              l1 = l\<lparr>ck_metricCommitted := treeSize\<rparr> in
          if treeSize \<le> ck_lastPublishedSize l1 then (Inr CkSkip, l1, w)
          else
            (case ReadFrontier (ce_frontier E) (cw_frontier w) of
               Inl e \<Rightarrow> (Inl (CkReadFrontier e), l1, w)
             | Inr (fSeq, fRoot) \<Rightarrow>
                 let l2 = (if cSeq \<ge> fSeq then l1\<lparr>ck_metricFrontierLag := cSeq - fSeq\<rparr> else l1) in
                 (case ce_integrated E of
                    Inl e \<Rightarrow> (Inl (CkIntegratedSize e), l2, w)
                  | Inr integrated \<Rightarrow>
                      if treeSize > integrated then (Inr (CkHold ''merkle_not_durable''), ckHold ''merkle_not_durable'' l2, w)
                      else
                        (case EmitDurable (ks_tile K) (ce_emit E) (ks_EmptyHash K) fRoot cRoot (cw_nodes w) (cw_tiles w) (cw_index w) of
                           (Inl e, st, idx) \<Rightarrow>
                             (Inr (CkHold ''smt_tiles_not_durable''), ckHold ''smt_tiles_not_durable'' l2, w\<lparr>cw_tiles := st, cw_index := idx\<rparr>)
                         | (Inr durable, st, idx) \<Rightarrow>
                             ckFinish K cfg E cSeq cRoot durable l2 (w\<lparr>cw_tiles := st, cw_index := idx\<rparr>)))))"

end
