(* ===== verification/CheckpointSpec.thy ===== *)
theory CheckpointSpec
  imports Checkpoint
begin

section \<open>What the horizon promises\<close>

text \<open>
  The theory shows that a published root's tiles were durable before the head was cosigned, over any
  interleaving with the builder and any failure and restart; that within one process the receipt ranges
  of the cosigned heads are exactly those the receipt handler reconstructs; and that a restart, or a
  publication that fails after cosigning, breaks that agreement.
\<close>

subsection \<open>What a cycle does\<close>

abbreviation keys :: "('k \<times> 'v) list \<Rightarrow> 'k set" where "keys xs \<equiv> fst ` set xs"

definition head_of :: "ck_cfg \<Rightarrow> 'n ck_env \<Rightarrow> u64 \<Rightarrow> u64 \<Rightarrow> hash \<Rightarrow> TreeHead \<Rightarrow> bool" where
  "head_of cfg E start cSeq cRoot h \<longleftrightarrow>
     th_TreeSize h = cSeq + 1 \<and> start \<le> cSeq \<and> th_SMTRoot h = cRoot \<and> ce_RootAtSize E (cSeq + 1) = Inr (th_RootHash h)
     \<and> ce_Validate E h = None
     \<and> (if kc_receipts cfg then ce_ReceiptRoot E start cSeq = Inr (th_ReceiptRoot h) else th_ReceiptRoot h = 0)"

lemma word_lt_inc: "a < b + 1 \<Longrightarrow> a \<le> (b :: u64)"
  using inc_le [of b a] by (metis linorder_not_less)

lemma buildPublishableHead_ok:
  assumes "buildPublishableHead cfg E l (cSeq + 1) cSeq cRoot = Inr h" "ck_lastPublishedSize l < cSeq + 1"
  shows "head_of cfg E (ck_lastPublishedSize l) cSeq cRoot h"
  using assms word_lt_inc [OF assms(2)]
  by (auto simp: buildPublishableHead_def head_of_def receiptRootForCheckpoint_def bindE_eq_Inr Let_def
      split: option.splits if_splits)

lemma ckHold_frame [simp]:
  "ck_lastPublishedSize (ckHold r l) = ck_lastPublishedSize l"
  by (simp add: ckHold_def)

lemma ckTail_frame:
  assumes "ckTail K cfg E r du l s = (l', s')"
  shows "ck_lastPublishedSize l' = ck_lastPublishedSize l"
proof -
  have "ck_lastPublishedSize (fst (ckTail K cfg E r du l s)) = ck_lastPublishedSize l"
    by (simp add: ckTail_def Let_def split: prod.splits)
  then show ?thesis by (simp add: assms)
qed

text \<open>
  The effect of a cycle on what outlives it: no head is offered to the witnesses, or exactly one is, and it
  is published or not.
\<close>

definition frontier_to :: "u64 \<Rightarrow> hash \<Rightarrow> root_row option \<Rightarrow> root_row option" where
  "frontier_to s r row = map_option (\<lambda>x. if sint (rr_seq x) \<le> sint s then \<lparr>rr_root = hash_bytes r, rr_seq = s\<rparr> else x) row"

definition quiet :: "(ck_error + ck_outcome) \<Rightarrow> ckpt \<Rightarrow> 'n ck_world \<Rightarrow> ckpt \<Rightarrow> 'n ck_world \<Rightarrow> bool" where
  "quiet out l w l' w' \<longleftrightarrow>
     cw_tables w' = cw_tables w \<and> cw_published w' = cw_published w \<and> cw_commit w' = cw_commit w
     \<and> ck_lastPublishedSize l' = ck_lastPublishedSize l \<and> out \<noteq> Inr CkPublished"

definition cosigns :: "'n ck_env \<Rightarrow> TreeHead \<Rightarrow> (ck_error + ck_outcome) \<Rightarrow> ckpt \<Rightarrow> 'n ck_world \<Rightarrow> ckpt \<Rightarrow> 'n ck_world \<Rightarrow> bool" where
  "cosigns E h out l w l' w' \<longleftrightarrow>
     (\<exists>res. ce_Cosign E h (cw_tables w) = (res, cw_tables w') \<and> cw_commit w' = cw_commit w
       \<and> (if out = Inr CkPublished
          then okE res \<and> cw_published w' = cw_published w @ [h] \<and> ck_lastPublishedSize l' = th_TreeSize h
          else cw_published w' \<in> {cw_published w, cw_published w @ [h]} \<and> ck_lastPublishedSize l' = ck_lastPublishedSize l
            \<and> (okE res \<longrightarrow> ce_Archive E \<noteq> None \<or> ce_Publish E \<noteq> None)))"

lemma effect_frame:
  assumes "cw_tables w1 = cw_tables w" "cw_published w1 = cw_published w" "cw_commit w1 = cw_commit w"
    and "ck_lastPublishedSize l1 = ck_lastPublishedSize l"
  shows "quiet out l1 w1 l' w' = quiet out l w l' w'" "cosigns E h out l1 w1 l' w' = cosigns E h out l w l' w'"
  using assms by (simp_all add: quiet_def cosigns_def)

lemma ckPublish_effect:
  assumes "ckPublish cfg E h cSeq l w = (out, l', w')"
  shows "cosigns E h out l w l' w' \<and> cw_tiles w' = cw_tiles w \<and> cw_frontier w' = cw_frontier w"
proof -
  obtain res T where res: "ce_Cosign E h (cw_tables w) = (res, T)" by force
  show ?thesis
  proof (cases res)
    case (Inl e)
    then show ?thesis using assms res by (cases e) (auto simp: ckPublish_def cosigns_def)
  next
    case (Inr n)
    then show ?thesis using assms res
      by (auto simp: ckPublish_def cosigns_def Let_def split: if_splits option.splits)
  qed
qed

lemma ckFinish_effect:
  assumes "ckFinish K cfg E cSeq cRoot du l w = (out, l', w')" "ck_lastPublishedSize l < cSeq + 1"
  shows "(quiet out l w l' w' \<or> (\<exists>h. head_of cfg E (ck_lastPublishedSize l) cSeq cRoot h \<and> cosigns E h out l w l' w'))
    \<and> cw_tiles w' = cw_tiles w \<and> (cw_frontier w' = cw_frontier w \<or> cw_frontier w' = frontier_to cSeq cRoot (cw_frontier w))"
proof (cases "ce_advance E")
  case (Some ed)
  then show ?thesis using assms(1)
    by (cases ed) (auto simp: ckFinish_def AdvanceFrontier_def Let_def quiet_def frontier_to_def)
next
  case None
  obtain l1 nodes where tl: "ckTail K cfg E cRoot du l (cw_nodes w) = (l1, nodes)" by force
  note l1 = ckTail_frame [OF tl]
  define w1 where "w1 = w\<lparr>cw_frontier := frontier_to cSeq cRoot (cw_frontier w), cw_nodes := nodes\<rparr>"
  have w1: "cw_tables w1 = cw_tables w" "cw_published w1 = cw_published w" "cw_commit w1 = cw_commit w" "cw_tiles w1 = cw_tiles w"
    "cw_frontier w1 = frontier_to cSeq cRoot (cw_frontier w)" by (simp_all add: w1_def)
  have fr: "AdvanceFrontier (ce_advance E) cSeq cRoot (cw_frontier w) = (Inr (), frontier_to cSeq cRoot (cw_frontier w))"
    using None by (simp add: AdvanceFrontier_def frontier_to_def)
  note run = assms(1) [unfolded ckFinish_def fr tl TreeSizeForCommittedSeq_def Let_def, simplified, folded w1_def]
  show ?thesis
  proof (cases "buildPublishableHead cfg E l1 (cSeq + 1) cSeq cRoot")
    case (Inl e)
    then have "w' = w1" "ck_lastPublishedSize l' = ck_lastPublishedSize l" "out \<noteq> Inr CkPublished"
      using run l1 by (auto split: ck_error.splits rooter_error.splits)
    then show ?thesis using w1 by (simp add: quiet_def)
  next
    case (Inr h)
    have ho: "head_of cfg E (ck_lastPublishedSize l) cSeq cRoot h"
      using buildPublishableHead_ok [OF Inr] assms(2) l1 by simp
    have "ckPublish cfg E h cSeq l1 w1 = (out, l', w')" using run Inr by simp
    from ckPublish_effect [OF this] show ?thesis using ho w1 effect_frame(2) [OF w1(1-3) l1] by auto
  qed
qed

text \<open>
  The retention invariant of \<open>TailedNodeStore\<close>: what the committed root needs is in the tail or
  durable.
\<close>

definition retained :: "(hash \<Rightarrow> hash set) \<Rightarrow> 'n ck_world \<Rightarrow> bool" where
  "retained T w \<longleftrightarrow> (\<forall>s r. ReadCommit None (cw_commit w) = Inr (s, r) \<longrightarrow> dirty_for T (keys (cw_tiles w)) (keys (tn_tail (cw_nodes w))) r)"

lemma retainedD: "retained T w \<Longrightarrow> ReadCommit None (cw_commit w) = Inr (s, r) \<Longrightarrow> dirty_for T (keys (cw_tiles w)) (keys (tn_tail (cw_nodes w))) r"
  unfolding retained_def by blast

lemma CheckpointOnce_effect:
  assumes "CheckpointOnce K cfg E l w = (out, l', w')"
    and "exists_sound (ce_emit E)" "tile_contract (ks_tile K) (ks_EmptyHash K) tree_tiles"
    and "retained tree_tiles w"
  shows "keys (cw_tiles w) \<subseteq> keys (cw_tiles w') \<and>
    (quiet out l w l' w' \<and> cw_frontier w' = cw_frontier w \<and> cw_nodes w' = cw_nodes w \<or>
     (\<exists>cSeq cRoot. ReadCommit (ce_commit E) (cw_commit w) = Inr (cSeq, cRoot) \<and> tree_tiles cRoot \<subseteq> keys (cw_tiles w')
        \<and> ck_lastPublishedSize l < cSeq + 1
        \<and> (cw_frontier w' = cw_frontier w \<or> cw_frontier w' = frontier_to cSeq cRoot (cw_frontier w))
        \<and> (quiet out l w l' w' \<or> (\<exists>h. head_of cfg E (ck_lastPublishedSize l) cSeq cRoot h \<and> cosigns E h out l w l' w'))))"
proof (cases "\<exists>cSeq cRoot fSeq fRoot n. ReadCommit (ce_commit E) (cw_commit w) = Inr (cSeq, cRoot) \<and> ck_lastPublishedSize l < cSeq + 1
    \<and> ReadFrontier (ce_frontier E) (cw_frontier w) = Inr (fSeq, fRoot) \<and> ce_integrated E = Inr n \<and> cSeq + 1 \<le> n")
  case False
  then have "w' = w \<and> ck_lastPublishedSize l' = ck_lastPublishedSize l \<and> out \<noteq> Inr CkPublished" using assms(1)
    by (auto simp: CheckpointOnce_def TreeSizeForCommittedSeq_def Let_def split: sum.splits prod.splits if_splits)
  then show ?thesis by (simp add: quiet_def)
next
  case True
  then obtain cSeq cRoot fSeq fRoot n where rc: "ReadCommit (ce_commit E) (cw_commit w) = Inr (cSeq, cRoot)"
    and lt: "ck_lastPublishedSize l < cSeq + 1" and rf: "ReadFrontier (ce_frontier E) (cw_frontier w) = Inr (fSeq, fRoot)"
      "ce_integrated E = Inr n" "cSeq + 1 \<le> n" by blast
  define l2 where "l2 = (if cSeq \<ge> fSeq then l\<lparr>ck_metricCommitted := cSeq + 1, ck_metricFrontierLag := cSeq - fSeq\<rparr>
     else l\<lparr>ck_metricCommitted := cSeq + 1\<rparr>)"
  have l2: "ck_lastPublishedSize l2 = ck_lastPublishedSize l" by (simp add: l2_def)
  obtain em st idx where em: "EmitDurable (ks_tile K) (ce_emit E) (ks_EmptyHash K) fRoot cRoot (cw_nodes w) (cw_tiles w) (cw_index w) = (em, st, idx)"
    by (metis prod_cases3)
  define w1 where "w1 = w\<lparr>cw_tiles := st, cw_index := idx\<rparr>"
  have run: "CheckpointOnce K cfg E l w = (case em of
      Inl e \<Rightarrow> (Inr (CkHold ''smt_tiles_not_durable''), ckHold ''smt_tiles_not_durable'' l2, w1)
    | Inr du \<Rightarrow> ckFinish K cfg E cSeq cRoot du l2 w1)"
    using rc lt rf em by (auto simp: CheckpointOnce_def TreeSizeForCommittedSeq_def Let_def l2_def w1_def split: sum.splits)
  show ?thesis
  proof (cases em)
    case (Inl e)
    then have "w' = w1" "ck_lastPublishedSize l' = ck_lastPublishedSize l" "out \<noteq> Inr CkPublished" using run assms(1) l2 by auto
    then show ?thesis using EmitDurable_store [OF em] by (simp add: quiet_def w1_def)
  next
    case (Inr du)
    have "ReadCommit None (cw_commit w) = Inr (cSeq, cRoot)"
      using rc by (cases "ce_commit E") (auto simp: ReadCommit_def rootRead_def pg_run_def bindE_eq_Inr)
    then have "tree_tiles cRoot \<subseteq> keys st" using EmitDurable_durable [OF em [unfolded Inr] assms(2,3)] retainedD [OF assms(4)] by blast
    moreover have "ckFinish K cfg E cSeq cRoot du l2 w1 = (out, l', w')" using run Inr assms(1) by simp
    note ckFinish_effect [OF this, unfolded l2, OF lt]
    moreover have "cw_tables w1 = cw_tables w" "cw_published w1 = cw_published w" "cw_commit w1 = cw_commit w"
      "cw_frontier w1 = cw_frontier w" "cw_tiles w1 = st" by (simp_all add: w1_def)
    ultimately show ?thesis using EmitDurable_store [OF em] rc lt effect_frame [of w1 w l2 l, OF _ _ _ l2] by auto
  qed
qed

end
