(* ===== verification/TailRecovery.thy ===== *)
theory TailRecovery
  imports SmtState TileEmitter
begin

section \<open>Rebuilding the node tail after a restart\<close>

text \<open>
  Models \<open>store/tail_recovery.go\<close> and \<open>recoverTailOnBoot\<close> of
  \<open>cmd/ledger/boot/wire/wire.go\<close>.  The SDK tree is the parameter \<open>SetLeaves\<close>: for the
  replayed leaves and the nodes its store reads it says whether \<open>SetLeaves\<close> failed, what
  \<open>Root\<close> answers afterwards, and which nodes were written to the store.  The lemmas show that a
  recovery that returns leaves the tail a correct dirty set for the committed root.
\<close>

datatype tail_error =
    TailReadRoot smt_error
  | TailReadFrontier smt_error
  | TailListLeaves smt_error
  | TailReplay nat string
  | TailRoot string
  | TailMismatch hash hash

type_synonym 'n set_leaves = "SMTLeaf list \<Rightarrow> (hash \<rightharpoonup> 'n) \<Rightarrow> string option \<times> (string + hash) \<times> 'n list"

definition RecoverTail ::
  "('n \<Rightarrow> hash) \<Rightarrow> 'n set_leaves \<Rightarrow> hash \<Rightarrow> (hash \<rightharpoonup> 'n) \<Rightarrow> SMTLeaf list \<Rightarrow> hash \<Rightarrow> 'n TailedNodeStore \<Rightarrow> (tail_error + unit) \<times> 'n TailedNodeStore" where
  "RecoverTail H SetLeaves eh tiles leaves committedRoot s =
     (if committedRoot = eh \<or> leaves = [] then (Inr (), s)
      else
        (case SetLeaves leaves (tailGet eh tiles s) of
           (err, root, ns) \<Rightarrow>
             (case err of
                Some e \<Rightarrow> Inl (TailReplay (length leaves) e)
              | None \<Rightarrow> bindE (mapE TailRoot root) (\<lambda>got. if got \<noteq> committedRoot then Inl (TailMismatch got committedRoot) else Inr ()),
              PutBatch H ns s)))"

record tail_faults =
  tf_root :: "pg_error option"
  tf_frontier :: "pg_error option"
  tf_list :: "pg_error option"

definition recoverTailOnBoot ::
  "tail_faults \<Rightarrow> ('n \<Rightarrow> hash) \<Rightarrow> 'n set_leaves \<Rightarrow> hash \<Rightarrow> (hash \<rightharpoonup> 'n) \<Rightarrow> root_row option \<Rightarrow> root_row option \<Rightarrow> leaf_table
   \<Rightarrow> 'n TailedNodeStore \<Rightarrow> (tail_error + unit) \<times> 'n TailedNodeStore" where
  "recoverTailOnBoot F H SetLeaves eh tiles commit frontier tab s =
     (case rootRead (tf_root F) commit of
        Inl e \<Rightarrow> (Inl (TailReadRoot e), s)
      | Inr committed \<Rightarrow>
          (case ReadFrontier (tf_frontier F) frontier of
             Inl e \<Rightarrow> (Inl (TailReadFrontier e), s)
           | Inr (_, fRoot) \<Rightarrow>
               if CurrentRoot committed = fRoot then (Inr (), s)
               else (case ListAll (tf_list F) tab of
                       Inl e \<Rightarrow> (Inl (TailListLeaves e), s)
                     | Inr leaves \<Rightarrow> RecoverTail H SetLeaves eh tiles leaves (CurrentRoot committed) s)))"

subsection \<open>What the tree writes\<close>

text \<open>
  The SDK tree is copy-on-write: of the tiles of the root a batch ends at, those whose top it did not write
  are tiles of the root it started from.  A replay starts from the empty tree.
\<close>

definition tree_writes :: "(hash \<Rightarrow> hash set) \<Rightarrow> ('n \<Rightarrow> hash) \<Rightarrow> hash \<Rightarrow> 'n list \<Rightarrow> hash \<Rightarrow> bool" where
  "tree_writes T H r0 ns r \<longleftrightarrow> T r \<subseteq> H ` set ns \<union> T r0"

definition replay_writes :: "(hash \<Rightarrow> hash set) \<Rightarrow> ('n \<Rightarrow> hash) \<Rightarrow> hash \<Rightarrow> 'n set_leaves \<Rightarrow> bool" where
  "replay_writes T H eh SetLeaves \<longleftrightarrow> (\<forall>leaves V r ns. SetLeaves leaves V = (None, Inr r, ns) \<longrightarrow> tree_writes T H eh ns r)"

lemma PutBatch_keys: "fst ` set (tn_tail (PutBatch H ns s)) = H ` set ns \<union> fst ` set (tn_tail s)"
proof -
  have "fst ` set (fold (\<lambda>n. AList.update (H n) n) ns xs) = H ` set ns \<union> fst ` set xs" for xs
    by (induction ns arbitrary: xs) (auto simp: keys_update)
  then show ?thesis by (simp add: PutBatch_def)
qed

lemma PutBatchCommitted_keys: "fst ` set (tn_tail (PutBatchCommitted H ns r s)) = H ` set ns \<union> fst ` set (tn_tail s)"
  by (simp add: PutBatchCommitted_def PutBatch_keys)

lemma tree_writes_dirty:
  assumes "tree_writes T H r0 ns r" "dirty_for T S d r0"
  shows "dirty_for T S (H ` set ns \<union> d) r"
  using assms unfolding tree_writes_def dirty_for_def by blast

text \<open>The boot recovery restores the retention condition whatever the tail was before.\<close>

lemma recovered_dirty:
  assumes "recoverTailOnBoot F H SetLeaves eh tiles commit frontier tab s = (Inr (), s')"
    and "tile_contract K eh T" "replay_writes T H eh SetLeaves"
    and "ReadCommit None commit = Inr (n, r)" "tab = [] \<Longrightarrow> r = eh"
    and "\<And>m f. ReadFrontier None frontier = Inr (m, f) \<Longrightarrow> T f \<subseteq> S"
  shows "dirty_for T S (fst ` set (tn_tail s')) r"
proof -
  obtain committed where c: "rootRead (tf_root F) commit = Inr committed" using assms(1) by (auto simp: recoverTailOnBoot_def split: sum.splits)
  then have r: "CurrentRoot committed = r" using assms(4) by (cases "tf_root F") (auto simp: ReadCommit_def rootRead_def pg_run_def bindE_eq_Inr)
  obtain m f where f: "ReadFrontier (tf_frontier F) frontier = Inr (m, f)" using assms(1) c by (auto simp: recoverTailOnBoot_def split: sum.splits)
  then have f0: "ReadFrontier None frontier = Inr (m, f)" by (cases "tf_frontier F") (auto simp: ReadFrontier_def pg_run_def bindE_eq_Inr)
  consider (same) "r = f" | (empty) "r = eh" | (replay) "r \<noteq> f" "r \<noteq> eh" by blast
  then show ?thesis
  proof cases
    case replay
    obtain leaves where lv: "ListAll (tf_list F) tab = Inr leaves" "RecoverTail H SetLeaves eh tiles leaves r s = (Inr (), s')"
      using assms(1) c f r replay by (auto simp: recoverTailOnBoot_def split: sum.splits)
    have "leaves \<noteq> []" using lv(1) assms(5) replay(2) by (cases tab; cases "tf_list F") (auto simp: ListAll_def pg_run_def bindE_eq_Inr)
    then obtain ns where ns: "SetLeaves leaves (tailGet eh tiles s) = (None, Inr r, ns)" "s' = PutBatch H ns s"
      using lv(2) replay by (auto simp: RecoverTail_def bindE_eq_Inr split: prod.splits option.splits if_splits sum.splits)
    then have "tree_writes T H eh ns r" using assms(3) by (auto simp: replay_writes_def)
    moreover have "dirty_for T S (fst ` set (tn_tail s)) eh" by (rule dirty_for_durable [OF assms(2)]) (simp add: tile_contractD(1) [OF assms(2)])
    ultimately show ?thesis using tree_writes_dirty ns(2) PutBatch_keys by metis
  qed (use assms(6) [OF f0] tile_contractD(1) [OF assms(2)] dirty_for_durable [OF assms(2)] in auto)
qed

text \<open>
  The integrity check of the rebuilt root is skipped when the leaf table is empty: recovery then succeeds
  and rebuilds nothing, whatever root is committed.
\<close>

lemma recover_empty_unchecked: "RecoverTail H SetLeaves eh tiles [] committedRoot s = (Inr (), s)"
  by (simp add: RecoverTail_def)

end
