(* ===== verification/CheckpointProps.thy ===== *)
theory CheckpointProps
  imports CheckpointSpec TailRecovery
begin

section \<open>Published heads, their tiles and their receipt ranges\<close>

text \<open>
  Runs of the checkpoint loop, interleaved with a builder that replaces the commit row and the node tail
  at any moment, with failing interfaces and with process restarts.  The witness cosigner is the modelled
  \<open>HeadSync\<close>, with any answers of the collector and any failing statement.  The flag
  \<open>calm\<close> marks runs with no restart, a commit position that only grows, and no failure between the
  point where a head has its quorum of stored signatures and its publication.  \<open>rr\<close> is the receipt
  root of a range of committed entries, which are immutable; \<open>K\<close> is the quorum.
\<close>

subsection \<open>Runs\<close>

definition env_ok :: "int \<Rightarrow> bool \<Rightarrow> (u64 \<Rightarrow> u64 \<Rightarrow> hash) \<Rightarrow> 'n ck_env \<Rightarrow> bool" where
  "env_ok K calm rr E \<longleftrightarrow> exists_sound (ce_emit E) \<and> (\<forall>a b x. ce_ReceiptRoot E a b = Inr x \<longrightarrow> x = rr a b)
     \<and> (\<exists>hso (se :: bytes sync_env). ce_Cosign E = WitnessCosigner hso se \<and> (\<forall>hs. hso = Some hs \<longrightarrow> sync_ok K hs se))
     \<and> (calm \<longrightarrow> ce_Archive E = None \<and> ce_Publish E = None
          \<and> (\<forall>h T e T'. ce_Cosign E h T = (Inl e, T') \<longrightarrow> cosigned K T' = cosigned K T))"

lemma env_lawful: "env_ok K calm rr E \<Longrightarrow> 0 < K \<Longrightarrow> lawful_cosigner K (ce_Cosign E)"
  by (metis env_ok_def WitnessCosigner_lawful)

definition fresh_frontier :: "hash \<Rightarrow> root_row option" where
  "fresh_frontier eh = Some \<lparr>rr_root = hash_bytes eh, rr_seq = 0\<rparr>"

definition commit_grows :: "root_row option \<Rightarrow> root_row option \<Rightarrow> bool" where
  "commit_grows c c' \<longleftrightarrow> (\<forall>x. c = Some x \<longrightarrow> (\<exists>y. c' = Some y \<and> rr_seq x \<le> rr_seq y))"

inductive ck_reach :: "('n, 't) ck_sdk \<Rightarrow> ck_cfg \<Rightarrow> int \<Rightarrow> (u64 \<Rightarrow> u64 \<Rightarrow> hash) \<Rightarrow> bool \<Rightarrow> ckpt \<Rightarrow> 'n ck_world \<Rightarrow> bool"
  for D :: "('n, 't) ck_sdk" and cfg K rr calm where
  start: "\<lbrakk>ht_heads (cw_tables w) = []; cw_published w = []; cw_frontier w = fresh_frontier (ks_EmptyHash D)\<rbrakk>
    \<Longrightarrow> ck_reach D cfg K rr calm NewCheckpointLoop w"
| builder: "\<lbrakk>ck_reach D cfg K rr calm l w; calm \<longrightarrow> commit_grows (cw_commit w) c\<rbrakk>
    \<Longrightarrow> ck_reach D cfg K rr calm l (w\<lparr>cw_commit := c, cw_nodes := s\<rparr>)"
| cycle: "\<lbrakk>ck_reach D cfg K rr calm l w; env_ok K calm rr E; CheckpointOnce D cfg E l w = (out, l', w')\<rbrakk>
    \<Longrightarrow> ck_reach D cfg K rr calm l' w'"
| restart: "\<lbrakk>ck_reach D cfg K rr calm l w; \<not> calm\<rbrakk> \<Longrightarrow> ck_reach D cfg K rr calm NewCheckpointLoop w"

subsection \<open>Durability\<close>

text \<open>
  For the durability of tiles the builder is rendered by what it does to the checkpoint loop's world: a
  committed batch sets the root row (\<open>rootSetTx\<close>) and then hands the nodes it wrote to the tail
  (\<open>PutBatchCommitted\<close>).  A restart starts from an empty tail and runs
  \<open>recoverTailOnBoot\<close> before the loops; the last batch before a crash may have set the row without
  handing its nodes over.  A live process that goes on after such a lost hand-over is not a run of this
  relation (\<open>BuilderProps.builder_lost_ack_strands_nodes\<close> shows what it leaves).  The leaf table is
  only read at a restart, where an empty one means an empty tree.
\<close>

inductive tiled_reach ::
  "('n, 't) ck_sdk \<Rightarrow> ck_cfg \<Rightarrow> int \<Rightarrow> (u64 \<Rightarrow> u64 \<Rightarrow> hash) \<Rightarrow> (hash \<Rightarrow> hash set) \<Rightarrow> 'n set_leaves \<Rightarrow> ckpt \<Rightarrow> 'n ck_world \<Rightarrow> bool"
  for D :: "('n, 't) ck_sdk" and cfg K rr T SetLeaves where
  tiled_start: "\<lbrakk>ht_heads (cw_tables w) = []; cw_published w = []; cw_frontier w = fresh_frontier (ks_EmptyHash D);
      cw_commit w = fresh_frontier (ks_EmptyHash D)\<rbrakk>
    \<Longrightarrow> tiled_reach D cfg K rr T SetLeaves NewCheckpointLoop w"
| tiled_builder: "\<lbrakk>tiled_reach D cfg K rr T SetLeaves l w; ReadCommit None (cw_commit w) = Inr (s0, r0);
      tree_writes T (ti_HashNode (ks_tile D)) r0 ns r; rootSetTx None r s (cw_commit w) = Inr c\<rbrakk>
    \<Longrightarrow> tiled_reach D cfg K rr T SetLeaves l
      (w\<lparr>cw_commit := c, cw_nodes := PutBatchCommitted (ti_HashNode (ks_tile D)) ns r (cw_nodes w)\<rparr>)"
| tiled_cycle: "\<lbrakk>tiled_reach D cfg K rr T SetLeaves l w; env_ok K False rr E; CheckpointOnce D cfg E l w = (out, l', w')\<rbrakk>
    \<Longrightarrow> tiled_reach D cfg K rr T SetLeaves l' w'"
| tiled_restart: "\<lbrakk>tiled_reach D cfg K rr T SetLeaves l w; c = cw_commit w \<or> rootSetTx None r s (cw_commit w) = Inr c;
      recoverTailOnBoot F (ti_HashNode (ks_tile D)) SetLeaves (ks_EmptyHash D) tiles c (cw_frontier w) tab (NewTailedNodeStore trace) = (Inr (), nodes);
      tab = [] \<longrightarrow> (\<forall>s r. ReadCommit None c = Inr (s, r) \<longrightarrow> r = ks_EmptyHash D)\<rbrakk>
    \<Longrightarrow> tiled_reach D cfg K rr T SetLeaves NewCheckpointLoop (w\<lparr>cw_commit := c, cw_nodes := nodes\<rparr>)"

definition stored_heads :: "'n ck_world \<Rightarrow> TreeHead set" where
  "stored_heads w = hr_head ` set (ht_heads (cw_tables w)) \<union> set (cw_published w)"

definition durable_world :: "(hash \<Rightarrow> hash set) \<Rightarrow> 'n ck_world \<Rightarrow> bool" where
  "durable_world tree_tiles w \<longleftrightarrow>
     (\<forall>h \<in> stored_heads w. tree_tiles (th_SMTRoot h) \<subseteq> keys (cw_tiles w))
     \<and> (\<forall>row. cw_frontier w = Some row \<longrightarrow> tree_tiles (un_hash (rr_root row)) \<subseteq> keys (cw_tiles w))"

lemma frontier_to_durable:
  assumes "\<forall>row. fr = Some row \<longrightarrow> T (un_hash (rr_root row)) \<subseteq> X" "T r \<subseteq> X" "frontier_to s r fr = Some row"
  shows "T (un_hash (rr_root row)) \<subseteq> X"
  using assms by (auto simp: frontier_to_def split: if_splits)

lemma quiet_heads: "quiet out l w l' w' \<Longrightarrow> stored_heads w' = stored_heads w"
  by (simp add: quiet_def stored_heads_def)

lemma cosigns_rows:
  assumes "cosigns E h out l w l' w'" "lawful_cosigner K (ce_Cosign E)" "r \<in> set (ht_heads (cw_tables w'))"
  shows "r \<in> set (ht_heads (cw_tables w)) \<or> hr_head r = h"
  using assms unfolding cosigns_def lawful_cosigner_def by (metis head_row.select_convs(1))

lemma cosigns_heads:
  assumes "cosigns E h out l w l' w'" "lawful_cosigner K (ce_Cosign E)"
  shows "stored_heads w' \<subseteq> insert h (stored_heads w)"
proof -
  have "hr_head ` set (ht_heads (cw_tables w')) \<subseteq> insert h (hr_head ` set (ht_heads (cw_tables w)))"
    using cosigns_rows [OF assms] by auto
  moreover have "set (cw_published w') \<subseteq> insert h (set (cw_published w))" using assms(1) by (auto simp: cosigns_def split: if_splits)
  ultimately show ?thesis by (auto simp: stored_heads_def)
qed

lemma ReadCommit_faultless: "ReadCommit flt row = Inr x \<Longrightarrow> ReadCommit None row = Inr x"
  by (cases flt) (auto simp: ReadCommit_def rootRead_def pg_run_def bindE_eq_Inr)

lemma ReadCommit_set: "rootSetTx None r s row = Inr c \<Longrightarrow> ReadCommit None c = Inr (s', r') \<Longrightarrow> r' = r"
  by (cases row) (auto simp: rootSetTx_def ReadCommit_def rootRead_def pg_run_def bindE_eq_Inr split: if_splits)

lemma cycle_retained:
  assumes "CheckpointOnce D cfg E l w = (out, l', w')" "exists_sound (ce_emit E)" "tile_contract (ks_tile D) (ks_EmptyHash D) T" "retained T w"
  shows "retained T w'"
proof -
  from CheckpointOnce_effect [OF assms(1-4)]
  have grow: "keys (cw_tiles w) \<subseteq> keys (cw_tiles w')" and com: "cw_commit w' = cw_commit w"
    and eff: "cw_nodes w' = cw_nodes w \<or> (\<exists>s r. ReadCommit (ce_commit E) (cw_commit w) = Inr (s, r) \<and> T r \<subseteq> keys (cw_tiles w'))"
    by (auto simp: quiet_def cosigns_def)
  from eff show ?thesis
  proof (elim disjE exE conjE)
    assume "cw_nodes w' = cw_nodes w"
    then show ?thesis using assms(4) com dirty_for_mono [OF _ grow order_refl] by (simp add: retained_def)
  next
    fix s r assume "ReadCommit (ce_commit E) (cw_commit w) = Inr (s, r)" "T r \<subseteq> keys (cw_tiles w')"
    then show ?thesis using ReadCommit_faultless dirty_for_durable [OF assms(3)] com by (fastforce simp: retained_def)
  qed
qed

lemma cycle_durable:
  assumes "durable_world T w" "CheckpointOnce D cfg E l w = (out, l', w')" "exists_sound (ce_emit E)"
    and "tile_contract (ks_tile D) (ks_EmptyHash D) T" "retained T w" "lawful_cosigner K (ce_Cosign E)"
  shows "durable_world T w'"
proof -
  note eff = CheckpointOnce_effect [OF assms(2-5)]
  have grow: "keys (cw_tiles w) \<subseteq> keys (cw_tiles w')" using eff by blast
  have old: "\<forall>row. cw_frontier w = Some row \<longrightarrow> T (un_hash (rr_root row)) \<subseteq> keys (cw_tiles w')"
    and heads: "\<forall>h \<in> stored_heads w. T (th_SMTRoot h) \<subseteq> keys (cw_tiles w')"
    using assms(1) grow unfolding durable_world_def by (blast intro: order_trans)+
  show ?thesis
  proof (cases "quiet out l w l' w' \<and> cw_frontier w' = cw_frontier w")
    case True
    then show ?thesis using old heads quiet_heads unfolding durable_world_def by metis
  next
    case False
    then obtain cSeq cRoot where root: "T cRoot \<subseteq> keys (cw_tiles w')"
      and fr: "cw_frontier w' = cw_frontier w \<or> cw_frontier w' = frontier_to cSeq cRoot (cw_frontier w)"
      and out: "quiet out l w l' w' \<or> (\<exists>h. head_of cfg E (ck_lastPublishedSize l) cSeq cRoot h \<and> cosigns E h out l w l' w')"
      using eff by blast
    have front: "\<forall>row. cw_frontier w' = Some row \<longrightarrow> T (un_hash (rr_root row)) \<subseteq> keys (cw_tiles w')"
      using fr old frontier_to_durable [OF old root] by metis
    from out have "\<forall>h \<in> stored_heads w'. T (th_SMTRoot h) \<subseteq> keys (cw_tiles w')"
    proof
      assume "quiet out l w l' w'"
      then show ?thesis using heads quiet_heads by metis
    next
      assume "\<exists>h. head_of cfg E (ck_lastPublishedSize l) cSeq cRoot h \<and> cosigns E h out l w l' w'"
      then obtain h where h: "th_SMTRoot h = cRoot" "cosigns E h out l w l' w'" by (auto simp: head_of_def)
      then show ?thesis using cosigns_heads [OF h(2) assms(6)] heads root by blast
    qed
    then show ?thesis using front by (simp add: durable_world_def)
  qed
qed

lemma frontier_durable:
  "durable_world T w \<Longrightarrow> ReadFrontier None (cw_frontier w) = Inr (s, r) \<Longrightarrow> T r \<subseteq> keys (cw_tiles w)"
  by (auto simp: durable_world_def ReadFrontier_def pg_run_def bindE_eq_Inr split: option.splits if_splits)

lemma fresh_row: "ReadCommit None (fresh_frontier r) = Inr (s, r') \<Longrightarrow> r' = r"
  by (auto simp: fresh_frontier_def ReadCommit_def rootRead_def pg_run_def bindE_eq_Inr split: if_splits)

lemma reach_durable:
  assumes "tiled_reach D cfg K rr T SetLeaves l w" "tile_contract (ks_tile D) (ks_EmptyHash D) T" "0 < K"
    and "replay_writes T (ti_HashNode (ks_tile D)) (ks_EmptyHash D) SetLeaves"
  shows "durable_world T w \<and> retained T w"
  using assms(1)
proof induction
  case (tiled_start w)
  have e: "T (ks_EmptyHash D) = {}" by (rule tile_contractD(1) [OF assms(2)])
  then show ?case using tiled_start by (auto simp: durable_world_def fresh_frontier_def stored_heads_def retained_def dirty_for_def dest!: fresh_row [unfolded fresh_frontier_def])
next
  case (tiled_builder l w s0 r0 ns r s c)
  have "dirty_for T (keys (cw_tiles w)) (keys (tn_tail (cw_nodes w))) r0" using tiled_builder.IH tiled_builder.hyps(2) retainedD by blast
  then have "dirty_for T (keys (cw_tiles w)) (keys (tn_tail (PutBatchCommitted (ti_HashNode (ks_tile D)) ns r (cw_nodes w)))) r"
    unfolding PutBatchCommitted_keys by (rule tree_writes_dirty [OF tiled_builder.hyps(3)])
  then show ?case using tiled_builder.IH ReadCommit_set [OF tiled_builder.hyps(4)] by (auto simp: durable_world_def stored_heads_def retained_def)
next
  case (tiled_cycle l w E out l' w')
  have "exists_sound (ce_emit E)" using tiled_cycle(2) by (simp add: env_ok_def)
  then show ?case
    using cycle_durable [OF _ tiled_cycle(3)] cycle_retained [OF tiled_cycle(3)] assms(2) env_lawful [OF tiled_cycle(2) assms(3)] tiled_cycle.IH by blast
next
  case (tiled_restart l w c r s F tiles tab trace nodes)
  have "dirty_for T (keys (cw_tiles w)) (keys (tn_tail nodes)) r'" if r': "ReadCommit None c = Inr (s', r')" for s' r'
    by (rule recovered_dirty [OF tiled_restart.hyps(3) assms(2,4) r']) (use tiled_restart.hyps(4) r' tiled_restart.IH frontier_durable in blast)+
  then show ?case using tiled_restart.IH by (auto simp: durable_world_def stored_heads_def retained_def)
qed

subsection \<open>Receipt ranges\<close>

text \<open>The range the receipt handler proves against for the checkpoint of size \<open>cSize\<close>.\<close>

definition receiptRange :: "string option \<Rightarrow> int \<Rightarrow> head_tables \<Rightarrow> u64 \<Rightarrow> head_error + (u64 \<times> u64)" where
  "receiptRange flt minSigs T cSize =
     bindE (CosignedSizeBelow flt cSize minSigs T) (\<lambda>prev.
       Inr ((case prev of None \<Rightarrow> 0 | Some p \<Rightarrow> p), cSize - 1))"

definition prev_size :: "u64 set \<Rightarrow> u64 \<Rightarrow> u64" where
  "prev_size C s = (if {x \<in> C. x < s} = {} then 0 else Max {x \<in> C. x < s})"

lemma receiptRange_eq: "receiptRange None K T s = Inr (prev_size (cosigned K T) s, s - 1)"
  by (auto simp: receiptRange_def CosignedSizeBelow_spec prev_size_def)

lemma prev_size_ge:
  assumes "x \<in> C" "x < s"
  shows "x \<le> prev_size C s"
proof -
  have "x \<le> Max {x \<in> C. x < s}" by (rule Max_ge) (use assms in auto)
  then show ?thesis using assms by (auto simp: prev_size_def)
qed

lemma prev_size_old: "s \<le> n \<Longrightarrow> prev_size (insert n C) s = prev_size C s"
proof -
  assume "s \<le> n"
  then have "{x \<in> insert n C. x < s} = {x \<in> C. x < s}" by auto
  then show ?thesis by (simp only: prev_size_def)
qed

lemma prev_size_new:
  assumes "\<forall>x \<in> C. x \<le> m" "m = 0 \<or> m \<in> C" "0 \<notin> C" "m < n"
  shows "prev_size (insert n C) n = m"
proof -
  have eq: "{x \<in> insert n C. x < n} = C" using assms(1,4) by auto
  show ?thesis
  proof (cases "C = {}")
    case True
    then show ?thesis using assms(2) eq by (simp add: prev_size_def)
  next
    case False
    then have "m \<in> C" using assms(1-3) by (metis all_not_in_conv word_le_0_iff)
    then have "Max C = m" using assms(1) by (intro Max_eqI) auto
    then show ?thesis using eq False by (simp add: prev_size_def)
  qed
qed

text \<open>
  The invariant of calm runs, over the heads in the table, the cosigned sizes, the last published size and
  the commit row.
\<close>

definition head_ok :: "(u64 \<Rightarrow> u64 \<Rightarrow> hash) \<Rightarrow> u64 set \<Rightarrow> u64 \<Rightarrow> root_row option \<Rightarrow> TreeHead \<Rightarrow> bool" where
  "head_ok rr C m c h \<longleftrightarrow> 0 < th_TreeSize h \<and> (\<exists>x. c = Some x \<and> th_TreeSize h - 1 \<le> rr_seq x)
     \<and> (th_TreeSize h \<in> C \<longrightarrow> th_ReceiptRoot h = rr (prev_size C (th_TreeSize h)) (th_TreeSize h - 1))
     \<and> (m < th_TreeSize h \<longrightarrow> th_ReceiptRoot h = rr m (th_TreeSize h - 1))"

definition receipts_inv :: "(u64 \<Rightarrow> u64 \<Rightarrow> hash) \<Rightarrow> TreeHead set \<Rightarrow> u64 set \<Rightarrow> u64 \<Rightarrow> root_row option \<Rightarrow> bool" where
  "receipts_inv rr H C m c \<longleftrightarrow>
     (\<forall>s \<in> C. s \<le> m) \<and> (m = 0 \<or> m \<in> C) \<and> C \<subseteq> th_TreeSize ` H \<and> (\<forall>h \<in> H. head_ok rr C m c h)"

lemma receipts_invD:
  assumes "receipts_inv rr H C m c"
  shows "\<forall>s \<in> C. s \<le> m" "m = 0 \<or> m \<in> C" "C \<subseteq> th_TreeSize ` H" "h \<in> H \<Longrightarrow> head_ok rr C m c h"
  using assms by (simp_all add: receipts_inv_def)

lemma word_le_inc: "a \<le> b \<Longrightarrow> 0 < b + 1 \<Longrightarrow> a < b + (1 :: u64)"
  using unatSuc [of b] by (simp add: word_less_nat_alt word_le_nat_alt add.commute [of 1 b]) (metis le_imp_less_Suc not_gr_zero unat_0)

lemma receipts_inv_commit:
  assumes "receipts_inv rr H C m c" "commit_grows c c'"
  shows "receipts_inv rr H C m c'"
proof -
  have "\<exists>y. c' = Some y \<and> th_TreeSize h - 1 \<le> rr_seq y" if mem: "h \<in> H" for h
  proof -
    obtain x where x: "c = Some x" "th_TreeSize h - 1 \<le> rr_seq x" using receipts_invD(4) [OF assms(1) mem] by (auto simp: head_ok_def)
    then obtain y where "c' = Some y" "rr_seq x \<le> rr_seq y" using assms(2) by (auto simp: commit_grows_def)
    then show ?thesis using x(2) by auto
  qed
  then show ?thesis using assms(1) by (simp add: receipts_inv_def head_ok_def)
qed

lemma word_pred_le: "0 < (s :: u64) \<Longrightarrow> s - 1 \<le> b \<Longrightarrow> 0 < b + 1 \<Longrightarrow> s \<le> b + 1"
  using word_le_inc [of "s - 1" b] inc_le [of "s - 1" "b + 1"] by simp

lemma receipts_inv_offer:
  assumes inv: "receipts_inv rr H C m (Some x)" and sz: "th_TreeSize h = rr_seq x + 1" "m < rr_seq x + 1"
    and rt: "th_ReceiptRoot h = rr m (rr_seq x)" and H': "H \<subseteq> H'" "H' \<subseteq> insert h H"
  shows "receipts_inv rr H' C m (Some x)"
proof -
  have "rr_seq x + 1 \<notin> C" using receipts_invD(1) [OF inv] sz(2) leD by blast
  moreover have "0 < rr_seq x + 1" using sz(2) by (rule le_less_trans [OF word_zero_le])
  moreover have "C \<subseteq> th_TreeSize ` H'" using receipts_invD(3) [OF inv] H'(1) by blast
  ultimately have "head_ok rr C m (Some x) h" using sz rt by (simp add: head_ok_def)
  then show ?thesis using inv H'(2) \<open>C \<subseteq> th_TreeSize ` H'\<close> unfolding receipts_inv_def by blast
qed

lemma receipts_inv_publish:
  assumes inv: "receipts_inv rr H C m (Some x)" and sz: "th_TreeSize h = rr_seq x + 1" "m < rr_seq x + 1"
    and rt: "th_ReceiptRoot h = rr m (rr_seq x)" and H': "H \<subseteq> H'" "H' \<subseteq> insert h H" "rr_seq x + 1 \<in> th_TreeSize ` H'"
  shows "receipts_inv rr H' (insert (rr_seq x + 1) C) (rr_seq x + 1) (Some x)"
proof -
  let ?n = "rr_seq x + 1"
  let ?C = "insert ?n C"
  note off = receipts_inv_offer [OF inv sz rt H'(1,2)]
  have pos: "0 < ?n" using sz(2) by (rule le_less_trans [OF word_zero_le])
  have C: "\<forall>s \<in> C. s \<le> m" "m = 0 \<or> m \<in> C" using receipts_invD(1,2) [OF inv] by blast+
  have C0: "0 \<notin> C" using receipts_invD(3) [OF inv] receipts_invD(4) [OF inv] by (fastforce simp: head_ok_def)
  have "th_ReceiptRoot g = rr (prev_size ?C (th_TreeSize g)) (th_TreeSize g - 1)" if g: "g \<in> H'" "th_TreeSize g \<in> ?C" for g
  proof (cases "th_TreeSize g = ?n")
    case True
    then have "th_ReceiptRoot g = rr m (?n - 1)" using receipts_invD(4) [OF off g(1)] sz(2) by (simp add: head_ok_def)
    then show ?thesis using True prev_size_new [OF C C0 sz(2)] by simp
  next
    case False
    then have "th_TreeSize g \<in> C" using g(2) by simp
    then have "th_ReceiptRoot g = rr (prev_size C (th_TreeSize g)) (th_TreeSize g - 1)" "th_TreeSize g \<le> ?n"
      using receipts_invD(4) [OF off g(1)] C(1) sz(2) by (auto simp: head_ok_def)
    then show ?thesis using prev_size_old by simp
  qed
  moreover have "\<not> ?n < th_TreeSize g" if "g \<in> H'" for g
  proof -
    have "0 < th_TreeSize g" "th_TreeSize g - 1 \<le> rr_seq x" using receipts_invD(4) [OF off that] by (auto simp: head_ok_def)
    then show ?thesis using word_pred_le pos by (simp add: not_less)
  qed
  moreover have "?C \<subseteq> th_TreeSize ` H'" "\<forall>s \<in> ?C. s \<le> ?n" using receipts_invD(3) [OF off] H'(3) C(1) sz(2) by auto
  moreover have "0 < th_TreeSize g \<and> th_TreeSize g - 1 \<le> rr_seq x" if "g \<in> H'" for g
    using receipts_invD(4) [OF off that] by (auto simp: head_ok_def)
  ultimately show ?thesis by (simp add: receipts_inv_def head_ok_def)
qed

lemma no_tiles_complete: "tile_contract D eh (\<lambda>_. {})" "retained (\<lambda>_. {}) w"
  by (simp_all add: tile_contract_def dirty_for_def retained_def)

lemma ReadCommit_seq: "ReadCommit flt row = Inr (s, r) \<Longrightarrow> \<exists>x. row = Some x \<and> rr_seq x = s"
  by (auto simp: ReadCommit_def rootRead_def pg_run_def bindE_eq_Inr split: option.splits if_splits)

definition table_heads :: "'n ck_world \<Rightarrow> TreeHead set" where
  "table_heads w = hr_head ` set (ht_heads (cw_tables w))"

lemma cosigned_in_table: "cosigned K (cw_tables w) \<subseteq> th_TreeSize ` table_heads w"
  by (auto simp: cosigned_def cosignedRows_def table_heads_def)

lemma cosigns_table:
  assumes "cosigns E h out l w l' w'" "lawful_cosigner K (ce_Cosign E)"
  shows "table_heads w \<subseteq> table_heads w'" "table_heads w' \<subseteq> insert h (table_heads w)"
proof -
  have "set (ht_heads (cw_tables w)) \<subseteq> set (ht_heads (cw_tables w'))"
    using assms unfolding cosigns_def lawful_cosigner_def by blast
  then show "table_heads w \<subseteq> table_heads w'" by (auto simp: table_heads_def)
  show "table_heads w' \<subseteq> insert h (table_heads w)" using cosigns_rows [OF assms] by (auto simp: table_heads_def)
qed

lemma cycle_receipts:
  assumes inv: "receipts_inv rr (table_heads w) (cosigned K (cw_tables w)) (ck_lastPublishedSize l) (cw_commit w)"
    and env: "env_ok K True rr E" "0 < K" "kc_receipts cfg" and run: "CheckpointOnce D cfg E l w = (out, l', w')"
  shows "receipts_inv rr (table_heads w') (cosigned K (cw_tables w')) (ck_lastPublishedSize l') (cw_commit w')"
proof -
  have E: "exists_sound (ce_emit E)" "ce_Archive E = None" "ce_Publish E = None"
    and fail: "\<And>h T e T'. ce_Cosign E h T = (Inl e, T') \<Longrightarrow> cosigned K T' = cosigned K T"
    and rr: "\<And>a b x. ce_ReceiptRoot E a b = Inr x \<Longrightarrow> x = rr a b" using env(1) by (auto simp: env_ok_def)
  note law = env_lawful [OF env(1,2)]
  from CheckpointOnce_effect [OF run E(1) no_tiles_complete]
  consider "quiet out l w l' w'"
    | cSeq cRoot h where "ReadCommit (ce_commit E) (cw_commit w) = Inr (cSeq, cRoot)" "ck_lastPublishedSize l < cSeq + 1"
        "head_of cfg E (ck_lastPublishedSize l) cSeq cRoot h" "cosigns E h out l w l' w'"
    by blast
  then show ?thesis
  proof cases
    case 1
    then show ?thesis using inv by (simp add: quiet_def table_heads_def)
  next
    case 2
    obtain x where x: "cw_commit w = Some x" "rr_seq x = cSeq" using ReadCommit_seq [OF 2(1)] by blast
    have h: "th_TreeSize h = rr_seq x + 1" "ck_lastPublishedSize l < rr_seq x + 1" "th_ReceiptRoot h = rr (ck_lastPublishedSize l) (rr_seq x)"
      using 2(2,3) x(2) env(3) rr by (auto simp: head_of_def)
    obtain res where res: "ce_Cosign E h (cw_tables w) = (res, cw_tables w')" "cw_commit w' = cw_commit w"
      "okE res \<Longrightarrow> ck_lastPublishedSize l' = th_TreeSize h" "\<not> okE res \<Longrightarrow> ck_lastPublishedSize l' = ck_lastPublishedSize l"
      using 2(4) E by (auto simp: cosigns_def split: if_splits)
    note tab = cosigns_table [OF 2(4) law]
    show ?thesis
    proof (cases res)
      case (Inl e)
      then show ?thesis using receipts_inv_offer [OF inv [unfolded x(1)] h tab] res x(1) fail by simp
    next
      case (Inr n)
      have "cosigned K (cw_tables w') = insert (rr_seq x + 1) (cosigned K (cw_tables w))"
        using law res(1) Inr h(1) unfolding lawful_cosigner_def by (metis insert_subset okE.simps(2) subset_antisym)
      moreover from this have "rr_seq x + 1 \<in> th_TreeSize ` table_heads w'" using cosigned_in_table [of K w'] by auto
      ultimately show ?thesis using receipts_inv_publish [OF inv [unfolded x(1)] h tab] res Inr x(1) h(1) by simp
    qed
  qed
qed

lemma reach_receipts:
  assumes "ck_reach D cfg K rr calm l w" calm "kc_receipts cfg" "0 < K"
  shows "receipts_inv rr (table_heads w) (cosigned K (cw_tables w)) (ck_lastPublishedSize l) (cw_commit w)"
  using assms(1)
proof induction
  case (start w)
  then show ?case by (simp add: receipts_inv_def table_heads_def cosigned_def cosignedRows_def NewCheckpointLoop_def)
next
  case (builder l w c s)
  then show ?case using receipts_inv_commit assms(2) by (auto simp: table_heads_def)
next
  case (cycle l w E out l' w')
  then show ?case using cycle_receipts [of rr w K l E cfg D out l' w'] assms(2-4) by simp
qed (use assms(2) in auto)

lemma fresh_publish:
  assumes "CheckpointOnce D cfg E NewCheckpointLoop w = (Inr CkPublished, l', w')" "exists_sound (ce_emit E)"
    and "ReadCommit (ce_commit E) (cw_commit w) = Inr (cSeq, cRoot)"
  obtains h where "head_of cfg E 0 cSeq cRoot h" "cosigns E h (Inr CkPublished) NewCheckpointLoop w l' w'" "0 < cSeq + 1"
proof -
  have new: "ck_lastPublishedSize NewCheckpointLoop = 0" by (simp add: NewCheckpointLoop_def)
  from CheckpointOnce_effect [OF assms(1,2) no_tiles_complete, unfolded assms(3) new]
  obtain h where "0 < cSeq + 1" "head_of cfg E 0 cSeq cRoot h" "cosigns E h (Inr CkPublished) NewCheckpointLoop w l' w'"
    by (auto simp: quiet_def)
  then show ?thesis using that by blast
qed

subsection \<open>Properties\<close>

text \<open>
  C3
  Over every sequence of checkpoint cycles, committed builder batches and process restarts (a crash between
  a batch's commit and its hand-over included), and over interface failures at any step of a cycle, partial
  tile emissions and publications of unknown outcome included: each head in \<open>tree_heads\<close> and each
  published head has all tiles of its state root in the durable tile store, and so has the root the tile
  frontier names; and the tail is a correct dirty set for the committed root.  The hypotheses are the SDK's
  tile contract, which promises a complete emission for a correct dirty set only, and that its tree writes
  every tile top of a new root that the old root did not have; the environment's is that \<open>Exists\<close>
  never reports a missing object.
\<close>

theorem checkpoint_published_durable:
  assumes "tiled_reach D cfg K rr tree_tiles SetLeaves l w" "0 < K" "tile_contract (ks_tile D) (ks_EmptyHash D) tree_tiles"
    and "replay_writes tree_tiles (ti_HashNode (ks_tile D)) (ks_EmptyHash D) SetLeaves"
  shows "(\<forall>h \<in> stored_heads w. tree_tiles (th_SMTRoot h) \<subseteq> keys (cw_tiles w))
    \<and> (\<forall>s r. ReadFrontier None (cw_frontier w) = Inr (s, r) \<longrightarrow> tree_tiles r \<subseteq> keys (cw_tiles w))
    \<and> (\<forall>s r. ReadCommit None (cw_commit w) = Inr (s, r) \<longrightarrow> dirty_for tree_tiles (keys (cw_tiles w)) (keys (tn_tail (cw_nodes w))) r)"
proof -
  have inv: "durable_world tree_tiles w" "retained tree_tiles w" using reach_durable [OF assms(1,3,2,4)] by simp_all
  then show ?thesis using frontier_durable [OF inv(1)] retainedD [OF inv(2)] by (simp add: durable_world_def)
qed

text \<open>
  C17
  While the process neither restarts nor fails between the stored quorum of a head and its publication, the
  receipt root of every head with a quorum of signatures is the root over exactly the range that the receipt
  handler reconstructs from \<open>tree_heads\<close>: from the next smaller cosigned size to the head's last
  entry.  Heads left behind without a quorum do not disturb this.
\<close>

theorem checkpoint_receipts_match_handler:
  assumes "ck_reach D cfg K rr True l w" "0 < K" "kc_receipts cfg" "r \<in> set (ht_heads (cw_tables w))"
    and "th_TreeSize (hr_head r) \<in> cosigned K (cw_tables w)"
  shows "\<exists>a b. receiptRange None K (cw_tables w) (th_TreeSize (hr_head r)) = Inr (a, b) \<and> th_ReceiptRoot (hr_head r) = rr a b"
proof -
  have "hr_head r \<in> table_heads w" using assms(4) by (simp add: table_heads_def)
  then have "head_ok rr (cosigned K (cw_tables w)) (ck_lastPublishedSize l) (cw_commit w) (hr_head r)"
    by (rule receipts_invD(4) [OF reach_receipts [OF assms(1) TrueI assms(3,2)]])
  then show ?thesis using assms(5) by (simp add: receiptRange_eq head_ok_def)
qed

text \<open>
  C35
  The first head published after a restart does not have that property: the loop starts with
  \<open>lastPublishedSize\<close> 0 and nothing seeds it, so the head commits to the receipts of the whole log
  from entry 0, while the handler proves against the range that starts at the previous cosigned size.
\<close>

theorem checkpoint_restart_receipts:
  assumes "CheckpointOnce D cfg E NewCheckpointLoop w = (Inr CkPublished, l', w')" "env_ok K calm rr E" "0 < K" "kc_receipts cfg"
    and "ReadCommit (ce_commit E) (cw_commit w) = Inr (cSeq, cRoot)"
    and "s0 \<in> cosigned K (cw_tables w)" "0 < s0" "s0 \<le> cSeq"
  shows "\<exists>h a. cw_published w' = cw_published w @ [h] \<and> th_ReceiptRoot h = rr 0 cSeq
    \<and> receiptRange None K (cw_tables w') (th_TreeSize h) = Inr (a, cSeq) \<and> 0 < a"
proof -
  have E: "exists_sound (ce_emit E)" and rr: "\<And>a b x. ce_ReceiptRoot E a b = Inr x \<Longrightarrow> x = rr a b" using assms(2) by (auto simp: env_ok_def)
  obtain h where h: "head_of cfg E 0 cSeq cRoot h" "cosigns E h (Inr CkPublished) NewCheckpointLoop w l' w'" "0 < cSeq + 1"
    using fresh_publish [OF assms(1) E assms(5)] .
  have size: "th_TreeSize h = cSeq + 1" "th_ReceiptRoot h = rr 0 cSeq" using h(1) assms(4) rr by (auto simp: head_of_def)
  have "s0 \<in> cosigned K (cw_tables w')"
    using h(2) assms(6) env_lawful [OF assms(2,3)] unfolding cosigns_def lawful_cosigner_def by blast
  then have "s0 \<le> prev_size (cosigned K (cw_tables w')) (cSeq + 1)" using prev_size_ge word_le_inc [OF assms(8) h(3)] by blast
  then have "0 < prev_size (cosigned K (cw_tables w')) (cSeq + 1)" using assms(7) by (rule less_le_trans [rotated])
  then show ?thesis using h(2) size by (auto simp: cosigns_def receiptRange_eq)
qed

subsection \<open>A concrete run\<close>

text \<open>
  A node is a byte string and hashes to its first byte; the tile of root 5 has one tile below it, 6, which
  the incremental walk reaches only through a dirty 5.
\<close>

definition demo_below :: "hash \<Rightarrow> hash list" where
  "demo_below r = (if r = 0 then [] else if r = 5 then [5, 6] else [r])"

definition demo_walk :: "hash list \<Rightarrow> (hash \<Rightarrow> bool) \<Rightarrow> hash \<Rightarrow> (hash \<times> unit) list" where
  "demo_walk dirty kn r = (if r \<in> set dirty then map (\<lambda>i. (i, ())) (filter (\<lambda>i. i \<in> set dirty \<and> \<not> kn i) (demo_below r)) else [])"

definition demo_ck_tiles :: "(bytes, unit) tile_sdk" where
  "demo_ck_tiles = \<lparr>ti_HashNode = \<lambda>n. ucast (hd n), ti_Nodes = \<lambda>_. [], ti_Encode = \<lambda>_. Inr [],
     ti_BuildTiles = \<lambda>_ r. Inr (map (\<lambda>i. (i, ())) (demo_below r)), ti_BuildDirtyTiles = \<lambda>_ tail r _ kn. Inr (demo_walk (map fst tail) kn r)\<rparr>"

definition demo_replay :: "bytes set_leaves" where
  "demo_replay leaves V = (None, Inr 5, [[5], [6]])"

definition demo_ck :: "(bytes, unit) ck_sdk" where
  "demo_ck = \<lparr>ks_tile = demo_ck_tiles, ks_kids = \<lambda>_. None, ks_EmptyHash = 0\<rparr>"

definition demo_cfg :: ck_cfg where
  "demo_cfg = \<lparr>kc_receipts = True, kc_archiver = True, kc_tail = True, kc_audit = False, kc_pruneOrphans = False\<rparr>"

definition demo_rr :: "u64 \<Rightarrow> u64 \<Rightarrow> hash" where "demo_rr a b = 16 * ucast a + ucast b"

definition demo_tree :: "hash \<Rightarrow> hash set" where "demo_tree r = set (demo_below r)"

definition demo_emit :: "bytes emit_env" where
  "demo_emit = \<lparr>em_tailed = True, em_nodes = Map.empty, em_tiled = Map.empty, em_Exists = \<lambda>st i. Inr (i \<in> set (map fst st)),
     em_Put = \<lambda>_. None, em_index = False, em_PutNodes = None\<rparr>"

definition demo_hs :: HeadSync where "demo_hs = \<lparr>hs_collector = True, hs_endpoints = [''u'']\<rparr>"

definition demo_sync :: "bytes sync_env" where
  "demo_sync = \<lparr>se_Collect = \<lambda>_. Inr \<lparr>co_Signatures = [[7]], co_PerEndpoint = [None]\<rparr>, se_head = None, se_sig = \<lambda>_. None,
     se_Marshal = Inr, se_SchemeTag = \<lambda>_. 1\<rparr>"

definition demo_ck_env :: "bytes ck_env" where
  "demo_ck_env = \<lparr>ce_commit = None, ce_frontier = None, ce_integrated = Inr 9, ce_emit = demo_emit, ce_advance = None, ce_tilesGet = \<lambda>_. Inr None,
     ce_RootAtSize = \<lambda>_. Inr 1, ce_ReceiptRoot = \<lambda>a b. Inr (demo_rr a b), ce_Validate = \<lambda>_. None, ce_Cosign = WitnessCosigner (Some demo_hs) demo_sync,
     ce_Archive = None, ce_Publish = None\<rparr>"

definition demo_head :: "u64 \<Rightarrow> hash \<Rightarrow> TreeHead" where
  "demo_head s r = \<lparr>th_TreeSize = s + 1, th_RootHash = 1, th_SMTRoot = r, th_ReceiptRoot = demo_rr 0 s\<rparr>"

definition demo_sig :: "u64 \<Rightarrow> sig_row" where
  "demo_sig s = \<lparr>sr_size = s + 1, sr_algo = 1, sr_signer = ''u'', sr_sigAlgo = 1, sr_signature = [7]\<rparr>"

definition demo_tables :: "(u64 \<times> hash) list \<Rightarrow> head_tables" where
  "demo_tables hs = \<lparr>ht_heads = map (\<lambda>(s, r). \<lparr>hr_head = demo_head s r, hr_algo = 1\<rparr>) hs, ht_sigs = map (\<lambda>(s, r). demo_sig s) hs, ht_cached = None\<rparr>"

definition demo_world :: "u64 \<Rightarrow> hash \<Rightarrow> (u64 \<times> hash) list \<Rightarrow> bytes ck_world" where
  "demo_world s r hs = \<lparr>cw_commit = Some \<lparr>rr_root = hash_bytes r, rr_seq = s\<rparr>, cw_frontier = fresh_frontier 0, cw_tiles = [], cw_index = [],
     cw_nodes = NewTailedNodeStore False, cw_tables = demo_tables hs, cw_archive = [], cw_published = map (\<lambda>(s, r). demo_head s r) hs\<rparr>"

lemmas demo_ck_defs = demo_ck_tiles_def demo_ck_def demo_cfg_def demo_emit_def demo_ck_env_def demo_world_def demo_tables_def fresh_frontier_def
  NewCheckpointLoop_def

lemma demo_sync_ok: "sync_ok 1 demo_hs demo_sync"
  by (simp add: sync_ok_def demo_hs_def demo_sync_def)

lemma demo_cosign_never_fails: "WitnessCosigner (Some demo_hs) demo_sync h T = (Inl e, T') \<Longrightarrow> cosigned K T' = cosigned K T"
proof -
  assume "WitnessCosigner (Some demo_hs) demo_sync h T = (Inl e, T')"
  moreover obtain T1 where ih: "InsertHead None h hashAlgo T = (Inr (), T1)" by (simp add: InsertHead_def Let_def)
  moreover have "\<exists>r \<in> set (ht_heads T1). th_TreeSize (hr_head r) = th_TreeSize h \<and> hr_algo r = hashAlgo"
    using InsertHead_extends(3) [OF ih] by simp
  ultimately have False
    by (auto simp: WitnessCosigner_def RequestCosignatures_def demo_hs_def demo_sync_def persistSignatures_def InsertSig_def Let_def signerLabel_def
        split: prod.splits sum.splits if_splits)
  then show ?thesis ..
qed

lemma demo_contract: "tile_contract (ks_tile demo_ck) (ks_EmptyHash demo_ck) demo_tree"
proof -
  have walk: "demo_tree r \<subseteq> fst ` set (demo_walk dirty kn r) \<union> S" if "{i. kn i} \<subseteq> S" "dirty_for demo_tree S (set dirty) r" for dirty kn r S
  proof
    fix i assume i: "i \<in> demo_tree r"
    then have self: "i \<in> demo_tree i" and root: "r \<in> demo_tree r" by (auto simp: demo_tree_def demo_below_def split: if_splits)
    have "i \<in> set dirty \<or> i \<in> S" "r \<in> set dirty \<or> i \<in> S" using that(2) i self root unfolding dirty_for_def by blast+
    then show "i \<in> fst ` set (demo_walk dirty kn r) \<union> S" using that(1) i by (force simp: demo_walk_def demo_tree_def)
  qed
  show ?thesis unfolding tile_contract_def
  proof (intro conjI allI impI)
    fix ns tail r r0 kn ts S
    assume "ti_BuildDirtyTiles (ks_tile demo_ck) ns tail r r0 kn = Inr ts" "{i. kn i} \<subseteq> S" "dirty_for demo_tree S (fst ` set tail) r"
    then show "demo_tree r \<subseteq> fst ` set ts \<union> S" using walk [of kn S "map fst tail" r] by (auto simp: demo_ck_def demo_ck_tiles_def)
  qed (auto simp: demo_ck_def demo_ck_tiles_def demo_tree_def demo_below_def split: if_splits)
qed

lemma demo_receipts: "kc_receipts demo_cfg"
  by (simp add: demo_cfg_def)

lemma demo_replays: "replay_writes demo_tree (ti_HashNode (ks_tile demo_ck)) (ks_EmptyHash demo_ck) demo_replay"
  by (auto simp: replay_writes_def tree_writes_def demo_replay_def demo_ck_def demo_ck_tiles_def demo_tree_def demo_below_def)

lemma demo_env: "env_ok 1 calm demo_rr demo_ck_env"
proof -
  have "exists_sound (ce_emit demo_ck_env)" by (auto simp: exists_sound_def demo_ck_defs)
  moreover have "ce_Cosign demo_ck_env = WitnessCosigner (Some demo_hs) demo_sync" by (simp add: demo_ck_env_def)
  ultimately show ?thesis using demo_sync_ok demo_cosign_never_fails by (auto simp: env_ok_def demo_ck_env_def)
qed

lemma demo_cosign:
  assumes "\<forall>x \<in> set hs. fst x \<noteq> s"
  shows "WitnessCosigner (Some demo_hs) demo_sync (demo_head s r) (demo_tables hs) = (Inr 1, demo_tables (hs @ [(s, r)]))"
proof -
  have "\<forall>x \<in> set hs. fst x + 1 \<noteq> s + 1" using assms by simp
  then show ?thesis
    by (auto simp: WitnessCosigner_def RequestCosignatures_def demo_hs_def demo_sync_def persistSignatures_def InsertHead_def InsertSig_def Let_def
        signerLabel_def Invalidate_def demo_tables_def demo_head_def demo_sig_def hashAlgo_def)
qed

lemma demo_ck_cycle:
  assumes "s + 1 \<le> 9" "0 < s + 1" "r \<noteq> 0" "\<forall>x \<in> set hs. fst x \<noteq> s"
  obtains l w where "CheckpointOnce demo_ck demo_cfg demo_ck_env NewCheckpointLoop (demo_world s r hs) = (Inr CkPublished, l, w)"
    "cw_tables w = demo_tables (hs @ [(s, r)])" "cw_published w = map (\<lambda>(s, r). demo_head s r) (hs @ [(s, r)])"
proof -
  obtain out l w where run: "CheckpointOnce demo_ck demo_cfg demo_ck_env NewCheckpointLoop (demo_world s r hs) = (out, l, w)"
    by (metis prod_cases3)
  note cos = demo_cosign [OF assms(4), of r, unfolded demo_head_def demo_tables_def]
  have "out = Inr CkPublished \<and> cw_tables w = demo_tables (hs @ [(s, r)]) \<and> cw_published w = map (\<lambda>(s, r). demo_head s r) (hs @ [(s, r)])"
    using run assms(1-3)
    by (auto simp: CheckpointOnce_def ckFinish_def ckPublish_def buildPublishableHead_def receiptRootForCheckpoint_def ckTail_def
        ReadCommit_def rootRead_def ReadFrontier_def AdvanceFrontier_def EmitDurable_def buildTiles_def known_def pg_run_def Let_def
        TreeSizeForCommittedSeq_def bindE_def demo_ck_defs tileHashes_def demo_head_def demo_walk_def NewTailedNodeStore_def cos split: if_splits)
  then show ?thesis using that run by blast
qed

lemma demo_ck_reach:
  obtains l w where "ck_reach demo_ck demo_cfg 1 demo_rr calm l w" "cw_tables w = demo_tables [(1, 5)]" "cw_published w = [demo_head 1 5]"
proof -
  have start: "ck_reach demo_ck demo_cfg 1 demo_rr calm NewCheckpointLoop (demo_world 1 5 [])"
    by (rule ck_reach.start) (simp_all add: demo_ck_defs)
  obtain l w where run: "CheckpointOnce demo_ck demo_cfg demo_ck_env NewCheckpointLoop (demo_world 1 5 []) = (Inr CkPublished, l, w)"
    "cw_tables w = demo_tables ([] @ [(1, 5)])" "cw_published w = map (\<lambda>(s, r). demo_head s r) ([] @ [(1, 5)])"
    by (rule demo_ck_cycle [of 1 5 "[]"]) simp_all
  show ?thesis using that [OF ck_reach.cycle [OF start demo_env run(1)]] run(2-3) by simp
qed

lemma demo_cosigned: "2 \<in> cosigned 1 (demo_tables [(1, 5)])"
  by (simp add: cosigned_iff signers_def sigsOf_def demo_tables_def demo_head_def demo_sig_def)

definition demo_built :: "bytes ck_world" where
  "demo_built = (demo_world 0 0 [])\<lparr>cw_commit := Some \<lparr>rr_root = hash_bytes 5, rr_seq = 1\<rparr>,
     cw_nodes := PutBatchCommitted (ti_HashNode (ks_tile demo_ck)) [[5], [6]] 5 (NewTailedNodeStore False)\<rparr>"

lemma demo_tiled: "tiled_reach demo_ck demo_cfg 1 demo_rr demo_tree demo_replay NewCheckpointLoop demo_built"
proof -
  have "tiled_reach demo_ck demo_cfg 1 demo_rr demo_tree demo_replay NewCheckpointLoop (demo_world 0 0 [])"
    by (rule tiled_start) (simp_all add: demo_ck_defs)
  moreover have "ReadCommit None (cw_commit (demo_world 0 0 [])) = Inr (0, 0)"
    "rootSetTx None 5 1 (cw_commit (demo_world 0 0 [])) = Inr (Some \<lparr>rr_root = hash_bytes 5, rr_seq = 1\<rparr>)"
    by (simp_all add: ReadCommit_def rootRead_def rootSetTx_def pg_run_def bindE_def demo_ck_defs)
  moreover have "tree_writes demo_tree (ti_HashNode (ks_tile demo_ck)) 0 [[5], [6]] 5"
    by (simp add: tree_writes_def demo_ck_def demo_ck_tiles_def demo_tree_def demo_below_def)
  ultimately show ?thesis using tiled_builder [of demo_ck demo_cfg 1 demo_rr demo_tree demo_replay _ "demo_world 0 0 []"]
    by (fastforce simp: demo_built_def demo_world_def)
qed

lemma demo_built_cycle:
  obtains l w where "CheckpointOnce demo_ck demo_cfg demo_ck_env NewCheckpointLoop demo_built = (Inr CkPublished, l, w)" "cw_published w = [demo_head 1 5]"
proof -
  obtain out l w where run: "CheckpointOnce demo_ck demo_cfg demo_ck_env NewCheckpointLoop demo_built = (out, l, w)"
    by (metis prod_cases3)
  note cos = demo_cosign [of "[]" 1 5, unfolded demo_head_def demo_tables_def, simplified]
  have "out = Inr CkPublished \<and> cw_published w = [demo_head 1 5]"
    using run
    by (auto simp: CheckpointOnce_def ckFinish_def ckPublish_def buildPublishableHead_def receiptRootForCheckpoint_def ckTail_def
        ReadCommit_def rootRead_def ReadFrontier_def AdvanceFrontier_def EmitDurable_def buildTiles_def known_def pg_run_def Let_def
        TreeSizeForCommittedSeq_def bindE_def demo_ck_defs tileHashes_def demo_head_def demo_built_def demo_walk_def demo_below_def
        PutBatchCommitted_def PutBatch_def NewTailedNodeStore_def cos split: if_splits)
  then show ?thesis using that run by blast
qed

theorem checkpoint_published_durable_witness:
  "\<exists>l w. tiled_reach demo_ck demo_cfg 1 demo_rr demo_tree demo_replay l w \<and> cw_published w = [demo_head 1 5] \<and> {5, 6} \<subseteq> keys (cw_tiles w)"
proof -
  obtain l w where run: "CheckpointOnce demo_ck demo_cfg demo_ck_env NewCheckpointLoop demo_built = (Inr CkPublished, l, w)" "cw_published w = [demo_head 1 5]"
    by (rule demo_built_cycle)
  have reach: "tiled_reach demo_ck demo_cfg 1 demo_rr demo_tree demo_replay l w" by (rule tiled_cycle [OF demo_tiled demo_env run(1)])
  have "demo_tree (th_SMTRoot (demo_head 1 5)) \<subseteq> keys (cw_tiles w)"
    using checkpoint_published_durable [OF reach _ demo_contract demo_replays] run(2) by (auto simp: stored_heads_def)
  then show ?thesis using reach run(2) by (auto simp: demo_head_def demo_tree_def demo_below_def)
qed

theorem checkpoint_receipts_match_handler_witness:
  "\<exists>l w a b. ck_reach demo_ck demo_cfg 1 demo_rr True l w \<and> receiptRange None 1 (cw_tables w) 2 = Inr (a, b)
    \<and> th_ReceiptRoot (demo_head 1 5) = demo_rr a b"
proof -
  obtain l w where run: "ck_reach demo_ck demo_cfg 1 demo_rr True l w" "cw_tables w = demo_tables [(1, 5)]" by (rule demo_ck_reach)
  have "\<lparr>hr_head = demo_head 1 5, hr_algo = 1\<rparr> \<in> set (ht_heads (cw_tables w))" "th_TreeSize (demo_head 1 5) = 2"
    by (simp_all add: run(2) demo_tables_def demo_head_def)
  then show ?thesis using run checkpoint_receipts_match_handler [OF run(1) _ demo_receipts] demo_cosigned by fastforce
qed

theorem checkpoint_restart_receipts_witness:
  "\<exists>l w h a. CheckpointOnce demo_ck demo_cfg demo_ck_env NewCheckpointLoop (demo_world 3 6 [(1, 5)]) = (Inr CkPublished, l, w)
    \<and> cw_published w = [demo_head 1 5, h] \<and> th_ReceiptRoot h = demo_rr 0 3
    \<and> receiptRange None 1 (cw_tables w) (th_TreeSize h) = Inr (a, 3) \<and> 0 < a"
proof -
  obtain l w where run: "CheckpointOnce demo_ck demo_cfg demo_ck_env NewCheckpointLoop (demo_world 3 6 [(1, 5)]) = (Inr CkPublished, l, w)"
    by (rule demo_ck_cycle [of 3 6 "[(1, 5)]"]) simp_all
  have rc: "ReadCommit (ce_commit demo_ck_env) (cw_commit (demo_world 3 6 [(1, 5)])) = Inr (3, 6)"
    by (simp add: ReadCommit_def rootRead_def pg_run_def bindE_def demo_ck_defs)
  have "2 \<in> cosigned 1 (cw_tables (demo_world 3 6 [(1, 5)]))" using demo_cosigned by (simp add: demo_world_def)
  from checkpoint_restart_receipts [OF run demo_env [of True] _ demo_receipts rc this]
  show ?thesis using run by (auto simp: demo_world_def)
qed

end
