(* ===== verification/Breaker.thy ===== *)
theory Breaker
  imports Prelude
begin

section \<open>The circuit breaker over the connection pool\<close>

text \<open>
  Models \<open>store/breaker.go\<close>.  Times are nanoseconds.  \<open>Acquire\<close> calls the gate and the
  result record under the mutex but the pool in between without it, so a run is a sequence of
  \<open>enter\<close> and \<open>leave\<close> steps of concurrent callers; each caller in flight is marked with
  whether it was granted the probe.
\<close>

datatype breakerState = breakerClosed | breakerOpen | breakerHalfOpen

record Breaker =
  bk_failureThreshold :: int
  bk_cooldown :: int
  bk_state :: breakerState
  bk_consecutiveErr :: int
  bk_openedAt :: int
  bk_probeInFlight :: bool

definition DefaultBreakerFailureThreshold :: int where "DefaultBreakerFailureThreshold = 5"
definition DefaultBreakerCooldown :: int where "DefaultBreakerCooldown = 5000000000"

definition NewBreaker :: "int \<Rightarrow> int \<Rightarrow> Breaker" where
  "NewBreaker failureThreshold cooldown =
     \<lparr>bk_failureThreshold = (if failureThreshold \<le> 0 then DefaultBreakerFailureThreshold else failureThreshold),
      bk_cooldown = (if cooldown \<le> 0 then DefaultBreakerCooldown else cooldown),
      bk_state = breakerClosed, bk_consecutiveErr = 0, bk_openedAt = 0, bk_probeInFlight = False\<rparr>"

definition gate :: "int \<Rightarrow> Breaker \<Rightarrow> (breakerState \<times> bool) \<times> Breaker" where
  "gate now b =
     (case bk_state b of
        breakerClosed \<Rightarrow> ((breakerClosed, False), b)
      | breakerHalfOpen \<Rightarrow>
          if bk_probeInFlight b then ((breakerOpen, False), b)
          else ((breakerHalfOpen, True), b\<lparr>bk_probeInFlight := True\<rparr>)
      | breakerOpen \<Rightarrow>
          if now - bk_openedAt b < bk_cooldown b then ((breakerOpen, False), b)
          else ((breakerHalfOpen, True), b\<lparr>bk_state := breakerHalfOpen, bk_probeInFlight := True\<rparr>))"

definition recordResult :: "bool \<Rightarrow> int \<Rightarrow> Breaker \<Rightarrow> Breaker" where
  "recordResult ok now b =
     (if ok then b\<lparr>bk_state := breakerClosed, bk_consecutiveErr := 0, bk_probeInFlight := False\<rparr>
      else if bk_state b = breakerHalfOpen then b\<lparr>bk_state := breakerOpen, bk_openedAt := now, bk_probeInFlight := False\<rparr>
      else
        let b1 = b\<lparr>bk_consecutiveErr := bk_consecutiveErr b + 1\<rparr> in
        if bk_state b1 = breakerClosed \<and> bk_consecutiveErr b1 \<ge> bk_failureThreshold b1
        then b1\<lparr>bk_state := breakerOpen, bk_openedAt := now\<rparr> else b1)"

definition admitted :: "breakerState \<times> bool \<Rightarrow> bool" where
  "admitted g \<longleftrightarrow> \<not> (fst g = breakerOpen \<and> \<not> snd g)"

datatype acquire_error = ErrDBUnavailable | PoolErr string

text \<open>\<open>Acquire\<close> of a caller that runs alone: \<open>pool\<close> is what the pool answers.\<close>

definition Acquire :: "int \<Rightarrow> int \<Rightarrow> string + 'c \<Rightarrow> Breaker \<Rightarrow> (acquire_error + 'c) \<times> Breaker" where
  "Acquire t0 t1 pool b =
     (case gate t0 b of
        (g, b1) \<Rightarrow>
          if \<not> admitted g then (Inl ErrDBUnavailable, b1)
          else (mapE PoolErr pool, recordResult (okE pool) t1 b1))"

subsection \<open>Concurrent callers\<close>

inductive breaker_run :: "Breaker \<Rightarrow> Breaker \<Rightarrow> bool list \<Rightarrow> bool" for b0 where
  start: "breaker_run b0 b0 []"
| enter: "\<lbrakk>breaker_run b0 b fl; gate now b = (g, b')\<rbrakk> \<Longrightarrow> breaker_run b0 b' (if admitted g then fl @ [snd g] else fl)"
| leave: "\<lbrakk>breaker_run b0 b (fl1 @ p # fl2)\<rbrakk> \<Longrightarrow> breaker_run b0 (recordResult ok now b) (fl1 @ fl2)"

definition breaker_ok :: "Breaker \<Rightarrow> bool" where
  "breaker_ok b \<longleftrightarrow> (bk_probeInFlight b \<longleftrightarrow> bk_state b = breakerHalfOpen) \<and> 0 \<le> bk_consecutiveErr b
     \<and> 0 < bk_failureThreshold b \<and> 0 < bk_cooldown b
     \<and> (bk_consecutiveErr b < bk_failureThreshold b \<longleftrightarrow> bk_state b = breakerClosed)"

lemma NewBreaker_ok: "breaker_ok (NewBreaker n c)"
  by (simp add: breaker_ok_def NewBreaker_def DefaultBreakerFailureThreshold_def DefaultBreakerCooldown_def)

lemma gate_ok: "gate now b = (g, b') \<Longrightarrow> breaker_ok b \<Longrightarrow> breaker_ok b'"
  by (auto simp: gate_def breaker_ok_def split: breakerState.splits if_splits)

lemma recordResult_ok: "breaker_ok b \<Longrightarrow> breaker_ok (recordResult ok now b)"
  by (cases "bk_state b") (auto simp: recordResult_def breaker_ok_def Let_def)

lemma run_ok: "breaker_run b0 b fl \<Longrightarrow> breaker_ok b0 \<Longrightarrow> breaker_ok b"
  by (induction rule: breaker_run.induct) (auto intro: gate_ok recordResult_ok)

lemma gate_decides:
  assumes "breaker_ok b" "gate now b = (g, b')"
  shows "admitted g \<longleftrightarrow> bk_state b = breakerClosed \<or> bk_state b = breakerOpen \<and> bk_cooldown b \<le> now - bk_openedAt b"
    and "snd g \<longleftrightarrow> bk_state b = breakerOpen \<and> bk_cooldown b \<le> now - bk_openedAt b"
    and "\<not> admitted g \<Longrightarrow> b' = b"
  using assms by (auto simp: gate_def breaker_ok_def admitted_def split: breakerState.splits if_splits)

text \<open>
  C38
  In every interleaving of concurrent acquisitions the breaker's state is well formed: the probe flag is
  set exactly in half-open, the error count is below the threshold exactly in closed.  A caller is let
  through exactly when the breaker is closed or its cooldown has elapsed, and a refused caller changes
  nothing.
\<close>

theorem breaker_state_ok:
  assumes "breaker_run (NewBreaker n c) b fl" "gate now b = (g, b')"
  shows "breaker_ok b \<and> breaker_ok b' \<and> breaker_ok (recordResult ok t b)
    \<and> (admitted g \<longleftrightarrow> bk_state b = breakerClosed \<or> bk_state b = breakerOpen \<and> bk_cooldown b \<le> now - bk_openedAt b)
    \<and> (\<not> admitted g \<longrightarrow> b' = b)"
  using run_ok [OF assms(1) NewBreaker_ok] gate_ok [OF assms(2)] recordResult_ok gate_decides [OF _ assms(2)] by blast

theorem breaker_state_ok_witness:
  "gate 7 (recordResult False 3 (NewBreaker 1 4)) = ((breakerHalfOpen, True), (recordResult False 3 (NewBreaker 1 4))\<lparr>bk_state := breakerHalfOpen, bk_probeInFlight := True\<rparr>)
    \<and> admitted (breakerHalfOpen, True) \<and> breaker_ok (recordResult False 3 (NewBreaker 1 4))"
proof -
  have "breaker_run (NewBreaker 1 4) (NewBreaker 1 4) [False]"
    using breaker_run.enter [OF breaker_run.start, of 0 "NewBreaker 1 4"] by (simp add: gate_def NewBreaker_def admitted_def)
  then have "breaker_run (NewBreaker 1 4) (recordResult False 3 (NewBreaker 1 4)) []"
    using breaker_run.leave [of "NewBreaker 1 4" "NewBreaker 1 4" "[]" False "[]"] by simp
  moreover have g: "gate 7 (recordResult False 3 (NewBreaker 1 4)) =
      ((breakerHalfOpen, True), (recordResult False 3 (NewBreaker 1 4))\<lparr>bk_state := breakerHalfOpen, bk_probeInFlight := True\<rparr>)"
    by (simp add: gate_def NewBreaker_def recordResult_def)
  ultimately show ?thesis using breaker_state_ok by (simp add: admitted_def)
qed

subsection \<open>Consecutive failures and probes\<close>

lemma failures_count:
  assumes "bk_state b = breakerClosed" "bk_consecutiveErr b + int k < bk_failureThreshold b"
  shows "fold (recordResult False) (replicate k t) b = b\<lparr>bk_consecutiveErr := bk_consecutiveErr b + int k\<rparr>"
  using assms by (induction k arbitrary: b) (auto simp: recordResult_def)

text \<open>A new breaker opens on the failure that reaches the threshold and not before.\<close>

lemma opens_at_threshold:
  fixes n c defines "b \<equiv> NewBreaker n c"
  assumes "int k \<le> bk_failureThreshold b"
  shows "bk_state (fold (recordResult False) (replicate k t) b) = breakerOpen \<longleftrightarrow> int k = bk_failureThreshold b"
proof (cases "int k < bk_failureThreshold b")
  case True
  then show ?thesis using failures_count [of b k t] by (simp add: b_def NewBreaker_def)
next
  case False
  then have k: "int k = bk_failureThreshold b" using assms by simp
  moreover have "0 < bk_failureThreshold b" using NewBreaker_ok [of n c] by (simp add: breaker_ok_def b_def)
  ultimately obtain j where j: "k = Suc j" by (cases k) auto
  have "fold (recordResult False) (replicate k t) b = recordResult False t (fold (recordResult False) (replicate j t) b)"
    by (simp add: j replicate_append_same [symmetric] del: replicate.simps)
  then show ?thesis using failures_count [of b j t] k j by (simp add: b_def NewBreaker_def recordResult_def)
qed

text \<open>
  The header calls the probe single-flight.  It is not once a caller from before the opening is still in
  flight: its failure ends the half-open state, and after another cooldown a second probe is granted while
  the first still runs.
\<close>

lemma two_probes_in_flight: "\<exists>b. breaker_run (NewBreaker 1 4) b [True, True]"
proof -
  let ?b = "NewBreaker 1 4"
  let ?b1 = "recordResult False 0 ?b"
  let ?h = "?b1\<lparr>bk_state := breakerHalfOpen, bk_probeInFlight := True\<rparr>"
  let ?b2 = "recordResult False 6 ?h"
  note d = gate_def NewBreaker_def admitted_def recordResult_def
  have "breaker_run ?b ?b [False]" using breaker_run.enter [OF breaker_run.start, of 0 ?b] by (simp add: d)
  then have "breaker_run ?b ?b [False, False]" using breaker_run.enter [of ?b ?b "[False]" 0] by (simp add: d)
  then have "breaker_run ?b ?b1 [False]" using breaker_run.leave [of ?b ?b "[]" False "[False]"] by simp
  then have "breaker_run ?b ?h [False, True]" using breaker_run.enter [of ?b ?b1 "[False]" 5 "(breakerHalfOpen, True)" ?h] by (simp add: d)
  then have "breaker_run ?b ?b2 [True]" using breaker_run.leave [of ?b ?h "[]" False "[True]"] by simp
  then show ?thesis
    using breaker_run.enter [of ?b ?b2 "[True]" 12 "(breakerHalfOpen, True)" "?b2\<lparr>bk_state := breakerHalfOpen, bk_probeInFlight := True\<rparr>"]
    by (auto simp: d)
qed

end
