(* ===== verification/Credits.thy ===== *)
theory Credits
  imports Prelude "HOL-Library.AList"
begin

section \<open>Write credits and their pricing\<close>

text \<open>
  Models \<open>store/credits.go\<close> and \<open>credit/\<close>.  The table is the association list from the
  exchange DID to its row; balances are Postgres \<open>bigint\<close>, so a statement whose result leaves their
  range fails.  A failing write carries a flag that says whether it took effect.  The SDK's serialisation
  and its tier arithmetic (\<open>authz.CostForUnits\<close>) are parameters.
\<close>

record credit_row =
  cr_balance :: int
  cr_consumed :: int
  cr_purchased :: int

type_synonym credit_table = "(string \<times> credit_row) list"

datatype credit_error = CostNotPositive int | AmountNotPositive int | ErrInsufficientCredits | CreditFault string

definition bigint :: "int \<Rightarrow> bool" where "bigint x \<longleftrightarrow> - (2 ^ 63) \<le> x \<and> x < 2 ^ 63"

definition DeductInTx :: "string option \<Rightarrow> string \<Rightarrow> int \<Rightarrow> credit_table \<Rightarrow> credit_error + (int \<times> credit_table)" where
  "DeductInTx flt did cost t =
     (if cost \<le> 0 then Inl (CostNotPositive cost)
      else
        (case flt of
           Some e \<Rightarrow> Inl (CreditFault e)
         | None \<Rightarrow>
             (case map_of t did of
                None \<Rightarrow> Inl ErrInsufficientCredits
              | Some r \<Rightarrow>
                  if cr_balance r \<le> 0 then Inl ErrInsufficientCredits
                  else
                    let r' = r\<lparr>cr_balance := cr_balance r - cost, cr_consumed := cr_consumed r + cost\<rparr> in
                    if bigint (cr_balance r') \<and> bigint (cr_consumed r') then Inr (cr_balance r', AList.update did r' t)
                    else Inl (CreditFault ''bigint out of range''))))"

record tx_faults =
  tf_begin :: "string option"
  tf_stmt :: "string option"
  tf_commit :: "(string \<times> bool) option"

definition Deduct :: "tx_faults \<Rightarrow> string \<Rightarrow> int \<Rightarrow> credit_table \<Rightarrow> (credit_error + unit) \<times> credit_table" where
  "Deduct F did cost t =
     (case tf_begin F of
        Some e \<Rightarrow> (Inl (CreditFault e), t)
      | None \<Rightarrow>
          (case DeductInTx (tf_stmt F) did cost t of
             Inl e \<Rightarrow> (Inl e, t)
           | Inr (_, t') \<Rightarrow>
               (case tf_commit F of
                  None \<Rightarrow> (Inr (), t')
                | Some (e, applied) \<Rightarrow> (Inl (CreditFault e), if applied then t' else t))))"

definition BulkPurchase :: "(string \<times> bool) option \<Rightarrow> string \<Rightarrow> int \<Rightarrow> credit_table \<Rightarrow> (credit_error + int) \<times> credit_table" where
  "BulkPurchase flt did amount t =
     (if amount \<le> 0 then (Inl (AmountNotPositive amount), t)
      else
        let r' = (case map_of t did of
                    None \<Rightarrow> \<lparr>cr_balance = amount, cr_consumed = 0, cr_purchased = amount\<rparr>
                  | Some r \<Rightarrow> r\<lparr>cr_balance := cr_balance r + amount, cr_purchased := cr_purchased r + amount\<rparr>) in
        if \<not> (bigint (cr_balance r') \<and> bigint (cr_purchased r')) then (Inl (CreditFault ''bigint out of range''), t)
        else
          (case flt of
             None \<Rightarrow> (Inr (cr_balance r'), AList.update did r' t)
           | Some (e, applied) \<Rightarrow> (Inl (CreditFault e), if applied then AList.update did r' t else t)))"

definition Balance :: "string option \<Rightarrow> string \<Rightarrow> credit_table \<Rightarrow> credit_error + int" where
  "Balance flt did t =
     (case flt of
        Some e \<Rightarrow> Inl (CreditFault e)
      | None \<Rightarrow> Inr (case map_of t did of None \<Rightarrow> 0 | Some r \<Rightarrow> cr_balance r))"

subsection \<open>Pricing\<close>

definition CostUncharged :: int where "CostUncharged = -1"

definition ConsumedUnits :: "int \<Rightarrow> int" where "ConsumedUnits cost = (if cost \<le> 0 then 0 else cost)"

datatype ('e, 't) CostOracle =
    NoCostOracle
  | FlatCostOracle int
  | UnitRateCostOracle "'e \<Rightarrow> string + int" "('e \<Rightarrow> string + 't list) option"

datatype cost_error = UnitsNotPositive | RawUnitsErr string | ScheduleErr string | ErrNoRateSchedule | NilFuncPanic

text \<open>\<open>None\<close> as the schedule is Go's nil function value: calling it panics.\<close>

definition Cost :: "('t list \<Rightarrow> int \<Rightarrow> int) \<Rightarrow> 'e \<Rightarrow> ('e, 't) CostOracle \<Rightarrow> cost_error + int" where
  "Cost costForUnits e ora =
     (case ora of
        NoCostOracle \<Rightarrow> Inr CostUncharged
      | FlatCostOracle units \<Rightarrow> if units \<le> 0 then Inl UnitsNotPositive else Inr units
      | UnitRateCostOracle rawUnits schedule \<Rightarrow>
          bindE (mapE RawUnitsErr (rawUnits e)) (\<lambda>raw.
            case schedule of
              None \<Rightarrow> Inl NilFuncPanic
            | Some f \<Rightarrow>
                bindE (mapE ScheduleErr (f e)) (\<lambda>sched.
                  if sched = [] then Inl ErrNoRateSchedule else Inr (costForUnits sched raw))))"

datatype cost_mode = CostModeUncharged | CostModeFlat | CostModeUnitRate | CostModeOther string

definition LenRawUnits :: "('e \<Rightarrow> string + bytes) \<Rightarrow> 'e \<Rightarrow> string + int" where
  "LenRawUnits serialize e = bindE (serialize e) (\<lambda>b. Inr (int (length b)))"

definition OracleForPolicy ::
  "('e \<Rightarrow> string + bytes) \<Rightarrow> cost_mode \<Rightarrow> int \<Rightarrow> ('e \<Rightarrow> string + 't list) option \<Rightarrow> ('e, 't) CostOracle" where
  "OracleForPolicy serialize mode flatUnits rate =
     (case mode of
        CostModeFlat \<Rightarrow> FlatCostOracle flatUnits
      | CostModeUnitRate \<Rightarrow> UnitRateCostOracle (LenRawUnits serialize) rate
      | CostModeUncharged \<Rightarrow> NoCostOracle
      | CostModeOther _ \<Rightarrow> NoCostOracle)"

text \<open>
  Without a rate source the unit-rate oracle is documented to fail with \<open>ErrNoRateSchedule\<close>; it calls
  the nil function and panics.
\<close>

lemma nil_rate_panics:
  "serialize e = Inr b \<Longrightarrow> Cost cfu e (OracleForPolicy serialize CostModeUnitRate n None) = Inl NilFuncPanic"
  by (simp add: Cost_def OracleForPolicy_def LenRawUnits_def)

lemma Cost_charged:
  "Cost cfu e ora = Inr c \<Longrightarrow> ora = NoCostOracle \<and> ConsumedUnits c = 0 \<or> (\<exists>n. ora = FlatCostOracle n \<and> 0 < n \<and> ConsumedUnits c = n)
     \<or> (\<exists>f sched s raw. ora = UnitRateCostOracle f (Some sched) \<and> f e = Inr raw \<and> sched e = Inr s \<and> s \<noteq> [] \<and> c = cfu s raw)"
  by (auto simp: Cost_def ConsumedUnits_def CostUncharged_def bindE_eq_Inr split: CostOracle.splits if_splits option.splits)

subsection \<open>Balances\<close>

inductive credit_run :: "int \<Rightarrow> credit_table \<Rightarrow> bool" for C where
  start: "credit_run C []"
| deduct: "\<lbrakk>credit_run C t; cost \<le> C; Deduct F did cost t = (out, t')\<rbrakk> \<Longrightarrow> credit_run C t'"
| purchase: "\<lbrakk>credit_run C t; BulkPurchase flt did amount t = (out, t')\<rbrakk> \<Longrightarrow> credit_run C t'"

definition row_ok :: "int \<Rightarrow> credit_row \<Rightarrow> bool" where
  "row_ok C r \<longleftrightarrow> cr_balance r = cr_purchased r - cr_consumed r \<and> 0 \<le> cr_consumed r \<and> 0 < cr_purchased r \<and> 0 < cr_balance r + C
     \<and> bigint (cr_balance r) \<and> bigint (cr_consumed r) \<and> bigint (cr_purchased r)"

lemma Deduct_effect:
  assumes "Deduct F did cost t = (out, t')"
  shows "t' = t \<and> \<not> okE out \<or>
    (\<exists>r. map_of t did = Some r \<and> 0 < cr_balance r \<and> 0 < cost \<and> bigint (cr_balance r - cost) \<and> bigint (cr_consumed r + cost)
      \<and> t' = AList.update did (r\<lparr>cr_balance := cr_balance r - cost, cr_consumed := cr_consumed r + cost\<rparr>) t)"
  using assms by (auto simp: Deduct_def DeductInTx_def Let_def not_le split: option.splits sum.splits if_splits prod.splits)

lemma Purchase_effect:
  assumes "BulkPurchase flt did amount t = (out, t')"
  shows "t' = t \<and> \<not> okE out \<or> 0 < amount \<and>
    (\<exists>r. t' = AList.update did r t \<and> bigint (cr_balance r) \<and> bigint (cr_purchased r) \<and>
      (case map_of t did of
         None \<Rightarrow> r = \<lparr>cr_balance = amount, cr_consumed = 0, cr_purchased = amount\<rparr>
       | Some r0 \<Rightarrow> r = r0\<lparr>cr_balance := cr_balance r0 + amount, cr_purchased := cr_purchased r0 + amount\<rparr>))"
  using assms by (auto simp: BulkPurchase_def Let_def split: option.splits if_splits)

lemma rows_update:
  assumes "\<forall>d r. map_of t d = Some r \<longrightarrow> P r" "P r'"
  shows "\<forall>d r. map_of (AList.update did r' t) d = Some r \<longrightarrow> P r"
  using assms by (simp add: update_conv')

lemma credit_run_ok:
  assumes "credit_run C t" "0 < C"
  shows "\<forall>d r. map_of t d = Some r \<longrightarrow> row_ok C r"
  using assms(1)
proof induction
  case (deduct t cost F did out t')
  from Deduct_effect [OF deduct(3)] show ?case
  proof
    assume "\<exists>r. map_of t did = Some r \<and> 0 < cr_balance r \<and> 0 < cost \<and> bigint (cr_balance r - cost) \<and> bigint (cr_consumed r + cost)
      \<and> t' = AList.update did (r\<lparr>cr_balance := cr_balance r - cost, cr_consumed := cr_consumed r + cost\<rparr>) t"
    then obtain r where r: "map_of t did = Some r" "0 < cr_balance r" "0 < cost" "bigint (cr_balance r - cost)" "bigint (cr_consumed r + cost)"
      and t': "t' = AList.update did (r\<lparr>cr_balance := cr_balance r - cost, cr_consumed := cr_consumed r + cost\<rparr>) t" by blast
    have "row_ok C r" using deduct(4) r(1) by blast
    then show ?thesis unfolding t' using r deduct(2) by (intro rows_update [OF deduct(4)]) (simp add: row_ok_def)
  qed (use deduct(4) in simp)
next
  case (purchase t flt did amount out t')
  from Purchase_effect [OF purchase(2)] show ?case
  proof
    assume "0 < amount \<and> (\<exists>r. t' = AList.update did r t \<and> bigint (cr_balance r) \<and> bigint (cr_purchased r) \<and>
      (case map_of t did of
         None \<Rightarrow> r = \<lparr>cr_balance = amount, cr_consumed = 0, cr_purchased = amount\<rparr>
       | Some r0 \<Rightarrow> r = r0\<lparr>cr_balance := cr_balance r0 + amount, cr_purchased := cr_purchased r0 + amount\<rparr>))"
    then obtain r where a: "0 < amount" and t': "t' = AList.update did r t" and b: "bigint (cr_balance r)" "bigint (cr_purchased r)"
      and r: "case map_of t did of None \<Rightarrow> r = \<lparr>cr_balance = amount, cr_consumed = 0, cr_purchased = amount\<rparr>
        | Some r0 \<Rightarrow> r = r0\<lparr>cr_balance := cr_balance r0 + amount, cr_purchased := cr_purchased r0 + amount\<rparr>" by blast
    have "row_ok C r"
    proof (cases "map_of t did")
      case None
      then show ?thesis using r a b assms(2) by (simp add: row_ok_def bigint_def)
    next
      case (Some r0)
      then have "row_ok C r0" using purchase(3) by blast
      then show ?thesis using r a b Some by (simp add: row_ok_def)
    qed
    then show ?thesis unfolding t' by (rule rows_update [OF purchase(3)])
  qed (use purchase(3) in simp)
qed simp

text \<open>
  C39
  After any sequence of deductions of at most \<open>C\<close> units and purchases, with failing statements and lost
  acknowledgements: every balance is what was purchased minus what was consumed, all columns stay in range,
  and a balance is above minus \<open>C\<close>, so an exchange overspends by less than one request.
\<close>

theorem credits_accounted:
  assumes "credit_run C t" "0 < C" "map_of t did = Some r"
  shows "cr_balance r = cr_purchased r - cr_consumed r \<and> 0 \<le> cr_consumed r \<and> - C < cr_balance r
    \<and> bigint (cr_balance r) \<and> bigint (cr_consumed r) \<and> bigint (cr_purchased r)"
  using credit_run_ok [OF assms(1,2)] assms(3) by (force simp: row_ok_def)

theorem credits_accounted_witness:
  "BulkPurchase None ''x'' 200 [] = (Inr 200, [(''x'', \<lparr>cr_balance = 200, cr_consumed = 0, cr_purchased = 200\<rparr>)])
   \<and> Deduct \<lparr>tf_begin = None, tf_stmt = None, tf_commit = None\<rparr> ''x'' 256 [(''x'', \<lparr>cr_balance = 200, cr_consumed = 0, cr_purchased = 200\<rparr>)]
       = (Inr (), [(''x'', \<lparr>cr_balance = -56, cr_consumed = 256, cr_purchased = 200\<rparr>)])
   \<and> - 256 < (-56 :: int)"
proof -
  let ?t = "[(''x'', \<lparr>cr_balance = 200, cr_consumed = 0, cr_purchased = 200\<rparr>)]"
  let ?F = "\<lparr>tf_begin = None, tf_stmt = None, tf_commit = None\<rparr>"
  have p: "BulkPurchase None ''x'' 200 [] = (Inr 200, ?t)" by (simp add: BulkPurchase_def bigint_def)
  have d: "Deduct ?F ''x'' 256 ?t = (Inr (), [(''x'', \<lparr>cr_balance = -56, cr_consumed = 256, cr_purchased = 200\<rparr>)])"
    by (simp add: Deduct_def DeductInTx_def bigint_def)
  have "credit_run 256 [(''x'', \<lparr>cr_balance = -56, cr_consumed = 256, cr_purchased = 200\<rparr>)]"
    by (rule credit_run.deduct [OF credit_run.purchase [OF credit_run.start p] _ d]) simp
  from credits_accounted [OF this, of "''x''"] show ?thesis using p d by simp
qed

text \<open>
  The gate is the balance before the deduction, so an exchange at or below zero is refused until a purchase
  lifts it.
\<close>

lemma broke_refused:
  "map_of t did = Some r \<Longrightarrow> cr_balance r \<le> 0 \<Longrightarrow> 0 < cost \<Longrightarrow> DeductInTx None did cost t = Inl ErrInsufficientCredits"
  by (simp add: DeductInTx_def)

text \<open>
  \<open>BulkPurchase\<close> is described as idempotent for retries; a retry after a lost acknowledgement adds the
  amount a second time.
\<close>

lemma purchase_retry_doubles:
  assumes "0 < n" "bigint (2 * n)"
  shows "snd (BulkPurchase None did n (snd (BulkPurchase (Some (e, True)) did n []))) = [(did, \<lparr>cr_balance = 2 * n, cr_consumed = 0, cr_purchased = 2 * n\<rparr>)]"
proof -
  have "bigint n" using assms by (simp add: bigint_def)
  then show ?thesis using assms by (simp add: BulkPurchase_def Let_def)
qed

end
