(* ===== verification/Reservation.thy ===== *)
theory Reservation
  imports Prelude "HOL-Library.AList"
begin

section \<open>Artifact upload reservations\<close>

text \<open>
  Models \<open>reservation/\<close>: the state machine, the two stores behind the \<open>Store\<close> interface and
  the manager's \<open>Reserve\<close>, \<open>Finish\<close> and \<open>Reap\<close>.  Times are microseconds.  The Go
  interface is the record \<open>res_store\<close> of its methods; the in-memory store is the association list of
  its map, the Postgres one the list of its rows.  The content store is the map from content identifiers to
  bytes; its SDK parts (\<open>ParseCID\<close>, the validator, the token signature) are fields of
  \<open>Manager\<close>.  What the content store answers to \<open>Exists\<close> and \<open>Fetch\<close> is a map that
  may fail.
\<close>

subsection \<open>The state machine\<close>

datatype Status = StatusPendingUpload | StatusUploaded | StatusCommitted | StatusExpired | StatusRejected

record Reservation =
  rv_ArtifactCID :: string
  rv_ContentDigest :: string
  rv_MIMEType :: string
  rv_MaxSize :: int
  rv_Owner :: string
  rv_Status :: Status
  rv_ExpiresAt :: int
  rv_CreatedAt :: int

definition terminal :: "Status \<Rightarrow> bool" where
  "terminal s \<longleftrightarrow> s = StatusCommitted \<or> s = StatusExpired \<or> s = StatusRejected"

definition CanTransition :: "Status \<Rightarrow> Status \<Rightarrow> bool" where
  "CanTransition frm to \<longleftrightarrow> \<not> terminal frm \<and>
     (case to of
        StatusUploaded \<Rightarrow> frm = StatusPendingUpload
      | StatusCommitted \<Rightarrow> frm = StatusPendingUpload \<or> frm = StatusUploaded
      | StatusExpired \<Rightarrow> frm = StatusPendingUpload \<or> frm = StatusUploaded
      | StatusRejected \<Rightarrow> frm = StatusPendingUpload \<or> frm = StatusUploaded
      | StatusPendingUpload \<Rightarrow> False)"

datatype res_error = ErrNotFound | ErrConflict | ErrDuplicate | ResFault string

record 's res_store =
  rs_Create :: "Reservation \<Rightarrow> 's \<Rightarrow> (res_error + unit) \<times> 's"
  rs_Get :: "string \<Rightarrow> 's \<Rightarrow> res_error + Reservation"
  rs_SetStatus :: "string \<Rightarrow> Status \<Rightarrow> Status \<Rightarrow> 's \<Rightarrow> (res_error + unit) \<times> 's"
  rs_ListExpirable :: "int \<Rightarrow> int \<Rightarrow> 's \<Rightarrow> res_error + Reservation list"

subsection \<open>MemoryStore\<close>

type_synonym memory = "(string \<times> Reservation) list"

definition memCreate :: "Reservation \<Rightarrow> memory \<Rightarrow> (res_error + unit) \<times> memory" where
  "memCreate r m =
     (case map_of m (rv_ArtifactCID r) of
        Some _ \<Rightarrow> (Inl ErrDuplicate, m)
      | None \<Rightarrow> (Inr (), AList.update (rv_ArtifactCID r) r m))"

definition memGet :: "string \<Rightarrow> memory \<Rightarrow> res_error + Reservation" where
  "memGet cid m = (case map_of m cid of None \<Rightarrow> Inl ErrNotFound | Some r \<Rightarrow> Inr r)"

definition memSetStatus :: "string \<Rightarrow> Status \<Rightarrow> Status \<Rightarrow> memory \<Rightarrow> (res_error + unit) \<times> memory" where
  "memSetStatus cid frm to m =
     (case map_of m cid of
        None \<Rightarrow> (Inl ErrNotFound, m)
      | Some r \<Rightarrow>
          if rv_Status r \<noteq> frm \<or> \<not> CanTransition frm to then (Inl ErrConflict, m)
          else (Inr (), AList.update cid (r\<lparr>rv_Status := to\<rparr>) m))"

text \<open>Go ranges over a map in any order: \<open>order\<close> is the order of this call.\<close>

definition memListExpirable :: "(memory \<Rightarrow> string list) \<Rightarrow> int \<Rightarrow> int \<Rightarrow> memory \<Rightarrow> res_error + Reservation list" where
  "memListExpirable order now limit m =
     (let out = filter (\<lambda>r. \<not> terminal (rv_Status r) \<and> rv_ExpiresAt r \<le> now) (List.map_filter (map_of m) (order m)) in
      Inr (if limit > 0 then take (nat limit) out else out))"

definition memoryStore :: "(memory \<Rightarrow> string list) \<Rightarrow> memory res_store" where
  "memoryStore order = \<lparr>rs_Create = memCreate, rs_Get = memGet, rs_SetStatus = memSetStatus, rs_ListExpirable = memListExpirable order\<rparr>"

subsection \<open>PostgresStore\<close>

text \<open>
  A failing statement reports an error; the flag of a write says whether it took effect nevertheless.
\<close>

record res_faults =
  rf_create :: "(string \<times> bool) option"
  rf_get :: "string option"
  rf_update :: "(string \<times> bool) option"
  rf_exists :: "string option"
  rf_list :: "string option"

type_synonym res_table = "Reservation list"

definition rowOf :: "res_table \<Rightarrow> string \<rightharpoonup> Reservation" where
  "rowOf t cid = find (\<lambda>r. rv_ArtifactCID r = cid) t"

definition pgCreate :: "res_faults \<Rightarrow> Reservation \<Rightarrow> res_table \<Rightarrow> (res_error + unit) \<times> res_table" where
  "pgCreate F r t =
     (let fresh = rowOf t (rv_ArtifactCID r) = None; t' = (if fresh then t @ [r] else t) in
      case rf_create F of
        Some (e, applied) \<Rightarrow> (Inl (ResFault e), if applied then t' else t)
      | None \<Rightarrow> (if fresh then Inr () else Inl ErrDuplicate, t'))"

definition pgGet :: "res_faults \<Rightarrow> string \<Rightarrow> res_table \<Rightarrow> res_error + Reservation" where
  "pgGet F cid t =
     (case rf_get F of
        Some e \<Rightarrow> Inl (ResFault e)
      | None \<Rightarrow> (case rowOf t cid of None \<Rightarrow> Inl ErrNotFound | Some r \<Rightarrow> Inr r))"

definition casUpdate :: "string \<Rightarrow> Status \<Rightarrow> Status \<Rightarrow> res_table \<Rightarrow> res_table" where
  "casUpdate cid frm to t = map (\<lambda>r. if rv_ArtifactCID r = cid \<and> rv_Status r = frm then r\<lparr>rv_Status := to\<rparr> else r) t"

definition pgSetStatus :: "res_faults \<Rightarrow> string \<Rightarrow> Status \<Rightarrow> Status \<Rightarrow> res_table \<Rightarrow> (res_error + unit) \<times> res_table" where
  "pgSetStatus F cid frm to t =
     (if \<not> CanTransition frm to then (Inl ErrConflict, t)
      else
        (case rf_update F of
           Some (e, applied) \<Rightarrow> (Inl (ResFault e), if applied then casUpdate cid frm to t else t)
         | None \<Rightarrow>
             if length (filter (\<lambda>r. rv_ArtifactCID r = cid \<and> rv_Status r = frm) t) = 1 then (Inr (), casUpdate cid frm to t)
             else
               (case rf_exists F of
                  Some e \<Rightarrow> (Inl (ResFault e), casUpdate cid frm to t)
                | None \<Rightarrow> (if rowOf t cid = None then Inl ErrNotFound else Inl ErrConflict, casUpdate cid frm to t))))"

definition pgListExpirable :: "res_faults \<Rightarrow> int \<Rightarrow> int \<Rightarrow> res_table \<Rightarrow> res_error + Reservation list" where
  "pgListExpirable F now limit t =
     (case rf_list F of
        Some e \<Rightarrow> Inl (ResFault e)
      | None \<Rightarrow>
          if limit < 0 then Inl (ResFault ''LIMIT must not be negative'')
          else Inr (take (nat limit)
                 (sort_key rv_ExpiresAt
                    (filter (\<lambda>r. (rv_Status r = StatusPendingUpload \<or> rv_Status r = StatusUploaded) \<and> rv_ExpiresAt r \<le> now) t))))"

definition pgStore :: "res_faults \<Rightarrow> res_table res_store" where
  "pgStore F = \<lparr>rs_Create = pgCreate F, rs_Get = pgGet F, rs_SetStatus = pgSetStatus F, rs_ListExpirable = pgListExpirable F\<rparr>"

subsection \<open>The manager\<close>

record ('c, 'v) Manager =
  mg_ttl :: int
  mg_validator :: "(string \<Rightarrow> bytes \<Rightarrow> string option) option"
  mg_networkID :: string
  mg_ParseCID :: "string \<Rightarrow> string + 'c"
  mg_Sign :: "string \<Rightarrow> string \<Rightarrow> int \<Rightarrow> int \<Rightarrow> string + 'v"

definition managerTTL :: "int \<Rightarrow> int" where "managerTTL ttl = (if ttl \<le> 0 then 15 * 60 * 1000000 else ttl)"

record ReserveRequest =
  rq_ArtifactCID :: string
  rq_ContentDigest :: string
  rq_MIMEType :: string
  rq_MaxSize :: int
  rq_Owner :: string

datatype mgr_error =
    CIDRequired
  | StoreErr res_error
  | TokenErr string
  | NotFinishable Status
  | BadCID string
  | ExistsErr string
  | ErrIncomplete
  | FetchForValidation string
  | ErrRejected string
  | LostRace Status

definition reserveRow :: "('c, 'v) Manager \<Rightarrow> int \<Rightarrow> ReserveRequest \<Rightarrow> Reservation" where
  "reserveRow M now rq =
     \<lparr>rv_ArtifactCID = rq_ArtifactCID rq, rv_ContentDigest = rq_ContentDigest rq, rv_MIMEType = rq_MIMEType rq, rv_MaxSize = rq_MaxSize rq,
      rv_Owner = rq_Owner rq, rv_Status = StatusPendingUpload, rv_ExpiresAt = now + mg_ttl M, rv_CreatedAt = now\<rparr>"

definition Reserve :: "('c, 'v) Manager \<Rightarrow> 's res_store \<Rightarrow> int \<Rightarrow> ReserveRequest \<Rightarrow> 's \<Rightarrow> (mgr_error + 'v) \<times> 's" where
  "Reserve M S now rq s =
     (if rq_ArtifactCID rq = [] then (Inl CIDRequired, s)
      else
        (case rs_Create S (reserveRow M now rq) s of
           (Inl e, s') \<Rightarrow> (Inl (StoreErr e), s')
         | (Inr _, s') \<Rightarrow> (mapE TokenErr (mg_Sign M (mg_networkID M) (rq_ArtifactCID rq) (rq_MaxSize rq) (now + mg_ttl M)), s')))"

text \<open>\<open>Finish\<close> in the three parts between which other goroutines run.\<close>

definition finishBegin :: "'s res_store \<Rightarrow> string \<Rightarrow> 's \<Rightarrow> (mgr_error + Reservation) + Reservation" where
  "finishBegin S cid s =
     (case rs_Get S cid s of
        Inl e \<Rightarrow> Inl (Inl (StoreErr e))
      | Inr r \<Rightarrow>
          if rv_Status r = StatusCommitted then Inl (Inr r)
          else if rv_Status r \<noteq> StatusPendingUpload \<and> rv_Status r \<noteq> StatusUploaded then Inl (Inl (NotFinishable (rv_Status r)))
          else Inr r)"

datatype verdict = Pass | Reject string

definition finishCheck :: "('c, 'v) Manager \<Rightarrow> ('c \<Rightarrow> string + bool) \<Rightarrow> ('c \<Rightarrow> string + bytes) \<Rightarrow> Reservation \<Rightarrow> mgr_error + verdict" where
  "finishCheck M ex fetch r =
     (case mg_ParseCID M (rv_ArtifactCID r) of
        Inl e \<Rightarrow> Inl (BadCID e)
      | Inr c \<Rightarrow>
          (case ex c of
             Inl e \<Rightarrow> Inl (ExistsErr e)
           | Inr False \<Rightarrow> Inl ErrIncomplete
           | Inr True \<Rightarrow>
               (case mg_validator M of
                  None \<Rightarrow> Inr Pass
                | Some v \<Rightarrow>
                    if rv_MIMEType r = [] then Inr Pass
                    else (case fetch c of
                            Inl e \<Rightarrow> Inl (FetchForValidation e)
                          | Inr data \<Rightarrow> (case v (rv_MIMEType r) data of None \<Rightarrow> Inr Pass | Some e \<Rightarrow> Inr (Reject e))))))"

definition finishSettle :: "'s res_store \<Rightarrow> string \<Rightarrow> Reservation \<Rightarrow> verdict \<Rightarrow> 's \<Rightarrow> (mgr_error + Reservation) \<times> 's" where
  "finishSettle S cid r v s =
     (case v of
        Reject e \<Rightarrow>
          (case rs_SetStatus S cid (rv_Status r) StatusRejected s of
             (Inl x, s') \<Rightarrow> (if x = ErrConflict then Inl (ErrRejected e) else Inl (StoreErr x), s')
           | (Inr _, s') \<Rightarrow> (Inl (ErrRejected e), s'))
      | Pass \<Rightarrow>
          (case rs_SetStatus S cid (rv_Status r) StatusCommitted s of
             (Inr _, s') \<Rightarrow> (Inr (r\<lparr>rv_Status := StatusCommitted\<rparr>), s')
           | (Inl x, s') \<Rightarrow>
               ((if x = ErrConflict then
                   (case rs_Get S cid s' of
                      Inr cur \<Rightarrow> if rv_Status cur = StatusCommitted then Inr cur else Inl (LostRace (rv_Status cur))
                    | Inl _ \<Rightarrow> Inl (StoreErr x))
                 else Inl (StoreErr x)), s')))"

definition Finish ::
  "('c, 'v) Manager \<Rightarrow> 's res_store \<Rightarrow> ('c \<Rightarrow> string + bool) \<Rightarrow> ('c \<Rightarrow> string + bytes) \<Rightarrow> string \<Rightarrow> 's \<Rightarrow> (mgr_error + Reservation) \<times> 's" where
  "Finish M S ex fetch cid s =
     (case finishBegin S cid s of
        Inl res \<Rightarrow> (res, s)
      | Inr r \<Rightarrow> (case finishCheck M ex fetch r of Inl e \<Rightarrow> (Inl e, s) | Inr v \<Rightarrow> finishSettle S cid r v s))"

text \<open>One turn of the loop of \<open>Reap\<close>: the swap, and the content to delete when it was won.\<close>

definition reapOne :: "('c, 'v) Manager \<Rightarrow> 's res_store \<Rightarrow> Reservation \<Rightarrow> 's \<Rightarrow> bool \<times> 'c option \<times> 's" where
  "reapOne M S r s =
     (case rs_SetStatus S (rv_ArtifactCID r) (rv_Status r) StatusExpired s of
        (Inl _, s') \<Rightarrow> (False, None, s')
      | (Inr _, s') \<Rightarrow> (True, (case mg_ParseCID M (rv_ArtifactCID r) of Inl _ \<Rightarrow> None | Inr c \<Rightarrow> Some c), s'))"

fun reapLoop ::
  "('c, 'v) Manager \<Rightarrow> 's res_store \<Rightarrow> ('c \<Rightarrow> bool) \<Rightarrow> Reservation list \<Rightarrow> nat \<Rightarrow> 's \<Rightarrow> ('c \<rightharpoonup> bytes) \<Rightarrow> nat \<times> 's \<times> ('c \<rightharpoonup> bytes)" where
  "reapLoop M S dels [] n s cs = (n, s, cs)"
| "reapLoop M S dels (r # rs) n s cs =
     (case reapOne M S r s of
        (won, gone, s') \<Rightarrow>
          reapLoop M S dels rs (if won then n + 1 else n) s'
            (case gone of None \<Rightarrow> cs | Some c \<Rightarrow> if dels c then cs(c := None) else cs))"

definition Reap ::
  "('c, 'v) Manager \<Rightarrow> 's res_store \<Rightarrow> ('c \<Rightarrow> bool) \<Rightarrow> int \<Rightarrow> int \<Rightarrow> 's \<Rightarrow> ('c \<rightharpoonup> bytes) \<Rightarrow> (mgr_error + nat) \<times> 's \<times> ('c \<rightharpoonup> bytes)" where
  "Reap M S dels now limit s cs =
     (case rs_ListExpirable S now limit s of
        Inl e \<Rightarrow> (Inl (StoreErr e), s, cs)
      | Inr rs \<Rightarrow> (case reapLoop M S dels rs 0 s cs of (n, s', cs') \<Rightarrow> (Inr n, s', cs')))"

definition reaperBatch :: "int \<Rightarrow> int" where "reaperBatch batch = (if batch \<le> 0 then 256 else batch)"

text \<open>The status code of the \<open>POST /v1/artifacts/{cid}/finish\<close> response; \<open>res\<close> is what \<open>Finish\<close> returned.\<close>

definition finishHandler :: "string \<Rightarrow> mgr_error + Reservation \<Rightarrow> nat" where
  "finishHandler cid res =
     (if cid = [] then 400
      else
        (case res of
           Inl (StoreErr ErrNotFound) \<Rightarrow> 404
         | Inl ErrIncomplete \<Rightarrow> 409
         | Inl (ErrRejected _) \<Rightarrow> 422
         | Inl _ \<Rightarrow> 500
         | Inr _ \<Rightarrow> 200))"

end
