(* ===== verification/ReservationSpec.thy ===== *)
theory ReservationSpec
  imports Reservation
begin

section \<open>What the reservation protocol promises\<close>

text \<open>
  The contract of the \<open>Store\<close> interface as a locale, proved for both stores, and the manager's
  guarantees over any number of concurrent reservers, uploaders, finishers and reapers, with failing
  statements and process restarts, proved once from that contract.
\<close>

subsection \<open>The contract of the Store interface\<close>

definition evolves :: "(string \<rightharpoonup> Reservation) \<Rightarrow> (string \<rightharpoonup> Reservation) \<Rightarrow> bool" where
  "evolves R R' \<longleftrightarrow> (\<forall>cid. R' cid = R cid
     \<or> R cid = None \<and> (\<exists>r. R' cid = Some r \<and> rv_ArtifactCID r = cid \<and> rv_Status r = StatusPendingUpload)
     \<or> (\<exists>r t. R cid = Some r \<and> CanTransition (rv_Status r) t \<and> R' cid = Some (r\<lparr>rv_Status := t\<rparr>)))"

lemma evolves_refl [simp]: "evolves R R" by (simp add: evolves_def)

lemma evolves_new: "\<lbrakk>R cid = None; rv_ArtifactCID r = cid; rv_Status r = StatusPendingUpload\<rbrakk> \<Longrightarrow> evolves R (R(cid \<mapsto> r))"
  by (simp add: evolves_def)

lemma evolves_move: "\<lbrakk>R cid = Some r; CanTransition (rv_Status r) t\<rbrakk> \<Longrightarrow> evolves R (R(cid \<mapsto> r\<lparr>rv_Status := t\<rparr>))"
  unfolding evolves_def by (metis fun_upd_apply)

definition no_commit :: "(string \<rightharpoonup> Reservation) \<Rightarrow> (string \<rightharpoonup> Reservation) \<Rightarrow> bool" where
  "no_commit R R' \<longleftrightarrow> (\<forall>cid r. R' cid = Some r \<and> rv_Status r = StatusCommitted \<longrightarrow> R cid = Some r)"

lemma no_commit_refl [simp]: "no_commit R R" by (simp add: no_commit_def)

lemma no_commit_upd: "rv_Status r \<noteq> StatusCommitted \<Longrightarrow> no_commit R (R(cid \<mapsto> r))"
  by (simp add: no_commit_def)

locale lawful_store =
  fixes S :: "'s res_store" and rows :: "'s \<Rightarrow> string \<rightharpoonup> Reservation" and wf :: "'s \<Rightarrow> bool"
  assumes keyed: "\<lbrakk>wf s; rows s cid = Some r\<rbrakk> \<Longrightarrow> rv_ArtifactCID r = cid"
    and create: "\<lbrakk>wf s; rs_Create S r s = (out, s')\<rbrakk> \<Longrightarrow> wf s' \<and>
      (rows s' = rows s \<and> \<not> okE out \<or> rows s (rv_ArtifactCID r) = None \<and> rows s' = (rows s)(rv_ArtifactCID r \<mapsto> r))"
    and get: "rs_Get S cid s = Inr r \<Longrightarrow> rows s cid = Some r"
    and cas: "\<lbrakk>wf s; rs_SetStatus S cid f t s = (out, s')\<rbrakk> \<Longrightarrow> wf s' \<and>
      (rows s' = rows s \<and> \<not> okE out \<or>
       (\<exists>r. rows s cid = Some r \<and> rv_Status r = f \<and> CanTransition f t \<and> rows s' = (rows s)(cid \<mapsto> r\<lparr>rv_Status := t\<rparr>)))"
    and expirable: "\<lbrakk>wf s; rs_ListExpirable S now limit s = Inr rs; r \<in> set rs\<rbrakk>
      \<Longrightarrow> rows s (rv_ArtifactCID r) = Some r \<and> \<not> terminal (rv_Status r) \<and> rv_ExpiresAt r \<le> now"
begin

lemma cas_evolves:
  assumes "wf s" "rs_SetStatus S cid f t s = (out, s')"
  shows "evolves (rows s) (rows s')"
  using cas [OF assms] evolves_move by fastforce

lemma cas_no_commit:
  assumes "wf s" "rs_SetStatus S cid f t s = (out, s')" "t \<noteq> StatusCommitted"
  shows "no_commit (rows s) (rows s')"
  using cas [OF assms(1,2)] no_commit_upd assms(3) by fastforce

lemma reserve_evolves:
  assumes "wf s" "Reserve M S now rq s = (out, s')"
  shows "wf s' \<and> evolves (rows s) (rows s') \<and> no_commit (rows s) (rows s')"
proof (cases "rq_ArtifactCID rq = []")
  case False
  obtain c where cr: "rs_Create S (reserveRow M now rq) s = (c, s')" using assms(2) False
    by (auto simp: Reserve_def split: prod.splits sum.splits)
  have "rv_ArtifactCID (reserveRow M now rq) = rq_ArtifactCID rq" "rv_Status (reserveRow M now rq) = StatusPendingUpload"
    by (simp_all add: reserveRow_def)
  then show ?thesis using create [OF assms(1) cr] evolves_new no_commit_upd by fastforce
qed (use assms in \<open>simp add: Reserve_def\<close>)

lemma settle_cas:
  assumes "finishSettle S cid r v s = (out, s')"
  obtains c where "rs_SetStatus S cid (rv_Status r) (case v of Pass \<Rightarrow> StatusCommitted | Reject _ \<Rightarrow> StatusRejected) s = (c, s')"
  using assms that by (auto simp: finishSettle_def split: verdict.splits prod.splits sum.splits)

lemma reap_cas:
  assumes "reapOne M S r s = (won, gone, s')"
  obtains c where "rs_SetStatus S (rv_ArtifactCID r) (rv_Status r) StatusExpired s = (c, s')"
    "gone \<noteq> None \<Longrightarrow> okE c \<and> mg_ParseCID M (rv_ArtifactCID r) = Inr (the gone)"
  using assms that by (auto simp: reapOne_def split: prod.splits sum.splits)

lemma begin_row:
  assumes "finishBegin S cid s = Inr r"
  shows "rows s cid = Some r" "\<not> terminal (rv_Status r)"
  using assms get [of cid s] by (auto simp: finishBegin_def terminal_def split: sum.splits if_splits)

end

subsection \<open>Both stores keep it\<close>

definition mem_wf :: "memory \<Rightarrow> bool" where
  "mem_wf m \<longleftrightarrow> (\<forall>cid r. map_of m cid = Some r \<longrightarrow> rv_ArtifactCID r = cid)"

lemma in_map_filter: "r \<in> set (List.map_filter f xs) \<longleftrightarrow> (\<exists>x \<in> set xs. f x = Some r)"
  by (induction xs) (auto simp: List.map_filter_def split: option.splits)

interpretation mem: lawful_store "memoryStore order" map_of mem_wf for order
proof
  fix s :: memory and r out s'
  assume "mem_wf s" "rs_Create (memoryStore order) r s = (out, s')"
  then show "mem_wf s' \<and> (map_of s' = map_of s \<and> \<not> okE out \<or> map_of s (rv_ArtifactCID r) = None \<and> map_of s' = (map_of s)(rv_ArtifactCID r \<mapsto> r))"
    by (auto simp: memoryStore_def memCreate_def mem_wf_def update_conv' split: option.splits if_splits)
next
  fix s :: memory and cid f t out s'
  assume "mem_wf s" "rs_SetStatus (memoryStore order) cid f t s = (out, s')"
  then show "mem_wf s' \<and> (map_of s' = map_of s \<and> \<not> okE out \<or>
     (\<exists>r. map_of s cid = Some r \<and> rv_Status r = f \<and> CanTransition f t \<and> map_of s' = (map_of s)(cid \<mapsto> r\<lparr>rv_Status := t\<rparr>)))"
    by (auto simp: memoryStore_def memSetStatus_def mem_wf_def update_conv' split: option.splits if_splits)
qed (auto simp: memoryStore_def memGet_def memListExpirable_def mem_wf_def in_map_filter Let_def split: option.splits if_splits dest!: in_set_takeD)

definition pg_wf :: "res_table \<Rightarrow> bool" where "pg_wf t \<longleftrightarrow> distinct (map rv_ArtifactCID t)"

lemma rowOf_Some: "pg_wf t \<Longrightarrow> rowOf t cid = Some r \<longleftrightarrow> r \<in> set t \<and> rv_ArtifactCID r = cid"
  by (induction t) (auto simp: pg_wf_def rowOf_def image_iff)

lemma rowOf_None: "rowOf t cid = None \<longleftrightarrow> cid \<notin> rv_ArtifactCID ` set t"
  by (auto simp: rowOf_def find_None_iff)

lemma rowOf_snoc: "rowOf (t @ [r]) cid = (if rowOf t cid = None \<and> cid = rv_ArtifactCID r then Some r else rowOf t cid)"
  by (induction t) (auto simp: rowOf_def)

lemma casUpdate_wf: "pg_wf t \<Longrightarrow> pg_wf (casUpdate cid f u t)"
proof -
  have "map rv_ArtifactCID (casUpdate cid f u t) = map rv_ArtifactCID t" by (simp add: casUpdate_def)
  then show "pg_wf t \<Longrightarrow> ?thesis" by (simp add: pg_wf_def)
qed

lemma rowOf_cas: "rowOf (casUpdate cid f u t) c =
    (if c = cid then map_option (\<lambda>r. if rv_Status r = f then r\<lparr>rv_Status := u\<rparr> else r) (rowOf t cid) else rowOf t c)"
  by (induction t) (auto simp: casUpdate_def rowOf_def)

lemma cas_rows:
  "(\<exists>r. rowOf t cid = Some r \<and> rv_Status r = f \<and> rowOf (casUpdate cid f u t) = (rowOf t)(cid \<mapsto> r\<lparr>rv_Status := u\<rparr>))
   \<or> (\<forall>r. rowOf t cid = Some r \<longrightarrow> rv_Status r \<noteq> f) \<and> rowOf (casUpdate cid f u t) = rowOf t"
proof (cases "rowOf t cid")
  case None
  then show ?thesis by (auto simp: rowOf_cas fun_eq_iff)
next
  case (Some r)
  then show ?thesis by (cases "rv_Status r = f") (auto simp: rowOf_cas fun_eq_iff)
qed

lemma one_match:
  assumes "length (filter (\<lambda>r. rv_ArtifactCID r = cid \<and> rv_Status r = f) t) = 1" "pg_wf t"
  shows "\<exists>r. rowOf t cid = Some r \<and> rv_Status r = f"
proof -
  have "filter (\<lambda>r. rv_ArtifactCID r = cid \<and> rv_Status r = f) t \<noteq> []" using assms(1) by auto
  then obtain r where "r \<in> set t" "rv_ArtifactCID r = cid" "rv_Status r = f" by (auto simp: filter_empty_conv)
  then show ?thesis using rowOf_Some [OF assms(2)] by blast
qed

lemma pgSetStatus_rows:
  assumes "pg_wf t" "pgSetStatus F cid f u t = (out, t')"
  shows "pg_wf t' \<and> (rowOf t' = rowOf t \<and> \<not> okE out \<or>
    (\<exists>r. rowOf t cid = Some r \<and> rv_Status r = f \<and> CanTransition f u \<and> rowOf t' = (rowOf t)(cid \<mapsto> r\<lparr>rv_Status := u\<rparr>)))"
proof -
  have t': "t' = t \<or> t' = casUpdate cid f u t" and legal: "t' = t \<and> \<not> okE out \<or> CanTransition f u"
    and won: "okE out \<Longrightarrow> CanTransition f u \<and> t' = casUpdate cid f u t \<and> (\<exists>r. rowOf t cid = Some r \<and> rv_Status r = f)"
    using assms one_match [of cid f t] by (auto simp: pgSetStatus_def split: if_splits option.splits)
  then have "pg_wf t'" using assms(1) casUpdate_wf by metis
  then show ?thesis using t' legal won cas_rows [of t cid f u] by metis
qed

interpretation pgs: lawful_store "pgStore F" rowOf pg_wf for F
proof
  fix t r and out :: "res_error + unit" and t'
  assume wf: "pg_wf t" and "rs_Create (pgStore F) r t = (out, t')"
  then have "t' = t \<and> \<not> okE out \<or> rowOf t (rv_ArtifactCID r) = None \<and> t' = t @ [r]"
    by (auto simp: pgStore_def pgCreate_def Let_def split: if_splits option.splits)
  then show "pg_wf t' \<and> (rowOf t' = rowOf t \<and> \<not> okE out \<or> rowOf t (rv_ArtifactCID r) = None \<and> rowOf t' = (rowOf t)(rv_ArtifactCID r \<mapsto> r))"
    using wf by (auto simp: pg_wf_def rowOf_None rowOf_snoc fun_eq_iff)
next
  fix t cid f u and out :: "res_error + unit" and t'
  assume "pg_wf t" "rs_SetStatus (pgStore F) cid f u t = (out, t')"
  then show "pg_wf t' \<and> (rowOf t' = rowOf t \<and> \<not> okE out \<or>
    (\<exists>r. rowOf t cid = Some r \<and> rv_Status r = f \<and> CanTransition f u \<and> rowOf t' = (rowOf t)(cid \<mapsto> r\<lparr>rv_Status := u\<rparr>)))"
    using pgSetStatus_rows [of t F cid f u out t'] by (simp add: pgStore_def)
next
  fix t now limit rs r
  assume "pg_wf t" "rs_ListExpirable (pgStore F) now limit t = Inr rs" "r \<in> set rs"
  then show "rowOf t (rv_ArtifactCID r) = Some r \<and> \<not> terminal (rv_Status r) \<and> rv_ExpiresAt r \<le> now"
    by (auto simp: pgStore_def pgListExpirable_def rowOf_Some terminal_def split: option.splits if_splits dest!: in_set_takeD)
qed (auto simp: pgStore_def pgGet_def rowOf_Some split: option.splits)

text \<open>
  The two stores differ where the interface says that an absent row is \<open>ErrNotFound\<close>: the Postgres
  store checks the transition first.
\<close>

lemma absent_illegal_differs:
  "memSetStatus cid StatusCommitted StatusExpired [] = (Inl ErrNotFound, [])"
  "pgSetStatus F cid StatusCommitted StatusExpired [] = (Inl ErrConflict, [])"
  by (simp_all add: memSetStatus_def pgSetStatus_def CanTransition_def terminal_def)

end
