(* ===== verification/ReservationProps.thy ===== *)
theory ReservationProps
  imports ReservationSpec
begin

section \<open>Concurrent finishers and reapers\<close>

text \<open>
  A system state holds the store, the content, and what the goroutines in flight know: finishers after
  \<open>Get\<close> (\<open>sy_got\<close>) and after their reads of the content (\<open>sy_checked\<close>), listed
  reservations the reapers have not handled yet, and content they are about to delete.  Every step may use
  another store of the set \<open>stores\<close>, so statements fail at any moment.  An address names one byte
  string, so an upload never replaces other bytes.
\<close>

record ('s, 'c) res_sys =
  sy_store :: 's
  sy_content :: "'c \<rightharpoonup> bytes"
  sy_got :: "Reservation list"
  sy_checked :: "(Reservation \<times> verdict) list"
  sy_reap :: "Reservation list"
  sy_gone :: "'c list"

definition honest :: "('c \<rightharpoonup> bytes) \<Rightarrow> ('c \<Rightarrow> string + bool) \<Rightarrow> ('c \<Rightarrow> string + bytes) \<Rightarrow> bool" where
  "honest cs ex fetch \<longleftrightarrow> (\<forall>c. ex c = Inr True \<longrightarrow> cs c \<noteq> None) \<and> (\<forall>c d. fetch c = Inr d \<longrightarrow> cs c = Some d)"

inductive res_step :: "('c, 'v) Manager \<Rightarrow> 's res_store set \<Rightarrow> ('s, 'c) res_sys \<Rightarrow> ('s, 'c) res_sys \<Rightarrow> bool"
  for M :: "('c, 'v) Manager" and stores :: "'s res_store set" where
  reserve: "\<lbrakk>S \<in> stores; Reserve M S now rq (sy_store y) = (out, s')\<rbrakk> \<Longrightarrow> res_step M stores y (y\<lparr>sy_store := s'\<rparr>)"
| upload: "\<lbrakk>sy_content y c = None \<or> sy_content y c = Some d\<rbrakk> \<Longrightarrow> res_step M stores y (y\<lparr>sy_content := (sy_content y)(c \<mapsto> d)\<rparr>)"
| get: "\<lbrakk>S \<in> stores; finishBegin S cid (sy_store y) = Inr r\<rbrakk> \<Longrightarrow> res_step M stores y (y\<lparr>sy_got := r # sy_got y\<rparr>)"
| check: "\<lbrakk>r \<in> set (sy_got y); honest (sy_content y) ex fetch; finishCheck M ex fetch r = Inr v\<rbrakk>
    \<Longrightarrow> res_step M stores y (y\<lparr>sy_got := remove1 r (sy_got y), sy_checked := (r, v) # sy_checked y\<rparr>)"
| fail: "r \<in> set (sy_got y) \<Longrightarrow> res_step M stores y (y\<lparr>sy_got := remove1 r (sy_got y)\<rparr>)"
| settle: "\<lbrakk>(r, v) \<in> set (sy_checked y); S \<in> stores; finishSettle S (rv_ArtifactCID r) r v (sy_store y) = (out, s')\<rbrakk>
    \<Longrightarrow> res_step M stores y (y\<lparr>sy_store := s', sy_checked := remove1 (r, v) (sy_checked y)\<rparr>)"
| list: "\<lbrakk>S \<in> stores; rs_ListExpirable S now limit (sy_store y) = Inr rs\<rbrakk> \<Longrightarrow> res_step M stores y (y\<lparr>sy_reap := sy_reap y @ rs\<rparr>)"
| reap: "\<lbrakk>r \<in> set (sy_reap y); S \<in> stores; reapOne M S r (sy_store y) = (won, gone, s')\<rbrakk>
    \<Longrightarrow> res_step M stores y (y\<lparr>sy_store := s', sy_reap := remove1 r (sy_reap y), sy_gone := (case gone of None \<Rightarrow> sy_gone y | Some c \<Rightarrow> c # sy_gone y)\<rparr>)"
| delete: "c \<in> set (sy_gone y) \<Longrightarrow> res_step M stores y (y\<lparr>sy_content := (sy_content y)(c := None), sy_gone := remove1 c (sy_gone y)\<rparr>)"
| keep: "c \<in> set (sy_gone y) \<Longrightarrow> res_step M stores y (y\<lparr>sy_gone := remove1 c (sy_gone y)\<rparr>)"
| crash: "res_step M stores y (y\<lparr>sy_got := [], sy_checked := [], sy_reap := [], sy_gone := []\<rparr>)"

inductive res_reach :: "('c, 'v) Manager \<Rightarrow> 's res_store set \<Rightarrow> ('s, 'c) res_sys \<Rightarrow> ('s, 'c) res_sys \<Rightarrow> bool"
  for M :: "('c, 'v) Manager" and stores :: "'s res_store set" and y0 where
  res_reach_refl: "res_reach M stores y0 y0"
| res_reach_step: "\<lbrakk>res_reach M stores y0 y; res_step M stores y y'\<rbrakk> \<Longrightarrow> res_reach M stores y0 y'"

text \<open>The bytes of a reservation are present and match its declared type.\<close>

definition good :: "('c, 'v) Manager \<Rightarrow> ('c \<rightharpoonup> bytes) \<Rightarrow> Reservation \<Rightarrow> bool" where
  "good M cs r \<longleftrightarrow> (\<exists>c d. mg_ParseCID M (rv_ArtifactCID r) = Inr c \<and> cs c = Some d
     \<and> (\<forall>v. mg_validator M = Some v \<and> rv_MIMEType r \<noteq> [] \<longrightarrow> v (rv_MIMEType r) d = None))"

text \<open>
  Different CID strings of a set parse to different content identifiers.  The strings of reservations are
  canonical (\<open>ArtifactCID.String()\<close>), so this is only required of those.
\<close>

definition parse_inj :: "('c, 'v) Manager \<Rightarrow> string set \<Rightarrow> bool" where
  "parse_inj M X \<longleftrightarrow> (\<forall>a \<in> X. \<forall>b \<in> X. \<forall>c. mg_ParseCID M a = Inr c \<longrightarrow> mg_ParseCID M b = Inr c \<longrightarrow> a = b)"

lemma parse_inj_mono: "parse_inj M Y \<Longrightarrow> X \<subseteq> Y \<Longrightarrow> parse_inj M X"
  unfolding parse_inj_def by blast

lemma evolves_dom: "evolves R R' \<Longrightarrow> dom R \<subseteq> dom R'"
  unfolding evolves_def by (metis (no_types, lifting) domIff option.distinct(1) subsetI)

lemma check_good:
  assumes "finishCheck M ex fetch r = Inr Pass" "honest cs ex fetch"
  shows "good M cs r"
proof -
  obtain c where c: "mg_ParseCID M (rv_ArtifactCID r) = Inr c" "ex c = Inr True"
    using assms(1) by (auto simp: finishCheck_def split: sum.splits bool.splits)
  then obtain d where d: "cs c = Some d" using assms(2) by (auto simp: honest_def)
  have "v (rv_MIMEType r) d = None" if v: "mg_validator M = Some v" "rv_MIMEType r \<noteq> []" for v
  proof -
    obtain d' where "fetch c = Inr d'" "v (rv_MIMEType r) d' = None"
      using assms(1) c v by (auto simp: finishCheck_def split: sum.splits option.splits)
    then show ?thesis using assms(2) d by (auto simp: honest_def)
  qed
  then show ?thesis using c d by (auto simp: good_def)
qed

lemma good_upload: "\<lbrakk>good M cs r; cs c = None \<or> cs c = Some d\<rbrakk> \<Longrightarrow> good M (cs(c \<mapsto> d)) r"
  unfolding good_def by (metis fun_upd_apply option.distinct(1) option.inject)

lemma good_delete: "good M cs r \<Longrightarrow> mg_ParseCID M (rv_ArtifactCID r) \<noteq> Inr c \<Longrightarrow> good M (cs(c := None)) r"
  unfolding good_def by (metis fun_upd_apply)

subsection \<open>The guarantees of a lawful store\<close>

definition same_row :: "(string \<rightharpoonup> Reservation) \<Rightarrow> Reservation \<Rightarrow> bool" where
  "same_row R r \<longleftrightarrow> (\<exists>s. R (rv_ArtifactCID r) = Some (r\<lparr>rv_Status := s\<rparr>))"

definition in_status :: "(string \<rightharpoonup> Reservation) \<Rightarrow> string \<Rightarrow> Status \<Rightarrow> bool" where
  "in_status R cid s \<longleftrightarrow> (\<exists>r. R cid = Some r \<and> rv_Status r = s)"

lemma evolves_same:
  assumes "evolves R R'" "same_row R r"
  shows "same_row R' r"
proof -
  obtain s where s: "R (rv_ArtifactCID r) = Some (r\<lparr>rv_Status := s\<rparr>)" using assms(2) by (auto simp: same_row_def)
  from assms(1) have "R' (rv_ArtifactCID r) = R (rv_ArtifactCID r) \<or> (\<exists>t. R' (rv_ArtifactCID r) = Some (r\<lparr>rv_Status := s\<rparr>\<lparr>rv_Status := t\<rparr>))"
    unfolding evolves_def using s by (metis option.distinct(1) option.inject)
  then show ?thesis using s by (auto simp: same_row_def)
qed

lemma evolves_terminal: "\<lbrakk>evolves R R'; in_status R cid s; terminal s\<rbrakk> \<Longrightarrow> in_status R' cid s"
  unfolding evolves_def in_status_def CanTransition_def by (metis option.distinct(1) option.inject)

locale reservation_system =
  fixes stores :: "'s res_store set" and rows :: "'s \<Rightarrow> string \<rightharpoonup> Reservation" and wf :: "'s \<Rightarrow> bool"
  assumes lawful: "S \<in> stores \<Longrightarrow> lawful_store S rows wf"
    and keyed_rows: "\<lbrakk>wf s; rows s cid = Some r\<rbrakk> \<Longrightarrow> rv_ArtifactCID r = cid"
begin

lemma step_rows:
  assumes "res_step M stores y y'" "wf (sy_store y)"
  shows "wf (sy_store y') \<and> evolves (rows (sy_store y)) (rows (sy_store y'))"
  using assms
proof cases
  case (reserve S now rq out s')
  then show ?thesis using lawful_store.reserve_evolves [OF lawful [OF reserve(2)] assms(2) reserve(3)] by simp
next
  case (settle r v S out s')
  note st = lawful [OF settle(3)]
  obtain c where "rs_SetStatus S (rv_ArtifactCID r) (rv_Status r) (case v of Pass \<Rightarrow> StatusCommitted | Reject _ \<Rightarrow> StatusRejected) (sy_store y) = (c, s')"
    by (rule lawful_store.settle_cas [OF st settle(4)])
  then show ?thesis using settle(1) lawful_store.cas [OF st assms(2)] lawful_store.cas_evolves [OF st assms(2)] by simp
next
  case (reap r S won gone s')
  note st = lawful [OF reap(3)]
  obtain c where "rs_SetStatus S (rv_ArtifactCID r) (rv_Status r) StatusExpired (sy_store y) = (c, s')"
    by (rule lawful_store.reap_cas [OF st reap(4)])
  then show ?thesis using reap(1) lawful_store.cas [OF st assms(2)] lawful_store.cas_evolves [OF st assms(2)] by simp
qed (use assms(2) in simp_all)

lemma settle_cas_rows:
  assumes "finishSettle S (rv_ArtifactCID r) r v s = (out, s')" "S \<in> stores" "wf s"
  shows "no_commit (rows s) (rows s') \<or> v = Pass \<and> (\<exists>r0. rows s (rv_ArtifactCID r) = Some r0 \<and> rv_Status r0 = rv_Status r
    \<and> \<not> terminal (rv_Status r0) \<and> rows s' = (rows s)(rv_ArtifactCID r \<mapsto> r0\<lparr>rv_Status := StatusCommitted\<rparr>))"
proof -
  note st = lawful [OF assms(2)]
  obtain c where c: "rs_SetStatus S (rv_ArtifactCID r) (rv_Status r) (case v of Pass \<Rightarrow> StatusCommitted | Reject _ \<Rightarrow> StatusRejected) s = (c, s')"
    by (rule lawful_store.settle_cas [OF st assms(1)])
  show ?thesis
  proof (cases v)
    case Pass
    then show ?thesis using lawful_store.cas [OF st assms(3) c] by (auto simp: CanTransition_def)
  next
    case (Reject e)
    then show ?thesis using lawful_store.cas_no_commit [OF st assms(3) c] by simp
  qed
qed

lemma reap_rows:
  assumes "reapOne M S r s = (won, gone, s')" "S \<in> stores" "wf s"
  shows "no_commit (rows s) (rows s') \<and> (gone = None \<or> mg_ParseCID M (rv_ArtifactCID r) = Inr (the gone) \<and> in_status (rows s') (rv_ArtifactCID r) StatusExpired)"
proof -
  note st = lawful [OF assms(2)]
  obtain c where c: "rs_SetStatus S (rv_ArtifactCID r) (rv_Status r) StatusExpired s = (c, s')"
    and gone: "gone \<noteq> None \<Longrightarrow> okE c \<and> mg_ParseCID M (rv_ArtifactCID r) = Inr (the gone)"
    using lawful_store.reap_cas [OF st assms(1)] by blast
  have "okE c \<Longrightarrow> in_status (rows s') (rv_ArtifactCID r) StatusExpired"
    using lawful_store.cas [OF st assms(3) c] by (auto simp: in_status_def)
  then show ?thesis using lawful_store.cas_no_commit [OF st assms(3) c] gone by auto
qed

end

subsection \<open>The invariant\<close>

lemma good_status [simp]: "good M cs (r\<lparr>rv_Status := s\<rparr>) = good M cs r"
  by (simp add: good_def)

definition pending_ok :: "('c, 'v) Manager \<Rightarrow> (string \<rightharpoonup> Reservation) \<Rightarrow> ('s, 'c) res_sys \<Rightarrow> bool" where
  "pending_ok M R y \<longleftrightarrow> (\<forall>r \<in> set (sy_got y). same_row R r)
     \<and> (\<forall>r v. (r, v) \<in> set (sy_checked y) \<longrightarrow> same_row R r \<and> (v = Pass \<longrightarrow> good M (sy_content y) r \<or> in_status R (rv_ArtifactCID r) StatusExpired))
     \<and> (\<forall>c \<in> set (sy_gone y). \<exists>cid. mg_ParseCID M cid = Inr c \<and> in_status R cid StatusExpired)"

definition committed_ok :: "('c, 'v) Manager \<Rightarrow> (string \<rightharpoonup> Reservation) \<Rightarrow> ('c \<rightharpoonup> bytes) \<Rightarrow> bool" where
  "committed_ok M R cs \<longleftrightarrow> (\<forall>cid r. R cid = Some r \<and> rv_Status r = StatusCommitted \<longrightarrow> good M cs r)"

lemma pending_evolves:
  assumes "pending_ok M R y" "evolves R R'"
  shows "pending_ok M R' y"
proof -
  have "terminal StatusExpired" by (simp add: terminal_def)
  note t = evolves_terminal [OF assms(2) _ this]
  show ?thesis using assms(1) evolves_same [OF assms(2)] t unfolding pending_ok_def by metis
qed

lemma committed_no_commit: "\<lbrakk>committed_ok M R cs; no_commit R R'\<rbrakk> \<Longrightarrow> committed_ok M R' cs"
  unfolding committed_ok_def no_commit_def by blast

lemma committed_settle:
  assumes "committed_ok M R cs" "good M cs r" "same_row R r" "R (rv_ArtifactCID r) = Some r0"
  shows "committed_ok M (R(rv_ArtifactCID r \<mapsto> r0\<lparr>rv_Status := StatusCommitted\<rparr>)) cs"
proof -
  have "good M cs r0" using assms(2-4) by (auto simp: same_row_def)
  then show ?thesis using assms(1) by (auto simp: committed_ok_def)
qed

lemma pending_drop:
  assumes "pending_ok M R y" "set (sy_got y') \<subseteq> set (sy_got y)" "set (sy_checked y') \<subseteq> set (sy_checked y)" "set (sy_gone y') \<subseteq> set (sy_gone y)"
    and "sy_content y' = sy_content y"
  shows "pending_ok M R y'"
  using assms(1-4) unfolding pending_ok_def assms(5) by blast

lemma delete_keeps:
  assumes "parse_inj M (dom R)" "c \<in> set (sy_gone y)" "pending_ok M R y" "committed_ok M R (sy_content y)"
    and keyed: "\<And>cid r. R cid = Some r \<Longrightarrow> rv_ArtifactCID r = cid"
  shows "committed_ok M R ((sy_content y)(c := None))"
    and "pending_ok M R (y\<lparr>sy_content := (sy_content y)(c := None), sy_gone := remove1 c (sy_gone y)\<rparr>)"
proof -
  obtain cid where cid: "mg_ParseCID M cid = Inr c" "in_status R cid StatusExpired" using assms(2,3) by (auto simp: pending_ok_def)
  have only: "mg_ParseCID M a = Inr c \<Longrightarrow> a \<in> dom R \<Longrightarrow> in_status R a StatusExpired" for a
    using cid assms(1) unfolding parse_inj_def in_status_def by blast
  have "good M ((sy_content y)(c := None)) r" if r: "R a = Some r" "rv_Status r = StatusCommitted" for a r
  proof (rule good_delete)
    show "good M (sy_content y) r" using assms(4) r by (auto simp: committed_ok_def)
    show "mg_ParseCID M (rv_ArtifactCID r) \<noteq> Inr c" using only [of a] keyed [OF r(1)] r by (auto simp: in_status_def dom_def)
  qed
  then show "committed_ok M R ((sy_content y)(c := None))" unfolding committed_ok_def by blast
  have "good M ((sy_content y)(c := None)) r \<or> in_status R (rv_ArtifactCID r) StatusExpired" if "(r, Pass) \<in> set (sy_checked y)" for r
  proof -
    have "same_row R r" "good M (sy_content y) r \<or> in_status R (rv_ArtifactCID r) StatusExpired" using assms(3) that by (auto simp: pending_ok_def)
    then show ?thesis using good_delete [of M "sy_content y" r c] only [of "rv_ArtifactCID r"] domI [of R] by (auto simp: same_row_def)
  qed
  then show "pending_ok M R (y\<lparr>sy_content := (sy_content y)(c := None), sy_gone := remove1 c (sy_gone y)\<rparr>)"
    using assms(3) by (auto simp: pending_ok_def dest: notin_set_remove1)
qed

lemma upload_keeps:
  assumes "sy_content y c = None \<or> sy_content y c = Some d" "pending_ok M R y" "committed_ok M R (sy_content y)"
  shows "committed_ok M R ((sy_content y)(c \<mapsto> d)) \<and> pending_ok M R (y\<lparr>sy_content := (sy_content y)(c \<mapsto> d)\<rparr>)"
  using assms(2,3) good_upload [of M "sy_content y" _ c d, OF _ assms(1)] by (auto simp: pending_ok_def committed_ok_def) blast

lemma pending_checked:
  assumes "pending_ok M R y" "r \<in> set (sy_got y)" "finishCheck M ex fetch r = Inr v" "honest (sy_content y) ex fetch"
  shows "pending_ok M R (y\<lparr>sy_got := remove1 r (sy_got y), sy_checked := (r, v) # sy_checked y\<rparr>)"
proof -
  have "v = Pass \<Longrightarrow> good M (sy_content y) r" using check_good [of M ex fetch r "sy_content y"] assms(3,4) by simp
  moreover have "same_row R r" using assms(1,2) by (simp add: pending_ok_def)
  ultimately show ?thesis using assms(1) by (auto simp: pending_ok_def dest: notin_set_remove1)
qed

lemma set_remove1_sub: "set (remove1 x xs) \<subseteq> set xs" by (rule set_remove1_subset)

definition res_inv :: "('s \<Rightarrow> string \<rightharpoonup> Reservation) \<Rightarrow> ('s \<Rightarrow> bool) \<Rightarrow> ('c, 'v) Manager \<Rightarrow> ('s, 'c) res_sys \<Rightarrow> bool" where
  "res_inv rows keeps M y \<longleftrightarrow> keeps (sy_store y) \<and> pending_ok M (rows (sy_store y)) y \<and> committed_ok M (rows (sy_store y)) (sy_content y)"

context reservation_system
begin

lemma settle_inv:
  assumes "res_inv rows wf M y" "(r, v) \<in> set (sy_checked y)" "S \<in> stores" "finishSettle S (rv_ArtifactCID r) r v (sy_store y) = (out, s')"
  shows "committed_ok M (rows s') (sy_content y)"
proof -
  have inv: "wf (sy_store y)" "pending_ok M (rows (sy_store y)) y" "committed_ok M (rows (sy_store y)) (sy_content y)"
    using assms(1) by (simp_all add: res_inv_def)
  from settle_cas_rows [OF assms(4,3) inv(1)] show ?thesis
  proof
    assume "no_commit (rows (sy_store y)) (rows s')"
    then show ?thesis by (rule committed_no_commit [OF inv(3)])
  next
    assume "v = Pass \<and> (\<exists>r0. rows (sy_store y) (rv_ArtifactCID r) = Some r0 \<and> rv_Status r0 = rv_Status r
      \<and> \<not> terminal (rv_Status r0) \<and> rows s' = (rows (sy_store y))(rv_ArtifactCID r \<mapsto> r0\<lparr>rv_Status := StatusCommitted\<rparr>))"
    then obtain r0 where v: "v = Pass" and r0: "rows (sy_store y) (rv_ArtifactCID r) = Some r0" "\<not> terminal (rv_Status r0)"
      and upd: "rows s' = (rows (sy_store y))(rv_ArtifactCID r \<mapsto> r0\<lparr>rv_Status := StatusCommitted\<rparr>)" by blast
    have "\<not> in_status (rows (sy_store y)) (rv_ArtifactCID r) StatusExpired" using r0 by (auto simp: in_status_def terminal_def)
    then have "good M (sy_content y) r" "same_row (rows (sy_store y)) r" using inv(2) assms(2) v by (auto simp: pending_ok_def)
    from committed_settle [OF inv(3) this r0(1)] show ?thesis by (simp add: upd)
  qed
qed

lemma step_inv:
  assumes "res_step M stores y y'" "res_inv rows wf M y" "parse_inj M (dom (rows (sy_store y)))"
  shows "res_inv rows wf M y'"
proof -
  have inv: "wf (sy_store y)" "pending_ok M (rows (sy_store y)) y" "committed_ok M (rows (sy_store y)) (sy_content y)"
    using assms(2) by (simp_all add: res_inv_def)
  note rows' = step_rows [OF assms(1) inv(1)]
  have pend: "pending_ok M (rows (sy_store y')) y" using pending_evolves [OF inv(2)] rows' by blast
  from assms(1) have "pending_ok M (rows (sy_store y')) y' \<and> committed_ok M (rows (sy_store y')) (sy_content y')"
  proof cases
    case (reserve S now rq out s')
    have "no_commit (rows (sy_store y)) (rows s')"
      using lawful_store.reserve_evolves [OF lawful [OF reserve(2)] inv(1) reserve(3)] by blast
    then show ?thesis using pending_drop [OF pend, of y'] committed_no_commit [OF inv(3)] reserve(1) by simp
  next
    case (upload c d)
    then show ?thesis using upload_keeps [OF upload(2) inv(2,3)] by simp
  next
    case (get S cid r)
    have "rows (sy_store y) cid = Some r" by (rule lawful_store.begin_row(1) [OF lawful [OF get(2)] get(3)])
    then have "same_row (rows (sy_store y)) r" using lawful_store.keyed [OF lawful [OF get(2)] inv(1)]
      by (auto simp: same_row_def intro: exI [of _ "rv_Status r"])
    then show ?thesis using inv get(1) by (simp add: pending_ok_def)
  next
    case (check r ex fetch v)
    then show ?thesis using pending_checked [OF inv(2) check(2,4,3)] inv(3) by simp
  next
    case (fail r)
    then show ?thesis using pending_drop [OF inv(2), of y'] inv(3) set_remove1_sub [of r "sy_got y"] by simp
  next
    case (settle r v S out s')
    then show ?thesis using pending_drop [OF pend, of y'] settle_inv [OF assms(2) settle(2-4)] set_remove1_sub [of "(r, v)" "sy_checked y"] by simp
  next
    case (list S now limit rs)
    then show ?thesis using pending_drop [OF inv(2), of y'] inv(3) by simp
  next
    case (reap r S won gone s')
    note rr = reap_rows [OF reap(4,3) inv(1)]
    have "committed_ok M (rows s') (sy_content y)" using rr committed_no_commit [OF inv(3)] by blast
    moreover have "pending_ok M (rows s') y'" using pend rr reap(1) by (auto simp: pending_ok_def split: option.splits)
    ultimately show ?thesis using reap(1) by simp
  next
    case (delete c)
    show ?thesis using delete_keeps [OF assms(3) delete(2) inv(2,3)] delete(1) keyed_rows [OF inv(1)] by simp
  next
    case (keep c)
    then show ?thesis using pending_drop [OF inv(2), of y'] inv(3) set_remove1_sub [of c "sy_gone y"] by simp
  next
    case crash
    then show ?thesis using pending_drop [OF inv(2), of y'] inv(3) by simp
  qed
  then show ?thesis using rows' by (simp add: res_inv_def)
qed

lemma reach_wf:
  assumes "res_reach M stores y0 y" "wf (sy_store y0)"
  shows "wf (sy_store y)"
  using assms(1) by induction (use assms(2) step_rows in blast)+

lemma reach_dom:
  assumes "res_reach M stores y0 y" "wf (sy_store y0)"
  shows "dom (rows (sy_store y0)) \<subseteq> dom (rows (sy_store y))"
  using assms(1)
proof induction
  case (res_reach_step y y')
  have "evolves (rows (sy_store y)) (rows (sy_store y'))" using step_rows [OF res_reach_step(2)] reach_wf [OF res_reach_step(1) assms(2)] by blast
  then show ?case using evolves_dom res_reach_step(3) by blast
qed simp

lemma reach_inv:
  assumes "res_reach M stores y0 y" "res_inv rows wf M y0" "parse_inj M (dom (rows (sy_store y)))"
  shows "res_inv rows wf M y"
  using assms(1,3)
proof induction
  case (res_reach_step y y')
  have "wf (sy_store y)" using reach_wf [OF res_reach_step(1)] assms(2) by (simp add: res_inv_def)
  then have "dom (rows (sy_store y)) \<subseteq> dom (rows (sy_store y'))" using step_rows [OF res_reach_step(2)] evolves_dom by blast
  then have inj: "parse_inj M (dom (rows (sy_store y)))" using parse_inj_mono res_reach_step(4) by blast
  show ?case by (rule step_inv [OF res_reach_step(2) res_reach_step.IH [OF inj] inj])
qed (use assms(2) in simp)

lemma rejected_stays:
  assumes "res_reach M stores y0 y" "res_inv rows wf M y0" "parse_inj M (dom (rows (sy_store y)))"
    and "in_status (rows (sy_store y0)) cid StatusRejected" "mg_ParseCID M cid = Inr c" "sy_content y0 c = Some d"
  shows "in_status (rows (sy_store y)) cid StatusRejected \<and> sy_content y c = Some d"
  using assms(1,3)
proof induction
  case (res_reach_step y y')
  have wf: "wf (sy_store y)" using reach_wf [OF res_reach_step(1)] assms(2) by (simp add: res_inv_def)
  then have ev: "evolves (rows (sy_store y)) (rows (sy_store y'))" using step_rows [OF res_reach_step(2)] by blast
  have inj: "parse_inj M (dom (rows (sy_store y)))" using parse_inj_mono [OF res_reach_step(4)] evolves_dom [OF ev] by blast
  note IH = res_reach_step.IH [OF inj]
  have pend: "pending_ok M (rows (sy_store y)) y" using reach_inv [OF res_reach_step(1) assms(2) inj] by (simp add: res_inv_def)
  have rej: "in_status (rows (sy_store y')) cid StatusRejected"
    using evolves_terminal [OF ev] IH by (fastforce simp: terminal_def)
  have "c \<notin> set (sy_gone y)"
  proof
    assume "c \<in> set (sy_gone y)"
    then obtain a where "mg_ParseCID M a = Inr c" "in_status (rows (sy_store y)) a StatusExpired" using pend by (auto simp: pending_ok_def)
    then have "in_status (rows (sy_store y)) cid StatusExpired" using inj IH assms(5) unfolding parse_inj_def in_status_def by blast
    then show False using IH by (auto simp: in_status_def)
  qed
  with res_reach_step(2) have "sy_content y' c = Some d" using IH by cases (auto split: if_splits)
  then show ?case using rej by blast
qed (use assms(4,6) in simp)

end

interpretation pgr: reservation_system "range pgStore" rowOf pg_wf
proof (rule reservation_system.intro)
  show "lawful_store S rowOf pg_wf" if "S \<in> range pgStore" for S using that pgs.lawful_store_axioms by auto
qed (rule pgs.keyed)

interpretation memr: reservation_system "range memoryStore" map_of mem_wf
proof (rule reservation_system.intro)
  show "lawful_store S map_of mem_wf" if "S \<in> range memoryStore" for S using that mem.lawful_store_axioms by auto
qed (rule mem.keyed)

subsection \<open>Properties of the deployed store\<close>

definition fresh_sys :: "('c \<rightharpoonup> bytes) \<Rightarrow> (res_table, 'c) res_sys" where
  "fresh_sys cs = \<lparr>sy_store = [], sy_content = cs, sy_got = [], sy_checked = [], sy_reap = [], sy_gone = []\<rparr>"

lemma fresh_inv: "res_inv rowOf pg_wf M (fresh_sys cs)"
  by (simp add: res_inv_def fresh_sys_def pending_ok_def committed_ok_def pg_wf_def rowOf_def)

text \<open>
  C16
  In every interleaving of reservers, uploaders, finishers and reapers over the Postgres store, with
  failing statements, lost acknowledgements and restarts, a reservation that is committed has its bytes in
  the content store, and they pass the validator for its declared type: no race between a finish and a reap
  commits a reservation whose bytes are deleted.  The CIDs of the reservations must parse to different
  identifiers.
\<close>

theorem reservation_committed_has_bytes:
  assumes "res_reach M (range pgStore) (fresh_sys cs) y" "parse_inj M (dom (rowOf (sy_store y)))"
    and "rowOf (sy_store y) cid = Some r" "rv_Status r = StatusCommitted"
  shows "\<exists>c d. mg_ParseCID M cid = Inr c \<and> sy_content y c = Some d
    \<and> (\<forall>v. mg_validator M = Some v \<and> rv_MIMEType r \<noteq> [] \<longrightarrow> v (rv_MIMEType r) d = None)"
proof -
  have inv: "res_inv rowOf pg_wf M y" by (rule pgr.reach_inv [OF assms(1) fresh_inv assms(2)])
  then have "good M (sy_content y) r" using assms(3,4) by (auto simp: res_inv_def committed_ok_def)
  moreover have "rv_ArtifactCID r = cid" using inv pgs.keyed [OF _ assms(3)] by (simp add: res_inv_def)
  ultimately show ?thesis by (simp add: good_def)
qed

text \<open>
  C36
  In every such run a step changes a reservation at most in its status, only along the legal moves, never
  removes one, and adds one only as pending: a terminal status is final.
\<close>

theorem reservation_lifecycle:
  assumes "res_reach M (range pgStore) (fresh_sys cs) y" "res_step M (range pgStore) y y'"
  shows "(\<forall>cid r. rowOf (sy_store y) cid = Some r \<longrightarrow>
      (\<exists>t. rowOf (sy_store y') cid = Some (r\<lparr>rv_Status := t\<rparr>) \<and> (t = rv_Status r \<or> CanTransition (rv_Status r) t)))
    \<and> (\<forall>cid r. rowOf (sy_store y) cid = None \<and> rowOf (sy_store y') cid = Some r \<longrightarrow> rv_Status r = StatusPendingUpload)"
proof -
  have "pg_wf (sy_store y)" using pgr.reach_wf [OF assms(1)] fresh_inv [where M = M and cs = cs] by (simp add: res_inv_def)
  then have ev: "evolves (rowOf (sy_store y)) (rowOf (sy_store y'))" using pgr.step_rows [OF assms(2)] by blast
  have "\<exists>t. rowOf (sy_store y') cid = Some (r\<lparr>rv_Status := t\<rparr>) \<and> (t = rv_Status r \<or> CanTransition (rv_Status r) t)"
    if row: "rowOf (sy_store y) cid = Some r" for cid r
  proof -
    have self: "r = r\<lparr>rv_Status := rv_Status r\<rparr>" by simp
    have "rowOf (sy_store y') cid = Some r \<or> (\<exists>t. CanTransition (rv_Status r) t \<and> rowOf (sy_store y') cid = Some (r\<lparr>rv_Status := t\<rparr>))"
      using spec [OF ev [unfolded evolves_def], of cid] row by auto
    then show ?thesis using self by metis
  qed
  moreover have "rv_Status r = StatusPendingUpload" if "rowOf (sy_store y) cid = None" "rowOf (sy_store y') cid = Some r" for cid r
    using ev that unfolding evolves_def by (metis option.distinct(1) option.inject)
  ultimately show ?thesis by blast
qed

text \<open>
  C37
  The bytes of a rejected reservation are never reclaimed: no number of finishes and reaps deletes them,
  because a rejected row is terminal and only expired rows have their bytes deleted.  The reaper's comment
  says that bytes that never reach a validated finish are reclaimed.
\<close>

theorem reservation_rejected_bytes_stay:
  assumes "res_reach M (range pgStore) (fresh_sys cs) y" "parse_inj M (dom (rowOf (sy_store y')))"
    and "rowOf (sy_store y) cid = Some r" "rv_Status r = StatusRejected" "mg_ParseCID M cid = Inr c" "sy_content y c = Some d"
    and "res_reach M (range pgStore) y y'"
  shows "sy_content y' c = Some d \<and> (\<exists>r'. rowOf (sy_store y') cid = Some r' \<and> rv_Status r' = StatusRejected)"
proof -
  have "pg_wf (sy_store y)" using pgr.reach_wf [OF assms(1)] fresh_inv [where M = M and cs = cs] by (simp add: res_inv_def)
  then have "dom (rowOf (sy_store y)) \<subseteq> dom (rowOf (sy_store y'))" by (rule pgr.reach_dom [OF assms(7)])
  then have "res_inv rowOf pg_wf M y" by (intro pgr.reach_inv [OF assms(1) fresh_inv] parse_inj_mono [OF assms(2)])
  from pgr.rejected_stays [OF assms(7) this assms(2) _ assms(5,6)] show ?thesis using assms(3,4) by (simp add: in_status_def)
qed

subsection \<open>A concrete run\<close>

definition demo_mgr :: "(string, string) Manager" where
  "demo_mgr = \<lparr>mg_ttl = managerTTL 0, mg_validator = Some (\<lambda>_ d. if d = [] then Some ''empty'' else None), mg_networkID = ''n'',
     mg_ParseCID = Inr, mg_Sign = \<lambda>_ cid _ _. Inr cid\<rparr>"

definition demo_faults :: res_faults where
  "demo_faults = \<lparr>rf_create = None, rf_get = None, rf_update = None, rf_exists = None, rf_list = None\<rparr>"

definition demo_req :: ReserveRequest where
  "demo_req = \<lparr>rq_ArtifactCID = ''a'', rq_ContentDigest = [], rq_MIMEType = ''text/plain'', rq_MaxSize = 10, rq_Owner = ''o''\<rparr>"

definition demo_sys :: "Status \<Rightarrow> bytes \<Rightarrow> (res_table, string) res_sys" where
  "demo_sys st d = (fresh_sys [''a'' \<mapsto> d])\<lparr>sy_store := [(reserveRow demo_mgr 0 demo_req)\<lparr>rv_Status := st\<rparr>]\<rparr>"

lemma demo_parse: "parse_inj demo_mgr X" by (simp add: parse_inj_def demo_mgr_def)

lemma demo_pending: "res_reach demo_mgr (range pgStore) (fresh_sys Map.empty) (demo_sys StatusPendingUpload d)"
proof -
  let ?y = "(fresh_sys Map.empty)\<lparr>sy_store := [reserveRow demo_mgr 0 demo_req]\<rparr>"
  have "res_step demo_mgr (range pgStore) (fresh_sys Map.empty) ?y"
    by (rule res_step.reserve [of "pgStore demo_faults" _ _ 0 demo_req _ "Inr ''a''"])
      (simp_all add: Reserve_def pgStore_def pgCreate_def demo_faults_def demo_req_def demo_mgr_def rowOf_def reserveRow_def fresh_sys_def Let_def)
  then have "res_reach demo_mgr (range pgStore) (fresh_sys Map.empty) ?y" using res_reach.intros by blast
  moreover have "res_step demo_mgr (range pgStore) ?y (?y\<lparr>sy_content := (sy_content ?y)(''a'' \<mapsto> d)\<rparr>)"
    by (rule res_step.upload) (simp add: fresh_sys_def)
  moreover have "?y\<lparr>sy_content := (sy_content ?y)(''a'' \<mapsto> d)\<rparr> = demo_sys StatusPendingUpload d"
    by (simp add: demo_sys_def fresh_sys_def reserveRow_def)
  ultimately show ?thesis using res_reach_step by metis
qed

lemma demo_settled:
  "res_reach demo_mgr (range pgStore) (fresh_sys Map.empty) (demo_sys (if d = [] then StatusRejected else StatusCommitted) d)"
proof -
  let ?r = "reserveRow demo_mgr 0 demo_req"
  let ?v = "if d = [] then Reject ''empty'' else Pass"
  let ?p = "demo_sys StatusPendingUpload d"
  note defs = demo_sys_def fresh_sys_def reserveRow_def demo_req_def demo_mgr_def pgStore_def demo_faults_def rowOf_def
  have s1: "res_step demo_mgr (range pgStore) ?p (?p\<lparr>sy_got := ?r # sy_got ?p\<rparr>)"
    by (rule res_step.get [of "pgStore demo_faults" _ "''a''"]) (simp_all add: finishBegin_def pgGet_def defs)
  have s2: "res_step demo_mgr (range pgStore) (?p\<lparr>sy_got := ?r # sy_got ?p\<rparr>) (?p\<lparr>sy_checked := [(?r, ?v)]\<rparr>)"
    using res_step.check [of ?r "?p\<lparr>sy_got := ?r # sy_got ?p\<rparr>" "\<lambda>c. Inr (c = ''a'')" "\<lambda>c. if c = ''a'' then Inr d else Inl []" demo_mgr ?v "range pgStore"]
    by (simp add: finishCheck_def honest_def defs)
  have settled: "finishSettle (pgStore demo_faults) (rv_ArtifactCID ?r) ?r ?v (sy_store (?p\<lparr>sy_checked := [(?r, ?v)]\<rparr>)) = (if d = [] then Inl (ErrRejected ''empty'') else Inr (?r\<lparr>rv_Status := StatusCommitted\<rparr>),
      [?r\<lparr>rv_Status := if d = [] then StatusRejected else StatusCommitted\<rparr>])"
    by (cases "d = []") (simp_all add: finishSettle_def pgSetStatus_def casUpdate_def CanTransition_def terminal_def defs)
  have s3: "res_step demo_mgr (range pgStore) (?p\<lparr>sy_checked := [(?r, ?v)]\<rparr>) (demo_sys (if d = [] then StatusRejected else StatusCommitted) d)"
    using res_step.settle [of ?r ?v "?p\<lparr>sy_checked := [(?r, ?v)]\<rparr>" "pgStore demo_faults" "range pgStore" _ _ demo_mgr, OF _ _ settled]
    by (simp add: demo_sys_def fresh_sys_def reserveRow_def demo_req_def)
  show ?thesis by (rule res_reach_step [OF res_reach_step [OF res_reach_step [OF demo_pending s1] s2] s3])
qed

theorem reservation_committed_has_bytes_witness:
  "res_reach demo_mgr (range pgStore) (fresh_sys Map.empty) (demo_sys StatusCommitted [7])
   \<and> (\<exists>c d. mg_ParseCID demo_mgr ''a'' = Inr c \<and> sy_content (demo_sys StatusCommitted [7]) c = Some d)"
proof -
  have run: "res_reach demo_mgr (range pgStore) (fresh_sys Map.empty) (demo_sys StatusCommitted [7])" using demo_settled [of "[7]"] by simp
  have "rowOf (sy_store (demo_sys StatusCommitted [7])) ''a'' = Some ((reserveRow demo_mgr 0 demo_req)\<lparr>rv_Status := StatusCommitted\<rparr>)"
    by (simp add: demo_sys_def rowOf_def reserveRow_def demo_req_def)
  from reservation_committed_has_bytes [OF run demo_parse this] show ?thesis using run by auto
qed

theorem reservation_lifecycle_witness:
  "res_reach demo_mgr (range pgStore) (fresh_sys Map.empty) (demo_sys StatusCommitted [7])
   \<and> (\<exists>t. rowOf (sy_store (demo_sys StatusCommitted [7])) ''a'' = Some ((reserveRow demo_mgr 0 demo_req)\<lparr>rv_Status := t\<rparr>))"
proof -
  let ?y = "demo_sys StatusCommitted [7]"
  have run: "res_reach demo_mgr (range pgStore) (fresh_sys Map.empty) ?y" using demo_settled [of "[7]"] by simp
  have "res_step demo_mgr (range pgStore) ?y ?y" using res_step.crash [of demo_mgr "range pgStore" ?y] by (simp add: demo_sys_def fresh_sys_def)
  from reservation_lifecycle [OF run this]
  have "rowOf (sy_store ?y) ''a'' = Some ((reserveRow demo_mgr 0 demo_req)\<lparr>rv_Status := StatusCommitted\<rparr>) \<longrightarrow>
     (\<exists>t. rowOf (sy_store ?y) ''a'' = Some ((reserveRow demo_mgr 0 demo_req)\<lparr>rv_Status := StatusCommitted, rv_Status := t\<rparr>))" by blast
  then show ?thesis using run by (auto simp: demo_sys_def rowOf_def reserveRow_def demo_req_def)
qed

theorem reservation_rejected_bytes_stay_witness:
  "res_reach demo_mgr (range pgStore) (fresh_sys Map.empty) (demo_sys StatusRejected []) \<and> sy_content (demo_sys StatusRejected []) ''a'' = Some []"
proof -
  let ?y = "demo_sys StatusRejected []"
  have run: "res_reach demo_mgr (range pgStore) (fresh_sys Map.empty) ?y" using demo_settled [of "[]"] by simp
  have row: "rowOf (sy_store ?y) ''a'' = Some ((reserveRow demo_mgr 0 demo_req)\<lparr>rv_Status := StatusRejected\<rparr>)"
    by (simp add: demo_sys_def rowOf_def reserveRow_def demo_req_def)
  have "mg_ParseCID demo_mgr ''a'' = Inr ''a''" "sy_content ?y ''a'' = Some []" by (simp_all add: demo_mgr_def demo_sys_def fresh_sys_def)
  from reservation_rejected_bytes_stay [OF run demo_parse row _ this res_reach_refl] show ?thesis using run by simp
qed

end
