(* ===== verification/Admission.thy ===== *)
theory Admission
  imports StoreCodec
begin

section \<open>The admission gates\<close>

text \<open>
  Models \<open>admission/\<close>: the gates an entry passes before it is made durable, the table that maps their
  errors to responses, and the cached on-log policy and keyset.  \<open>Entry\<close> has the fields of the SDK's
  entry that the gates read.  Cryptography, decoders, JSON probes and Unicode normalisation belong to the SDK
  and the standard library and are the record \<open>adm_sdk\<close>; a Go interface value that may be nil is an
  \<open>option\<close>.  An error is the list of sentinels that \<open>errors.Is\<close> finds in it, so wrapping
  with \<open>%w\<close> keeps the list and \<open>%v\<close> drops it.
\<close>

datatype sentinel =
    ErrNilEntry | ErrNilSignatureVerifier | ErrEmptySignatures | ErrPrimaryDIDMismatch | ErrBindingMismatch
  | ErrNilFetcher | ErrRootFetchFailed | ErrHopFetchFailed | ErrChainCycle | ErrMaxDepthExceeded | ErrHopDeserialize
  | ErrSignerDIDResolution | ErrSignatureInvalid | ErrUnsupportedSignatureAlgo
  | ErrCosignatureTargetNotFound | ErrCosignatureBindingMismatch
  | ErrSignatureAlgoNotAllowed | ErrSignaturePolicyFailed | ErrSignaturePolicyResolverFailed
  | ErrAlgorithmForbidden | ErrAlgorithmPolicyResolverFailed
  | ErrProtocolVersionNotAdmitted | ErrProtocolVersionResolverFailed
  | ErrModeBProofRequired | ErrModeBStampInvalid | ErrModeBResolverFailed
  | ErrIngressNotNFC | ErrSchemaInvalid | ErrRotationEntryInvalid | ErrNetworkPayloadInvalid
  | ErrWitnessEnrollmentUnauthorized | ErrWitnessEnrollmentAttestationInvalid | ErrWitnessEnrollmentUnattested
  | ErrWitnessQuorumInsufficient | ErrWitnessKeySetUnavailable
  | ErrWriteAuthMissing | ErrWriteAuthMalformed | ErrUnauthorizedWriter | ErrEmptyAuthoritySet
  | OtherSentinel string

type_synonym aerror = "sentinel list"

datatype ErrorClass =
    ErrorClassUnknown | ErrorClassMalformedBody | ErrorClassMalformedJSON | ErrorClassBodyTooLarge | ErrorClassBadHexEncoding
  | ErrorClassBatchTooLarge | ErrorClassEmptyBatch | ErrorClassInsufficientCredits | ErrorClassDuplicateEntry
  | ErrorClassSignatureInvalid | ErrorClassEnvelopeRejected | ErrorClassFreshnessExpired | ErrorClassDestinationMismatch
  | ErrorClassAdmissionProofInvalid | ErrorClassWALBackpressure | ErrorClassWALPersistFailed | ErrorClassSCTSigningFailed
  | ErrorClassDBQueryFailed | ErrorClassCreditDeductFailed | ErrorClassCosignatureBindingMismatch
  | ErrorClassEvidenceChainBroken | ErrorClassEvidenceChainUnavailable | ErrorClassWriteAuthRejected

record SigEntry =
  sg_SignerDID :: string
  sg_AlgoID :: u16
  sg_Bytes :: bytes

record 'p Entry =
  en_SignerDID :: string
  en_Destination :: string
  en_DelegateDID :: "string option"
  en_AuthoritySet :: "string list"
  en_AuthorityPath :: "byte option"
  en_TargetRoot :: "LogPosition option"
  en_PriorAuthority :: "LogPosition option"
  en_ScopePointer :: "LogPosition option"
  en_CosignatureOf :: "LogPosition option"
  en_EvidencePointers :: "LogPosition list"
  en_AdmissionProof :: "'p option"
  en_Signatures :: "SigEntry list"
  en_DomainPayload :: bytes

text \<open>The values of \<open>kind\<close> in a domain payload that the gates tell apart.\<close>

datatype net_kind =
    WitnessEndpointDeclarationKind | WitnessIdentityLabelKind | AuditorRegistrationKind | AuditorScopeAmendmentKind
  | ExchangeGenesisKind | DestinationProvisionKind | DestinationAmendKind | DestinationRetireKind
  | DelegationGrantKind | CredentialAttestationKind | NetworkBurnKind | WitnessRotationKind
  | EntrySignerRotationKind | OtherKind string

datatype HashFunc = HashSHA256 | HashArgon2id

text \<open>A signature verifier: DID, message, signature and algorithm to an error or a receipt.\<close>

type_synonym 'r verifier = "string \<Rightarrow> bytes \<Rightarrow> bytes \<Rightarrow> u16 \<Rightarrow> aerror + 'r"

record 'r sig_report =
  sr_Results :: "(u16 \<times> string \<times> aerror option) list"
  sr_FirstError :: "aerror option"
  sr_Web3Receipts :: "'r list"

record ('p, 'r, 'k, 'a) adm_sdk =
  sd_CurrentProtocolVersion :: u16
  sd_AuthorityScopeAuthority :: byte
  sd_SigAlgoECDSA :: u16
  sd_ZeroReceipt :: 'r
  sd_Deserialize :: "bytes \<Rightarrow> string + 'p Entry"
  sd_ValidateAlgorithmID :: "u16 \<Rightarrow> string option"
  sd_Validate :: "'p Entry \<Rightarrow> string option"
  sd_NFC :: "string \<Rightarrow> string"
  sd_CheckFreshness :: "'p Entry \<Rightarrow> int \<Rightarrow> int \<Rightarrow> string option"
  sd_EntryIdentity :: "'p Entry \<Rightarrow> aerror + hash"
  sd_SigningHash :: "'p Entry \<Rightarrow> hash"
  sd_VerifyEntry :: "hash \<Rightarrow> bytes \<Rightarrow> 'k \<Rightarrow> string option"
  sd_VerifyEntrySignatures :: "'p Entry \<Rightarrow> 'r verifier option \<Rightarrow> aerror + 'r sig_report"
  sd_IsAttestation :: "'p Entry \<Rightarrow> LogPosition \<Rightarrow> bool"
  sd_VerifyEvidenceChain :: "LogPosition \<Rightarrow> aerror + (aerror option) list"
  sd_SchemaPeek :: "bytes \<Rightarrow> string option"
  sd_KindProbe :: "bytes \<Rightarrow> net_kind option"
  sd_DecodePayload :: "net_kind \<Rightarrow> bytes \<Rightarrow> aerror option"
  sd_DecodeDeclaration :: "bytes \<Rightarrow> string + hash"
  sd_KeyFromDID :: "string \<Rightarrow> hash option"
  sd_VerifyStamp :: "'p \<Rightarrow> hash \<Rightarrow> string \<Rightarrow> u32 \<Rightarrow> HashFunc \<Rightarrow> u64 \<Rightarrow> u64 \<Rightarrow> aerror option"
  sd_Base64 :: "string \<Rightarrow> bytes option"
  sd_DecodeWriteAuthorization :: "bytes \<Rightarrow> 'a option"
  sd_VerifyWriteAuthorization :: "'a \<Rightarrow> string \<Rightarrow> hash \<Rightarrow> bytes list \<Rightarrow> aerror option"

text \<open>A check that returns only an error.\<close>

definition failWith :: "'e option \<Rightarrow> 'e + unit" where
  "failWith x = (case x of None \<Rightarrow> Inr () | Some e \<Rightarrow> Inl e)"

lemma failWith_eq [simp]: "failWith x = Inr u \<longleftrightarrow> x = None" "failWith x = Inl e \<longleftrightarrow> x = Some e" "failWith None = Inr ()"
  by (auto simp: failWith_def split: option.splits)

subsection \<open>Error mapping\<close>

definition sdkErrorTable :: "(sentinel \<times> nat \<times> ErrorClass) list" where
  "sdkErrorTable =
     [(ErrNilEntry, 400, ErrorClassEnvelopeRejected),
      (ErrNilSignatureVerifier, 500, ErrorClassDBQueryFailed),
      (ErrEmptySignatures, 401, ErrorClassSignatureInvalid),
      (ErrPrimaryDIDMismatch, 401, ErrorClassSignatureInvalid),
      (ErrBindingMismatch, 422, ErrorClassCosignatureBindingMismatch),
      (ErrNilFetcher, 500, ErrorClassEvidenceChainUnavailable),
      (ErrRootFetchFailed, 500, ErrorClassEvidenceChainUnavailable),
      (ErrHopFetchFailed, 500, ErrorClassEvidenceChainUnavailable),
      (ErrChainCycle, 422, ErrorClassEvidenceChainBroken),
      (ErrMaxDepthExceeded, 422, ErrorClassEvidenceChainBroken),
      (ErrHopDeserialize, 422, ErrorClassEvidenceChainBroken),
      (ErrSignerDIDResolution, 401, ErrorClassSignatureInvalid),
      (ErrSignatureInvalid, 401, ErrorClassSignatureInvalid),
      (ErrUnsupportedSignatureAlgo, 422, ErrorClassEnvelopeRejected),
      (ErrCosignatureTargetNotFound, 422, ErrorClassCosignatureBindingMismatch),
      (ErrCosignatureBindingMismatch, 422, ErrorClassCosignatureBindingMismatch),
      (ErrSignatureAlgoNotAllowed, 403, ErrorClassEnvelopeRejected),
      (ErrSignaturePolicyFailed, 403, ErrorClassEnvelopeRejected),
      (ErrAlgorithmForbidden, 403, ErrorClassEnvelopeRejected),
      (ErrProtocolVersionNotAdmitted, 422, ErrorClassEnvelopeRejected),
      (ErrModeBProofRequired, 403, ErrorClassAdmissionProofInvalid),
      (ErrModeBStampInvalid, 403, ErrorClassAdmissionProofInvalid)]"

definition MapSDKError :: "aerror \<Rightarrow> (nat \<times> ErrorClass) option" where
  "MapSDKError err = map_option snd (find (\<lambda>m. fst m \<in> set err) sdkErrorTable)"

subsection \<open>Structure of the entry\<close>

definition assertNFC :: "('p, 'r, 'k, 'a) adm_sdk \<Rightarrow> string \<Rightarrow> aerror + unit" where
  "assertNFC K s = (if s = [] then Inr () else if sd_NFC K s \<noteq> s then Inl [ErrIngressNotNFC] else Inr ())"

fun assertAllNFC :: "('p, 'r, 'k, 'a) adm_sdk \<Rightarrow> string list \<Rightarrow> aerror + unit" where
  "assertAllNFC K [] = Inr ()"
| "assertAllNFC K (s # ss) = bindE (assertNFC K s) (\<lambda>_. assertAllNFC K ss)"

definition CheckNFC :: "('p, 'r, 'k, 'a) adm_sdk \<Rightarrow> 'p Entry \<Rightarrow> aerror + unit" where
  "CheckNFC K e =
     bindE (assertNFC K (en_SignerDID e)) (\<lambda>_.
     bindE (assertNFC K (en_Destination e)) (\<lambda>_.
     bindE (case en_DelegateDID e of None \<Rightarrow> Inr () | Some d \<Rightarrow> assertNFC K d) (\<lambda>_.
       assertAllNFC K (en_AuthoritySet e))))"

definition MaxEvidencePointers :: nat where "MaxEvidencePointers = 10"

definition CheckEvidenceCap :: "('p, 'r, 'k, 'a) adm_sdk \<Rightarrow> 'p Entry \<Rightarrow> bool" where
  "CheckEvidenceCap K e \<longleftrightarrow>
     length (en_EvidencePointers e) \<le> MaxEvidencePointers
     \<or> en_AuthorityPath e = Some (sd_AuthorityScopeAuthority K) \<and> en_TargetRoot e \<noteq> None \<and> en_PriorAuthority e \<noteq> None"

subsection \<open>Signatures\<close>

text \<open>The DID resolver answers a key, none (a nil pointer) or an error.\<close>

type_synonym 'k DIDResolver = "string \<Rightarrow> string + 'k option"

definition VerifyEntrySignature :: "('p, 'r, 'k, 'a) adm_sdk \<Rightarrow> 'p Entry \<Rightarrow> bytes \<Rightarrow> 'k DIDResolver option \<Rightarrow> aerror + unit" where
  "VerifyEntrySignature K e sigBytes resolver =
     (case resolver of
        None \<Rightarrow> Inr ()
      | Some resolve \<Rightarrow>
          (case resolve (en_SignerDID e) of
             Inl _ \<Rightarrow> Inl [ErrSignerDIDResolution]
           | Inr None \<Rightarrow> Inl [ErrSignerDIDResolution]
           | Inr (Some pub) \<Rightarrow>
               (case sd_VerifyEntry K (sd_SigningHash K e) sigBytes pub of
                  Some _ \<Rightarrow> Inl [ErrSignatureInvalid]
                | None \<Rightarrow> Inr ())))"

definition sigVerifierAdapter :: "('p, 'r, 'k, 'a) adm_sdk \<Rightarrow> 'k DIDResolver option \<Rightarrow> 'r verifier" where
  "sigVerifierAdapter K resolver did msg sg algoID =
     (case resolver of
        None \<Rightarrow> Inr (sd_ZeroReceipt K)
      | Some resolve \<Rightarrow>
          if algoID \<noteq> sd_SigAlgoECDSA K then Inl [ErrUnsupportedSignatureAlgo]
          else
            (case resolve did of
               Inl _ \<Rightarrow> Inl [ErrSignerDIDResolution]
             | Inr None \<Rightarrow> Inl [ErrSignerDIDResolution]
             | Inr (Some pub) \<Rightarrow>
                 if length msg \<noteq> 32 then Inl [ErrSignatureInvalid]
                 else (case sd_VerifyEntry K (un_hash msg) sg pub of
                         Some _ \<Rightarrow> Inl [ErrSignatureInvalid]
                       | None \<Rightarrow> Inr (sd_ZeroReceipt K))))"

text \<open>The report comes back with the error when a signature of it fails.  The SDK gets the verifier, nil or not.\<close>

definition VerifyEntryAllSignaturesWithVerifier ::
  "('p, 'r, 'k, 'a) adm_sdk \<Rightarrow> 'p Entry \<Rightarrow> 'r verifier option \<Rightarrow> 'r sig_report option \<times> (aerror + unit)" where
  "VerifyEntryAllSignaturesWithVerifier K e v =
     (case sd_VerifyEntrySignatures K e v of
        Inl err \<Rightarrow> (None, Inl err)
      | Inr rep \<Rightarrow> (Some rep, failWith (sr_FirstError rep)))"

definition VerifyEntryAllSignatures ::
  "('p, 'r, 'k, 'a) adm_sdk \<Rightarrow> 'p Entry \<Rightarrow> 'k DIDResolver option \<Rightarrow> 'r sig_report option \<times> (aerror + unit)" where
  "VerifyEntryAllSignatures K e resolver = VerifyEntryAllSignaturesWithVerifier K e (Some (sigVerifierAdapter K resolver))"

text \<open>A signature policy is its \<open>Evaluate\<close> method; the resolver adds the allowed algorithms.\<close>

type_synonym sig_policy = "((u16 \<times> string) list \<Rightarrow> aerror option) \<times> u16 list"

definition VerifyEntrySignaturePolicy ::
  "(string + sig_policy) option \<Rightarrow> 'p Entry \<Rightarrow> 'r sig_report \<Rightarrow> aerror + unit" where
  "VerifyEntrySignaturePolicy resolver e rep =
     (case resolver of
        None \<Rightarrow> Inr ()
      | Some (Inl _) \<Rightarrow> Inl [ErrSignaturePolicyResolverFailed]
      | Some (Inr (evaluate, allowed)) \<Rightarrow>
          if \<exists>sg \<in> set (en_Signatures e). sg_AlgoID sg \<notin> set allowed then Inl [ErrSignatureAlgoNotAllowed]
          else
            (case evaluate (map (\<lambda>(algo, did, _). (algo, did)) (filter (\<lambda>(_, _, err). err = None) (sr_Results rep))) of
               Some err \<Rightarrow> Inl (ErrSignaturePolicyFailed # err)
             | None \<Rightarrow> Inr ()))"

text \<open>An algorithm policy is its \<open>PermitsVerification\<close>, a protocol-version policy its \<open>PermitsWrite\<close>.\<close>

definition VerifyEntryAlgorithmPolicy :: "(string + (u16 \<Rightarrow> bool)) option \<Rightarrow> 'p Entry \<Rightarrow> aerror + unit" where
  "VerifyEntryAlgorithmPolicy resolver e =
     (case resolver of
        None \<Rightarrow> Inr ()
      | Some (Inl _) \<Rightarrow> Inl [ErrAlgorithmPolicyResolverFailed]
      | Some (Inr permits) \<Rightarrow>
          if \<exists>sg \<in> set (en_Signatures e). \<not> permits (sg_AlgoID sg) then Inl [ErrAlgorithmForbidden] else Inr ())"

definition VerifyEntryProtocolVersion :: "(string + (u16 \<Rightarrow> bool)) option \<Rightarrow> u16 \<Rightarrow> aerror + unit" where
  "VerifyEntryProtocolVersion resolver v =
     (case resolver of
        None \<Rightarrow> Inr ()
      | Some (Inl _) \<Rightarrow> Inl [ErrProtocolVersionResolverFailed]
      | Some (Inr permits) \<Rightarrow> if \<not> permits v then Inl [ErrProtocolVersionNotAdmitted] else Inr ())"

subsection \<open>References to other entries\<close>

text \<open>\<open>fetcher\<close> is \<open>FetchHashBySeq\<close>: whether the number has a row.\<close>

definition VerifyCosignatureBinding ::
  "('p, 'r, 'k, 'a) adm_sdk \<Rightarrow> 'p Entry \<Rightarrow> string \<Rightarrow> (u64 \<Rightarrow> aerror + bool) option \<Rightarrow> aerror + unit" where
  "VerifyCosignatureBinding K e logDID fetcher =
     (case en_CosignatureOf e of
        None \<Rightarrow> Inr ()
      | Some pos \<Rightarrow>
          if LogDID pos \<noteq> logDID then Inr ()
          else
            (case fetcher of
               None \<Rightarrow> Inl []
             | Some fetch \<Rightarrow>
                 bindE (fetch (PosSequence pos)) (\<lambda>found.
                   if \<not> found then Inl [ErrCosignatureTargetNotFound]
                   else if \<not> sd_IsAttestation K e pos then Inl [ErrCosignatureBindingMismatch]
                   else Inr ())))"

definition ShouldWalkEvidenceChain :: "('p, 'r, 'k, 'a) adm_sdk \<Rightarrow> 'p Entry \<Rightarrow> bool" where
  "ShouldWalkEvidenceChain K e \<longleftrightarrow> en_AuthorityPath e = Some (sd_AuthorityScopeAuthority K)"

fun firstHopError :: "aerror option list \<Rightarrow> aerror + unit" where
  "firstHopError [] = Inr ()"
| "firstHopError (None # hs) = firstHopError hs"
| "firstHopError (Some e # hs) = Inl e"

definition VerifyEvidenceChainSurgical :: "('p, 'r, 'k, 'a) adm_sdk \<Rightarrow> 'p Entry \<Rightarrow> string \<Rightarrow> bool \<Rightarrow> aerror + unit" where
  "VerifyEvidenceChainSurgical K e logDID fetcher =
     (if \<not> ShouldWalkEvidenceChain K e then Inr ()
      else if \<not> fetcher then Inl []
      else
        (case en_ScopePointer e of
           None \<Rightarrow> Inl []
         | Some root \<Rightarrow>
             if LogDID root \<noteq> logDID then Inr ()
             else bindE (sd_VerifyEvidenceChain K root) firstHopError))"

text \<open>No schema embeds a tree head yet: the detector is constant.\<close>

definition EntryEmbedsTreeHead :: "'p Entry \<Rightarrow> bool" where "EntryEmbedsTreeHead e = False"

definition ExtractEmbeddedTreeHead :: "'p Entry \<Rightarrow> 'h option" where "ExtractEmbeddedTreeHead e = None"

text \<open>\<open>verify\<close> is the SDK's \<open>cosign.Verify\<close> with the current key set, if there is one.\<close>

definition VerifyEmbeddedTreeHead :: "('h \<Rightarrow> (bool \<times> string) option) option \<Rightarrow> 'h \<Rightarrow> aerror + unit" where
  "VerifyEmbeddedTreeHead verify h =
     (case verify of
        None \<Rightarrow> Inl [ErrWitnessKeySetUnavailable]
      | Some f \<Rightarrow>
          (case f h of
             None \<Rightarrow> Inr ()
           | Some (quorum, e) \<Rightarrow> if quorum then Inl [ErrWitnessQuorumInsufficient, OtherSentinel e] else Inl [OtherSentinel e]))"

definition blsVerifyEntry :: "('h \<Rightarrow> (bool \<times> string) option) option \<Rightarrow> 'p Entry \<Rightarrow> aerror + unit" where
  "blsVerifyEntry verify e =
     (if \<not> EntryEmbedsTreeHead e then Inr ()
      else (case ExtractEmbeddedTreeHead e of
              None \<Rightarrow> Inl [ErrWitnessQuorumInsufficient]
            | Some h \<Rightarrow> VerifyEmbeddedTreeHead verify h))"

subsection \<open>Payload gates\<close>

record 'p SchemaRegistry =
  rg_Has :: "string \<Rightarrow> bool"
  rg_ValidateEntry :: "string \<Rightarrow> 'p Entry \<Rightarrow> aerror option"

definition VerifyEntrySchema :: "('p, 'r, 'k, 'a) adm_sdk \<Rightarrow> 'p Entry \<Rightarrow> 'p SchemaRegistry option \<Rightarrow> aerror + unit" where
  "VerifyEntrySchema K e registry =
     (case registry of
        None \<Rightarrow> Inr ()
      | Some R \<Rightarrow>
          if en_DomainPayload e = [] then Inr ()
          else
            (case sd_SchemaPeek K (en_DomainPayload e) of
               None \<Rightarrow> Inr ()
             | Some sid \<Rightarrow>
                 if sid = [] \<or> \<not> rg_Has R sid then Inr ()
                 else (case rg_ValidateEntry R sid e of
                         Some err \<Rightarrow> Inl (ErrSchemaInvalid # err)
                       | None \<Rightarrow> Inr ())))"

definition VerifyRotationEntry :: "('p, 'r, 'k, 'a) adm_sdk \<Rightarrow> 'p Entry \<Rightarrow> aerror + unit" where
  "VerifyRotationEntry K e =
     (if en_DomainPayload e = [] \<or> sd_KindProbe K (en_DomainPayload e) \<noteq> Some EntrySignerRotationKind then Inr ()
      else (case sd_DecodePayload K EntrySignerRotationKind (en_DomainPayload e) of
              Some err \<Rightarrow> Inl (ErrRotationEntryInvalid # err)
            | None \<Rightarrow> Inr ()))"

definition decodedKinds :: "net_kind list" where
  "decodedKinds =
     [WitnessEndpointDeclarationKind, WitnessIdentityLabelKind, AuditorRegistrationKind, AuditorScopeAmendmentKind, ExchangeGenesisKind,
      DestinationProvisionKind, DestinationAmendKind, DestinationRetireKind, DelegationGrantKind, CredentialAttestationKind]"

text \<open>Burn and witness-rotation records have no external author: they are refused outright.\<close>

definition VerifyNetworkPayloadEntry :: "('p, 'r, 'k, 'a) adm_sdk \<Rightarrow> 'p Entry \<Rightarrow> aerror + unit" where
  "VerifyNetworkPayloadEntry K e =
     (if en_DomainPayload e = [] then Inr ()
      else
        (case sd_KindProbe K (en_DomainPayload e) of
           None \<Rightarrow> Inr ()
         | Some kind \<Rightarrow>
             if kind \<in> set decodedKinds then
               (case sd_DecodePayload K kind (en_DomainPayload e) of Some _ \<Rightarrow> Inl [ErrNetworkPayloadInvalid] | None \<Rightarrow> Inr ())
             else if kind = NetworkBurnKind \<or> kind = WitnessRotationKind then Inl [ErrNetworkPayloadInvalid]
             else Inr ()))"

definition AuthorizeWitnessEndpointDeclaration ::
  "('p, 'r, 'k, 'a) adm_sdk \<Rightarrow> 'p Entry \<Rightarrow> 'r verifier option \<Rightarrow> hash list \<Rightarrow> aerror + unit" where
  "AuthorizeWitnessEndpointDeclaration K e v authorized =
     (case sd_DecodeDeclaration K (en_DomainPayload e) of
        Inl _ \<Rightarrow> Inl [ErrWitnessEnrollmentAttestationInvalid]
      | Inr pk \<Rightarrow>
          if pk \<notin> set authorized then Inl [ErrWitnessEnrollmentUnauthorized]
          else if \<not> okE (snd (VerifyEntryAllSignaturesWithVerifier K e v)) then Inl [ErrWitnessEnrollmentAttestationInvalid]
          else if \<exists>sg \<in> set (en_Signatures e). sd_KeyFromDID K (sg_SignerDID sg) = Some pk then Inr ()
          else Inl [ErrWitnessEnrollmentUnattested])"

definition AuthorizeNetworkPayloadEntry ::
  "('p, 'r, 'k, 'a) adm_sdk \<Rightarrow> 'p Entry \<Rightarrow> 'r verifier option \<Rightarrow> hash list \<Rightarrow> aerror + unit" where
  "AuthorizeNetworkPayloadEntry K e v authorized =
     (if en_DomainPayload e = [] then Inr ()
      else if sd_KindProbe K (en_DomainPayload e) = Some WitnessEndpointDeclarationKind
      then AuthorizeWitnessEndpointDeclaration K e v authorized
      else Inr ())"

subsection \<open>Admission credentials\<close>

definition staticDifficulty :: "u32 \<Rightarrow> string \<Rightarrow> u32 \<times> HashFunc" where
  "staticDifficulty difficulty name = (difficulty, if name = ''argon2id'' then HashArgon2id else HashSHA256)"

definition VerifyAdmissionStamp ::
  "('p, 'r, 'k, 'a) adm_sdk \<Rightarrow> (string + u32 \<times> HashFunc) option \<Rightarrow> 'p Entry \<Rightarrow> string \<Rightarrow> u64 \<Rightarrow> u64 \<Rightarrow> aerror + unit" where
  "VerifyAdmissionStamp K resolver e logDID epoch window =
     (case resolver of
        None \<Rightarrow> Inr ()
      | Some cur \<Rightarrow>
          (case en_AdmissionProof e of
             None \<Rightarrow> Inl [ErrModeBProofRequired]
           | Some proof \<Rightarrow>
               (case cur of
                  Inl _ \<Rightarrow> Inl [ErrModeBResolverFailed]
                | Inr (difficulty, hashFunc) \<Rightarrow>
                    bindE (sd_EntryIdentity K e) (\<lambda>h.
                      case sd_VerifyStamp K proof h logDID difficulty hashFunc epoch window of
                        Some err \<Rightarrow> Inl (ErrModeBStampInvalid # err)
                      | None \<Rightarrow> Inr ()))))"

definition VerifyWriteAuthorization ::
  "('p, 'r, 'k, 'a) adm_sdk \<Rightarrow> string \<Rightarrow> hash \<Rightarrow> string \<Rightarrow> (aerror + bytes list) option \<Rightarrow> aerror + unit" where
  "VerifyWriteAuthorization K encoded h logDID keyset =
     (if encoded = [] then Inl [ErrWriteAuthMissing]
      else
        (case sd_Base64 K encoded of
           None \<Rightarrow> Inl [ErrWriteAuthMalformed]
         | Some raw \<Rightarrow>
             (case sd_DecodeWriteAuthorization K raw of
                None \<Rightarrow> Inl [ErrWriteAuthMalformed]
              | Some wa \<Rightarrow>
                  (case keyset of
                     None \<Rightarrow> Inl [ErrEmptyAuthoritySet]
                   | Some cur \<Rightarrow> bindE cur (\<lambda>members. failWith (sd_VerifyWriteAuthorization K wa logDID h members))))))"

subsection \<open>Cached on-log values\<close>

text \<open>
  \<open>OnLogAdmissionKeyset\<close> and \<open>OnLogAdmissionPolicy\<close> share one shape: the value of the
  record with the largest position, the genesis value without records, kept for \<open>ttl\<close>.  The source
  answers the records of the log (position and value); \<open>sorted\<close> is \<open>sort.Sort\<close> by
  position, which the positions of a log determine.
\<close>

record 'v onlog =
  ol_genesis :: 'v
  ol_ttl :: int
  ol_cached :: 'v
  ol_loaded :: bool
  ol_at :: int

definition newOnLog :: "'v \<Rightarrow> int \<Rightarrow> 'v \<Rightarrow> 'v onlog" where
  "newOnLog genesis ttl zero = \<lparr>ol_genesis = genesis, ol_ttl = ttl, ol_cached = zero, ol_loaded = False, ol_at = 0\<rparr>"

definition currentOf :: "'v \<Rightarrow> (u64 \<times> 'v) list \<Rightarrow> 'v" where
  "currentOf genesis recs = (if recs = [] then genesis else snd (last (sort_key fst recs)))"

definition onlogCurrent :: "int \<Rightarrow> int \<Rightarrow> aerror + (u64 \<times> 'v) list \<Rightarrow> 'v onlog \<Rightarrow> (aerror + 'v) \<times> 'v onlog" where
  "onlogCurrent now now' source p =
     (if ol_ttl p > 0 \<and> ol_loaded p \<and> now - ol_at p < ol_ttl p then (Inr (ol_cached p), p)
      else
        (case source of
           Inl e \<Rightarrow> (Inl e, p)
         | Inr recs \<Rightarrow>
             let v = currentOf (ol_genesis p) recs in
             (Inr v, p\<lparr>ol_cached := v, ol_loaded := True, ol_at := now'\<rparr>)))"

text \<open>
  Every answer is the current value of some earlier source answer that is less than \<open>ttl\<close> old: a
  revocation takes effect after at most \<open>ttl\<close>, not at once.  \<open>past\<close> collects the answers with
  their times.
\<close>

inductive onlog_run :: "'v \<Rightarrow> int \<Rightarrow> (int \<times> (u64 \<times> 'v) list) set \<Rightarrow> 'v onlog \<Rightarrow> bool" for g ttl where
  start: "onlog_run g ttl past (newOnLog g ttl z)"
| answer: "\<lbrakk>onlog_run g ttl past p; onlogCurrent now now' (Inr recs) p = (r, p')\<rbrakk> \<Longrightarrow> onlog_run g ttl (insert (now', recs) past) p'"
| failed: "\<lbrakk>onlog_run g ttl past p; onlogCurrent now now' (Inl e) p = (r, p')\<rbrakk> \<Longrightarrow> onlog_run g ttl past p'"

lemma onlog_run_inv:
  "onlog_run g ttl past p \<Longrightarrow> ol_genesis p = g \<and> ol_ttl p = ttl \<and> (ol_loaded p \<longrightarrow> (\<exists>recs. (ol_at p, recs) \<in> past \<and> ol_cached p = currentOf g recs))"
  by (induction rule: onlog_run.induct) (fastforce simp: newOnLog_def onlogCurrent_def Let_def split: if_splits)+

lemma onlog_staleness:
  assumes "onlog_run g ttl past p" "onlogCurrent now now' src p = (Inr v, p')"
  shows "(\<exists>t recs. (t, recs) \<in> past \<and> now - t < ttl \<and> v = currentOf g recs) \<or> (\<exists>recs. src = Inr recs \<and> v = currentOf g recs)"
  using onlog_run_inv [OF assms(1)] assms(2) by (auto simp: onlogCurrent_def Let_def split: if_splits sum.splits)

lemma onlog_revocation_delayed:
  assumes "onlogCurrent now now' (Inr recs) (newOnLog g ttl z) = (Inr v, p)" "0 \<le> later - now'" "later - now' < ttl"
  shows "fst (onlogCurrent later later' (Inr recs') p) = Inr (currentOf g recs)"
  using assms by (auto simp: onlogCurrent_def newOnLog_def Let_def split: if_splits)

subsection \<open>Fail-closed gates\<close>

text \<open>A gated log admits nothing without a decodable authorization and a keyset.\<close>

lemma write_auth_accepts:
  "VerifyWriteAuthorization K enc h did ks = Inr u \<longleftrightarrow>
     (\<exists>raw wa members. enc \<noteq> [] \<and> sd_Base64 K enc = Some raw \<and> sd_DecodeWriteAuthorization K raw = Some wa \<and> ks = Some (Inr members)
        \<and> sd_VerifyWriteAuthorization K wa did h members = None)"
  by (auto simp: VerifyWriteAuthorization_def bindE_eq_Inr split: option.splits)

lemma stamp_accepts:
  "VerifyAdmissionStamp K (Some cur) e did ep win = Inr u \<longleftrightarrow>
     (\<exists>proof d f h. en_AdmissionProof e = Some proof \<and> cur = Inr (d, f) \<and> sd_EntryIdentity K e = Inr h
        \<and> sd_VerifyStamp K proof h did d f ep win = None)"
  by (auto simp: VerifyAdmissionStamp_def bindE_eq_Inr split: option.splits sum.splits)

lemma enrollment_accepts:
  "AuthorizeNetworkPayloadEntry K e v authorized = Inr u \<Longrightarrow> en_DomainPayload e \<noteq> []
     \<Longrightarrow> sd_KindProbe K (en_DomainPayload e) = Some WitnessEndpointDeclarationKind
     \<Longrightarrow> \<exists>pk sg. sd_DecodeDeclaration K (en_DomainPayload e) = Inr pk \<and> pk \<in> set authorized \<and> sg \<in> set (en_Signatures e)
           \<and> sd_KeyFromDID K (sg_SignerDID sg) = Some pk \<and> okE (snd (VerifyEntryAllSignaturesWithVerifier K e v))"
  by (auto simp: AuthorizeNetworkPayloadEntry_def AuthorizeWitnessEndpointDeclaration_def split: sum.splits if_splits)

lemma authorship_refused:
  "en_DomainPayload e \<noteq> [] \<Longrightarrow> sd_KindProbe K (en_DomainPayload e) \<in> {Some NetworkBurnKind, Some WitnessRotationKind}
     \<Longrightarrow> VerifyNetworkPayloadEntry K e = Inl [ErrNetworkPayloadInvalid]"
  by (auto simp: VerifyNetworkPayloadEntry_def decodedKinds_def)

end
