(* ===== verification/Submission.thy ===== *)
theory Submission
  imports Admission Wal Credits Reservation
begin

section \<open>Submission of entries\<close>

text \<open>
  Models \<open>api/submission.go\<close>, \<open>api/signature_gate.go\<close>, \<open>api/sct.go\<close>,
  \<open>api/batch.go\<close> and \<open>api/artifact_reserve.go\<close>: the single, batch and artifact
  submission handlers.  \<open>SubmissionDeps\<close> holds what the dependencies answer during one request, nil
  ones being \<open>None\<close>; \<open>sub_req\<close> the request with the readings of the clock.  An error is the
  class and the status of the response, messages and log lines are left out.  The WAL is the record
  \<open>admWAL\<close> of the two methods the handlers call; \<open>probe\<close> is what \<open>MetaState\<close> answered
  at the time of the check, since other requests run before \<open>Submit\<close>.  Log times are microseconds.
  Signing is randomized: \<open>dp_Sign\<close> takes the randomness of the signature, \<open>rq_entropy i\<close> that of the
  \<open>i\<close>-th signature of a request; its errors include a missing key and a payload that does not encode.
\<close>

type_synonym submissionError = "ErrorClass \<times> nat"

record Gates =
  gt_MultiSig :: bool
  gt_CosigBinding :: bool
  gt_EvidenceChain :: bool
  gt_SignaturePolicy :: bool
  gt_ModeBPoW :: bool
  gt_AlgorithmPolicy :: bool
  gt_ProtocolVersion :: bool

record ('p, 'r, 'k, 'h) SubmissionDeps =
  dp_Gates :: Gates
  dp_LogDID :: string
  dp_LedgerDID :: string
  dp_MaxEntrySize :: int
  dp_Freshness :: int
  dp_EpochAcceptanceWindow :: u64
  dp_DIDResolver :: "'k DIDResolver option"
  dp_Verifier :: "'r verifier option"
  dp_SignaturePolicy :: "(string + sig_policy) option"
  dp_AlgorithmPolicy :: "(string + (u16 \<Rightarrow> bool)) option"
  dp_ProtocolVersion :: "(string + (u16 \<Rightarrow> bool)) option"
  dp_Difficulty :: "(string + u32 \<times> HashFunc) option"
  dp_FetchHashBySeq :: "(u64 \<Rightarrow> aerror + bool) option"
  dp_BLS :: "('h \<Rightarrow> (bool \<times> string) option) option option"
  dp_EvidenceFetcher :: bool
  dp_SchemaRegistry :: "'p SchemaRegistry option"
  dp_AuthorizedWitnesses :: "hash list option"
  dp_AdmissionPolicy :: "(aerror + bool) option"
  dp_AdmissionAuthorities :: "(aerror + bytes list) option"
  dp_Credits :: bool
  dp_Sign :: "nat \<Rightarrow> string \<Rightarrow> string \<Rightarrow> hash \<Rightarrow> u64 \<Rightarrow> string + bytes"

record sub_req =
  rq_authenticated :: bool
  rq_exchangeDID :: string
  rq_writeAuth :: string
  rq_now :: int
  rq_epoch :: u64
  rq_logTime :: u64
  rq_entropy :: "nat \<Rightarrow> nat"

record ('r, 'w) admWAL =
  aw_MetaState :: "'w \<Rightarrow> hash \<Rightarrow> wal_error + 'r Meta"
  aw_Submit :: "hash \<Rightarrow> bytes \<Rightarrow> u64 \<Rightarrow> 'r list \<Rightarrow> 'w \<Rightarrow> (wal_error + unit) \<times> 'w"

record SCT =
  sct_SignerDID :: string
  sct_LogDID :: string
  sct_CanonicalHash :: hash
  sct_LogTimeMicros :: u64
  sct_Signature :: bytes

definition SignSCT :: "('p, 'r, 'k, 'h) SubmissionDeps \<Rightarrow> nat \<Rightarrow> hash \<Rightarrow> u64 \<Rightarrow> string + SCT" where
  "SignSCT D k h t =
     (if dp_LedgerDID D = [] then Inl ''signerDID''
      else bindE (dp_Sign D k (dp_LedgerDID D) (dp_LogDID D) h t) (\<lambda>sg.
        Inr \<lparr>sct_SignerDID = dp_LedgerDID D, sct_LogDID = dp_LogDID D, sct_CanonicalHash = h, sct_LogTimeMicros = t, sct_Signature = sg\<rparr>))"

subsection \<open>Shared gates\<close>

definition mapGate :: "aerror \<Rightarrow> submissionError" where
  "mapGate err = (case MapSDKError err of Some (status, class) \<Rightarrow> (class, status) | None \<Rightarrow> (ErrorClassDBQueryFailed, 500))"

definition verifyEntrySignaturesGated :: "('p, 'r, 'k, 'a) adm_sdk \<Rightarrow> ('p, 'r, 'k, 'h) SubmissionDeps \<Rightarrow> 'p Entry \<Rightarrow> bytes \<Rightarrow> aerror + 'r list" where
  "verifyEntrySignaturesGated K D e sigBytes =
     bindE
       (if \<not> gt_MultiSig (dp_Gates D) then bindE (VerifyEntrySignature K e sigBytes (dp_DIDResolver D)) (\<lambda>_. Inr [])
        else
          (case (case dp_Verifier D of
                   Some v \<Rightarrow> VerifyEntryAllSignaturesWithVerifier K e (Some v)
                 | None \<Rightarrow> VerifyEntryAllSignatures K e (dp_DIDResolver D)) of
             (report, res) \<Rightarrow>
               bindE res (\<lambda>_.
                 case report of
                   None \<Rightarrow> Inr []
                 | Some rep \<Rightarrow>
                     if gt_SignaturePolicy (dp_Gates D) \<and> dp_SignaturePolicy D \<noteq> None
                     then bindE (VerifyEntrySignaturePolicy (dp_SignaturePolicy D) e rep) (\<lambda>_. Inr (sr_Web3Receipts rep))
                     else Inr (sr_Web3Receipts rep))))
       (\<lambda>receipts.
         if gt_AlgorithmPolicy (dp_Gates D) \<and> dp_AlgorithmPolicy D \<noteq> None
         then bindE (VerifyEntryAlgorithmPolicy (dp_AlgorithmPolicy D) e) (\<lambda>_. Inr receipts)
         else Inr receipts)"

definition admitProtocolVersion :: "('p, 'r, 'k, 'a) adm_sdk \<Rightarrow> ('p, 'r, 'k, 'h) SubmissionDeps \<Rightarrow> u16 \<Rightarrow> aerror + unit" where
  "admitProtocolVersion K D v =
     (if gt_ProtocolVersion (dp_Gates D) \<and> dp_ProtocolVersion D \<noteq> None then VerifyEntryProtocolVersion (dp_ProtocolVersion D) v
      else if v \<noteq> sd_CurrentProtocolVersion K then Inl [ErrProtocolVersionNotAdmitted] else Inr ())"

definition modeB :: "('p, 'r, 'k, 'a) adm_sdk \<Rightarrow> ('p, 'r, 'k, 'h) SubmissionDeps \<Rightarrow> sub_req \<Rightarrow> 'p Entry \<Rightarrow> submissionError + unit" where
  "modeB K D q e =
     (if rq_authenticated q then Inr ()
      else if \<not> gt_ModeBPoW (dp_Gates D) \<or> dp_Difficulty D = None then Inl (ErrorClassAdmissionProofInvalid, 403)
      else mapE mapGate (VerifyAdmissionStamp K (dp_Difficulty D) e (dp_LogDID D) (rq_epoch q) (dp_EpochAcceptanceWindow D)))"

definition mapWriteAuthError :: "aerror \<Rightarrow> submissionError" where
  "mapWriteAuthError err =
     (if set err \<inter> {ErrWriteAuthMissing, ErrWriteAuthMalformed, ErrUnauthorizedWriter, ErrEmptyAuthoritySet} \<noteq> {}
      then (ErrorClassWriteAuthRejected, 403) else (ErrorClassDBQueryFailed, 500))"

definition writeGating :: "('p, 'r, 'k, 'a) adm_sdk \<Rightarrow> ('p, 'r, 'k, 'h) SubmissionDeps \<Rightarrow> string \<Rightarrow> hash \<Rightarrow> submissionError + unit" where
  "writeGating K D wauth h =
     (case dp_AdmissionPolicy D of
        None \<Rightarrow> Inr ()
      | Some (Inl _) \<Rightarrow> Inl (ErrorClassDBQueryFailed, 500)
      | Some (Inr gatingRequired) \<Rightarrow>
          if gatingRequired then mapE mapWriteAuthError (VerifyWriteAuthorization K wauth h (dp_LogDID D) (dp_AdmissionAuthorities D))
          else Inr ())"

text \<open>
  Steps 1 to 4 of \<open>prepareSubmission\<close> after the body was read, which \<open>preflightEntry\<close> repeats:
  preamble, decoding, algorithm, validity, normalisation, destination, freshness, signer and signatures.  An
  entry without signatures makes the first index expression panic: no response, status 0.
\<close>

definition wireChecks :: "('p, 'r, 'k, 'a) adm_sdk \<Rightarrow> ('p, 'r, 'k, 'h) SubmissionDeps \<Rightarrow> sub_req \<Rightarrow> bytes \<Rightarrow> submissionError + 'p Entry \<times> 'r list" where
  "wireChecks K D q raw =
     (if length raw < 6 then Inl (ErrorClassEnvelopeRejected, 422)
      else
        bindE (mapE mapGate (admitProtocolVersion K D (word_of_nat (be_val (take 2 raw))))) (\<lambda>_.
        bindE (mapE (\<lambda>_. (ErrorClassEnvelopeRejected, 422)) (sd_Deserialize K raw)) (\<lambda>e.
        case en_Signatures e of
          [] \<Rightarrow> Inl (ErrorClassUnknown, 0)
        | sg # _ \<Rightarrow>
            if sd_ValidateAlgorithmID K (sg_AlgoID sg) \<noteq> None then Inl (ErrorClassSignatureInvalid, 401)
            else if sd_Validate K e \<noteq> None then Inl (ErrorClassEnvelopeRejected, 422)
            else if \<not> okE (CheckNFC K e) then Inl (ErrorClassEnvelopeRejected, 422)
            else if en_Destination e \<noteq> dp_LogDID D then Inl (ErrorClassDestinationMismatch, 403)
            else if sd_CheckFreshness K e (rq_now q) (dp_Freshness D) \<noteq> None then Inl (ErrorClassFreshnessExpired, 422)
            else if en_SignerDID e = [] then Inl (ErrorClassEnvelopeRejected, 422)
            else bindE (mapE mapGate (verifyEntrySignaturesGated K D e (sg_Bytes sg))) (\<lambda>receipts. Inr (e, receipts)))))"

subsection \<open>Single submission\<close>

text \<open>Steps 4a to 4h.\<close>

definition entryGates :: "('p, 'r, 'k, 'a) adm_sdk \<Rightarrow> ('p, 'r, 'k, 'h) SubmissionDeps \<Rightarrow> 'p Entry \<Rightarrow> submissionError + unit" where
  "entryGates K D e =
     bindE (if gt_CosigBinding (dp_Gates D) then mapE mapGate (VerifyCosignatureBinding K e (dp_LogDID D) (dp_FetchHashBySeq D)) else Inr ()) (\<lambda>_.
     bindE (case dp_BLS D of
              None \<Rightarrow> Inr ()
            | Some verify \<Rightarrow>
                mapE (\<lambda>err. if ErrWitnessQuorumInsufficient \<in> set err \<or> ErrWitnessKeySetUnavailable \<in> set err then (ErrorClassSignatureInvalid, 401)
                            else (ErrorClassDBQueryFailed, 500)) (blsVerifyEntry verify e)) (\<lambda>_.
     bindE (if gt_EvidenceChain (dp_Gates D) \<and> dp_EvidenceFetcher D
            then mapE mapGate (VerifyEvidenceChainSurgical K e (dp_LogDID D) (dp_EvidenceFetcher D)) else Inr ()) (\<lambda>_.
     bindE (mapE (\<lambda>err. if ErrSchemaInvalid \<in> set err then (ErrorClassEnvelopeRejected, 422) else (ErrorClassDBQueryFailed, 500))
             (VerifyEntrySchema K e (dp_SchemaRegistry D))) (\<lambda>_.
     bindE (mapE (\<lambda>_. (ErrorClassEnvelopeRejected, 422)) (VerifyRotationEntry K e)) (\<lambda>_.
     bindE (mapE (\<lambda>_. (ErrorClassEnvelopeRejected, 422)) (VerifyNetworkPayloadEntry K e)) (\<lambda>_.
       mapE (\<lambda>_. (ErrorClassEnvelopeRejected, 403))
         (AuthorizeNetworkPayloadEntry K e (dp_Verifier D) (case dp_AuthorizedWitnesses D of None \<Rightarrow> [] | Some ws \<Rightarrow> ws))))))))"

record ('p, 'r) preparedSubmission =
  ps_raw :: bytes
  ps_entry :: "'p Entry"
  ps_canonicalHash :: hash
  ps_logTime :: u64
  ps_authenticated :: bool
  ps_exchangeDID :: string
  ps_idempotentReplay :: bool
  ps_web3Receipts :: "'r list"

text \<open>The body after \<open>http.MaxBytesReader\<close>: \<open>None\<close> is a failing read.\<close>

definition readBody :: "int \<Rightarrow> bytes option \<Rightarrow> submissionError + bytes" where
  "readBody limit body =
     (case body of
        None \<Rightarrow> Inl (ErrorClassMalformedBody, 400)
      | Some b \<Rightarrow> if int (length b) > limit then Inl (ErrorClassBodyTooLarge, 413) else Inr b)"

definition knownRecord :: "wal_error + 'r Meta \<Rightarrow> 'r Meta option" where
  "knownRecord r = (case r of Inl _ \<Rightarrow> None | Inr m \<Rightarrow> if State m \<noteq> StateUnknown \<and> 0 < sint (LogTimeMicros m) then Some m else None)"

definition prepareSubmission ::
  "('p, 'r, 'k, 'a) adm_sdk \<Rightarrow> ('p, 'r, 'k, 'h) SubmissionDeps \<Rightarrow> sub_req \<Rightarrow> (hash \<Rightarrow> wal_error + 'r Meta) option \<Rightarrow> bytes option
   \<Rightarrow> submissionError + ('p, 'r) preparedSubmission" where
  "prepareSubmission K D q probe body =
     bindE (readBody (dp_MaxEntrySize D + 512) body) (\<lambda>raw.
     bindE (wireChecks K D q raw) (\<lambda>(e, receipts).
     bindE (entryGates K D e) (\<lambda>_.
     if int (length raw) > dp_MaxEntrySize D then Inl (ErrorClassBodyTooLarge, 413)
     else if \<not> CheckEvidenceCap K e then Inl (ErrorClassEnvelopeRejected, 422)
     else
       bindE (modeB K D q e) (\<lambda>_.
       bindE (mapE (\<lambda>_. (ErrorClassEnvelopeRejected, 422)) (sd_EntryIdentity K e)) (\<lambda>h.
       let P = \<lparr>ps_raw = raw, ps_entry = e, ps_canonicalHash = h, ps_logTime = rq_logTime q, ps_authenticated = rq_authenticated q,
                ps_exchangeDID = rq_exchangeDID q, ps_idempotentReplay = False, ps_web3Receipts = receipts\<rparr> in
       case (case probe of None \<Rightarrow> None | Some p \<Rightarrow> knownRecord (p h)) of
         Some m \<Rightarrow> Inr (P\<lparr>ps_logTime := LogTimeMicros m, ps_idempotentReplay := True, ps_web3Receipts := []\<rparr>)
       | None \<Rightarrow> bindE (writeGating K D (rq_writeAuth q) h) (\<lambda>_. Inr P))))))"

definition deductCreditModeA :: "('p, 'r, 'k, 'h) SubmissionDeps \<Rightarrow> tx_faults \<Rightarrow> bool \<Rightarrow> string \<Rightarrow> int \<Rightarrow> credit_table \<Rightarrow> (credit_error + unit) \<times> credit_table" where
  "deductCreditModeA D F authenticated did cost t =
     (if \<not> authenticated then (Inr (), t) else if \<not> dp_Credits D then (Inr (), t) else Deduct F did cost t)"

definition deductError :: "credit_error \<Rightarrow> submissionError" where
  "deductError e = (if e = ErrInsufficientCredits then (ErrorClassInsufficientCredits, 402) else (ErrorClassCreditDeductFailed, 500))"

definition submitError :: "wal_error \<Rightarrow> submissionError" where
  "submitError e = (if e = ErrQueueFull then (ErrorClassWALBackpressure, 503) else (ErrorClassWALPersistFailed, 500))"

definition finishAdmission ::
  "('p, 'r, 'k, 'h) SubmissionDeps \<Rightarrow> tx_faults \<Rightarrow> ('r, 'w) admWAL \<Rightarrow> nat \<Rightarrow> ('p, 'r) preparedSubmission \<Rightarrow> credit_table \<Rightarrow> 'w
   \<Rightarrow> (submissionError + SCT) \<times> credit_table \<times> 'w" where
  "finishAdmission D F W k P t w =
     (if ps_idempotentReplay P then (mapE (\<lambda>_. (ErrorClassSCTSigningFailed, 500)) (SignSCT D k (ps_canonicalHash P) (ps_logTime P)), t, w)
      else
        (case deductCreditModeA D F (ps_authenticated P) (ps_exchangeDID P) 1 t of
           (Inl e, t') \<Rightarrow> (Inl (deductError e), t', w)
         | (Inr _, t') \<Rightarrow>
             (case aw_Submit W (ps_canonicalHash P) (ps_raw P) (ps_logTime P) (ps_web3Receipts P) w of
                (Inl e, w') \<Rightarrow> (Inl (submitError e), t', w')
              | (Inr _, w') \<Rightarrow> (mapE (\<lambda>_. (ErrorClassSCTSigningFailed, 500)) (SignSCT D k (ps_canonicalHash P) (ps_logTime P)), t', w'))))"

definition admitEntry ::
  "('p, 'r, 'k, 'a) adm_sdk \<Rightarrow> ('p, 'r, 'k, 'h) SubmissionDeps \<Rightarrow> tx_faults \<Rightarrow> ('r, 'w) admWAL \<Rightarrow> sub_req \<Rightarrow> (hash \<Rightarrow> wal_error + 'r Meta) option
   \<Rightarrow> bytes option \<Rightarrow> credit_table \<Rightarrow> 'w \<Rightarrow> (submissionError + SCT) \<times> credit_table \<times> 'w" where
  "admitEntry K D F W q probe body t w =
     (case prepareSubmission K D q probe body of
        Inl e \<Rightarrow> (Inl e, t, w)
      | Inr P \<Rightarrow> finishAdmission D F W (rq_entropy q 0) P t w)"

subsection \<open>Artifact reservation\<close>

record ArtifactGenesis =
  ag_ArtifactCID :: string
  ag_ContentDigest :: "string option"
  ag_MIMEType :: string
  ag_MaxSize :: int
  ag_Owner :: string

text \<open>\<open>decode\<close> is \<open>storage.DecodeArtifactGenesisPayload\<close>; a failed reservation leaves out the token.\<close>

definition artifactReserve ::
  "(bytes \<Rightarrow> ArtifactGenesis option) \<Rightarrow> ('p, 'r, 'k, 'a) adm_sdk \<Rightarrow> ('p, 'r, 'k, 'h) SubmissionDeps \<Rightarrow> tx_faults \<Rightarrow> ('r, 'w) admWAL
   \<Rightarrow> ('c, 'v) Manager \<Rightarrow> 's res_store \<Rightarrow> int \<Rightarrow> sub_req \<Rightarrow> (hash \<Rightarrow> wal_error + 'r Meta) option \<Rightarrow> bytes option \<Rightarrow> credit_table \<Rightarrow> 'w \<Rightarrow> 's
   \<Rightarrow> (submissionError + SCT \<times> 'v option) \<times> credit_table \<times> 'w \<times> 's" where
  "artifactReserve decode K D F W M S now q probe body t w s =
     (case body of
        None \<Rightarrow> (Inl (ErrorClassMalformedBody, 400), t, w, s)
      | Some b \<Rightarrow>
          let raw = take (nat (dp_MaxEntrySize D + 512)) b in
          (case sd_Deserialize K raw of
             Inl _ \<Rightarrow> (Inl (ErrorClassEnvelopeRejected, 400), t, w, s)
           | Inr e \<Rightarrow>
               (case decode (en_DomainPayload e) of
                  None \<Rightarrow> (Inl (ErrorClassEnvelopeRejected, 400), t, w, s)
                | Some g \<Rightarrow>
                    (case admitEntry K D F W q probe (Some raw) t w of
                       (Inl err, t', w') \<Rightarrow> (Inl err, t', w', s)
                     | (Inr sct, t', w') \<Rightarrow>
                         (case Reserve M S now
                                 \<lparr>rq_ArtifactCID = ag_ArtifactCID g, rq_ContentDigest = (case ag_ContentDigest g of None \<Rightarrow> [] | Some d \<Rightarrow> d),
                                  rq_MIMEType = ag_MIMEType g, rq_MaxSize = ag_MaxSize g, rq_Owner = ag_Owner g\<rparr> s of
                            (Inl _, s') \<Rightarrow> (Inr (sct, None), t', w', s')
                          | (Inr token, s') \<Rightarrow> (Inr (sct, Some token), t', w', s'))))))"

subsection \<open>Batch submission\<close>

definition apiMaxBatchSize :: nat where "apiMaxBatchSize = 256"
definition AbsoluteMaxBatchPayloadBytes :: int where "AbsoluteMaxBatchPayloadBytes = 64 * 1024 * 1024"
definition maxBatchPayloadBytes :: int where "maxBatchPayloadBytes = 4 * 1024 * 1024"

text \<open>The arithmetic is on \<open>int64\<close> and wraps.\<close>

definition computeEffectiveBatchPayloadCap :: "u64 \<Rightarrow> int" where
  "computeEffectiveBatchPayloadCap maxEntrySize =
     (let c0 = sint (256 * ((maxEntrySize + 512) * 2 + 128) + 1024 :: u64);
          c1 = (if c0 < maxBatchPayloadBytes then maxBatchPayloadBytes else c0) in
      if c1 > AbsoluteMaxBatchPayloadBytes then AbsoluteMaxBatchPayloadBytes else c1)"

lemma computeEffectiveBatchPayloadCap_bounds:
  "maxBatchPayloadBytes \<le> computeEffectiveBatchPayloadCap m \<and> computeEffectiveBatchPayloadCap m \<le> AbsoluteMaxBatchPayloadBytes"
  by (simp add: computeEffectiveBatchPayloadCap_def maxBatchPayloadBytes_def AbsoluteMaxBatchPayloadBytes_def Let_def)

record BatchEntry =
  be_WireBytesHex :: string
  be_WriteAuthorizationB64 :: string

record ('p, 'r) preparedEntry =
  pe_entry :: "'p Entry"
  pe_canonical :: bytes
  pe_canonicalHash :: hash
  pe_logTime :: u64
  pe_web3Receipts :: "'r list"

definition preflightEntry ::
  "('p, 'r, 'k, 'a) adm_sdk \<Rightarrow> ('p, 'r, 'k, 'h) SubmissionDeps \<Rightarrow> sub_req \<Rightarrow> bytes \<Rightarrow> submissionError + ('p, 'r) preparedEntry" where
  "preflightEntry K D q raw =
     bindE (wireChecks K D q raw) (\<lambda>(e, receipts).
     if int (length raw) > dp_MaxEntrySize D then Inl (ErrorClassBodyTooLarge, 413)
     else if \<not> CheckEvidenceCap K e then Inl (ErrorClassEnvelopeRejected, 422)
     else
       bindE (mapE (\<lambda>_. (ErrorClassEnvelopeRejected, 422)) (sd_EntryIdentity K e)) (\<lambda>h.
       bindE (modeB K D q e) (\<lambda>_.
         Inr \<lparr>pe_entry = e, pe_canonical = raw, pe_canonicalHash = h, pe_logTime = rq_logTime q, pe_web3Receipts = receipts\<rparr>)))"

text \<open>
  Phase 1.  \<open>fetchByHash\<close> is the historical probe, \<open>None\<close> without an entry store; an error of it
  is ignored.  \<open>clk i\<close> are the readings of the clock for entry \<open>i\<close>.
\<close>

definition atClock :: "sub_req \<Rightarrow> int \<times> u64 \<times> u64 \<Rightarrow> sub_req" where
  "atClock q c = (case c of (now, epoch, logTime) \<Rightarrow> q\<lparr>rq_now := now, rq_epoch := epoch, rq_logTime := logTime\<rparr>)"

fun batchPrepare ::
  "('p, 'r, 'k, 'a) adm_sdk \<Rightarrow> ('p, 'r, 'k, 'h) SubmissionDeps \<Rightarrow> sub_req \<Rightarrow> (nat \<Rightarrow> int \<times> u64 \<times> u64) \<Rightarrow> (hash \<Rightarrow> aerror + u64 option) option \<Rightarrow> nat
   \<Rightarrow> ('p, 'r) preparedEntry list \<Rightarrow> BatchEntry list \<Rightarrow> submissionError + ('p, 'r) preparedEntry list" where
  "batchPrepare K D q clk fetchByHash i acc [] = Inr acc"
| "batchPrepare K D q clk fetchByHash i acc (be # bes) =
     (case hexDecode (be_WireBytesHex be) of
        None \<Rightarrow> Inl (ErrorClassBadHexEncoding, 400)
      | Some raw \<Rightarrow>
          bindE (preflightEntry K D (atClock q (clk i)) raw) (\<lambda>pe.
          bindE (writeGating K D (be_WriteAuthorizationB64 be) (pe_canonicalHash pe)) (\<lambda>_.
          if pe_canonicalHash pe \<in> pe_canonicalHash ` set acc then Inl (ErrorClassDuplicateEntry, 409)
          else if (case fetchByHash of None \<Rightarrow> False | Some f \<Rightarrow> (case f (pe_canonicalHash pe) of Inr (Some _) \<Rightarrow> True | _ \<Rightarrow> False))
          then Inl (ErrorClassDuplicateEntry, 409)
          else batchPrepare K D q clk fetchByHash (i + 1) (acc @ [pe]) bes)))"

datatype BatchResultEntry = Accepted nat SCT | Rejected nat ErrorClass

text \<open>Phase 2: the accepted prefix, and the systemic failure that stopped the loop.\<close>

fun commitLoop ::
  "('p, 'r, 'k, 'h) SubmissionDeps \<Rightarrow> ('r, 'w) admWAL \<Rightarrow> (nat \<Rightarrow> nat) \<Rightarrow> ('p, 'r) preparedEntry list \<Rightarrow> SCT list \<Rightarrow> 'w
   \<Rightarrow> SCT list \<times> submissionError option \<times> 'w" where
  "commitLoop D W ent [] scts w = (scts, None, w)"
| "commitLoop D W ent (pe # pes) scts w =
     (case aw_Submit W (pe_canonicalHash pe) (pe_canonical pe) (pe_logTime pe) (pe_web3Receipts pe) w of
        (Inl e, w') \<Rightarrow> (scts, Some (submitError e), w')
      | (Inr _, w') \<Rightarrow>
          (case SignSCT D (ent (length scts)) (pe_canonicalHash pe) (pe_logTime pe) of
             Inl _ \<Rightarrow> (scts, Some (ErrorClassSCTSigningFailed, 500), w')
           | Inr sct \<Rightarrow> commitLoop D W ent pes (scts @ [sct]) w'))"

datatype BatchResponse = BatchError submissionError | BatchResponse nat nat nat "BatchResultEntry list"

definition batchRespond :: "nat \<Rightarrow> SCT list \<Rightarrow> submissionError option \<Rightarrow> BatchResponse" where
  "batchRespond n scts stop =
     (let acc = map (\<lambda>(i, s). Accepted i s) (zip [0..<length scts] scts) in
      case stop of
        None \<Rightarrow> BatchResponse 202 (length scts) (n - length scts) acc
      | Some e \<Rightarrow>
          if scts = [] then BatchError e
          else BatchResponse 207 (length scts) (n - length scts) (acc @ map (\<lambda>j. Rejected j (fst e)) [length scts..<n]))"

text \<open>\<open>parse\<close> is the JSON decoding of the request; the body is cut at the payload cap.\<close>

definition batchSubmit ::
  "(bytes \<Rightarrow> BatchEntry list option) \<Rightarrow> ('p, 'r, 'k, 'a) adm_sdk \<Rightarrow> ('p, 'r, 'k, 'h) SubmissionDeps \<Rightarrow> tx_faults \<Rightarrow> ('r, 'w) admWAL \<Rightarrow> sub_req \<Rightarrow> (nat \<Rightarrow> int \<times> u64 \<times> u64)
   \<Rightarrow> (hash \<Rightarrow> aerror + u64 option) option \<Rightarrow> bytes option \<Rightarrow> credit_table \<Rightarrow> 'w \<Rightarrow> BatchResponse \<times> credit_table \<times> 'w" where
  "batchSubmit parse K D F W q clk fetchByHash body t w =
     (case body of
        None \<Rightarrow> (BatchError (ErrorClassMalformedBody, 400), t, w)
      | Some b \<Rightarrow>
          (case parse (take (nat (computeEffectiveBatchPayloadCap (word_of_int (dp_MaxEntrySize D)))) b) of
             None \<Rightarrow> (BatchError (ErrorClassMalformedJSON, 400), t, w)
           | Some bes \<Rightarrow>
               if bes = [] then (BatchError (ErrorClassEmptyBatch, 400), t, w)
               else if length bes > apiMaxBatchSize then (BatchError (ErrorClassBatchTooLarge, 400), t, w)
               else
                 (case batchPrepare K D q clk fetchByHash 0 [] bes of
                    Inl e \<Rightarrow> (BatchError e, t, w)
                  | Inr pes \<Rightarrow>
                      (case deductCreditModeA D F (rq_authenticated q) (rq_exchangeDID q) (int (length pes)) t of
                         (Inl e, t') \<Rightarrow> (BatchError (deductError e), t', w)
                       | (Inr _, t') \<Rightarrow>
                           (case commitLoop D W (rq_entropy q) pes [] w of
                              (scts, stop, w') \<Rightarrow> (batchRespond (length pes) scts stop, t', w'))))))"

end
