(* ===== verification/SubmissionSpec.thy ===== *)
theory SubmissionSpec
  imports Submission WalSpec
begin

section \<open>What an accepted submission means\<close>

text \<open>
  The handlers see the WAL through the locale \<open>submit_wal\<close>: what a successful \<open>Submit\<close>
  leaves in the tables, and that a known record is kept.  It is interpreted on the WAL's batch flush, in which
  the submission may travel with others.  \<open>wire_of\<close> is the content addressing the log relies on: an
  identity names one wire form.  On top of the locale stand the properties of the single and of the batch
  path, and the entries that only the batch path lets in.
\<close>

subsection \<open>The WAL as the handlers see it\<close>

locale submit_wal =
  fixes W :: "('r, 'w) admWAL" and view :: "'w \<Rightarrow> 'r wal_view" and ok :: "'w \<Rightarrow> bool"
    and wire_of :: "hash \<Rightarrow> bytes" and fits :: "'r list \<Rightarrow> bool"
  assumes submit_ok: "\<lbrakk>ok w; fits rs; wire_of h = raw; aw_Submit W h raw t rs w = (out, w')\<rbrakk> \<Longrightarrow> ok w'"
    and submit_stores: "\<lbrakk>ok w; fits rs; wire_of h = raw; aw_Submit W h raw t rs w = (Inr u, w')\<rbrakk>
      \<Longrightarrow> v_wire (view w') h = Some raw \<and> (\<exists>m. v_meta (view w') h = Some m \<and> (v_meta (view w) h = None \<longrightarrow> State m = StatePending))"
    and submit_keeps: "\<lbrakk>ok w; fits rs; wire_of h = raw; aw_Submit W h raw t rs w = (out, w'); v_meta (view w) h' = Some m\<rbrakk>
      \<Longrightarrow> v_meta (view w') h' = Some m"
    and submit_keeps_wire: "\<lbrakk>ok w; fits rs; wire_of h = raw; aw_Submit W h raw t rs w = (out, w'); v_wire (view w) h' = Some (wire_of h')\<rbrakk>
      \<Longrightarrow> v_wire (view w') h' = Some (wire_of h')"
    and meta_reads: "\<lbrakk>ok w; aw_MetaState W w h = Inr m\<rbrakk> \<Longrightarrow> v_meta (view w) h = Some m"
begin

definition durable :: "'w \<Rightarrow> hash \<Rightarrow> bool" where
  "durable w h \<longleftrightarrow> v_wire (view w) h = Some (wire_of h) \<and> v_meta (view w) h \<noteq> None"

lemma submit_durable:
  assumes "ok w" "fits rs" "wire_of h = raw" "aw_Submit W h raw t rs w = (out, w')"
  shows "durable w h' \<Longrightarrow> durable w' h'" "okE out \<Longrightarrow> durable w' h"
proof -
  show "durable w' h'" if "durable w h'"
    using that submit_keeps [OF assms] submit_keeps_wire [OF assms] by (auto simp: durable_def)
  show "durable w' h" if "okE out"
    using that submit_stores [OF assms(1-3)] assms(3,4) by (cases out) (auto simp: durable_def)
qed

text \<open>The commit loop of a batch: an accepted prefix, every element of it durable.\<close>

lemma commit_prefix:
  assumes "ok w" "\<forall>pe \<in> set pes. fits (pe_web3Receipts pe) \<and> wire_of (pe_canonicalHash pe) = pe_canonical pe"
    and "commitLoop D W ent pes scts w = (scts', stop, w')"
  shows "\<exists>k \<le> length pes. length scts' = length scts + k \<and> (stop = None \<longleftrightarrow> k = length pes)
    \<and> take (length scts) scts' = scts \<and> ok w' \<and> (\<forall>h. durable w h \<longrightarrow> durable w' h)
    \<and> (\<forall>j < k. SignSCT D (ent (length scts + j)) (pe_canonicalHash (pes ! j)) (pe_logTime (pes ! j)) = Inr (scts' ! (length scts + j)) \<and> durable w' (pe_canonicalHash (pes ! j)))"
  using assms
proof (induction pes arbitrary: scts w)
  case (Cons pe pes)
  let ?h = "pe_canonicalHash pe"
  obtain out w1 where sub: "aw_Submit W ?h (pe_canonical pe) (pe_logTime pe) (pe_web3Receipts pe) w = (out, w1)" by force
  have pe: "fits (pe_web3Receipts pe)" "wire_of ?h = pe_canonical pe" using Cons.prems(2) by auto
  note ok1 = submit_ok [OF Cons.prems(1) pe sub] and dur = submit_durable [OF Cons.prems(1) pe sub]
  show ?case
  proof (cases "\<exists>u sct. out = Inr u \<and> SignSCT D (ent (length scts)) ?h (pe_logTime pe) = Inr sct")
    case False
    then have "scts' = scts" "stop \<noteq> None" "w' = w1" using Cons.prems(3) sub by (auto split: sum.splits)
    then show ?thesis using ok1 dur by (intro exI [of _ 0]) auto
  next
    case True
    then obtain u sct where out: "out = Inr u" "SignSCT D (ent (length scts)) ?h (pe_logTime pe) = Inr sct" by blast
    then have rec: "commitLoop D W ent pes (scts @ [sct]) w1 = (scts', stop, w')" using Cons.prems(3) sub by simp
    from Cons.IH [OF ok1 _ rec] Cons.prems(2) obtain k where k: "k \<le> length pes" "length scts' = length (scts @ [sct]) + k"
      "stop = None \<longleftrightarrow> k = length pes" "take (length (scts @ [sct])) scts' = scts @ [sct]" "ok w'" "\<And>h. durable w1 h \<Longrightarrow> durable w' h"
      "\<And>j. j < k \<Longrightarrow> SignSCT D (ent (length (scts @ [sct]) + j)) (pe_canonicalHash (pes ! j)) (pe_logTime (pes ! j)) = Inr (scts' ! (length (scts @ [sct]) + j)) \<and> durable w' (pe_canonicalHash (pes ! j))"
      by auto
    have pre: "take (length scts) scts' = scts"
      using arg_cong [OF k(4), of "take (length scts)"] by simp
    have "scts' ! length scts = (take (length (scts @ [sct])) scts') ! length scts" by simp
    then have nth: "scts' ! length scts = sct" unfolding k(4) by simp
    have each: "SignSCT D (ent (length scts + j)) (pe_canonicalHash ((pe # pes) ! j)) (pe_logTime ((pe # pes) ! j)) = Inr (scts' ! (length scts + j))
        \<and> durable w' (pe_canonicalHash ((pe # pes) ! j))" if "j < Suc k" for j
    proof (cases j)
      case 0
      then show ?thesis using out(2) nth k(6) dur(2) out(1) by simp
    next
      case (Suc i)
      then show ?thesis using k(7) [of i] that by simp
    qed
    show ?thesis using k(1-3,5) pre each dur(1) k(6) by (intro exI [of _ "Suc k"]) auto
  qed
qed auto

end

subsection \<open>The batch flush as such a WAL\<close>

text \<open>
  One \<open>Submit\<close>: it may be refused before it enters the queue, travel with other submissions, and its
  answer may be lost to a cancelled context after the flush.
\<close>

record 'r adm_turn =
  at_refused :: "wal_error option"
  at_now :: u64
  at_before :: "'r submission list"
  at_after :: "'r submission list"
  at_trace :: bytes
  at_lost :: "wal_error option"

definition turnSub :: "'r adm_turn \<Rightarrow> hash \<Rightarrow> bytes \<Rightarrow> u64 \<Rightarrow> 'r list \<Rightarrow> 'r submission" where
  "turnSub T h raw t rs = \<lparr>s_hash = h, s_wire = raw, s_logTimeMicros = t, s_receipts = rs, s_traceContext = at_trace T\<rparr>"

definition walSubmit ::
  "'db badger \<Rightarrow> 'r receipt_codec \<Rightarrow> CommitterConfig \<Rightarrow> 'r adm_turn \<Rightarrow> hash \<Rightarrow> bytes \<Rightarrow> u64 \<Rightarrow> 'r list \<Rightarrow> 'db \<Rightarrow> (wal_error + unit) \<times> 'db" where
  "walSubmit B c cfg T h raw t rs d =
     (if raw = [] then (Inl ErrEmptyWire, d)
      else
        (case at_refused T of
           Some e \<Rightarrow> (Inl e, d)
         | None \<Rightarrow>
             (case walFlushBatch B c cfg (at_now T) (at_before T @ [turnSub T h raw t rs] @ at_after T) d of
                (out, d') \<Rightarrow> (case at_lost T of Some e \<Rightarrow> (Inl e, d') | None \<Rightarrow> (out, d')))))"

text \<open>The state pairs the number of the next turn with the database.\<close>

definition committerAdmWAL ::
  "'db badger \<Rightarrow> 'r receipt_codec \<Rightarrow> CommitterConfig \<Rightarrow> (nat \<Rightarrow> 'r adm_turn) \<Rightarrow> ctx \<Rightarrow> ('r, nat \<times> 'db) admWAL" where
  "committerAdmWAL B c cfg turns x =
     \<lparr>aw_MetaState = \<lambda>w h. MetaState B c x (snd w) h,
      aw_Submit = \<lambda>h raw t rs w. (case walSubmit B c cfg (turns (fst w)) h raw t rs (snd w) of (out, d') \<Rightarrow> (out, (fst w + 1, d')))\<rparr>"

definition turn_ok :: "'r receipt_codec \<Rightarrow> (hash \<Rightarrow> bytes) \<Rightarrow> 'r adm_turn \<Rightarrow> bool" where
  "turn_ok c wire_of T \<longleftrightarrow> length (at_trace T) \<le> 0xFFFF
     \<and> (\<forall>s \<in> set (at_before T) \<union> set (at_after T). sub_ok c s \<and> s_wire s = wire_of (s_hash s))"

lemma find_in: "find P xs = Some x \<Longrightarrow> x \<in> set xs \<and> P x"
  by (auto simp: find_Some_iff)

lemma find_hits: "x \<in> set xs \<Longrightarrow> P x \<Longrightarrow> \<exists>y. find P xs = Some y"
  using find_None_iff [of P xs] by (cases "find P xs") auto

text \<open>A flushed batch of content-addressed submissions: the wire form of each hash is its own.\<close>

lemma flushed_wire:
  assumes "\<forall>s \<in> set ss. s_wire s = wire_of (s_hash s)"
  shows "s \<in> set ss \<Longrightarrow> v_wire (fold av_submit ss v) (s_hash s) = Some (wire_of (s_hash s))"
    and "v_wire v h = Some (wire_of h) \<Longrightarrow> v_wire (fold av_submit ss v) h = Some (wire_of h)"
proof -
  have found: "find (\<lambda>s. s_hash s = h) (rev ss) = Some y \<Longrightarrow> s_wire y = wire_of h" for y h
    using find_in [of "\<lambda>s. s_hash s = h" "rev ss" y] assms by auto
  show "v_wire (fold av_submit ss v) (s_hash s) = Some (wire_of (s_hash s))" if s: "s \<in> set ss"
    using find_hits [of s "rev ss" "\<lambda>x. s_hash x = s_hash s"] found s unfolding submits_wire by (auto split: option.splits)
  show "v_wire (fold av_submit ss v) h = Some (wire_of h)" if "v_wire v h = Some (wire_of h)"
    using that found unfolding submits_wire by (auto split: option.splits)
qed

context wal_store
begin

lemma submit_view:
  assumes "walSubmit B c cfg T h raw t rs d = (out, d')" "committer_ok c content d" "turn_ok c wire_of T" "receipts_fit c rs" "wire_of h = raw"
  shows "committer_ok c content d'"
    "view_of c (content d') = view_of c (content d)
     \<or> view_of c (content d') = fold av_submit (at_before T @ [turnSub T h raw t rs] @ at_after T) (view_of c (content d))"
    "okE out \<Longrightarrow> view_of c (content d') = fold av_submit (at_before T @ [turnSub T h raw t rs] @ at_after T) (view_of c (content d))"
proof -
  let ?b = "at_before T @ [turnSub T h raw t rs] @ at_after T"
  have sub: "\<forall>s \<in> set ?b. sub_ok c s" using assms(3,4) by (auto simp: turn_ok_def sub_ok_def turnSub_def fresh_meta_def meta_wf_def)
  have wf: "wf_kv c (content d)" using assms(2) by (simp add: committer_ok_def)
  have all: "committer_ok c content d' \<and> (view_of c (content d') = view_of c (content d)
     \<or> view_of c (content d') = fold av_submit ?b (view_of c (content d))) \<and> (okE out \<longrightarrow> view_of c (content d') = fold av_submit ?b (view_of c (content d)))"
  proof (cases "raw = [] \<or> at_refused T \<noteq> None")
    case True
    then show ?thesis using assms(1,2) by (auto simp: walSubmit_def split: if_splits option.splits)
  next
    case False
    obtain r where fl: "walFlushBatch B c cfg (at_now T) ?b d = (r, d')" and out: "okE out \<Longrightarrow> r = Inr ()"
      using assms(1) False by (cases out) (auto simp: walSubmit_def split: prod.splits option.splits)
    note ref = flushBatch_refines [OF fl wf sub]
    have "wal_step B c cfg d d'" by (rule wal_step.submit [OF sub fl])
    then have "committer_ok c content d'" using ok_step assms(2) by blast
    moreover have "view_of c (content d') = view_of c (content d) \<or> view_of c (content d') = fold av_submit ?b (view_of c (content d))"
      using ref(3) by auto
    ultimately show ?thesis using ref(2) out by blast
  qed
  show "committer_ok c content d'" "view_of c (content d') = view_of c (content d) \<or> view_of c (content d') = fold av_submit ?b (view_of c (content d))"
    "okE out \<Longrightarrow> view_of c (content d') = fold av_submit ?b (view_of c (content d))" using all by blast+
qed

lemma adm_wal:
  assumes "\<And>i. turn_ok c wire_of (turns i)"
  shows "submit_wal (committerAdmWAL B c cfg turns x) (\<lambda>w. view_of c (content (snd w))) (\<lambda>w. committer_ok c content (snd w)) wire_of (receipts_fit c)"
proof
  let ?W = "committerAdmWAL B c cfg turns x"
  fix w w' :: "nat \<times> 'db" and rs h raw t out
  assume ok: "committer_ok c content (snd w)" and fits: "receipts_fit c rs" and wire: "wire_of h = raw"
  let ?b = "at_before (turns (fst w)) @ [turnSub (turns (fst w)) h raw t rs] @ at_after (turns (fst w))"
  have ws: "\<forall>s \<in> set ?b. s_wire s = wire_of (s_hash s)" using assms [of "fst w"] wire by (auto simp: turn_ok_def turnSub_def)
  have run: "walSubmit B c cfg (turns (fst w)) h raw t rs (snd w) = (o1, snd w')" if "aw_Submit ?W h raw t rs w = (o1, w')" for o1
    using that by (auto simp: committerAdmWAL_def split: prod.splits)
  {
    assume "aw_Submit ?W h raw t rs w = (out, w')"
    note v = submit_view [OF run [OF this] ok assms fits wire]
    show "committer_ok c content (snd w')" by (rule v(1))
    show "v_meta (view_of c (content (snd w'))) h' = Some m" if "v_meta (view_of c (content (snd w))) h' = Some m" for h' m
      using v(2) that submits_meta [of ?b "view_of c (content (snd w))" h'] by auto
    show "v_wire (view_of c (content (snd w'))) h' = Some (wire_of h')" if "v_wire (view_of c (content (snd w))) h' = Some (wire_of h')" for h'
      using v(2) that flushed_wire(2) [OF ws that] by auto
  }
  fix u assume "aw_Submit ?W h raw t rs w = (Inr u, w')"
  then have v: "view_of c (content (snd w')) = fold av_submit ?b (view_of c (content (snd w)))"
    by (rule submit_view(3) [OF run ok assms fits wire]) simp
  have mem: "turnSub (turns (fst w)) h raw t rs \<in> set ?b" by simp
  have hash: "s_hash (turnSub (turns (fst w)) h raw t rs) = h" by (simp add: turnSub_def)
  obtain y where y: "find (\<lambda>s. s_hash s = h) ?b = Some y" using find_hits [OF mem, of "\<lambda>s. s_hash s = h"] hash by auto
  have "v_wire (view_of c (content (snd w'))) h = Some raw" using flushed_wire(1) [OF ws mem] v wire unfolding hash by simp
  moreover have "\<exists>m. v_meta (view_of c (content (snd w'))) h = Some m \<and> (v_meta (view_of c (content (snd w))) h = None \<longrightarrow> State m = StatePending)"
    unfolding v submits_meta y by (auto simp: fresh_meta_def split: option.splits)
  ultimately show "v_wire (view_of c (content (snd w'))) h = Some raw
      \<and> (\<exists>m. v_meta (view_of c (content (snd w'))) h = Some m \<and> (v_meta (view_of c (content (snd w))) h = None \<longrightarrow> State m = StatePending))" ..
next
  fix w :: "nat \<times> 'db" and h m
  assume "committer_ok c content (snd w)" "aw_MetaState (committerAdmWAL B c cfg turns x) w h = Inr m"
  then show "v_meta (view_of c (content (snd w))) h = Some m"
    using readMeta_view by (auto simp: committerAdmWAL_def MetaState_def bindE_eq_Inr committer_ok_def)
qed

end

text \<open>The committer with its turns, as such a WAL.\<close>

locale adm_committer = wal_store B content c for B :: "'db badger" and content and c :: "'r receipt_codec" +
  fixes turns :: "nat \<Rightarrow> 'r adm_turn" and wire_of :: "hash \<Rightarrow> bytes"
  assumes turns_ok: "turn_ok c wire_of (turns i)"
begin

lemma adm_laws:
  "submit_wal (committerAdmWAL B c cfg turns x) (\<lambda>w. view_of c (content (snd w))) (\<lambda>w. committer_ok c content (snd w)) wire_of (receipts_fit c)"
  by (rule adm_wal [OF turns_ok])

end

sublocale adm_committer \<subseteq> adm: submit_wal "committerAdmWAL B c cfg turns x" "\<lambda>w. view_of c (content (snd w))"
  "\<lambda>w. committer_ok c content (snd w)" wire_of "receipts_fit c" for cfg x
  by (rule adm_laws)

end
