(* ===== verification/SubmissionProps.thy ===== *)
theory SubmissionProps
  imports SubmissionSpec
begin

section \<open>Properties of the submission handlers\<close>

text \<open>
  What an SCT promises, that a repeated submission gets the same SCT for free, what a batch response says, and
  which entries only the batch path lets in.
\<close>

subsection \<open>Inversion\<close>

text \<open>What an entry has passed after steps 1 to 4: every check of \<open>wireChecks\<close>, on its own bytes.\<close>

definition wire_checked ::
  "('p, 'r, 'k, 'a) adm_sdk \<Rightarrow> ('p, 'r, 'k, 'h) SubmissionDeps \<Rightarrow> sub_req \<Rightarrow> bytes \<Rightarrow> 'p Entry \<Rightarrow> 'r list \<Rightarrow> bool" where
  "wire_checked K D q raw e rs \<longleftrightarrow>
     6 \<le> length raw \<and> admitProtocolVersion K D (word_of_nat (be_val (take 2 raw))) = Inr ()
     \<and> sd_Deserialize K raw = Inr e \<and> en_Signatures e \<noteq> []
     \<and> sd_ValidateAlgorithmID K (sg_AlgoID (hd (en_Signatures e))) = None \<and> sd_Validate K e = None \<and> okE (CheckNFC K e)
     \<and> en_Destination e = dp_LogDID D \<and> sd_CheckFreshness K e (rq_now q) (dp_Freshness D) = None \<and> en_SignerDID e \<noteq> []
     \<and> verifyEntrySignaturesGated K D e (sg_Bytes (hd (en_Signatures e))) = Inr rs"

lemma wireChecks_checked:
  assumes "wireChecks K D q raw = Inr (e, rs)"
  shows "wire_checked K D q raw e rs"
proof -
  have len: "6 \<le> length raw" using assms by (auto simp: wireChecks_def split: if_split_asm)
  then have ver: "admitProtocolVersion K D (word_of_nat (be_val (take 2 raw))) = Inr ()" using assms by (auto simp: wireChecks_def bindE_eq_Inr)
  obtain e0 where des: "sd_Deserialize K raw = Inr e0" using assms by (cases "sd_Deserialize K raw") (auto simp: wireChecks_def bindE_eq_Inr split: if_split_asm)
  obtain sg sgs where sg: "en_Signatures e0 = sg # sgs" using assms des by (cases "en_Signatures e0") (auto simp: wireChecks_def bindE_eq_Inr split: if_split_asm)
  show ?thesis using assms des sg len ver by (auto simp: wireChecks_def wire_checked_def bindE_eq_Inr split: if_split_asm)
qed

lemma wireChecks_inv:
  assumes "wireChecks K D q raw = Inr (e, rs)"
  shows "sd_Deserialize K raw = Inr e" "\<exists>sg. verifyEntrySignaturesGated K D e sg = Inr rs"
  using wireChecks_checked [OF assms] by (auto simp: wire_checked_def)

lemma prepare_inv:
  assumes "prepareSubmission K D q probe body = Inr P"
  shows "\<exists>raw rs. body = Some raw \<and> ps_raw P = raw \<and> wireChecks K D q raw = Inr (ps_entry P, rs) \<and> entryGates K D (ps_entry P) = Inr ()
    \<and> int (length raw) \<le> dp_MaxEntrySize D \<and> CheckEvidenceCap K (ps_entry P) \<and> modeB K D q (ps_entry P) = Inr ()
    \<and> sd_EntryIdentity K (ps_entry P) = Inr (ps_canonicalHash P)
    \<and> (if ps_idempotentReplay P
       then \<exists>p m. probe = Some p \<and> knownRecord (p (ps_canonicalHash P)) = Some m \<and> ps_logTime P = LogTimeMicros m
       else writeGating K D (rq_writeAuth q) (ps_canonicalHash P) = Inr () \<and> ps_logTime P = rq_logTime q \<and> ps_web3Receipts P = rs
            \<and> ps_authenticated P = rq_authenticated q \<and> ps_exchangeDID P = rq_exchangeDID q
            \<and> (\<forall>p. probe = Some p \<longrightarrow> knownRecord (p (ps_canonicalHash P)) = None))"
  using assms
  by (auto simp: prepareSubmission_def readBody_def bindE_eq_Inr Let_def split: if_splits option.splits prod.splits)

lemma preflight_inv:
  assumes "preflightEntry K D q raw = Inr pe"
  shows "wireChecks K D q raw = Inr (pe_entry pe, pe_web3Receipts pe)" "pe_canonical pe = raw" "sd_EntryIdentity K (pe_entry pe) = Inr (pe_canonicalHash pe)"
  using assms by (auto simp: preflightEntry_def bindE_eq_Inr split: if_splits)

lemma batchPrepare_inv:
  "\<lbrakk>batchPrepare K D q clk f i acc bes = Inr pes; distinct (map pe_canonicalHash acc)\<rbrakk>
    \<Longrightarrow> \<exists>new. pes = acc @ new \<and> length new = length bes \<and> distinct (map pe_canonicalHash pes)
      \<and> (\<forall>j < length bes. \<exists>raw. hexDecode (be_WireBytesHex (bes ! j)) = Some raw \<and> preflightEntry K D (atClock q (clk (i + j))) raw = Inr (new ! j)
           \<and> writeGating K D (be_WriteAuthorizationB64 (bes ! j)) (pe_canonicalHash (new ! j)) = Inr ())"
proof (induction bes arbitrary: i acc)
  case (Cons be bes)
  obtain raw pe where pe: "hexDecode (be_WireBytesHex be) = Some raw" "preflightEntry K D (atClock q (clk i)) raw = Inr pe"
    "writeGating K D (be_WriteAuthorizationB64 be) (pe_canonicalHash pe) = Inr ()"
    "pe_canonicalHash pe \<notin> pe_canonicalHash ` set acc" "batchPrepare K D q clk f (i + 1) (acc @ [pe]) bes = Inr pes"
    using Cons.prems(1) by (auto simp: bindE_eq_Inr split: option.splits if_splits)
  have "distinct (map pe_canonicalHash (acc @ [pe]))" using Cons.prems(2) pe(4) by auto
  from Cons.IH [OF pe(5) this] obtain new where new: "pes = (acc @ [pe]) @ new" "length new = length bes" "distinct (map pe_canonicalHash pes)"
    "\<And>j. j < length bes \<Longrightarrow> \<exists>raw. hexDecode (be_WireBytesHex (bes ! j)) = Some raw \<and> preflightEntry K D (atClock q (clk (i + 1 + j))) raw = Inr (new ! j)
       \<and> writeGating K D (be_WriteAuthorizationB64 (bes ! j)) (pe_canonicalHash (new ! j)) = Inr ()" by blast
  have "\<exists>raw. hexDecode (be_WireBytesHex ((be # bes) ! j)) = Some raw \<and> preflightEntry K D (atClock q (clk (i + j))) raw = Inr ((pe # new) ! j)
      \<and> writeGating K D (be_WriteAuthorizationB64 ((be # bes) ! j)) (pe_canonicalHash ((pe # new) ! j)) = Inr ()" if "j < length (be # bes)" for j
    using pe(1-3) new(4) [of "j - 1"] that by (cases j) auto
  then show ?case using new(1-3) by (intro exI [of _ "pe # new"]) auto
qed auto

text \<open>What the log and the SDK grant: an identity names one wire form, receipts of a verification are encodable.\<close>

definition content_addressed :: "('p, 'r, 'k, 'a) adm_sdk \<Rightarrow> (hash \<Rightarrow> bytes) \<Rightarrow> bool" where
  "content_addressed K wire_of \<longleftrightarrow> (\<forall>raw e h. sd_Deserialize K raw = Inr e \<and> sd_EntryIdentity K e = Inr h \<longrightarrow> wire_of h = raw)"

definition encodable :: "('p, 'r, 'k, 'a) adm_sdk \<Rightarrow> ('p, 'r, 'k, 'h) SubmissionDeps \<Rightarrow> 'r receipt_codec \<Rightarrow> bool" where
  "encodable K D c \<longleftrightarrow> (\<forall>e sg rs. verifyEntrySignaturesGated K D e sg = Inr rs \<longrightarrow> receipts_fit c rs)"

lemma wire_granted:
  assumes "wireChecks K D q raw = Inr (e, rs)" "sd_EntryIdentity K e = Inr h" "content_addressed K wire_of" "encodable K D c"
  shows "wire_of h = raw" "receipts_fit c rs"
  using wireChecks_inv [OF assms(1)] assms(2-4) by (auto simp: content_addressed_def encodable_def)

lemma SignSCT_fields:
  "SignSCT D k h t = Inr sct \<Longrightarrow> sct_CanonicalHash sct = h \<and> sct_LogTimeMicros sct = t \<and> sct_LogDID sct = dp_LogDID D \<and> sct_SignerDID sct = dp_LedgerDID D"
  by (auto simp: SignSCT_def bindE_eq_Inr split: if_splits)

lemma finish_inv:
  assumes "finishAdmission D F W k P t w = (Inr sct, t', w')"
  shows "SignSCT D k (ps_canonicalHash P) (ps_logTime P) = Inr sct"
    "if ps_idempotentReplay P then t' = t \<and> w' = w
     else deductCreditModeA D F (ps_authenticated P) (ps_exchangeDID P) 1 t = (Inr (), t')
       \<and> aw_Submit W (ps_canonicalHash P) (ps_raw P) (ps_logTime P) (ps_web3Receipts P) w = (Inr (), w')"
  using assms by (auto simp: finishAdmission_def split: if_splits prod.splits sum.splits)

subsection \<open>The single path\<close>

text \<open>
  The bytes in the WAL are the ones the log has for their hash.  Submissions that are themselves
  content-addressed keep it so.
\<close>

definition wires_ok :: "'r receipt_codec \<Rightarrow> ('db \<Rightarrow> kv) \<Rightarrow> (hash \<Rightarrow> bytes) \<Rightarrow> 'db \<Rightarrow> bool" where
  "wires_ok c content wire_of d \<longleftrightarrow> (\<forall>h b. v_wire (view_of c (content d)) h = Some b \<longrightarrow> b = wire_of h)"

lemma submits_wires:
  assumes "\<forall>s \<in> set b. s_wire s = wire_of (s_hash s)" "\<forall>h x. v_wire v h = Some x \<longrightarrow> x = wire_of h" "v_wire (fold av_submit b v) h = Some x"
  shows "x = wire_of h"
proof (cases "find (\<lambda>s. s_hash s = h) (rev b)")
  case None
  then show ?thesis using assms(2,3) by (simp add: submits_wire)
next
  case (Some y)
  then have "y \<in> set b" "s_hash y = h" using find_in [OF Some] by auto
  moreover have "x = s_wire y" using assms(3) Some by (simp add: submits_wire)
  ultimately show ?thesis using assms(1) by auto
qed

lemma wires_ok_submit:
  assumes "adm_committer B content c turns wire_of" "committer_ok c content d" "receipts_fit c rs" "wire_of h = raw" "wires_ok c content wire_of d"
    and "aw_Submit (committerAdmWAL B c cfg turns x) h raw t rs (n, d) = (out, n', d')"
  shows "wires_ok c content wire_of d'"
proof -
  let ?b = "at_before (turns n) @ [turnSub (turns n) h raw t rs] @ at_after (turns n)"
  have run: "walSubmit B c cfg (turns n) h raw t rs d = (out, d')" using assms(6) by (auto simp: committerAdmWAL_def split: prod.splits)
  have wires: "\<forall>s \<in> set ?b. s_wire s = wire_of (s_hash s)"
    using adm_committer.turns_ok [OF assms(1), of n] assms(4) by (auto simp: turn_ok_def turnSub_def)
  from wal_store.submit_view(2) [OF adm_committer.axioms(1) [OF assms(1)] run assms(2) adm_committer.turns_ok [OF assms(1)] assms(3,4)]
  show ?thesis
  proof
    assume view: "view_of c (content d') = fold av_submit ?b (view_of c (content d))"
    show ?thesis using submits_wires [OF wires assms(5) [unfolded wires_ok_def]] unfolding wires_ok_def view by blast
  qed (use assms(5) in \<open>simp add: wires_ok_def\<close>)
qed

text \<open>
  C4
  The single endpoint issues an SCT only for the submitted bytes of an entry that passed every check of the
  path: length and protocol version of the preamble, decoding, algorithm and validity, normalisation,
  destination (this log), freshness, the signature checks on the entry's own first signature, the enabled
  gates 4a to 4h, the size and evidence caps and the proof-of-work stamp of an unauthenticated caller; and
  only when the entry is durable: either the WAL already held these bytes and a record with the SCT's log
  time, and then nothing is charged and nothing written, or the gated write authorization was valid, an
  authenticated caller has paid, and the WAL now holds these bytes and a record.
\<close>

theorem sct_durable:
  assumes "adm_committer B content c turns wire_of" "content_addressed K wire_of" "encodable K D c"
    and "committer_ok c content d0" "wires_ok c content wire_of d0" "committer_ok c content d"
    and "admitEntry K D F (committerAdmWAL B c cfg turns x) q (Some (MetaState B c x0 d0)) body t (n, d) = (Inr sct, t', n', d')"
  shows "\<exists>raw e h rs. body = Some raw \<and> wire_checked K D q raw e rs \<and> entryGates K D e = Inr ()
    \<and> int (length raw) \<le> dp_MaxEntrySize D \<and> CheckEvidenceCap K e \<and> modeB K D q e = Inr ()
    \<and> sd_EntryIdentity K e = Inr h \<and> sct_CanonicalHash sct = h \<and> sct_LogDID sct = dp_LogDID D \<and> sct_SignerDID sct = dp_LedgerDID D
    \<and> ((\<exists>m. v_meta (view_of c (content d0)) h = Some m \<and> LogTimeMicros m = sct_LogTimeMicros sct
           \<and> v_wire (view_of c (content d0)) h = Some raw \<and> t' = t \<and> d' = d)
       \<or> writeGating K D (rq_writeAuth q) h = Inr () \<and> deductCreditModeA D F (rq_authenticated q) (rq_exchangeDID q) 1 t = (Inr (), t')
         \<and> sct_LogTimeMicros sct = rq_logTime q
         \<and> v_wire (view_of c (content d')) h = Some raw \<and> v_meta (view_of c (content d')) h \<noteq> None)"
proof -
  let ?W = "committerAdmWAL B c cfg turns x"
  obtain P where P: "prepareSubmission K D q (Some (MetaState B c x0 d0)) body = Inr P"
    and fin: "finishAdmission D F ?W (rq_entropy q 0) P t (n, d) = (Inr sct, t', n', d')"
    using assms(7) by (auto simp: admitEntry_def split: sum.splits)
  obtain raw rs where p: "body = Some raw" "ps_raw P = raw" "wireChecks K D q raw = Inr (ps_entry P, rs)" "entryGates K D (ps_entry P) = Inr ()"
    "modeB K D q (ps_entry P) = Inr ()" "sd_EntryIdentity K (ps_entry P) = Inr (ps_canonicalHash P)"
    "int (length raw) \<le> dp_MaxEntrySize D" "CheckEvidenceCap K (ps_entry P)" using prepare_inv [OF P] by auto
  note wc = wireChecks_checked [OF p(3)] and gr = wire_granted [OF p(3,6) assms(2,3)] and f = finish_inv [OF fin]
  have wal: "wal_store B content c" using assms(1) by (rule adm_committer.axioms)
  have last: "(\<exists>m. v_meta (view_of c (content d0)) (ps_canonicalHash P) = Some m \<and> LogTimeMicros m = sct_LogTimeMicros sct
           \<and> v_wire (view_of c (content d0)) (ps_canonicalHash P) = Some raw \<and> t' = t \<and> d' = d)
       \<or> writeGating K D (rq_writeAuth q) (ps_canonicalHash P) = Inr () \<and> deductCreditModeA D F (rq_authenticated q) (rq_exchangeDID q) 1 t = (Inr (), t')
         \<and> sct_LogTimeMicros sct = rq_logTime q
         \<and> v_wire (view_of c (content d')) (ps_canonicalHash P) = Some raw \<and> v_meta (view_of c (content d')) (ps_canonicalHash P) \<noteq> None"
  proof (cases "ps_idempotentReplay P")
    case True
    then obtain m where m: "knownRecord (MetaState B c x0 d0 (ps_canonicalHash P)) = Some m" "ps_logTime P = LogTimeMicros m" using prepare_inv [OF P] by auto
    then have "readMeta B c d0 (ps_canonicalHash P) = Inr m" by (auto simp: knownRecord_def MetaState_def bindE_eq_Inr split: sum.splits if_splits)
    then have v: "v_meta (view_of c (content d0)) (ps_canonicalHash P) = Some m" using wal_store.readMeta_view [OF wal] assms(4) by (auto simp: committer_ok_def)
    then have "ps_canonicalHash P \<in> dom (v_wire (view_of c (content d0)))"
      using assms(4) wal_invD(1) [of "view_of c (content d0)"] by (auto simp: committer_ok_def)
    then have "v_wire (view_of c (content d0)) (ps_canonicalHash P) = Some raw" using assms(5) gr(1) by (auto simp: wires_ok_def)
    then show ?thesis using m(2) f True SignSCT_fields [OF f(1)] v by auto
  next
    case False
    then have wg: "writeGating K D (rq_writeAuth q) (ps_canonicalHash P) = Inr ()" "ps_web3Receipts P = rs" "ps_logTime P = rq_logTime q"
      "ps_authenticated P = rq_authenticated q" "ps_exchangeDID P = rq_exchangeDID q" using prepare_inv [OF P] p(1-3) by auto
    have sub: "aw_Submit ?W (ps_canonicalHash P) raw (ps_logTime P) rs (n, d) = (Inr (), n', d')" using f(2) False wg(2) p(2) by simp
    have "v_wire (view_of c (content (snd (n', d')))) (ps_canonicalHash P) = Some raw
        \<and> (\<exists>m. v_meta (view_of c (content (snd (n', d')))) (ps_canonicalHash P) = Some m \<and> (v_meta (view_of c (content (snd (n, d)))) (ps_canonicalHash P) = None \<longrightarrow> State m = StatePending))"
      by (rule submit_wal.submit_stores [OF adm_committer.adm_laws [OF assms(1)] _ gr(2,1) sub]) (simp add: assms(6))
    then show ?thesis using f(2) False wg SignSCT_fields [OF f(1)] by auto
  qed
  show ?thesis using p(1,4-8) wc SignSCT_fields [OF f(1)] last by blast
qed

lemma find_past: "find P xs = None \<Longrightarrow> find P (xs @ ys) = find P ys"
  by (induction xs) (auto split: if_splits)

text \<open>The log time of a new record is that of its first submission in the batch.\<close>

lemma submit_time:
  assumes "adm_committer B content c turns wire_of" "committer_ok c content d" "receipts_fit c rs" "wire_of h = raw"
    and "aw_Submit (committerAdmWAL B c cfg turns x) h raw t rs (n, d) = (Inr u, n', d')"
    and "v_meta (view_of c (content d)) h = None" "\<forall>s \<in> set (at_before (turns n)). s_hash s \<noteq> h"
  shows "\<exists>m. v_meta (view_of c (content d')) h = Some m \<and> State m = StatePending \<and> LogTimeMicros m = t"
proof -
  let ?s = "turnSub (turns n) h raw t rs"
  let ?b = "at_before (turns n) @ [?s] @ at_after (turns n)"
  have run: "walSubmit B c cfg (turns n) h raw t rs d = (Inr u, d')" using assms(5) by (auto simp: committerAdmWAL_def split: prod.splits)
  have "find (\<lambda>s. s_hash s = h) (at_before (turns n)) = None" using assms(7) by (simp add: find_None_iff)
  then have y: "find (\<lambda>s. s_hash s = h) ?b = Some ?s" by (simp add: find_past turnSub_def)
  have "view_of c (content d') = fold av_submit ?b (view_of c (content d))"
    by (rule wal_store.submit_view(3) [OF adm_committer.axioms(1) [OF assms(1)] run assms(2) adm_committer.turns_ok [OF assms(1)] assms(3,4)]) simp
  then show ?thesis using submits_meta [of ?b "view_of c (content d)" h] y assms(6) by (auto simp: fresh_meta_def turnSub_def)
qed

text \<open>Operations of the WAL between two requests, as long as they leave the record in place.\<close>

definition keeping :: "'db badger \<Rightarrow> ('db \<Rightarrow> kv) \<Rightarrow> 'r receipt_codec \<Rightarrow> CommitterConfig \<Rightarrow> hash \<Rightarrow> 'db \<Rightarrow> 'db \<Rightarrow> bool" where
  "keeping B content c cfg h d d' \<longleftrightarrow> wal_step B c cfg d d' \<and> v_meta (view_of c (content d')) h \<noteq> None"

lemma record_kept:
  assumes "(keeping B content c cfg h)\<^sup>*\<^sup>* d d'" "wal_store B content c" "committer_ok c content d"
    and "v_meta (view_of c (content d)) h = Some m" "State m \<noteq> StateUnknown"
  shows "committer_ok c content d' \<and> (\<exists>m'. v_meta (view_of c (content d')) h = Some m' \<and> State m' \<noteq> StateUnknown \<and> LogTimeMicros m' = LogTimeMicros m)"
  using assms(1)
proof (induction rule: rtranclp_induct)
  case base
  then show ?case using assms(3-5) by blast
next
  case (step d1 d2)
  then obtain m1 where m1: "committer_ok c content d1" "v_meta (view_of c (content d1)) h = Some m1" "State m1 \<noteq> StateUnknown" "LogTimeMicros m1 = LogTimeMicros m"
    and st: "wal_step B c cfg d1 d2" "v_meta (view_of c (content d2)) h \<noteq> None" by (auto simp: keeping_def)
  have inv: "wf_kv c (content d1)" "wal_inv (view_of c (content d1))" using m1(1) by (auto simp: committer_ok_def)
  have "committer_ok c content d2" by (rule wal_store.ok_step [OF assms(2) st(1) m1(1)])
  moreover obtain m2 where "v_meta (view_of c (content d2)) h = Some m2" "meta_next m1 m2"
    using wal_astep_meta [OF conjunct2 [OF wal_store.step_refines [OF assms(2) st(1) inv]] inv(2) m1(2)] st(2) by auto
  moreover from this(2) have "State m2 \<noteq> StateUnknown" "LogTimeMicros m2 = LogTimeMicros m"
    using m1(3,4) by (auto simp: meta_next_def legal_state_def)
  ultimately show ?case by blast
qed

text \<open>
  C13
  Submitting the same bytes again to the single endpoint, at any later time, with any write authorization and
  after any operations of the WAL that left the record in place, charges nothing, writes nothing and returns
  an SCT that differs from the first one at most in its signature (which is randomized): the log time is the
  one of the first admission.  The only other answer is a failure to sign.  This is under the conditions that
  the store does not fail, that records carry known states and positive log times, that no earlier
  submission of the same hash shares the first group commit, and that the entry again passes the checks that
  precede the probe (freshness and signatures at the new time, the stamp of an unauthenticated caller).
\<close>

theorem sct_replay_identical:
  assumes "adm_committer B content c turns wire_of" "content_addressed K wire_of" "encodable K D c" "faultless B"
    and "committer_ok c content d" "\<forall>h m. v_meta (view_of c (content d)) h = Some m \<longrightarrow> State m \<noteq> StateUnknown \<and> 0 < sint (LogTimeMicros m)"
    and "admitEntry K D F (committerAdmWAL B c cfg turns None) q (Some (MetaState B c None d)) (Some raw) t (n, d) = (Inr sct, t1, n1, d1)"
    and "0 < sint (rq_logTime q)" "\<forall>s \<in> set (at_before (turns n)). s_hash s \<noteq> sct_CanonicalHash sct"
    and "wireChecks K D q2 raw = Inr (e, rs2)" "modeB K D q2 e = Inr ()"
    and "(keeping B content c cfg (sct_CanonicalHash sct))\<^sup>*\<^sup>* d1 d2"
  shows "\<exists>out. admitEntry K D F2 (committerAdmWAL B c cfg turns None) q2 (Some (MetaState B c None d2)) (Some raw) t2 w2 = (out, t2, w2)
    \<and> (case out of Inr sct2 \<Rightarrow> sct2\<lparr>sct_Signature := sct_Signature sct\<rparr> = sct
       | Inl er \<Rightarrow> er = (ErrorClassSCTSigningFailed, 500)
           \<and> \<not> okE (dp_Sign D (rq_entropy q2 0) (dp_LedgerDID D) (dp_LogDID D) (sct_CanonicalHash sct) (sct_LogTimeMicros sct)))"
proof -
  let ?W = "committerAdmWAL B c cfg turns None"
  have wal: "wal_store B content c" by (rule adm_committer.axioms(1) [OF assms(1)])
  obtain P where P: "prepareSubmission K D q (Some (MetaState B c None d)) (Some raw) = Inr P" and fin: "finishAdmission D F ?W (rq_entropy q 0) P t (n, d) = (Inr sct, t1, n1, d1)"
    using assms(7) by (auto simp: admitEntry_def split: sum.splits)
  let ?h = "ps_canonicalHash P"
  obtain rs where p: "ps_raw P = raw" "wireChecks K D q raw = Inr (ps_entry P, rs)" "entryGates K D (ps_entry P) = Inr ()"
    "int (length raw) \<le> dp_MaxEntrySize D" "CheckEvidenceCap K (ps_entry P)" "sd_EntryIdentity K (ps_entry P) = Inr ?h" using prepare_inv [OF P] by auto
  have e: "ps_entry P = e" using wireChecks_inv(1) [OF p(2)] wireChecks_inv(1) [OF assms(10)] by simp
  note f = finish_inv [OF fin] and gr = wire_granted [OF p(2,6) assms(2,3)]
  have hash: "sct_CanonicalHash sct = ?h" "sct_LogTimeMicros sct = ps_logTime P" using SignSCT_fields [OF f(1)] by auto
  have "\<exists>m. v_meta (view_of c (content d1)) ?h = Some m \<and> State m \<noteq> StateUnknown \<and> 0 < sint (LogTimeMicros m) \<and> LogTimeMicros m = ps_logTime P
      \<and> committer_ok c content d1"
  proof (cases "ps_idempotentReplay P")
    case True
    then obtain m where m: "knownRecord (MetaState B c None d ?h) = Some m" "ps_logTime P = LogTimeMicros m" using prepare_inv [OF P] by auto
    then have "readMeta B c d ?h = Inr m" "State m \<noteq> StateUnknown" "0 < sint (LogTimeMicros m)"
      by (auto simp: knownRecord_def MetaState_def bindE_eq_Inr split: sum.splits if_splits)
    then show ?thesis using wal_store.readMeta_view [OF wal] assms(5) m(2) f(2) True by (auto simp: committer_ok_def)
  next
    case False
    then have q: "ps_web3Receipts P = rs" "ps_logTime P = rq_logTime q" "knownRecord (MetaState B c None d ?h) = None" using prepare_inv [OF P] p(2) by auto
    have "v_meta (view_of c (content d)) ?h = None"
    proof (rule ccontr)
      assume "v_meta (view_of c (content d)) ?h \<noteq> None"
      then obtain m where "v_meta (view_of c (content d)) ?h = Some m" by blast
      then show False using q(3) wal_store.readMeta_ok [OF wal assms(4), of d ?h m] assms(5,6)
        by (auto simp: knownRecord_def MetaState_def ctx_check_def committer_ok_def)
    qed
    moreover have sub: "aw_Submit ?W ?h raw (ps_logTime P) rs (n, d) = (Inr (), n1, d1)" using f(2) False q(1) p(1) by simp
    ultimately obtain m where "v_meta (view_of c (content d1)) ?h = Some m" "State m = StatePending" "LogTimeMicros m = ps_logTime P"
      using submit_time [OF assms(1,5) gr(2,1) sub _ assms(9) [unfolded hash(1)]] by blast
    moreover have "committer_ok c content (snd (n1, d1))"
      by (rule submit_wal.submit_ok [OF adm_committer.adm_laws [OF assms(1)] _ gr(2,1) sub]) (simp add: assms(5))
    ultimately show ?thesis using q(2) assms(8) by (auto simp: committer_ok_def)
  qed
  then obtain m1 where m1: "v_meta (view_of c (content d1)) ?h = Some m1" "State m1 \<noteq> StateUnknown" "0 < sint (LogTimeMicros m1)" "LogTimeMicros m1 = ps_logTime P"
    "committer_ok c content d1" by blast
  from record_kept [OF assms(12) [unfolded hash(1)] wal m1(5,1,2)] m1(3,4) obtain m where m: "v_meta (view_of c (content d2)) ?h = Some m" "State m \<noteq> StateUnknown"
    "0 < sint (LogTimeMicros m)" "LogTimeMicros m = ps_logTime P" "wf_kv c (content d2)" by (auto simp: committer_ok_def)
  have "knownRecord (MetaState B c None d2 ?h) = Some m"
    using wal_store.readMeta_ok [OF wal assms(4) m(5,1)] m(2,3) by (simp add: knownRecord_def MetaState_def ctx_check_def)
  then obtain P2 where P2: "prepareSubmission K D q2 (Some (MetaState B c None d2)) (Some raw) = Inr P2" "ps_idempotentReplay P2" "ps_canonicalHash P2 = ?h" "ps_logTime P2 = ps_logTime P"
    using p(3-6) assms(10,11) m(4) unfolding e by (auto simp: prepareSubmission_def readBody_def Let_def)
  let ?out = "mapE (\<lambda>_. (ErrorClassSCTSigningFailed, 500)) (SignSCT D (rq_entropy q2 0) ?h (ps_logTime P))"
  have "admitEntry K D F2 ?W q2 (Some (MetaState B c None d2)) (Some raw) t2 w2 = (?out, t2, w2)" using P2 by (simp add: admitEntry_def finishAdmission_def)
  moreover have "case ?out of Inr sct2 \<Rightarrow> sct2\<lparr>sct_Signature := sct_Signature sct\<rparr> = sct
       | Inl er \<Rightarrow> er = (ErrorClassSCTSigningFailed, 500)
           \<and> \<not> okE (dp_Sign D (rq_entropy q2 0) (dp_LedgerDID D) (dp_LogDID D) (sct_CanonicalHash sct) (sct_LogTimeMicros sct))"
  proof (cases "dp_Sign D (rq_entropy q2 0) (dp_LedgerDID D) (dp_LogDID D) ?h (ps_logTime P)")
    case (Inl er)
    then show ?thesis using f(1) hash by (auto simp: SignSCT_def split: if_splits)
  next
    case (Inr sg)
    then show ?thesis using f(1) by (auto simp: SignSCT_def bindE_eq_Inr split: if_splits)
  qed
  ultimately show ?thesis by blast
qed

subsection \<open>The batch path\<close>

lemma preflight_time: "preflightEntry K D (atClock q c) raw = Inr pe \<Longrightarrow> pe_logTime pe = snd (snd c)"
  by (cases c) (auto simp: preflightEntry_def atClock_def bindE_eq_Inr split: if_splits)

lemma batch_prepared:
  assumes "batchPrepare K D q clk f 0 [] bes = Inr pes"
  obtains raws where "length raws = length bes" "length pes = length bes" "distinct (map pe_canonicalHash pes)"
    "\<And>j. j < length bes \<Longrightarrow> hexDecode (be_WireBytesHex (bes ! j)) = Some (raws ! j)
      \<and> preflightEntry K D (atClock q (clk j)) (raws ! j) = Inr (pes ! j) \<and> writeGating K D (be_WriteAuthorizationB64 (bes ! j)) (pe_canonicalHash (pes ! j)) = Inr ()"
proof -
  have d: "distinct (map pe_canonicalHash [])" by simp
  from batchPrepare_inv [OF assms d] have inv: "length pes = length bes" "distinct (map pe_canonicalHash pes)"
    "\<forall>j < length bes. \<exists>raw. hexDecode (be_WireBytesHex (bes ! j)) = Some raw \<and> preflightEntry K D (atClock q (clk j)) raw = Inr (pes ! j)
       \<and> writeGating K D (be_WriteAuthorizationB64 (bes ! j)) (pe_canonicalHash (pes ! j)) = Inr ()" by auto
  let ?raws = "map (\<lambda>be. the (hexDecode (be_WireBytesHex be))) bes"
  show thesis
  proof (rule that [of ?raws])
    fix j assume j: "j < length bes"
    then obtain raw where "hexDecode (be_WireBytesHex (bes ! j)) = Some raw" "preflightEntry K D (atClock q (clk j)) raw = Inr (pes ! j)"
      "writeGating K D (be_WriteAuthorizationB64 (bes ! j)) (pe_canonicalHash (pes ! j)) = Inr ()" using inv(3) by blast
    moreover from this(1) j have "?raws ! j = raw" by simp
    ultimately show "hexDecode (be_WireBytesHex (bes ! j)) = Some (?raws ! j)
      \<and> preflightEntry K D (atClock q (clk j)) (?raws ! j) = Inr (pes ! j) \<and> writeGating K D (be_WriteAuthorizationB64 (bes ! j)) (pe_canonicalHash (pes ! j)) = Inr ()" by simp
  qed (simp_all add: inv)
qed

text \<open>
  C14
  A batch response accounts for every entry of the request in order: an accepted prefix, then a rejected
  rest.  Entry \<open>j\<close> of the request decodes to bytes that passed the preflight; when it is accepted its result
  carries index \<open>j\<close> and an SCT for the identity of those bytes at the log time read for entry \<open>j\<close>, and the
  WAL holds exactly those bytes and a record.  The hashes are distinct, the status is 202 exactly when nothing
  is rejected, and the caller was charged once, for the whole batch.
\<close>

theorem batch_outcome:
  assumes "adm_committer B content c turns wire_of" "content_addressed K wire_of" "encodable K D c" "committer_ok c content d"
    and "batchSubmit parse K D F (committerAdmWAL B c cfg turns x) q clk fetch body t (n, d) = (BatchResponse st a r res, t', n', d')"
  shows "\<exists>bs bes raws pes. body = Some bs \<and> parse (take (nat (computeEffectiveBatchPayloadCap (word_of_int (dp_MaxEntrySize D)))) bs) = Some bes
    \<and> length bes = a + r \<and> length raws = a + r \<and> length pes = a + r \<and> 0 < a \<and> length res = a + r \<and> (st = 202 \<longleftrightarrow> r = 0)
    \<and> deductCreditModeA D F (rq_authenticated q) (rq_exchangeDID q) (int (a + r)) t = (Inr (), t')
    \<and> distinct (map pe_canonicalHash pes)
    \<and> (\<forall>j < a + r. hexDecode (be_WireBytesHex (bes ! j)) = Some (raws ! j) \<and> preflightEntry K D (atClock q (clk j)) (raws ! j) = Inr (pes ! j)
         \<and> writeGating K D (be_WriteAuthorizationB64 (bes ! j)) (pe_canonicalHash (pes ! j)) = Inr ())
    \<and> (\<forall>j < a. \<exists>sct. res ! j = Accepted j sct \<and> sct_CanonicalHash sct = pe_canonicalHash (pes ! j) \<and> sct_LogTimeMicros sct = snd (snd (clk j))
         \<and> v_wire (view_of c (content d')) (pe_canonicalHash (pes ! j)) = Some (raws ! j)
         \<and> v_meta (view_of c (content d')) (pe_canonicalHash (pes ! j)) \<noteq> None)
    \<and> (\<forall>j. a \<le> j \<and> j < a + r \<longrightarrow> (\<exists>cl. res ! j = Rejected j cl))"
proof -
  let ?W = "committerAdmWAL B c cfg turns x"
  note laws = adm_committer.adm_laws [OF assms(1)]
  obtain bs bes pes scts stop where bs: "body = Some bs" "parse (take (nat (computeEffectiveBatchPayloadCap (word_of_int (dp_MaxEntrySize D)))) bs) = Some bes"
      "bes \<noteq> []" "batchPrepare K D q clk fetch 0 [] bes = Inr pes"
    and ded: "deductCreditModeA D F (rq_authenticated q) (rq_exchangeDID q) (int (length pes)) t = (Inr (), t')"
    and com: "commitLoop D ?W (rq_entropy q) pes [] (n, d) = (scts, stop, (n', d'))" and resp: "batchRespond (length pes) scts stop = BatchResponse st a r res"
    using assms(5) by (auto simp: batchSubmit_def split: option.splits if_splits sum.splits prod.splits)
  obtain raws where raws: "length raws = length bes" and each0: "\<And>j. j < length bes \<Longrightarrow> hexDecode (be_WireBytesHex (bes ! j)) = Some (raws ! j)
      \<and> preflightEntry K D (atClock q (clk j)) (raws ! j) = Inr (pes ! j) \<and> writeGating K D (be_WriteAuthorizationB64 (bes ! j)) (pe_canonicalHash (pes ! j)) = Inr ()"
    and pes: "length pes = length bes" "distinct (map pe_canonicalHash pes)"
    using batch_prepared [OF bs(4)] by metis
  have fit: "\<forall>pe \<in> set pes. receipts_fit c (pe_web3Receipts pe) \<and> wire_of (pe_canonicalHash pe) = pe_canonical pe"
  proof
    fix pe assume "pe \<in> set pes"
    then obtain j where "j < length bes" "pe = pes ! j" using pes(1) by (metis in_set_conv_nth)
    then have "preflightEntry K D (atClock q (clk j)) (raws ! j) = Inr pe" using each0 by blast
    note inv = preflight_inv [OF this]
    from wire_granted [OF inv(1,3) assms(2,3)] inv(2) show "receipts_fit c (pe_web3Receipts pe) \<and> wire_of (pe_canonicalHash pe) = pe_canonical pe" by simp
  qed
  have okd: "committer_ok c content (snd (n, d))" using assms(4) by simp
  obtain k where k: "k \<le> length pes" "length scts = k" "stop = None \<longleftrightarrow> k = length pes"
    and each: "\<And>j. j < k \<Longrightarrow> SignSCT D (rq_entropy q j) (pe_canonicalHash (pes ! j)) (pe_logTime (pes ! j)) = Inr (scts ! j)
      \<and> submit_wal.durable (\<lambda>w. view_of c (content (snd w))) wire_of (n', d') (pe_canonicalHash (pes ! j))"
    using submit_wal.commit_prefix [OF laws okd fit com] by auto
  have ar: "a = k" "r = length pes - k" "length res = length pes" "0 < k" "st = 202 \<longleftrightarrow> k = length pes"
    using resp k bs(3) pes(1) by (auto simp: batchRespond_def Let_def split: option.splits if_splits)
  have acc: "res ! j = Accepted j (scts ! j)" if "j < k" for j
    using resp that k(2) by (auto simp: batchRespond_def Let_def nth_append split: option.splits if_splits)
  have rej: "\<exists>cl. res ! j = Rejected j cl" if "k \<le> j" "j < length pes" for j
    using resp that k by (auto simp: batchRespond_def Let_def nth_append split: option.splits if_splits)
  have "\<exists>sct. res ! j = Accepted j sct \<and> sct_CanonicalHash sct = pe_canonicalHash (pes ! j) \<and> sct_LogTimeMicros sct = snd (snd (clk j))
      \<and> v_wire (view_of c (content d')) (pe_canonicalHash (pes ! j)) = Some (raws ! j)
      \<and> v_meta (view_of c (content d')) (pe_canonicalHash (pes ! j)) \<noteq> None" if "j < k" for j
  proof -
    have j: "j < length bes" using that k(1) pes(1) by simp
    then have pf: "preflightEntry K D (atClock q (clk j)) (raws ! j) = Inr (pes ! j)" using each0 by blast
    have "wire_of (pe_canonicalHash (pes ! j)) = raws ! j" using wire_granted(1) [OF preflight_inv(1,3) [OF pf] assms(2,3)] .
    then show ?thesis using each [OF that] acc [OF that] SignSCT_fields [of D _ _ _ "scts ! j"] preflight_time [OF pf]
      by (auto simp: submit_wal.durable_def [OF laws])
  qed
  then show ?thesis using bs(1,2) pes raws each0 ar ded rej k(1)
    by (intro exI [of _ bs] exI [of _ bes] exI [of _ raws] exI [of _ pes]) auto
qed

text \<open>Gates 4a to 4h refuse what any one of them refuses; burn and rotation records among it.\<close>

lemma burn_refused:
  assumes "en_DomainPayload e \<noteq> []" "sd_KindProbe K (en_DomainPayload e) \<in> {Some NetworkBurnKind, Some WitnessRotationKind}"
  shows "\<not> okE (entryGates K D e)"
proof
  assume "okE (entryGates K D e)"
  then obtain u where "entryGates K D e = Inr u" by (auto simp: okE_iff)
  then have "VerifyNetworkPayloadEntry K e = Inr ()" by (auto simp: entryGates_def bindE_eq_Inr)
  then show False using authorship_refused [OF assms] by simp
qed

lemma batch_single:
  assumes "parse (take (nat (computeEffectiveBatchPayloadCap (word_of_int (dp_MaxEntrySize D)))) bs) = Some [be]" "hexDecode (be_WireBytesHex be) = Some raw"
    and "preflightEntry K D (atClock q (clk 0)) raw = Inr pe" "writeGating K D (be_WriteAuthorizationB64 be) (pe_canonicalHash pe) = Inr ()"
    and "\<forall>f. fetch = Some f \<longrightarrow> f (pe_canonicalHash pe) = Inr None"
    and "deductCreditModeA D F (rq_authenticated q) (rq_exchangeDID q) 1 t = (Inr (), t')"
    and "aw_Submit W (pe_canonicalHash pe) raw (pe_logTime pe) (pe_web3Receipts pe) w = (Inr (), w')"
    and "SignSCT D (rq_entropy q 0) (pe_canonicalHash pe) (pe_logTime pe) = Inr sct"
  shows "batchSubmit parse K D F W q clk fetch (Some bs) t w = (BatchResponse 202 1 0 [Accepted 0 sct], t', w')"
proof -
  have "(case fetch of None \<Rightarrow> False | Some f \<Rightarrow> (case f (pe_canonicalHash pe) of Inr (Some _) \<Rightarrow> True | _ \<Rightarrow> False)) = False"
    using assms(5) by (auto split: option.splits)
  then have "batchPrepare K D q clk fetch 0 [] [be] = Inr [pe]" using assms(2-4) by simp
  then show ?thesis using assms(1,6-8) preflight_inv(2) [OF assms(3)] by (simp add: batchSubmit_def apiMaxBatchSize_def batchRespond_def)
qed

text \<open>
  Nor does the batch path consult the WAL: an entry that is stored but not yet indexed is charged again and its
  SCT carries the new time, while the record keeps the first one.
\<close>

lemma batch_resubmission:
  assumes "adm_committer B content c turns wire_of" "content_addressed K wire_of" "encodable K D c" "committer_ok c content d"
    and "parse (take (nat (computeEffectiveBatchPayloadCap (word_of_int (dp_MaxEntrySize D)))) bs) = Some [be]" "hexDecode (be_WireBytesHex be) = Some raw"
    and "preflightEntry K D (atClock q (clk 0)) raw = Inr pe" "writeGating K D (be_WriteAuthorizationB64 be) (pe_canonicalHash pe) = Inr ()"
    and "\<forall>f. fetch = Some f \<longrightarrow> f (pe_canonicalHash pe) = Inr None"
    and "deductCreditModeA D F (rq_authenticated q) (rq_exchangeDID q) 1 t = (Inr (), t')"
    and "aw_Submit (committerAdmWAL B c cfg turns x) (pe_canonicalHash pe) raw (pe_logTime pe) (pe_web3Receipts pe) (n, d) = (Inr (), n', d')"
    and "SignSCT D (rq_entropy q 0) (pe_canonicalHash pe) (pe_logTime pe) = Inr sct" "v_meta (view_of c (content d)) (pe_canonicalHash pe) = Some m"
  shows "batchSubmit parse K D F (committerAdmWAL B c cfg turns x) q clk fetch (Some bs) t (n, d) = (BatchResponse 202 1 0 [Accepted 0 sct], t', n', d')"
    "sct_LogTimeMicros sct = pe_logTime pe" "v_meta (view_of c (content d')) (pe_canonicalHash pe) = Some m"
proof -
  show "batchSubmit parse K D F (committerAdmWAL B c cfg turns x) q clk fetch (Some bs) t (n, d) = (BatchResponse 202 1 0 [Accepted 0 sct], t', n', d')"
    using assms(5-12) by (rule batch_single)
  show "sct_LogTimeMicros sct = pe_logTime pe" using SignSCT_fields [OF assms(12)] by simp
  note gr = wire_granted [OF preflight_inv(1,3) [OF assms(7)] assms(2,3)]
  have "v_meta (view_of c (content (snd (n', d')))) (pe_canonicalHash pe) = Some m"
    by (rule submit_wal.submit_keeps [OF adm_committer.adm_laws [OF assms(1)] _ gr(2,1) assms(11)]) (simp_all add: assms(4,13))
  then show "v_meta (view_of c (content d')) (pe_canonicalHash pe) = Some m" by simp
qed

text \<open>An upload token is issued only with the SCT of an admitted entry; a failed reservation does not undo the admission.\<close>

lemma artifact_reserve_admits:
  assumes "artifactReserve decode K D F W M S now q probe body t w s = (Inr (sct, tok), t', w', s')"
  shows "\<exists>raw. admitEntry K D F W q probe (Some raw) t w = (Inr sct, t', w')"
    "tok = Some v \<Longrightarrow> \<exists>g. Reserve M S now g s = (Inr v, s')"
  using assms by (auto simp: artifactReserve_def Let_def split: option.split_asm sum.split_asm prod.split_asm)

text \<open>
  C15
  The batch endpoint accepts entries that the single endpoint refuses for good: it runs none of the gates 4a to
  4h, so an entry that passes the wire checks, the write authorization and the payment gets its SCT and enters
  the WAL even if one of those gates refuses it (an unauthorized witness-endpoint declaration, an externally
  authored burn or witness rotation, a malformed rotation, a schema violation, a dangling cosignature), while
  every submission of the same bytes to the single endpoint fails.
\<close>

theorem batch_skips_gates:
  assumes "parse (take (nat (computeEffectiveBatchPayloadCap (word_of_int (dp_MaxEntrySize D)))) bs) = Some [be]" "hexDecode (be_WireBytesHex be) = Some raw"
    and "preflightEntry K D (atClock q (clk 0)) raw = Inr pe" "writeGating K D (be_WriteAuthorizationB64 be) (pe_canonicalHash pe) = Inr ()"
    and "\<forall>f. fetch = Some f \<longrightarrow> f (pe_canonicalHash pe) = Inr None"
    and "deductCreditModeA D F (rq_authenticated q) (rq_exchangeDID q) 1 t = (Inr (), t')"
    and "aw_Submit W (pe_canonicalHash pe) raw (pe_logTime pe) (pe_web3Receipts pe) w = (Inr (), w')"
    and "SignSCT D (rq_entropy q 0) (pe_canonicalHash pe) (pe_logTime pe) = Inr sct"
    and "\<not> okE (entryGates K D (pe_entry pe))"
  shows "batchSubmit parse K D F W q clk fetch (Some bs) t w = (BatchResponse 202 1 0 [Accepted 0 sct], t', w')
    \<and> (\<forall>q' probe. \<not> okE (prepareSubmission K D q' probe (Some raw)))"
proof
  show "batchSubmit parse K D F W q clk fetch (Some bs) t w = (BatchResponse 202 1 0 [Accepted 0 sct], t', w')"
    using assms(1-8) by (rule batch_single)
next
  have "\<not> okE (prepareSubmission K D q' probe (Some raw))" for q' probe
  proof
    assume "okE (prepareSubmission K D q' probe (Some raw))"
    then obtain P where P: "prepareSubmission K D q' probe (Some raw) = Inr P" by (auto simp: okE_iff)
    from prepare_inv [OF P] obtain rs where p: "wireChecks K D q' raw = Inr (ps_entry P, rs)" "entryGates K D (ps_entry P) = Inr ()" by auto
    have "ps_entry P = pe_entry pe" using wireChecks_inv(1) [OF p(1)] wireChecks_inv(1) [OF preflight_inv(1) [OF assms(3)]] by simp
    then show False using p(2) assms(9) by simp
  qed
  then show "\<forall>q' probe. \<not> okE (prepareSubmission K D q' probe (Some raw))" by blast
qed

subsection \<open>A concrete ledger\<close>

text \<open>Two entries: a plain one and a burn record, submitted by an authenticated exchange with five credits.\<close>

definition demo_wire :: "byte \<Rightarrow> bytes" where "demo_wire k = [0, 1, 0, 0, 0, 0, k]"

definition demo_entry :: "byte \<Rightarrow> unit Entry" where
  "demo_entry k = \<lparr>en_SignerDID = ''s'', en_Destination = ''log'', en_DelegateDID = None, en_AuthoritySet = [], en_AuthorityPath = None, en_TargetRoot = None,
     en_PriorAuthority = None, en_ScopePointer = None, en_CosignatureOf = None, en_EvidencePointers = [], en_AdmissionProof = None,
     en_Signatures = [\<lparr>sg_SignerDID = ''s'', sg_AlgoID = 1, sg_Bytes = [9]\<rparr>], en_DomainPayload = [k]\<rparr>"

definition demo_adm :: "(unit, bytes, unit, unit) adm_sdk" where
  "demo_adm = \<lparr>sd_CurrentProtocolVersion = 1, sd_AuthorityScopeAuthority = 3, sd_SigAlgoECDSA = 1, sd_ZeroReceipt = [],
     sd_Deserialize = \<lambda>raw. if raw = demo_wire 1 then Inr (demo_entry 1) else if raw = demo_wire 2 then Inr (demo_entry 2) else Inl ''bad'',
     sd_ValidateAlgorithmID = \<lambda>_. None, sd_Validate = \<lambda>_. None, sd_NFC = \<lambda>s. s, sd_CheckFreshness = \<lambda>_ _ _. None,
     sd_EntryIdentity = \<lambda>e. if en_DomainPayload e = [1] then Inr 101 else if en_DomainPayload e = [2] then Inr 102 else Inl [],
     sd_SigningHash = \<lambda>_. 0, sd_VerifyEntry = \<lambda>_ _ _. None, sd_VerifyEntrySignatures = \<lambda>_ _. Inr \<lparr>sr_Results = [], sr_FirstError = None, sr_Web3Receipts = []\<rparr>,
     sd_IsAttestation = \<lambda>_ _. True, sd_VerifyEvidenceChain = \<lambda>_. Inr [], sd_SchemaPeek = \<lambda>_. None,
     sd_KindProbe = \<lambda>b. if b = [2] then Some NetworkBurnKind else None, sd_DecodePayload = \<lambda>_ _. None, sd_DecodeDeclaration = \<lambda>_. Inl [],
     sd_KeyFromDID = \<lambda>_. None, sd_VerifyStamp = \<lambda>_ _ _ _ _ _ _. None, sd_Base64 = \<lambda>_. None, sd_DecodeWriteAuthorization = \<lambda>_. None,
     sd_VerifyWriteAuthorization = \<lambda>_ _ _ _. None\<rparr>"

definition demo_gates :: Gates where
  "demo_gates = \<lparr>gt_MultiSig = True, gt_CosigBinding = True, gt_EvidenceChain = False, gt_SignaturePolicy = False, gt_ModeBPoW = True,
     gt_AlgorithmPolicy = False, gt_ProtocolVersion = False\<rparr>"

definition demo_deps :: "(unit, bytes, unit, unit) SubmissionDeps" where
  "demo_deps = \<lparr>dp_Gates = demo_gates, dp_LogDID = ''log'', dp_LedgerDID = ''ledger'', dp_MaxEntrySize = 1000, dp_Freshness = 10, dp_EpochAcceptanceWindow = 1,
     dp_DIDResolver = None, dp_Verifier = Some (\<lambda>_ _ _ _. Inr []), dp_SignaturePolicy = None, dp_AlgorithmPolicy = None, dp_ProtocolVersion = None,
     dp_Difficulty = None, dp_FetchHashBySeq = None, dp_BLS = None, dp_EvidenceFetcher = False, dp_SchemaRegistry = None, dp_AuthorizedWitnesses = None,
     dp_AdmissionPolicy = None, dp_AdmissionAuthorities = None, dp_Credits = True, dp_Sign = \<lambda>k _ _ _ _. Inr [word_of_nat k]\<rparr>"

definition demo_rq :: "nat \<Rightarrow> u64 \<Rightarrow> sub_req" where
  "demo_rq i t = \<lparr>rq_authenticated = True, rq_exchangeDID = ''x'', rq_writeAuth = [], rq_now = 0, rq_epoch = 0, rq_logTime = t, rq_entropy = \<lambda>_. i\<rparr>"

definition demo_turns :: "nat \<Rightarrow> bytes adm_turn" where
  "demo_turns i = \<lparr>at_refused = None, at_now = 5, at_before = [], at_after = [], at_trace = [], at_lost = None\<rparr>"

definition demo_wire_of :: "hash \<Rightarrow> bytes" where "demo_wire_of h = (if h = 101 then demo_wire 1 else demo_wire 2)"

definition demo_purse :: "int \<Rightarrow> credit_table" where "demo_purse b = [(''x'', \<lparr>cr_balance = b, cr_consumed = 5 - b, cr_purchased = 5\<rparr>)]"

definition no_tx_fault :: tx_faults where "no_tx_fault = \<lparr>tf_begin = None, tf_stmt = None, tf_commit = None\<rparr>"

interpretation memadm: adm_committer mem_badger map_of raw_codec demo_turns demo_wire_of
  by unfold_locales (simp add: turn_ok_def demo_turns_def)

lemma demo_committer: "adm_committer mem_badger map_of raw_codec demo_turns demo_wire_of"
  by unfold_locales

lemmas demo_adm_defs = demo_adm_def demo_deps_def demo_gates_def demo_rq_def demo_turns_def

lemma demo_granted: "content_addressed demo_adm demo_wire_of" "encodable demo_adm demo_deps raw_codec"
  by (auto simp: content_addressed_def encodable_def demo_adm_defs demo_wire_of_def demo_entry_def demo_wire_def verifyEntrySignaturesGated_def
      VerifyEntryAllSignaturesWithVerifier_def split: if_splits)

lemma demo_empty_ok: "committer_ok raw_codec map_of []"
  using memw.reach_inv [OF wal_reach.start] by (auto simp: committer_ok_def)

lemma demo_checks: "k \<in> {1, 2} \<Longrightarrow> wireChecks demo_adm demo_deps (demo_rq i t) (demo_wire k) = Inr (demo_entry k, [])"
  by (auto simp: wireChecks_def demo_adm_defs demo_wire_def demo_entry_def admitProtocolVersion_def CheckNFC_def assertNFC_def verifyEntrySignaturesGated_def
      VerifyEntryAllSignaturesWithVerifier_def)

abbreviation demo_wal :: "(bytes, nat \<times> memdb) admWAL" where
  "demo_wal \<equiv> committerAdmWAL mem_badger raw_codec demo_cfg demo_turns None"

lemma demo_submit: "raw \<noteq> [] \<Longrightarrow> \<exists>d'. aw_Submit demo_wal h raw t [] (0, []) = (Inr (), 1, d')"
  by (simp add: committerAdmWAL_def walSubmit_def turnSub_def demo_turns_def run_simps)

lemma demo_deduct: "deductCreditModeA demo_deps no_tx_fault True ''x'' 1 (demo_purse 5) = (Inr (), demo_purse 4)"
  by (simp add: deductCreditModeA_def demo_deps_def Deduct_def DeductInTx_def no_tx_fault_def demo_purse_def bigint_def)

definition demo_sct :: "nat \<Rightarrow> hash \<Rightarrow> u64 \<Rightarrow> SCT" where
  "demo_sct k h t = \<lparr>sct_SignerDID = ''ledger'', sct_LogDID = ''log'', sct_CanonicalHash = h, sct_LogTimeMicros = t, sct_Signature = [word_of_nat k]\<rparr>"

lemma demo_signs: "okE (dp_Sign demo_deps k a b h t)"
  by (simp add: demo_deps_def)

lemma demo_sign: "SignSCT demo_deps k h t = Inr (demo_sct k h t)"
  by (simp add: SignSCT_def demo_deps_def demo_sct_def)

lemma demo_probe: "MetaState mem_badger raw_codec None [] h = Inl wal_error.ErrNotFound"
  by (simp add: MetaState_def ctx_check_def readMeta_def txn_get_def)

lemma demo_gates_pass: "entryGates demo_adm demo_deps (demo_entry 1) = Inr ()" "modeB demo_adm demo_deps (demo_rq i t) e = Inr ()"
  by (simp_all add: entryGates_def modeB_def demo_adm_defs demo_entry_def VerifyCosignatureBinding_def VerifyEntrySchema_def VerifyRotationEntry_def
      VerifyNetworkPayloadEntry_def AuthorizeNetworkPayloadEntry_def)

lemma demo_admit:
  "\<exists>d'. admitEntry demo_adm demo_deps no_tx_fault demo_wal (demo_rq 7 77) (Some (MetaState mem_badger raw_codec None [])) (Some (demo_wire 1)) (demo_purse 5) (0, [])
     = (Inr (demo_sct 7 101 77), demo_purse 4, 1, d')"
proof -
  have len: "length (demo_wire 1) = 7" "demo_wire 1 \<noteq> []" by (simp_all add: demo_wire_def)
  have conf: "dp_MaxEntrySize demo_deps = 1000" "dp_AdmissionPolicy demo_deps = None" by (simp_all add: demo_deps_def)
  have ident: "sd_EntryIdentity demo_adm (demo_entry 1) = Inr 101" "CheckEvidenceCap demo_adm (demo_entry 1)"
    by (simp_all add: demo_adm_def demo_entry_def CheckEvidenceCap_def MaxEvidencePointers_def)
  have rq: "rq_authenticated (demo_rq 7 77)" "rq_exchangeDID (demo_rq 7 77) = ''x''" "rq_logTime (demo_rq 7 77) = 77" "rq_entropy (demo_rq 7 77) i = 7" for i
    by (simp_all add: demo_rq_def)
  obtain d' where sub: "aw_Submit demo_wal 101 (demo_wire 1) 77 [] (0, []) = (Inr (), 1, d')" using demo_submit [OF len(2)] by blast
  show ?thesis
    by (simp add: admitEntry_def prepareSubmission_def readBody_def len conf demo_checks demo_gates_pass ident demo_probe knownRecord_def writeGating_def rq Let_def
        finishAdmission_def demo_deduct sub demo_sign)
qed

theorem sct_durable_witness:
  "\<exists>d'. admitEntry demo_adm demo_deps no_tx_fault demo_wal (demo_rq 7 77) (Some (MetaState mem_badger raw_codec None [])) (Some (demo_wire 1)) (demo_purse 5) (0, [])
      = (Inr (demo_sct 7 101 77), demo_purse 4, 1, d')
    \<and> v_wire (view_of raw_codec (map_of d')) 101 = Some (demo_wire 1)"
proof -
  obtain d' where run: "admitEntry demo_adm demo_deps no_tx_fault demo_wal (demo_rq 7 77) (Some (MetaState mem_badger raw_codec None [])) (Some (demo_wire 1)) (demo_purse 5) (0, [])
      = (Inr (demo_sct 7 101 77), demo_purse 4, 1, d')" using demo_admit by blast
  have "v_meta (view_of raw_codec (map_of [])) 101 = None" by (simp add: view_of_def)
  then show ?thesis using sct_durable [OF demo_committer demo_granted demo_empty_ok _ demo_empty_ok run] run by (auto simp: demo_sct_def wires_ok_def view_of_def)
qed

theorem sct_replay_identical_witness:
  "\<exists>d1 out. admitEntry demo_adm demo_deps no_tx_fault demo_wal (demo_rq 7 77) (Some (MetaState mem_badger raw_codec None [])) (Some (demo_wire 1)) (demo_purse 5) (0, [])
      = (Inr (demo_sct 7 101 77), demo_purse 4, 1, d1)
    \<and> admitEntry demo_adm demo_deps no_tx_fault demo_wal (demo_rq 9 99) (Some (MetaState mem_badger raw_codec None d1)) (Some (demo_wire 1)) (demo_purse 4) (1, d1)
      = (Inr out, demo_purse 4, 1, d1) \<and> out\<lparr>sct_Signature := [7]\<rparr> = demo_sct 7 101 77"
proof -
  obtain d1 where run: "admitEntry demo_adm demo_deps no_tx_fault demo_wal (demo_rq 7 77) (Some (MetaState mem_badger raw_codec None [])) (Some (demo_wire 1)) (demo_purse 5) (0, [])
      = (Inr (demo_sct 7 101 77), demo_purse 4, 1, d1)" using demo_admit by blast
  have m: "\<forall>h m. v_meta (view_of raw_codec (map_of [])) h = Some m \<longrightarrow> State m \<noteq> StateUnknown \<and> 0 < sint (LogTimeMicros m)" by (simp add: view_of_def)
  have "\<exists>out. admitEntry demo_adm demo_deps no_tx_fault demo_wal (demo_rq 9 99) (Some (MetaState mem_badger raw_codec None d1)) (Some (demo_wire 1)) (demo_purse 4) (1, d1)
      = (out, demo_purse 4, 1, d1) \<and> (case out of Inr sct2 \<Rightarrow> sct2\<lparr>sct_Signature := sct_Signature (demo_sct 7 101 77)\<rparr> = demo_sct 7 101 77
       | Inl er \<Rightarrow> er = (ErrorClassSCTSigningFailed, 500)
           \<and> \<not> okE (dp_Sign demo_deps (rq_entropy (demo_rq 9 99) 0) (dp_LedgerDID demo_deps) (dp_LogDID demo_deps) (sct_CanonicalHash (demo_sct 7 101 77)) (sct_LogTimeMicros (demo_sct 7 101 77))))"
    by (rule sct_replay_identical [OF demo_committer demo_granted mem_faultless demo_empty_ok m run _ _ demo_checks demo_gates_pass(2) rtranclp.rtrancl_refl])
      (simp_all add: demo_rq_def demo_turns_def)
  then obtain out where out: "admitEntry demo_adm demo_deps no_tx_fault demo_wal (demo_rq 9 99) (Some (MetaState mem_badger raw_codec None d1)) (Some (demo_wire 1)) (demo_purse 4) (1, d1)
      = (Inr out, demo_purse 4, 1, d1)" "out\<lparr>sct_Signature := sct_Signature (demo_sct 7 101 77)\<rparr> = demo_sct 7 101 77"
    by (elim exE conjE, case_tac out) (simp_all add: demo_signs)
  then show ?thesis using run by (auto simp: demo_sct_def)
qed

definition demo_batch :: "BatchEntry list" where
  "demo_batch = [\<lparr>be_WireBytesHex = ''00010000000002'', be_WriteAuthorizationB64 = []\<rparr>]"

lemma demo_preflight:
  "preflightEntry demo_adm demo_deps (atClock (demo_rq 0 0) (0, 0, 88)) (demo_wire 2)
     = Inr \<lparr>pe_entry = demo_entry 2, pe_canonical = demo_wire 2, pe_canonicalHash = 102, pe_logTime = 88, pe_web3Receipts = []\<rparr>"
proof -
  have "atClock (demo_rq 0 0) (0, 0, 88) = demo_rq 0 88" by (simp add: atClock_def demo_rq_def)
  moreover have "length (demo_wire 2) = 7" "dp_MaxEntrySize demo_deps = 1000" "sd_EntryIdentity demo_adm (demo_entry 2) = Inr 102" "CheckEvidenceCap demo_adm (demo_entry 2)"
    "rq_logTime (demo_rq 0 88) = 88"
    by (simp_all add: demo_wire_def demo_deps_def demo_adm_def demo_entry_def CheckEvidenceCap_def MaxEvidencePointers_def demo_rq_def)
  ultimately show ?thesis by (simp add: preflightEntry_def demo_checks demo_gates_pass)
qed

lemma demo_rq_entropy: "rq_entropy (demo_rq i t) j = i"
  by (simp add: demo_rq_def)

lemma demo_hex: "hexDecode ''00010000000002'' = Some (demo_wire 2)"
  by (simp add: hexDigit_def demo_wire_def)

lemma demo_burn:
  "writeGating demo_adm demo_deps [] 102 = Inr ()" "\<not> okE (entryGates demo_adm demo_deps (demo_entry 2))"
  "deductCreditModeA demo_deps no_tx_fault (rq_authenticated (demo_rq 0 0)) (rq_exchangeDID (demo_rq 0 0)) 1 (demo_purse 5) = (Inr (), demo_purse 4)"
proof -
  show "\<not> okE (entryGates demo_adm demo_deps (demo_entry 2))" by (rule burn_refused) (simp_all add: demo_entry_def demo_adm_def)
  show "deductCreditModeA demo_deps no_tx_fault (rq_authenticated (demo_rq 0 0)) (rq_exchangeDID (demo_rq 0 0)) 1 (demo_purse 5) = (Inr (), demo_purse 4)"
    using demo_deduct by (simp add: demo_rq_def)
qed (simp add: writeGating_def demo_deps_def)

lemmas demo_burn_batch = demo_hex demo_preflight demo_burn(1) demo_burn(3) demo_sign

theorem batch_skips_gates_witness:
  "\<exists>d'. batchSubmit (\<lambda>_. Some demo_batch) demo_adm demo_deps no_tx_fault demo_wal (demo_rq 0 0) (\<lambda>_. (0, 0, 88)) None (Some []) (demo_purse 5) (0, [])
      = (BatchResponse 202 1 0 [Accepted 0 (demo_sct 0 102 88)], demo_purse 4, 1, d')
    \<and> (\<forall>q' probe. \<not> okE (prepareSubmission demo_adm demo_deps q' probe (Some (demo_wire 2))))"
proof -
  obtain d' where sub: "aw_Submit demo_wal 102 (demo_wire 2) 88 [] (0, []) = (Inr (), 1, d')" using demo_submit [of "demo_wire 2"] by (auto simp: demo_wire_def)
  have "batchSubmit (\<lambda>_. Some demo_batch) demo_adm demo_deps no_tx_fault demo_wal (demo_rq 0 0) (\<lambda>_. (0, 0, 88)) None (Some []) (demo_purse 5) (0, [])
      = (BatchResponse 202 1 0 [Accepted 0 (demo_sct 0 102 88)], demo_purse 4, 1, d')
    \<and> (\<forall>q' probe. \<not> okE (prepareSubmission demo_adm demo_deps q' probe (Some (demo_wire 2))))"
    by (rule batch_skips_gates [where be = "\<lparr>be_WireBytesHex = ''00010000000002'', be_WriteAuthorizationB64 = []\<rparr>", OF _ _ demo_preflight]) (simp_all add: demo_batch_def demo_burn_batch demo_burn(2) demo_rq_entropy sub del: hexDecode.simps)
  then show ?thesis by blast
qed

theorem batch_outcome_witness:
  "\<exists>d'. batchSubmit (\<lambda>_. Some demo_batch) demo_adm demo_deps no_tx_fault demo_wal (demo_rq 0 0) (\<lambda>_. (0, 0, 88)) None (Some []) (demo_purse 5) (0, [])
      = (BatchResponse 202 1 0 [Accepted 0 (demo_sct 0 102 88)], demo_purse 4, 1, d')
    \<and> v_meta (view_of raw_codec (map_of d')) 102 \<noteq> None"
proof -
  obtain d' where sub: "aw_Submit demo_wal 102 (demo_wire 2) 88 [] (0, []) = (Inr (), 1, d')" using demo_submit [of "demo_wire 2"] by (auto simp: demo_wire_def)
  have run: "batchSubmit (\<lambda>_. Some demo_batch) demo_adm demo_deps no_tx_fault demo_wal (demo_rq 0 0) (\<lambda>_. (0, 0, 88)) None (Some []) (demo_purse 5) (0, [])
      = (BatchResponse 202 1 0 [Accepted 0 (demo_sct 0 102 88)], demo_purse 4, 1, d')"
    by (rule batch_single [where be = "\<lparr>be_WireBytesHex = ''00010000000002'', be_WriteAuthorizationB64 = []\<rparr>", OF _ _ demo_preflight]) (simp_all add: demo_batch_def demo_burn_batch demo_rq_entropy sub del: hexDecode.simps)
  from batch_outcome [OF demo_committer demo_granted demo_empty_ok run] obtain pes :: "(unit, bytes) preparedEntry list" where
    "\<forall>j < 1. \<exists>sct. [Accepted 0 (demo_sct 0 102 88)] ! j = Accepted j sct \<and> sct_CanonicalHash sct = pe_canonicalHash (pes ! j)
       \<and> v_meta (view_of raw_codec (map_of d')) (pe_canonicalHash (pes ! j)) \<noteq> None"
    by (elim exE conjE) meson
  then have "v_meta (view_of raw_codec (map_of d')) 102 \<noteq> None" by (auto simp: demo_sct_def)
  then show ?thesis using run by blast
qed

end
