(* ===== verification/Spec2Isabelle.thy ===== *)
theory Spec2Isabelle
  imports ShipperSpec WalLoop SeqProps BuilderProps CheckpointProps Breaker Credits ReservationProps SubmissionProps
begin

section \<open>The ledger: overview of the development\<close>

text \<open>
  \<^bold>\<open>The program.\<close>  The repository holds a transparency ledger (\<open>src/services/ledger\<close>), an auditor and
  a witness service, and the libraries and commands around them.  The development verifies the write
  path of the ledger, from an HTTP submission to a head that witnesses have cosigned, and the
  services that path relies on.

  \<^item> A submission is decoded, checked by the admission gates, charged, written to the WAL and
    answered with a signed certificate timestamp (SCT).
  \<^item> The WAL (\<open>wal/\<close>) is a BadgerDB store with a group-commit loop.  A record moves from pending
    to sequenced to shipped (or manual); a contiguous high-water mark and a retention GC follow.
  \<^item> The sequencer (\<open>sequencer/\<close>) appends pending entries to Tessera, orders the assigned numbers
    through a heap and commits contiguous batches into the entry index (\<open>store/entries.go\<close>); the
    committed entries become sequenced in the WAL.
  \<^item> The shipper (\<open>shipper/\<close>) uploads sequenced entries to the byte store and advances the mark.
  \<^item> The builder (\<open>builder/loop.go\<close>) reads the index in order and commits the sparse Merkle tree: leaves,
    root, delta buffer and cursor in one transaction, nodes to a tail, commitments to a publisher.
  \<^item> The checkpoint loop (\<open>builder/checkpoint_loop.go\<close>) emits the tiles of the committed root, collects
    cosignatures on a head, stores and publishes it; the receipt handler proves against stored heads.
  \<^item> Beside this path: the Postgres circuit breaker, write credits and pricing, artifact reservations.

  \<^bold>\<open>How code becomes definitions.\<close>  A struct is a record, an enumeration a datatype or the integer the
  code uses, \<open>uint64\<close> a \<open>64 word\<close>, \<open>[32]byte\<close> a \<open>256 word\<close>, a \<open>bigint\<close> column or an \<open>int64\<close> an
  \<open>int\<close> with its range written out where it matters.  A function that fails returns
  \<open>error + value\<close>; one that writes returns its result with the new state.  A transaction works on a
  copy: rolled back on error, and where the code must live with it, committed although the
  acknowledgement was lost.  Clock readings, random draws, the outcome of a call to the outside and the reading of
  \<open>ctx.Err()\<close> are arguments, so a statement covers all of them.  Goroutines are step relations: a
  step is one receive, one transaction, one item of a scan or one handler turn, and a theorem about reachable
  states covers every interleaving of those steps, crashes and restarts included.

  \<^bold>\<open>Code that is not in the repository\<close> is a parameter with named hypotheses:
  \<^item> BadgerDB: the record \<open>badger\<close> and the locale \<open>badger_store\<close> (reads see writes, a failed
    transaction leaves the store, iterators are sorted), interpreted on an in-memory store;
  \<^item> the SDK: receipt codec (\<open>codec_ok\<close>: round trip), entry parser and serialiser
    (\<open>encodable\<close>, \<open>parse_inj\<close>, \<open>content_addressed\<close>), SMT batch processing (\<open>tree_writes\<close>: copy on
    write) and tile builders (\<open>tile_contract\<close>: complete for a correct dirty set), delta buffer, cosignature
    collection, signature checks; signing is randomized, its randomness an argument;
  \<^item> Tessera: the number a leaf gets (\<open>tessera_answer\<close>: the log it denotes only grows), the tile
    existence probe (\<open>exists_sound\<close>) and the object stores (\<open>sync_ok\<close>);
  \<^item> Postgres: the tables are lists of rows with the keys of \<open>store/migrations\<close>; each statement may fail.
\<close>

subsection \<open>Theories and sources\<close>

text \<open>
  Shared: \<open>Prelude\<close> (machine types, the error monad, big-endian codecs with round trip and order),
  \<open>Badger\<close> (the key-value store and its laws).

  WAL, \<open>wal/\<close>: \<open>WalMeta\<close> (\<open>errors.go\<close>, \<open>keyspace.go\<close>, \<open>meta.go\<close>: keys never collide, the three
  record formats round-trip), \<open>Wal\<close> (\<open>committer.go\<close>, \<open>reader.go\<close>, \<open>gc.go\<close>, \<open>dedup.go\<close>), \<open>WalView\<close>
  (the five tables the WAL promises, and that every operation refines its transition on them),
  \<open>WalInv\<close>, \<open>WalGC\<close>, \<open>WalSpec\<close> (invariant of reachable stores, life cycle of a record, safety and
  completeness of GC), \<open>WalLoop\<close> (the group-commit goroutine as a step relation: no acknowledgement before
  durability, no loss, shutdown drains).

  Shipper, \<open>shipper/\<close>: \<open>Aimd\<close> (the concurrency limiter), \<open>Shipper\<close> (scan, workers, completion),
  \<open>ShipperHwm\<close> (the hold set of the high-water mark), \<open>ShipperSpec\<close> (all interleavings: one worker per number, exact
  inflight set, the mark passes finished entries only).

  Entry index: \<open>StoreCodec\<close> (log positions, receipt column, projections), \<open>EntryIndex\<close>,
  \<open>EntryIndexSpec\<close> (\<open>store/entries.go\<close> over the schema: batches leave no gap), \<open>RecentCache\<close>
  (\<open>store/recent_entry_cache.go\<close> and the fetcher: consistent and within both budgets).

  Sequencer, \<open>sequencer/\<close>: \<open>Heap\<close> (\<open>container/heap\<close> over the staged slice), \<open>Sequencer\<close>
  (\<open>committer.go\<close>), \<open>SeqStage1\<close> (\<open>loop.go\<close>, \<open>sequencer.go\<close>), \<open>SeqInv\<close>, \<open>SeqParity\<close>,
  \<open>SeqSpec\<close>, \<open>SeqProps\<close> (the index is an initial segment of the Tessera log in every reachable
  state, and every number the WAL offers the shipper has its row).

  Builder, \<open>builder/\<close>, \<open>store/\<close>: \<open>Cursor\<close>, \<open>SmtState\<close>, \<open>Publisher\<close>, \<open>TailStore\<close>, \<open>Builder\<close>,
  \<open>BuilderSpec\<close>, \<open>BuilderProps\<close> (root, leaves, delta rows and cursor are those of a chain of batches over the
  live entries up to the cursor, whatever fails, and so is the loop's memory, stale after a lost
  acknowledgement; with answering services the builder reaches the end of the index).

  Checkpoint: \<open>TileEmitter\<close>, \<open>TailRecovery\<close> (\<open>store/tail_recovery.go\<close> and the boot step that calls it:
  the rebuilt tail is a correct dirty set), \<open>TreeHeads\<close>, \<open>HeadSync\<close> (\<open>witnessclient/head_sync.go\<close>), \<open>Checkpoint\<close>,
  \<open>CheckpointSpec\<close>, \<open>CheckpointProps\<close> (the tail retains what the committed root needs, and a stored or
  published head has its tiles in the durable store; when receipts match the handler, and the restart where they do not).

  Admission: \<open>Admission\<close> (\<open>admission/\<close>: every gate and its status code), \<open>Submission\<close>
  (\<open>api/submission.go\<close>, \<open>batch.go\<close>, \<open>artifact_reserve.go\<close>, \<open>sct.go\<close>), \<open>SubmissionSpec\<close>,
  \<open>SubmissionProps\<close> (on the single path an SCT means checked, paid and durable; resubmission returns the
  same SCT up to the signature; what a batch response says of each entry, and the gates the batch path skips).  \<open>Credits\<close> (\<open>store/credits.go\<close>, \<open>credit/\<close>), \<open>Breaker\<close> (\<open>store/breaker.go\<close>),
  \<open>Reservation\<close>, \<open>ReservationSpec\<close>, \<open>ReservationProps\<close> (\<open>reservation/\<close>: both stores satisfy one
  contract; a committed reservation has its bytes).
\<close>

subsection \<open>Interfaces\<close>

text \<open>
  Each client is proved against a locale and the provider's model interprets it: \<open>badger_store\<close> and
  \<open>wal_store\<close> (the in-memory store), \<open>prio_queue\<close> (the slice heap), \<open>entry_cache\<close> (the recent cache),
  \<open>batch_reader\<close> (the cursor reader), \<open>seq_wal\<close>, \<open>ship_wal\<close>, \<open>hwm_register\<close> and \<open>submit_wal\<close> (four clients of
  the WAL committer, each a sublocale of its theory), \<open>lawful_store\<close> and \<open>reservation_system\<close> (both reservation
  stores).
\<close>

subsection \<open>Termination, fuel and bounds\<close>

text \<open>
  Loops over a finite input are structural.  Retention GC takes fuel: the number of index keys plus
  one is enough, because each turn removes one victim or ends.  The drain loop of the group commit
  needs one turn per buffered submission plus one.  The builder's progress statement asks for one
  turn per index row, and every turn that commits advances the cursor.  The background loops run forever by intention;
  they are step relations, and liveness is stated as the progress of a turn whose services answer.
  Counters keep their width: sequence numbers wrap as \<open>uint64\<close> does, balances have \<open>bigint\<close> range.
\<close>

subsection \<open>Simplifications\<close>

text \<open>
  The limiter computes in rationals where the code has \<open>float64\<close>, and the breaker counts errors in an
  unbounded integer where the code has \<open>int64\<close>.  A retention GC runs with no other writer between its
  transactions.  A checkpoint cycle is one step: the builder's commits fall between cycles.  Logging, tracing, metrics and the wording of error messages are left out;
  status codes and error classes are kept.  Time is a number, and a timer may fire at any step.
\<close>

subsection \<open>Not modelled\<close>

text \<open>
  The read API and server (parameter decoding, store queries and JSON around the modelled stores);
  commands, configuration and process wiring; anchoring and gossip between peers, the witness rotation and burn
  ceremonies (SDK cryptography over HTTP); the Tessera adapter and the byte stores (I/O around the
  parameters above); the archive, escrow and horizon tables of \<open>store/\<close> (row copies); the auditor and
  witness services and the shared libraries, which have stores of their own and are not on the
  write path; benchmarks, end-to-end tests and scripts.
\<close>

end
